(* ===== verification/Prelude.thy ===== *)
theory Prelude
  imports Main "HOL-Library.Word" "HOL-Library.List_Lexorder" "HOL-Library.Char_ord"
    "HOL-Library.Sublist"
begin

unbundle bit_operations_syntax

text \<open>
  Shared vocabulary of the development: Rust's \<open>Result\<close> with its question-mark operator, the
  loops that stop at the first error, unsigned machine arithmetic with its checked and
  saturating variants, little-endian byte encodings, and UTF-8 text with \<open>trim\<close> and decimal
  printing. Machine words are \<open>64 word\<close> and friends; \<open>usize\<close> is a natural number, and every
  place where the source converts or adds with a check carries that check explicitly for a
  64-bit target (\<open>usize_max = 2 ^ 64 - 1\<close>).
\<close>

named_theorems result_simps "equations that invert a successful or failed result"
named_theorems codec_simps "decode-after-encode equations"
named_theorems inv_intros "invariant preservation"

section \<open>Results\<close>

datatype ('a, 'e) result = Ok 'a | Err 'e

fun and_then :: "('a, 'e) result \<Rightarrow> ('a \<Rightarrow> ('b, 'e) result) \<Rightarrow> ('b, 'e) result" where
  "and_then (Ok a) f = f a"
| "and_then (Err e) f = Err e"

definition map_ok :: "('a \<Rightarrow> 'b) \<Rightarrow> ('a, 'e) result \<Rightarrow> ('b, 'e) result" where
  "map_ok f r = (case r of Ok a \<Rightarrow> Ok (f a) | Err e \<Rightarrow> Err e)"

definition ok_or :: "'a option \<Rightarrow> 'e \<Rightarrow> ('a, 'e) result" where
  "ok_or x e = (case x of Some a \<Rightarrow> Ok a | None \<Rightarrow> Err e)"

definition ensure :: "bool \<Rightarrow> 'e \<Rightarrow> (unit, 'e) result" where
  "ensure b e = (if b then Ok () else Err e)"

fun try_for_each :: "('a \<Rightarrow> (unit, 'e) result) \<Rightarrow> 'a list \<Rightarrow> (unit, 'e) result" where
  "try_for_each f [] = Ok ()"
| "try_for_each f (x # xs) = and_then (f x) (\<lambda>_. try_for_each f xs)"

fun try_fold :: "('s \<Rightarrow> 'a \<Rightarrow> ('s, 'e) result) \<Rightarrow> 's \<Rightarrow> 'a list \<Rightarrow> ('s, 'e) result" where
  "try_fold f s [] = Ok s"
| "try_fold f s (x # xs) = and_then (f s x) (\<lambda>s'. try_fold f s' xs)"

fun try_map :: "('a \<Rightarrow> ('b, 'e) result) \<Rightarrow> 'a list \<Rightarrow> ('b list, 'e) result" where
  "try_map f [] = Ok []"
| "try_map f (x # xs) = and_then (f x) (\<lambda>y. and_then (try_map f xs) (\<lambda>ys. Ok (y # ys)))"

lemma and_then_cong [fundef_cong]:
  "r = r' \<Longrightarrow> (\<And>a. r' = Ok a \<Longrightarrow> f a = g a) \<Longrightarrow> and_then r f = and_then r' g"
  by (cases r') auto

lemma and_then_Ok [result_simps]: "and_then r f = Ok y \<longleftrightarrow> (\<exists>x. r = Ok x \<and> f x = Ok y)"
  by (cases r) auto

lemma and_then_Err [result_simps]:
  "and_then r f = Err e \<longleftrightarrow> r = Err e \<or> (\<exists>x. r = Ok x \<and> f x = Err e)"
  by (cases r) auto

lemma and_then_Ok_right [simp]: "and_then r Ok = r"
  by (cases r) auto

lemma and_then_assoc: "and_then (and_then r f) g = and_then r (\<lambda>x. and_then (f x) g)"
  by (cases r) auto

lemma map_ok_simps [simp]: "map_ok f (Ok a) = Ok (f a)" "map_ok f (Err e) = Err e"
  by (auto simp: map_ok_def)

lemma map_ok_Ok [result_simps]: "map_ok f r = Ok y \<longleftrightarrow> (\<exists>x. r = Ok x \<and> y = f x)"
  by (cases r) auto

lemma map_ok_Err [result_simps]: "map_ok f r = Err e \<longleftrightarrow> r = Err e"
  by (cases r) auto

lemma ok_or_simps [simp]: "ok_or (Some a) e = Ok a" "ok_or None e = Err e"
  by (auto simp: ok_or_def)

lemma ok_or_Ok [result_simps]: "ok_or x e = Ok a \<longleftrightarrow> x = Some a"
  by (cases x) auto

lemma ok_or_Err [result_simps]: "ok_or x e = Err e' \<longleftrightarrow> x = None \<and> e' = e"
  by (cases x) auto

lemma ensure_simps [simp]: "ensure True e = Ok ()" "ensure False e = Err e"
  by (auto simp: ensure_def)

lemma ensure_Ok [result_simps]: "ensure b e = Ok u \<longleftrightarrow> b"
  by (auto simp: ensure_def)

lemma ensure_Err [result_simps]: "ensure b e = Err e' \<longleftrightarrow> \<not> b \<and> e' = e"
  by (auto simp: ensure_def)

lemma try_for_each_Ok [result_simps]: "try_for_each f xs = Ok u \<longleftrightarrow> (\<forall>x \<in> set xs. f x = Ok ())"
  by (induction xs) (auto simp: result_simps)

lemma try_fold_append:
  "try_fold f s (xs @ ys) = and_then (try_fold f s xs) (\<lambda>s'. try_fold f s' ys)"
  by (induction xs arbitrary: s) (auto simp: and_then_assoc)

lemma try_map_Ok [result_simps]:
  "try_map f xs = Ok ys \<longleftrightarrow> list_all2 (\<lambda>x y. f x = Ok y) xs ys"
  by (induction xs arbitrary: ys) (auto simp: result_simps list_all2_Cons1)

lemma try_map_length: "try_map f xs = Ok ys \<Longrightarrow> length ys = length xs"
  by (auto simp: result_simps list_all2_lengthD)

text \<open>A stateful operation returns its result and the state it leaves behind, also on error.\<close>

definition seq_op ::
  "('s \<Rightarrow> ('a, 'e) result \<times> 's) \<Rightarrow> ('a \<Rightarrow> 's \<Rightarrow> ('b, 'e) result \<times> 's) \<Rightarrow> 's \<Rightarrow> ('b, 'e) result \<times> 's"
where
  "seq_op m f s = (case m s of (Ok a, s') \<Rightarrow> f a s' | (Err e, s') \<Rightarrow> (Err e, s'))"

definition lift_op :: "('a, 'e) result \<Rightarrow> 's \<Rightarrow> ('a, 'e) result \<times> 's" where
  "lift_op r s = (r, s)"

lemma seq_op_lift [simp]:
  "seq_op (lift_op r) f s = (case r of Ok a \<Rightarrow> f a s | Err e \<Rightarrow> (Err e, s))"
  by (auto simp: seq_op_def lift_op_def split: result.splits)

section \<open>Machine integers\<close>

type_synonym u8 = "8 word"
type_synonym u16 = "16 word"
type_synonym u32 = "32 word"
type_synonym u64 = "64 word"
type_synonym i64 = "64 word"
type_synonym usize = nat
type_synonym bytes = "u8 list"

definition usize_max :: nat where
  "usize_max = 2 ^ 64 - 1"

definition u64_try_from :: "nat \<Rightarrow> u64 option" where
  "u64_try_from n = (if n < 2 ^ 64 then Some (of_nat n) else None)"

definition u32_try_from :: "nat \<Rightarrow> u32 option" where
  "u32_try_from n = (if n < 2 ^ 32 then Some (of_nat n) else None)"

definition usize_try_from :: "u64 \<Rightarrow> nat option" where
  "usize_try_from w = (if unat w \<le> usize_max then Some (unat w) else None)"

definition checked_add :: "'a::len word \<Rightarrow> 'a word \<Rightarrow> 'a word option" where
  "checked_add a b = (if unat a + unat b < 2 ^ LENGTH('a) then Some (a + b) else None)"

definition usize_checked_add :: "nat \<Rightarrow> nat \<Rightarrow> nat option" where
  "usize_checked_add a b = (if a + b \<le> usize_max then Some (a + b) else None)"

lemma u64_try_from_Some: "u64_try_from n = Some w \<longleftrightarrow> n < 2 ^ 64 \<and> w = of_nat n"
  by (auto simp: u64_try_from_def)

lemma u32_try_from_Some: "u32_try_from n = Some w \<longleftrightarrow> n < 2 ^ 32 \<and> w = of_nat n"
  by (auto simp: u32_try_from_def)

lemma unat_le_usize_max [simp]: "unat (w :: u64) \<le> usize_max"
  using unsigned_less [of w, where 'a = nat] by (simp add: usize_max_def)

lemma usize_try_from_eq [simp]: "usize_try_from w = Some (unat w)"
  by (simp add: usize_try_from_def)

lemma checked_add_Some:
  fixes a b :: "'a::len word"
  shows "checked_add a b = Some c \<longleftrightarrow> unat a + unat b < 2 ^ LENGTH('a) \<and> c = a + b"
  by (auto simp: checked_add_def)

lemma checked_add_unat: "checked_add a b = Some c \<Longrightarrow> unat c = unat a + unat b"
  by (auto simp: checked_add_Some unat_word_ariths)

lemma unat_of_nat_u64 [simp]: "n < 2 ^ 64 \<Longrightarrow> unat (of_nat n :: u64) = n"
  by (simp add: unat_of_nat)

lemma unat_of_nat_u32 [simp]: "n < 2 ^ 32 \<Longrightarrow> unat (of_nat n :: u32) = n"
  by (simp add: unat_of_nat)

lemma of_nat_u64_inject: "m < 2 ^ 64 \<Longrightarrow> n < 2 ^ 64 \<Longrightarrow> (of_nat m :: u64) = of_nat n \<longleftrightarrow> m = n"
  by (metis unat_of_nat_u64)

lemma of_nat_u64_less: "m < 2 ^ 64 \<Longrightarrow> n < 2 ^ 64 \<Longrightarrow> (of_nat m :: u64) < of_nat n \<longleftrightarrow> m < n"
  by (simp add: word_less_nat_alt)

lemma checked_add_of_nat:
  "m < 2 ^ 64 \<Longrightarrow> n < 2 ^ 64 \<Longrightarrow>
   checked_add (of_nat m :: u64) (of_nat n) = (if m + n < 2 ^ 64 then Some (of_nat (m + n)) else None)"
  by (simp add: checked_add_def)

lemma sint_inject: "sint (a :: 'a::len word) = sint b \<Longrightarrow> a = b"
  by (rule signed_word_eqI)

subsection \<open>Little-endian bytes\<close>

fun le_bytes :: "nat \<Rightarrow> 'a::len word \<Rightarrow> bytes" where
  "le_bytes 0 w = []"
| "le_bytes (Suc n) w = ucast w # le_bytes n (drop_bit 8 w)"

fun from_le_bytes :: "bytes \<Rightarrow> 'a::len word" where
  "from_le_bytes [] = 0"
| "from_le_bytes (b # bs) = ucast b OR push_bit 8 (from_le_bytes bs)"

abbreviation u64_le_bytes :: "u64 \<Rightarrow> bytes" where "u64_le_bytes \<equiv> le_bytes 8"
abbreviation u32_le_bytes :: "u32 \<Rightarrow> bytes" where "u32_le_bytes \<equiv> le_bytes 4"

lemma length_le_bytes [simp]: "length (le_bytes n w) = n"
  by (induction n arbitrary: w) auto

lemma from_le_bytes_le_bytes:
  fixes w :: "'a::len word"
  shows "from_le_bytes (le_bytes n w) = take_bit (8 * n) w"
proof (induction n arbitrary: w)
  case 0
  then show ?case by simp
next
  case (Suc n)
  show ?case
  proof (rule bit_word_eqI)
    fix i assume i: "i < LENGTH('a)"
    show "bit (from_le_bytes (le_bytes (Suc n) w) :: 'a word) i = bit (take_bit (8 * Suc n) w) i"
      using i by (cases "i < 8")
        (auto simp: Suc.IH bit_or_iff bit_push_bit_iff bit_ucast_iff bit_take_bit_iff
          bit_drop_bit_eq dest: bit_imp_le_length)
  qed
qed

lemma u64_le_round_trip [simp, codec_simps]: "from_le_bytes (u64_le_bytes w) = (w :: u64)"
  by (simp add: from_le_bytes_le_bytes take_bit_word_eq_self)

lemma u32_le_round_trip [simp, codec_simps]: "from_le_bytes (u32_le_bytes w) = (w :: u32)"
  by (simp add: from_le_bytes_le_bytes take_bit_word_eq_self)

lemma le_bytes_Suc_neq_Nil [simp]: "le_bytes (Suc n) w \<noteq> []"
  by simp

section \<open>Text\<close>

text \<open>
  A Rust \<open>String\<close> is a sequence of UTF-8 bytes; here it is a HOL \<open>string\<close> whose characters are
  those bytes, so \<open>length\<close> is \<open>str::len\<close> and the list order is the byte order \<open>str::cmp\<close> uses.
\<close>

definition byte_of_char :: "char \<Rightarrow> u8" where
  "byte_of_char c = of_nat (of_char c)"

definition char_of_byte :: "u8 \<Rightarrow> char" where
  "char_of_byte b = char_of (unat b)"

definition as_bytes :: "string \<Rightarrow> bytes" where
  "as_bytes s = map byte_of_char s"

definition str_of_bytes :: "bytes \<Rightarrow> string" where
  "str_of_bytes bs = map char_of_byte bs"

lemma char_of_byte_of_char [simp]: "char_of_byte (byte_of_char c) = c"
  by (simp add: char_of_byte_def byte_of_char_def unat_of_nat)

lemma unat_u8_less: "unat (b :: u8) < 256"
  using unsigned_less [of b, where 'a = nat] by simp

lemma byte_of_char_of_byte [simp]: "byte_of_char (char_of_byte b) = b"
  by (simp add: char_of_byte_def byte_of_char_def unat_u8_less)

lemma str_of_as_bytes [simp]: "str_of_bytes (as_bytes s) = s"
  by (induction s) (auto simp: str_of_bytes_def as_bytes_def)

lemma as_str_of_bytes [simp]: "as_bytes (str_of_bytes bs) = bs"
  by (induction bs) (auto simp: str_of_bytes_def as_bytes_def)

lemma length_as_bytes [simp]: "length (as_bytes s) = length s"
  by (simp add: as_bytes_def)

text \<open>The well-formed byte sequences of UTF-8, as \<open>str::from_utf8\<close> checks them.\<close>

definition utf8_cont :: "u8 \<Rightarrow> bool" where
  "utf8_cont b \<longleftrightarrow> 0x80 \<le> b \<and> b \<le> 0xBF"

fun utf8_valid :: "bytes \<Rightarrow> bool" where
  "utf8_valid [] \<longleftrightarrow> True"
| "utf8_valid (a # rest) \<longleftrightarrow>
    (if a < 0x80 then utf8_valid rest
     else case rest of
       [] \<Rightarrow> False
     | b # rest2 \<Rightarrow>
       (if 0xC2 \<le> a \<and> a \<le> 0xDF then utf8_cont b \<and> utf8_valid rest2
        else case rest2 of
          [] \<Rightarrow> False
        | c # rest3 \<Rightarrow>
          (if 0xE0 \<le> a \<and> a \<le> 0xEF then
             utf8_cont b \<and> (a = 0xE0 \<longrightarrow> 0xA0 \<le> b) \<and> (a = 0xED \<longrightarrow> b \<le> 0x9F) \<and>
             utf8_cont c \<and> utf8_valid rest3
           else case rest3 of
             [] \<Rightarrow> False
           | d # rest4 \<Rightarrow>
             0xF0 \<le> a \<and> a \<le> 0xF4 \<and> utf8_cont b \<and> (a = 0xF0 \<longrightarrow> 0x90 \<le> b) \<and>
             (a = 0xF4 \<longrightarrow> b \<le> 0x8F) \<and> utf8_cont c \<and> utf8_cont d \<and> utf8_valid rest4)))"

definition str_ok :: "string \<Rightarrow> bool" where
  "str_ok s \<longleftrightarrow> utf8_valid (as_bytes s)"

definition from_utf8 :: "bytes \<Rightarrow> string option" where
  "from_utf8 bs = (if utf8_valid bs then Some (str_of_bytes bs) else None)"

lemma from_utf8_as_bytes [simp, codec_simps]: "str_ok s \<Longrightarrow> from_utf8 (as_bytes s) = Some s"
  by (simp add: from_utf8_def str_ok_def)

lemma from_utf8_Some: "from_utf8 bs = Some s \<longleftrightarrow> utf8_valid bs \<and> s = str_of_bytes bs"
  by (auto simp: from_utf8_def)

subsection \<open>Whitespace\<close>

text \<open>The UTF-8 encodings of the characters with the Unicode property \<open>White_Space\<close>.\<close>

definition white_space :: "string list" where
  "white_space =
    [[CHR 0x09], [CHR 0x0A], [CHR 0x0B], [CHR 0x0C], [CHR 0x0D], [CHR 0x20],
     [CHR 0xC2, CHR 0x85], [CHR 0xC2, CHR 0xA0], [CHR 0xE1, CHR 0x9A, CHR 0x80],
     [CHR 0xE2, CHR 0x80, CHR 0x80], [CHR 0xE2, CHR 0x80, CHR 0x81], [CHR 0xE2, CHR 0x80, CHR 0x82],
     [CHR 0xE2, CHR 0x80, CHR 0x83], [CHR 0xE2, CHR 0x80, CHR 0x84], [CHR 0xE2, CHR 0x80, CHR 0x85],
     [CHR 0xE2, CHR 0x80, CHR 0x86], [CHR 0xE2, CHR 0x80, CHR 0x87], [CHR 0xE2, CHR 0x80, CHR 0x88],
     [CHR 0xE2, CHR 0x80, CHR 0x89], [CHR 0xE2, CHR 0x80, CHR 0x8A], [CHR 0xE2, CHR 0x80, CHR 0xA8],
     [CHR 0xE2, CHR 0x80, CHR 0xA9], [CHR 0xE2, CHR 0x80, CHR 0xAF], [CHR 0xE2, CHR 0x81, CHR 0x9F],
     [CHR 0xE3, CHR 0x80, CHR 0x80]]"

lemma white_space_nonempty: "w \<in> set white_space \<Longrightarrow> w \<noteq> []"
  by (auto simp: white_space_def)

lemma find_in_set: "find P xs = Some x \<Longrightarrow> x \<in> set xs \<and> P x"
  by (auto simp: find_Some_iff)

function trim_start :: "string \<Rightarrow> string" where
  "trim_start s =
    (case find (\<lambda>w. prefix w s) white_space of
       None \<Rightarrow> s
     | Some w \<Rightarrow> trim_start (drop (length w) s))"
  by pat_completeness auto
termination
  by (relation "measure length")
    (auto dest!: find_in_set white_space_nonempty simp: prefix_def)

function trim_end :: "string \<Rightarrow> string" where
  "trim_end s =
    (case find (\<lambda>w. suffix w s) white_space of
       None \<Rightarrow> s
     | Some w \<Rightarrow> trim_end (take (length s - length w) s))"
  by pat_completeness auto
termination
  by (relation "measure length")
    (auto dest!: find_in_set white_space_nonempty simp: suffix_def)

declare trim_start.simps [simp del] trim_end.simps [simp del]

definition trim :: "string \<Rightarrow> string" where
  "trim s = trim_end (trim_start s)"

text \<open>The check the source writes as \<open>!value.is_empty() && value.trim() == value\<close>.\<close>

definition trimmed :: "string \<Rightarrow> bool" where
  "trimmed s \<longleftrightarrow> s \<noteq> [] \<and> trim s = s"

lemma length_trim_start: "length (trim_start s) \<le> length s"
proof (induction s rule: trim_start.induct)
  case (1 s)
  then show ?case
    by (subst trim_start.simps) (auto split: option.splits intro: le_trans [OF _ diff_le_self])
qed

lemma length_trim_end: "length (trim_end s) \<le> length s"
proof (induction s rule: trim_end.induct)
  case (1 s)
  then show ?case
    by (subst trim_end.simps)
      (auto split: option.splits dest!: 1 intro: order_trans)
qed

lemma trim_start_shrinks:
  assumes "find (\<lambda>w. prefix w s) white_space = Some w"
  shows "length (trim_start s) < length s"
proof -
  from assms have "0 < length w" "length w \<le> length s"
    by (auto dest!: find_in_set white_space_nonempty simp: prefix_length_le)
  moreover have "length (trim_start s) = length (trim_start (drop (length w) s))"
    by (subst trim_start.simps) (simp add: assms)
  moreover have "length (trim_start (drop (length w) s)) \<le> length s - length w"
    using length_trim_start [of "drop (length w) s"] by simp
  ultimately show ?thesis by linarith
qed

lemma trim_end_shrinks:
  assumes "find (\<lambda>w. suffix w s) white_space = Some w"
  shows "length (trim_end s) < length s"
proof -
  from assms have "0 < length w" "length w \<le> length s"
    by (auto dest!: find_in_set white_space_nonempty simp: suffix_length_le)
  moreover have "length (trim_end s) = length (trim_end (take (length s - length w) s))"
    by (subst trim_end.simps) (simp add: assms)
  moreover have "length (trim_end (take (length s - length w) s)) \<le> length s - length w"
    using length_trim_end [of "take (length s - length w) s"] by simp
  ultimately show ?thesis by linarith
qed

lemma trim_start_fixed: "trim_start s = s \<longleftrightarrow> (\<forall>w \<in> set white_space. \<not> prefix w s)"
proof (cases "find (\<lambda>w. prefix w s) white_space")
  case None
  then show ?thesis by (simp add: trim_start.simps [of s]) (auto simp: find_None_iff)
next
  case (Some w)
  then show ?thesis using trim_start_shrinks [OF Some] by (auto dest!: find_in_set)
qed

lemma trim_end_fixed: "trim_end s = s \<longleftrightarrow> (\<forall>w \<in> set white_space. \<not> suffix w s)"
proof (cases "find (\<lambda>w. suffix w s) white_space")
  case None
  then show ?thesis by (simp add: trim_end.simps [of s]) (auto simp: find_None_iff)
next
  case (Some w)
  then show ?thesis using trim_end_shrinks [OF Some] by (auto dest!: find_in_set)
qed

lemma trim_start_full_length: "length s \<le> length (trim_start s) \<Longrightarrow> trim_start s = s"
  using trim_start_shrinks [of s] by (subst trim_start.simps) (auto split: option.splits)

lemma trim_fixed: "trim s = s \<longleftrightarrow> trim_start s = s \<and> trim_end s = s"
proof
  assume eq: "trim s = s"
  then have "length s \<le> length (trim_start s)"
    using length_trim_end [of "trim_start s"] by (simp add: trim_def)
  then have "trim_start s = s" by (rule trim_start_full_length)
  with eq show "trim_start s = s \<and> trim_end s = s" by (simp add: trim_def)
qed (simp add: trim_def)

lemma trimmed_iff:
  "trimmed s \<longleftrightarrow> s \<noteq> [] \<and> (\<forall>w \<in> set white_space. \<not> prefix w s \<and> \<not> suffix w s)"
  by (auto simp: trimmed_def trim_fixed trim_start_fixed trim_end_fixed)

lemma trimmed_code [code]:
  "trimmed s \<longleftrightarrow> s \<noteq> [] \<and> list_all (\<lambda>w. \<not> prefix w s \<and> \<not> suffix w s) white_space"
  by (simp add: trimmed_iff list_all_iff)

subsection \<open>Decimal numbers\<close>

fun show_nat :: "nat \<Rightarrow> string" where
  "show_nat n = (if n < 10 then [char_of (48 + n)] else show_nat (n div 10) @ [char_of (48 + n mod 10)])"

declare show_nat.simps [simp del]

text \<open>Different numbers are printed differently, and only with digits.\<close>

definition read_nat :: "string \<Rightarrow> nat" where
  "read_nat s = foldl (\<lambda>n c. 10 * n + (of_char c - 48)) 0 s"

lemma read_show_nat: "read_nat (show_nat n) = n"
proof (induction n rule: show_nat.induct)
  case (1 n)
  show ?case
  proof (cases "n < 10")
    case True
    then show ?thesis by (simp add: show_nat.simps [of n] read_nat_def)
  next
    case False
    then have "show_nat n = show_nat (n div 10) @ [char_of (48 + n mod 10)]" by (simp add: show_nat.simps [of n])
    then have "read_nat (show_nat n) = 10 * read_nat (show_nat (n div 10)) + n mod 10" by (simp add: read_nat_def)
    with 1 False show ?thesis by simp
  qed
qed

lemma show_nat_inject [simp]: "show_nat m = show_nat n \<longleftrightarrow> m = n"
  by (metis read_show_nat)

lemma show_nat_chars: "c \<in> set (show_nat n) \<Longrightarrow> 48 \<le> (of_char c :: nat) \<and> (of_char c :: nat) < 58"
proof (induction n rule: show_nat.induct)
  case (1 n)
  then show ?case by (cases "n < 10") (auto simp: show_nat.simps [of n])
qed

definition show_u64 :: "u64 \<Rightarrow> string" where
  "show_u64 w = show_nat (unat w)"

end
