(* ===== verification/Ordered_Map.thy ===== *)
theory Ordered_Map
  imports Prelude
begin

text \<open>
  Key-value containers. The locale \<open>key_index\<close> states what the code relies on when it inserts
  into a map and asks whether a previous value was there; \<open>BTreeMap\<close> is modelled as an
  association list with strictly increasing keys, so that iteration order is the list order, and
  is an interpretation of the locale. The hashed identifier index is another one.
\<close>

section \<open>The contract of a map with \<open>insert\<close> returning the previous value\<close>

text \<open>The index lists exactly the given keys, each at its position.\<close>

definition lists_keys :: "('m \<Rightarrow> 'k \<Rightarrow> nat option) \<Rightarrow> 'm \<Rightarrow> 'k list \<Rightarrow> bool" where
  "lists_keys look m ks \<longleftrightarrow> (\<forall>k i. look m k = Some i \<longleftrightarrow> i < length ks \<and> ks ! i = k)"

lemma lists_keys_distinct: "lists_keys look m ks \<Longrightarrow> distinct ks"
  by (auto simp: lists_keys_def distinct_conv_nth) (metis option.inject)

lemma lists_keys_get: "lists_keys look m ks \<Longrightarrow> i < length ks \<Longrightarrow> look m (ks ! i) = Some i"
  by (auto simp: lists_keys_def)

lemma lists_keys_Some:
  "lists_keys look m ks \<Longrightarrow> look m k = Some i \<Longrightarrow> i < length ks \<and> ks ! i = k"
  by (auto simp: lists_keys_def)

lemma lists_keys_None:
  assumes "lists_keys look m ks"
  shows "look m k = None \<longleftrightarrow> k \<notin> set ks"
proof -
  have "(\<exists>i. look m k = Some i) \<longleftrightarrow> k \<in> set ks"
    using assms unfolding lists_keys_def in_set_conv_nth by blast
  then show ?thesis by auto
qed

locale key_index =
  fixes empty :: 'm
    and look :: "'m \<Rightarrow> 'k \<Rightarrow> 'v option"
    and put :: "'m \<Rightarrow> 'k \<Rightarrow> 'v \<Rightarrow> 'm \<times> 'v option"
    and invar :: "'m \<Rightarrow> bool"
  assumes invar_empty: "invar empty"
    and look_empty: "look empty k = None"
    and invar_put: "invar m \<Longrightarrow> invar (fst (put m k v))"
    and look_put: "invar m \<Longrightarrow> look (fst (put m k v)) j = (if j = k then Some v else look m j)"
    and put_prior: "invar m \<Longrightarrow> snd (put m k v) = look m k"
begin

lemma put_new_iff: "invar m \<Longrightarrow> snd (put m k v) = None \<longleftrightarrow> look m k = None"
  by (simp add: put_prior)

lemma put_same: "invar m \<Longrightarrow> look (fst (put m k v)) k = Some v"
  by (simp add: look_put)

lemma put_other: "invar m \<Longrightarrow> j \<noteq> k \<Longrightarrow> look (fst (put m k v)) j = look m j"
  by (simp add: look_put)

end

locale position_index = key_index empty look put invar
  for empty :: 'm and look :: "'m \<Rightarrow> 'k \<Rightarrow> nat option"
    and put :: "'m \<Rightarrow> 'k \<Rightarrow> nat \<Rightarrow> 'm \<times> nat option" and invar :: "'m \<Rightarrow> bool"
begin

lemma lists_empty: "lists_keys look empty []"
  by (simp add: lists_keys_def look_empty)

lemma lists_put:
  assumes "invar m" "lists_keys look m ks" "k \<notin> set ks"
  shows "lists_keys look (fst (put m k (length ks))) (ks @ [k])"
  unfolding lists_keys_def
proof (intro allI)
  fix j i
  show "look (fst (put m k (length ks))) j = Some i \<longleftrightarrow> i < length (ks @ [k]) \<and> (ks @ [k]) ! i = j"
    using assms
    by (cases "j = k") (auto simp: look_put lists_keys_def nth_append less_Suc_eq in_set_conv_nth)
qed

end

section \<open>BTreeMap\<close>

type_synonym ('k, 'v) btree_map = "('k \<times> 'v) list"

fun bt_insert :: "('k::linorder, 'v) btree_map \<Rightarrow> 'k \<Rightarrow> 'v \<Rightarrow> ('k, 'v) btree_map" where
  "bt_insert [] k v = [(k, v)]"
| "bt_insert ((a, b) # m) k v =
    (if k < a then (k, v) # (a, b) # m
     else if k = a then (k, v) # m
     else (a, b) # bt_insert m k v)"

definition bt_get :: "('k, 'v) btree_map \<Rightarrow> 'k \<Rightarrow> 'v option" where
  "bt_get m k = map_of m k"

definition bt_put :: "('k::linorder, 'v) btree_map \<Rightarrow> 'k \<Rightarrow> 'v \<Rightarrow> ('k, 'v) btree_map \<times> 'v option" where
  "bt_put m k v = (bt_insert m k v, bt_get m k)"

definition bt_ok :: "('k::linorder, 'v) btree_map \<Rightarrow> bool" where
  "bt_ok m \<longleftrightarrow> sorted_wrt (<) (map fst m)"

lemma set_keys_bt_insert: "fst ` set (bt_insert m k v) = insert k (fst ` set m)"
  by (induction m k v rule: bt_insert.induct) auto

lemma bt_get_insert [simp]: "bt_get (bt_insert m k v) j = (if j = k then Some v else bt_get m j)"
  by (induction m k v rule: bt_insert.induct) (auto simp: bt_get_def)

lemma ball_keys_bt_insert:
  "(\<forall>x \<in> set (bt_insert m k v). P (fst x)) \<longleftrightarrow> P k \<and> (\<forall>x \<in> set m. P (fst x))"
  by (induction m k v rule: bt_insert.induct) auto

lemma bt_ok_Cons: "bt_ok ((a, b) # m) \<longleftrightarrow> bt_ok m \<and> (\<forall>x \<in> set m. a < fst x)"
  by (auto simp: bt_ok_def)

lemma bt_ok_insert [simp, inv_intros]: "bt_ok m \<Longrightarrow> bt_ok (bt_insert m k v)"
proof (induction m k v rule: bt_insert.induct)
  case (2 a b m k v)
  then have "bt_ok m" "\<forall>x \<in> set m. a < fst x"
    by (auto simp: bt_ok_Cons)
  with 2 show ?case
    by (cases k a rule: linorder_cases)
      (auto simp: bt_ok_Cons ball_keys_bt_insert [where P = "(<) a"])
qed (simp add: bt_ok_def)

lemma bt_ok_Nil [simp]: "bt_ok []"
  by (simp add: bt_ok_def)

lemma bt_get_Nil [simp]: "bt_get [] k = None"
  by (simp add: bt_get_def)

text \<open>Re-inserting entries in ascending order, as a decoder does, appends them.\<close>

lemma bt_insert_last: "bt_ok (m @ [(k, v)]) \<Longrightarrow> bt_insert m k v = m @ [(k, v)]"
proof (induction m)
  case (Cons p m)
  obtain a b where p: "p = (a, b)" by force
  from Cons.prems have "a < k" and "bt_ok (m @ [(k, v)])"
    by (auto simp: p bt_ok_def)
  with Cons.IH show ?case by (auto simp: p)
qed simp

lemma bt_get_fresh: "bt_ok (m @ [(k, v)]) \<Longrightarrow> bt_get m k = None"
  by (auto simp: bt_get_def map_of_eq_None_iff bt_ok_def sorted_wrt_append)

lemma bt_ok_append_left: "bt_ok (m @ m') \<Longrightarrow> bt_ok m"
  by (auto simp: bt_ok_def sorted_wrt_append)

lemma bt_ok_distinct: "bt_ok m \<Longrightarrow> distinct (map fst m)"
  by (simp add: bt_ok_def strict_sorted_iff)

lemma bt_get_in: "bt_ok m \<Longrightarrow> bt_get m k = Some v \<longleftrightarrow> (k, v) \<in> set m"
  by (simp add: bt_get_def bt_ok_distinct)

interpretation bt: key_index "[]" bt_get "bt_put :: ('k::linorder, 'v) btree_map \<Rightarrow> _" bt_ok
  by unfold_locales (auto simp: bt_put_def)

end
