(* ===== verification/Memory_Types.thy ===== *)
theory Memory_Types
  imports Ordered_Map
begin

text \<open>
  The vocabulary every layer shares: \<open>src/src/error.rs\<close> (the error type), \<open>src/src/id.rs\<close> (text
  identifiers), \<open>src/src/time.rs\<close> (timestamps) and \<open>src/src/event.rs\<close> (uncommitted and committed
  event envelopes).
\<close>

section \<open>Errors\<close>

datatype memory_error =
    InvalidId string string
  | InvalidValue string string
  | VersionConflict string "u64 option" "u64 option"
  | DuplicateEvent string
  | InvalidReplay string
  | MissingEntity string
  | MissingFact string
  | ConflictingFact string
  | BudgetTooSmall usize usize
  | CapacityOverflow
  | IoError string string
  | CodecError string
  | CorruptLog u64 string
  | ExternalModification
  | RetrievalFailed string string
  | ExtractionFailed string string
  | GraphError string

type_synonym 'a memory_result = "('a, memory_error) result"

text \<open>
  \<open>Display\<close>: \<open>debug\<close> is the quoted form of a string that the format \<open>{:?}\<close> prints, whose escapes
  depend on the Unicode tables of the standard library.
\<close>

definition debug_u64_option :: "u64 option \<Rightarrow> string" where
  "debug_u64_option x = (case x of None \<Rightarrow> ''None'' | Some n \<Rightarrow> ''Some('' @ show_u64 n @ '')'')"

fun error_text :: "(string \<Rightarrow> string) \<Rightarrow> memory_error \<Rightarrow> string" where
  "error_text debug (InvalidId kind v) = ''invalid '' @ kind @ '' identifier: '' @ debug v"
| "error_text debug (InvalidValue field reason) = ''invalid '' @ field @ '': '' @ reason"
| "error_text debug (VersionConflict stream expected actual) =
    ''version conflict for '' @ stream @ '': expected '' @ debug_u64_option expected @ '', actual '' @ debug_u64_option actual"
| "error_text debug (DuplicateEvent i) = ''duplicate event identifier: '' @ i"
| "error_text debug (InvalidReplay reason) = ''invalid replay: '' @ reason"
| "error_text debug (MissingEntity i) = ''missing memory entity: '' @ i"
| "error_text debug (MissingFact i) = ''missing memory fact: '' @ i"
| "error_text debug (ConflictingFact i) = ''conflicting memory fact: '' @ i"
| "error_text debug (BudgetTooSmall required available) =
    ''context budget needs '' @ show_nat required @ '' tokens but only '' @ show_nat available @ '' are available''"
| "error_text debug CapacityOverflow = ''event store capacity exceeded''"
| "error_text debug (IoError operation message) = ''I/O error during '' @ operation @ '': '' @ message"
| "error_text debug (CodecError message) = ''codec failed: '' @ message"
| "error_text debug (CorruptLog offset reason) = ''corrupt event log at byte '' @ show_u64 offset @ '': '' @ reason"
| "error_text debug ExternalModification = ''event log was modified by another writer''"
| "error_text debug (RetrievalFailed provider message) = ''retrieval provider '' @ provider @ '' failed: '' @ message"
| "error_text debug (ExtractionFailed provider message) = ''extraction provider '' @ provider @ '' failed: '' @ message"
| "error_text debug (GraphError reason) = ''graph projection failed: '' @ reason"

section \<open>Identifiers\<close>

text \<open>
  The macro \<open>text_id!\<close> produces one newtype per kind with the same body; the phantom parameter
  keeps the kinds apart and the kind literal is an argument of \<open>new\<close>.
\<close>

datatype 'k text_id = TextId (as_str: string)

datatype event_kind = EventKind
datatype stream_kind = StreamKind
datatype entity_kind = EntityKind
datatype fact_kind = FactKind
datatype agent_kind = AgentKind
datatype session_kind = SessionKind

type_synonym event_id = "event_kind text_id"
type_synonym stream_id = "stream_kind text_id"
type_synonym entity_id = "entity_kind text_id"
type_synonym fact_id = "fact_kind text_id"
type_synonym agent_id = "agent_kind text_id"
type_synonym session_id = "session_kind text_id"

definition text_id_new :: "string \<Rightarrow> string \<Rightarrow> 'k text_id memory_result" where
  "text_id_new kind value =
    (if value = [] \<or> trim value \<noteq> value then Err (InvalidId kind value) else Ok (TextId value))"

definition text_id_ok :: "'k text_id \<Rightarrow> bool" where
  "text_id_ok i \<longleftrightarrow> trimmed (as_str i) \<and> str_ok (as_str i)"

lemma text_id_new_Ok [result_simps]:
  "text_id_new kind v = Ok i \<longleftrightarrow> trimmed v \<and> i = TextId v"
  by (auto simp: text_id_new_def trimmed_def)

lemma text_id_new_as_str [simp, codec_simps]: "text_id_ok i \<Longrightarrow> text_id_new kind (as_str i) = Ok i"
  by (cases i) (auto simp: text_id_ok_def result_simps)

instantiation text_id :: (type) linorder
begin

definition less_eq_text_id :: "'a text_id \<Rightarrow> 'a text_id \<Rightarrow> bool" where
  "less_eq_text_id a b \<longleftrightarrow> as_str a \<le> as_str b"

definition less_text_id :: "'a text_id \<Rightarrow> 'a text_id \<Rightarrow> bool" where
  "less_text_id a b \<longleftrightarrow> as_str a < as_str b"

instance
  by standard (auto simp: less_eq_text_id_def less_text_id_def intro: text_id.expand)

end

section \<open>Timestamps\<close>

text \<open>Unix microseconds in an \<open>i64\<close>; the derived order compares the signed values.\<close>

datatype timestamp = Timestamp (as_unix_micros: i64)

instantiation timestamp :: linorder
begin

definition less_eq_timestamp :: "timestamp \<Rightarrow> timestamp \<Rightarrow> bool" where
  "less_eq_timestamp a b \<longleftrightarrow> sint (as_unix_micros a) \<le> sint (as_unix_micros b)"

definition less_timestamp :: "timestamp \<Rightarrow> timestamp \<Rightarrow> bool" where
  "less_timestamp a b \<longleftrightarrow> sint (as_unix_micros a) < sint (as_unix_micros b)"

instance
  by standard (auto simp: less_eq_timestamp_def less_timestamp_def
      intro!: timestamp.expand dest: sint_inject)

end

lemma timestamp_le_simps [simp]:
  "Timestamp a \<le> Timestamp b \<longleftrightarrow> sint a \<le> sint b"
  "Timestamp a < Timestamp b \<longleftrightarrow> sint a < sint b"
  by (auto simp: less_eq_timestamp_def less_timestamp_def)

section \<open>Event envelopes\<close>

record 'e new_event =
  ne_id :: event_id
  ne_event_type :: string
  ne_occurred_at :: timestamp
  ne_recorded_at :: timestamp
  ne_agent_id :: agent_id
  ne_session_id :: session_id
  ne_correlation_id :: "event_id option"
  ne_causation_id :: "event_id option"
  ne_payload :: 'e

record event_metadata =
  em_id :: event_id
  em_stream_id :: stream_id
  em_stream_version :: u64
  em_global_position :: u64
  em_event_type :: string
  em_occurred_at :: timestamp
  em_recorded_at :: timestamp
  em_agent_id :: agent_id
  em_session_id :: session_id
  em_correlation_id :: "event_id option"
  em_causation_id :: "event_id option"

record 'e stored_event =
  se_metadata :: event_metadata
  se_payload :: 'e

definition must_be_trimmed :: string where
  "must_be_trimmed = ''must be non-empty without surrounding whitespace''"

definition new_event_new ::
  "event_id \<Rightarrow> string \<Rightarrow> timestamp \<Rightarrow> timestamp \<Rightarrow> agent_id \<Rightarrow> session_id \<Rightarrow> 'e \<Rightarrow> 'e new_event memory_result"
where
  "new_event_new i event_type occurred_at recorded_at agent session payload =
    (if event_type = [] \<or> trim event_type \<noteq> event_type
     then Err (InvalidValue ''event_type'' must_be_trimmed)
     else if occurred_at > recorded_at
     then Err (InvalidValue ''occurred_at'' ''must not be later than recorded_at'')
     else Ok \<lparr> ne_id = i, ne_event_type = event_type, ne_occurred_at = occurred_at,
               ne_recorded_at = recorded_at, ne_agent_id = agent, ne_session_id = session,
               ne_correlation_id = None, ne_causation_id = None, ne_payload = payload \<rparr>)"

definition correlated_with :: "'e new_event \<Rightarrow> event_id \<Rightarrow> 'e new_event" where
  "correlated_with e i = e\<lparr>ne_correlation_id := Some i\<rparr>"

definition caused_by :: "'e new_event \<Rightarrow> event_id \<Rightarrow> 'e new_event" where
  "caused_by e i = e\<lparr>ne_causation_id := Some i\<rparr>"

abbreviation event_id_of :: "'e stored_event \<Rightarrow> event_id" where
  "event_id_of e \<equiv> em_id (se_metadata e)"

abbreviation stream_of :: "'e stored_event \<Rightarrow> stream_id" where
  "stream_of e \<equiv> em_stream_id (se_metadata e)"

abbreviation version_of :: "'e stored_event \<Rightarrow> u64" where
  "version_of e \<equiv> em_stream_version (se_metadata e)"

abbreviation position_of :: "'e stored_event \<Rightarrow> u64" where
  "position_of e \<equiv> em_global_position (se_metadata e)"

text \<open>An event built by the constructor, with correlation and causation added afterwards.\<close>

definition new_event_ok :: "'e new_event \<Rightarrow> bool" where
  "new_event_ok e \<longleftrightarrow> trimmed (ne_event_type e) \<and> ne_occurred_at e \<le> ne_recorded_at e"

lemma new_event_new_ok: "new_event_new i t o' r a s p = Ok e \<Longrightarrow> new_event_ok e"
  by (auto simp: new_event_new_def new_event_ok_def trimmed_def split: if_splits)

end
