(* ===== verification/Domain.thy ===== *)
theory Domain
  imports Memory_Types
begin

text \<open>
  The temporal model of \<open>src/src/domain\<close>: confidence and evidence, memory nodes, memory facts, the
  three memory events and temporal views, each with its constructors, builders and validation.
\<close>

section \<open>Text validation (\<open>domain/mod.rs\<close>)\<close>

definition validate_text :: "string \<Rightarrow> string \<Rightarrow> unit memory_result" where
  "validate_text field value =
    (if value = [] \<or> trim value \<noteq> value then Err (InvalidValue field must_be_trimmed) else Ok ())"

definition validate_optional_text :: "string \<Rightarrow> string option \<Rightarrow> unit memory_result" where
  "validate_optional_text field value =
    (case value of None \<Rightarrow> Ok () | Some v \<Rightarrow> validate_text field v)"

lemma validate_text_Ok [result_simps]: "validate_text field v = Ok u \<longleftrightarrow> trimmed v"
  by (auto simp: validate_text_def trimmed_def)

lemma validate_optional_text_Ok [result_simps]:
  "validate_optional_text field v = Ok u \<longleftrightarrow> (\<forall>s. v = Some s \<longrightarrow> trimmed s)"
  by (auto simp: validate_optional_text_def result_simps split: option.splits)

section \<open>Confidence and evidence (\<open>domain/evidence.rs\<close>)\<close>

datatype confidence = Confidence (basis_points: u16)

instantiation confidence :: linorder
begin

definition less_eq_confidence :: "confidence \<Rightarrow> confidence \<Rightarrow> bool" where
  "less_eq_confidence a b \<longleftrightarrow> basis_points a \<le> basis_points b"

definition less_confidence :: "confidence \<Rightarrow> confidence \<Rightarrow> bool" where
  "less_confidence a b \<longleftrightarrow> basis_points a < basis_points b"

instance
  by standard (auto simp: less_eq_confidence_def less_confidence_def intro: confidence.expand)

end

definition certain :: confidence where
  "certain = Confidence 10000"

definition from_basis_points :: "u16 \<Rightarrow> confidence memory_result" where
  "from_basis_points value =
    (if value > 10000
     then Err (InvalidValue ''confidence'' ''must be between 0 and 10,000 basis points'')
     else Ok (Confidence value))"

definition confidence_ok :: "confidence \<Rightarrow> bool" where
  "confidence_ok c \<longleftrightarrow> basis_points c \<le> 10000"

lemma from_basis_points_Ok [result_simps]:
  "from_basis_points v = Ok c \<longleftrightarrow> v \<le> 10000 \<and> c = Confidence v"
  by (auto simp: from_basis_points_def)

lemma from_basis_points_ok [simp, codec_simps]:
  "confidence_ok c \<Longrightarrow> from_basis_points (basis_points c) = Ok c"
  by (cases c) (auto simp: confidence_ok_def result_simps)

record evidence =
  ev_kind :: string
  ev_source :: string
  ev_locator :: "string option"
  ev_digest :: "string option"

definition evidence_validate :: "evidence \<Rightarrow> unit memory_result" where
  "evidence_validate e =
    and_then (validate_text ''evidence.kind'' (ev_kind e)) (\<lambda>_.
    and_then (validate_text ''evidence.source'' (ev_source e)) (\<lambda>_.
    and_then (validate_optional_text ''evidence.locator'' (ev_locator e)) (\<lambda>_.
      validate_optional_text ''evidence.digest'' (ev_digest e))))"

definition evidence_new :: "string \<Rightarrow> string \<Rightarrow> evidence memory_result" where
  "evidence_new kind source =
    (let e = \<lparr> ev_kind = kind, ev_source = source, ev_locator = None, ev_digest = None \<rparr>
     in and_then (evidence_validate e) (\<lambda>_. Ok e))"

definition evidence_with_locator :: "evidence \<Rightarrow> string \<Rightarrow> evidence" where
  "evidence_with_locator e l = e\<lparr>ev_locator := Some l\<rparr>"

definition evidence_with_digest :: "evidence \<Rightarrow> string \<Rightarrow> evidence" where
  "evidence_with_digest e d = e\<lparr>ev_digest := Some d\<rparr>"

definition evidence_ok :: "evidence \<Rightarrow> bool" where
  "evidence_ok e \<longleftrightarrow> trimmed (ev_kind e) \<and> trimmed (ev_source e) \<and>
    (\<forall>l. ev_locator e = Some l \<longrightarrow> trimmed l) \<and> (\<forall>d. ev_digest e = Some d \<longrightarrow> trimmed d)"

lemma evidence_validate_Ok [result_simps]: "evidence_validate e = Ok u \<longleftrightarrow> evidence_ok e"
  by (auto simp: evidence_validate_def evidence_ok_def result_simps)

section \<open>Nodes (\<open>domain/node.rs\<close>)\<close>

record memory_node =
  mn_id :: entity_id
  mn_kind :: string
  mn_label :: string
  mn_repository :: "string option"
  mn_branch :: "string option"
  mn_attributes :: "(string, string) btree_map"

definition node_validate :: "memory_node \<Rightarrow> unit memory_result" where
  "node_validate n =
    and_then (validate_text ''node.kind'' (mn_kind n)) (\<lambda>_.
    and_then (if mn_label n = [] then Err (InvalidValue ''node.label'' ''must be non-empty'') else Ok ()) (\<lambda>_.
    and_then (validate_optional_text ''node.repository'' (mn_repository n)) (\<lambda>_.
    and_then (validate_optional_text ''node.branch'' (mn_branch n)) (\<lambda>_.
      try_for_each (\<lambda>key. validate_text ''node.attribute.key'' key) (map fst (mn_attributes n))))))"

definition node_new :: "entity_id \<Rightarrow> string \<Rightarrow> string \<Rightarrow> memory_node memory_result" where
  "node_new i kind label =
    (let n = \<lparr> mn_id = i, mn_kind = kind, mn_label = label, mn_repository = None,
               mn_branch = None, mn_attributes = [] \<rparr>
     in and_then (node_validate n) (\<lambda>_. Ok n))"

definition node_in_repository :: "memory_node \<Rightarrow> string \<Rightarrow> memory_node" where
  "node_in_repository n r = n\<lparr>mn_repository := Some r\<rparr>"

definition node_on_branch :: "memory_node \<Rightarrow> string \<Rightarrow> memory_node" where
  "node_on_branch n b = n\<lparr>mn_branch := Some b\<rparr>"

definition node_with_attribute :: "memory_node \<Rightarrow> string \<Rightarrow> string \<Rightarrow> memory_node" where
  "node_with_attribute n k v = n\<lparr>mn_attributes := bt_insert (mn_attributes n) k v\<rparr>"

definition node_ok :: "memory_node \<Rightarrow> bool" where
  "node_ok n \<longleftrightarrow> trimmed (mn_kind n) \<and> mn_label n \<noteq> [] \<and>
    (\<forall>r. mn_repository n = Some r \<longrightarrow> trimmed r) \<and> (\<forall>b. mn_branch n = Some b \<longrightarrow> trimmed b) \<and>
    (\<forall>k \<in> fst ` set (mn_attributes n). trimmed k)"

lemma node_validate_Ok [result_simps]: "node_validate n = Ok u \<longleftrightarrow> node_ok n"
  by (auto simp: node_validate_def node_ok_def result_simps split: if_splits)

section \<open>Facts (\<open>domain/fact.rs\<close>)\<close>

record memory_fact =
  mf_id :: fact_id
  mf_source :: entity_id
  mf_relation :: string
  mf_target :: entity_id
  mf_valid_from :: timestamp
  mf_valid_until :: "timestamp option"
  mf_observed_at :: timestamp
  mf_recorded_at :: timestamp
  mf_agent_id :: agent_id
  mf_session_id :: session_id
  mf_confidence :: confidence
  mf_evidence :: "evidence list"
  mf_supersedes :: "fact_id option"

definition fact_validate :: "memory_fact \<Rightarrow> unit memory_result" where
  "fact_validate f =
    and_then (validate_text ''fact.relation'' (mf_relation f)) (\<lambda>_.
      if mf_observed_at f > mf_recorded_at f
      then Err (InvalidValue ''fact.observed_at'' ''must not be later than recorded_at'')
      else if (case mf_valid_until f of Some u \<Rightarrow> u \<le> mf_valid_from f | None \<Rightarrow> False)
      then Err (InvalidValue ''fact.valid_until'' ''must be later than valid_from'')
      else if mf_evidence f = []
      then Err (InvalidValue ''fact.evidence'' ''at least one evidence item is required'')
      else try_for_each evidence_validate (mf_evidence f))"

definition fact_new ::
  "fact_id \<Rightarrow> entity_id \<Rightarrow> string \<Rightarrow> entity_id \<Rightarrow> timestamp \<Rightarrow> timestamp \<Rightarrow> agent_id \<Rightarrow> session_id \<Rightarrow>
   evidence \<Rightarrow> memory_fact memory_result"
where
  "fact_new i source relation target valid_from recorded_at agent session e =
    (let f = \<lparr> mf_id = i, mf_source = source, mf_relation = relation, mf_target = target,
               mf_valid_from = valid_from, mf_valid_until = None, mf_observed_at = recorded_at,
               mf_recorded_at = recorded_at, mf_agent_id = agent, mf_session_id = session,
               mf_confidence = certain, mf_evidence = [e], mf_supersedes = None \<rparr>
     in and_then (fact_validate f) (\<lambda>_. Ok f))"

definition fact_valid_until :: "memory_fact \<Rightarrow> timestamp \<Rightarrow> memory_fact memory_result" where
  "fact_valid_until f value =
    (let f' = f\<lparr>mf_valid_until := Some value\<rparr> in and_then (fact_validate f') (\<lambda>_. Ok f'))"

definition fact_observed_at :: "memory_fact \<Rightarrow> timestamp \<Rightarrow> memory_fact" where
  "fact_observed_at f t = f\<lparr>mf_observed_at := t\<rparr>"

definition fact_with_confidence :: "memory_fact \<Rightarrow> confidence \<Rightarrow> memory_fact" where
  "fact_with_confidence f c = f\<lparr>mf_confidence := c\<rparr>"

definition fact_supersedes :: "memory_fact \<Rightarrow> fact_id \<Rightarrow> memory_fact memory_result" where
  "fact_supersedes f prior =
    (if prior = mf_id f
     then Err (InvalidValue ''fact.supersedes'' ''a fact cannot supersede itself'')
     else Ok (f\<lparr>mf_supersedes := Some prior\<rparr>))"

definition fact_with_evidence :: "memory_fact \<Rightarrow> evidence \<Rightarrow> memory_fact" where
  "fact_with_evidence f e = f\<lparr>mf_evidence := mf_evidence f @ [e]\<rparr>"

definition fact_ok :: "memory_fact \<Rightarrow> bool" where
  "fact_ok f \<longleftrightarrow> trimmed (mf_relation f) \<and> mf_observed_at f \<le> mf_recorded_at f \<and>
    (\<forall>u. mf_valid_until f = Some u \<longrightarrow> mf_valid_from f < u) \<and>
    mf_evidence f \<noteq> [] \<and> (\<forall>e \<in> set (mf_evidence f). evidence_ok e)"

lemma fact_validate_Ok [result_simps]: "fact_validate f = Ok u \<longleftrightarrow> fact_ok f"
  by (auto simp: fact_validate_def fact_ok_def result_simps split: option.splits if_splits)

section \<open>Events and views (\<open>domain/event.rs\<close>, \<open>domain/view.rs\<close>)\<close>

datatype memory_event =
    NodeUpserted memory_node
  | FactRecorded memory_fact
  | FactRetracted fact_id timestamp "evidence list"

fun event_type :: "memory_event \<Rightarrow> string" where
  "event_type (NodeUpserted _) = ''node_upserted''"
| "event_type (FactRecorded _) = ''fact_recorded''"
| "event_type (FactRetracted _ _ _) = ''fact_retracted''"

record memory_view =
  view_nodes :: "memory_node list"
  view_facts :: "memory_fact list"

section \<open>What the constructors guarantee\<close>

lemma fact_new_ok:
  "fact_new i s r t vf ra ag se e = Ok f \<Longrightarrow> fact_ok f"
  by (auto simp: fact_new_def Let_def result_simps)

lemma fact_new_iff:
  "(\<exists>f. fact_new i s r t vf ra ag se e = Ok f) \<longleftrightarrow> trimmed r \<and> evidence_ok e"
  by (auto simp: fact_new_def Let_def result_simps fact_ok_def)

lemma fact_with_evidence_ok: "fact_ok f \<Longrightarrow> evidence_ok e \<Longrightarrow> fact_ok (fact_with_evidence f e)"
  by (auto simp: fact_ok_def fact_with_evidence_def)

definition only_invalid :: "unit memory_result \<Rightarrow> bool" where
  "only_invalid r \<longleftrightarrow> (\<forall>e. r = Err e \<longrightarrow> (\<exists>field reason. e = InvalidValue field reason))"

lemma only_invalid_and_then: "only_invalid r \<Longrightarrow> only_invalid (f ()) \<Longrightarrow> only_invalid (and_then r f)"
  by (cases r) (auto simp: only_invalid_def)

lemma only_invalid_text: "only_invalid (validate_text l t)" "only_invalid (validate_optional_text l m)"
  by (auto simp: only_invalid_def validate_text_def validate_optional_text_def split: option.splits if_splits)

lemma only_invalid_evidence: "only_invalid (evidence_validate e)"
  unfolding evidence_validate_def by (intro only_invalid_and_then only_invalid_text)

lemma only_invalid_for_each: "(\<And>x. only_invalid (f x)) \<Longrightarrow> only_invalid (try_for_each f xs)"
  by (induction xs) (auto simp: only_invalid_def[of "Ok _"] intro: only_invalid_and_then)

lemma only_invalid_fact: "only_invalid (fact_validate f)"
  unfolding fact_validate_def
  by (intro only_invalid_and_then only_invalid_text)
    (auto simp: only_invalid_for_each only_invalid_evidence only_invalid_def [of "Err _"])

text \<open>
  A fact passes validation exactly when its relation is non-empty and trimmed, it was not
  observed after it was recorded, its validity interval is not empty, and it carries at least one
  item of evidence, all of them well formed; every other fact is rejected with an
  \<open>InvalidValue\<close> error.
\<close>

theorem fact_validation_exact:
  "(fact_validate f = Ok () \<longleftrightarrow> fact_ok f) \<and>
   (fact_validate f = Ok () \<or> (\<exists>field reason. fact_validate f = Err (InvalidValue field reason)))"
  using only_invalid_fact [of f] fact_validate_Ok [of f "()"]
  by (cases "fact_validate f") (auto simp: only_invalid_def)

end
