(* ===== verification/Event_Log.thy ===== *)
theory Event_Log
  imports Domain
begin

text \<open>
  The abstract view of an event store that the \<open>EventStore\<close> trait of \<open>src/src/store/mod.rs\<close>
  documents: one globally ordered log of committed events, dense positions, dense versions per
  stream and globally unique identifiers. The trait's own data (receipts and version
  expectations) is here too, and the locale \<open>event_store\<close> states what every implementation
  promises about the log.
\<close>

section \<open>Trait data (\<open>store/mod.rs\<close>)\<close>

datatype expected_version = AnyVersion | NoStream | Exact u64

record append_receipt =
  ar_event_count :: usize
  ar_first_stream_version :: "u64 option"
  ar_last_stream_version :: "u64 option"
  ar_first_global_position :: "u64 option"
  ar_last_global_position :: "u64 option"

definition first_of :: "'a list \<Rightarrow> 'a option" where
  "first_of xs = (case xs of [] \<Rightarrow> None | x # _ \<Rightarrow> Some x)"

definition last_of :: "'a list \<Rightarrow> 'a option" where
  "last_of xs = (case xs of [] \<Rightarrow> None | _ # _ \<Rightarrow> Some (last xs))"

definition from_events :: "'e stored_event list \<Rightarrow> append_receipt" where
  "from_events events =
    \<lparr> ar_event_count = length events,
      ar_first_stream_version = map_option version_of (first_of events),
      ar_last_stream_version = map_option version_of (last_of events),
      ar_first_global_position = map_option position_of (first_of events),
      ar_last_global_position = map_option position_of (last_of events) \<rparr>"

lemma last_of_snoc [simp]: "last_of (xs @ [x]) = Some x"
  by (cases xs) (auto simp: last_of_def)

lemma last_of_Nil [simp]: "last_of [] = None"
  by (simp add: last_of_def)

lemma last_of_None [simp]: "last_of xs = None \<longleftrightarrow> xs = []"
  by (cases xs) (auto simp: last_of_def)

lemma last_of_eq: "xs \<noteq> [] \<Longrightarrow> last_of xs = Some (last xs)"
  by (cases xs) (auto simp: last_of_def)

lemma last_of_Some: "last_of xs = Some x \<longleftrightarrow> xs \<noteq> [] \<and> x = last xs"
  by (cases xs) (auto simp: last_of_def)

text \<open>The filter \<open>after.is_none_or(|cursor| value > cursor)\<close> of both load operations.\<close>

definition after_ok :: "u64 option \<Rightarrow> u64 \<Rightarrow> bool" where
  "after_ok after v = (case after of None \<Rightarrow> True | Some cursor \<Rightarrow> v > cursor)"

section \<open>Well-formed logs\<close>

type_synonym 'e event_log = "'e stored_event list"

definition in_stream :: "stream_id \<Rightarrow> 'e stored_event \<Rightarrow> bool" where
  "in_stream st e \<longleftrightarrow> stream_of e = st"

definition stream_count :: "'e event_log \<Rightarrow> stream_id \<Rightarrow> nat" where
  "stream_count log st = length (filter (in_stream st) log)"

definition log_ok :: "'e event_log \<Rightarrow> bool" where
  "log_ok log \<longleftrightarrow> length log \<le> 2 ^ 64 \<and> distinct (map event_id_of log) \<and>
    (\<forall>i < length log. position_of (log ! i) = of_nat i \<and>
       version_of (log ! i) = of_nat (stream_count (take i log) (stream_of (log ! i))))"

lemma stream_count_Nil [simp]: "stream_count [] st = 0"
  by (simp add: stream_count_def)

lemma stream_count_append [simp]:
  "stream_count (log @ log') st = stream_count log st + stream_count log' st"
  by (simp add: stream_count_def)

lemma stream_count_Cons [simp]:
  "stream_count (e # log) st = (if stream_of e = st then 1 else 0) + stream_count log st"
  by (simp add: stream_count_def in_stream_def)

lemma stream_count_le: "stream_count log st \<le> length log"
  by (simp add: stream_count_def)

lemma log_ok_Nil [simp]: "log_ok []"
  by (simp add: log_ok_def)

lemma log_ok_snoc:
  "log_ok (log @ [e]) \<longleftrightarrow>
     log_ok log \<and> length log < 2 ^ 64 \<and> event_id_of e \<notin> set (map event_id_of log) \<and>
     position_of e = of_nat (length log) \<and> version_of e = of_nat (stream_count log (stream_of e))"
  (is "?L \<longleftrightarrow> ?R")
proof
  assume ?L
  then show ?R
    unfolding log_ok_def
    by (simp add: All_less_Suc nth_append)
next
  assume ?R
  then show ?L
    unfolding log_ok_def by (simp add: All_less_Suc nth_append)
qed

lemma log_ok_position: "log_ok log \<Longrightarrow> i < length log \<Longrightarrow> position_of (log ! i) = of_nat i"
  by (simp add: log_ok_def)

lemma log_ok_append_left: "log_ok (log @ log') \<Longrightarrow> log_ok log"
  by (induction log' rule: rev_induct) (auto simp flip: append_assoc simp: log_ok_snoc)

text \<open>The version of a stream, read off the log.\<close>

definition spec_version :: "'e event_log \<Rightarrow> stream_id \<Rightarrow> u64 option" where
  "spec_version log st =
    (if stream_count log st = 0 then None else Some (of_nat (stream_count log st - 1)))"

section \<open>Specification of append\<close>

definition version_matches :: "expected_version \<Rightarrow> u64 option \<Rightarrow> bool" where
  "version_matches x actual =
    (case x of AnyVersion \<Rightarrow> True | NoStream \<Rightarrow> actual = None | Exact v \<Rightarrow> actual = Some v)"

definition expectation :: "expected_version \<Rightarrow> u64 option" where
  "expectation x = (case x of Exact v \<Rightarrow> Some v | _ \<Rightarrow> None)"

fun first_duplicate :: "event_id set \<Rightarrow> 'e new_event list \<Rightarrow> event_id option" where
  "first_duplicate known [] = None"
| "first_duplicate known (e # es) =
    (if ne_id e \<in> known then Some (ne_id e) else first_duplicate (insert (ne_id e) known) es)"

definition stamp :: "stream_id \<Rightarrow> u64 \<Rightarrow> u64 \<Rightarrow> 'e new_event \<Rightarrow> 'e stored_event" where
  "stamp st version position e =
    \<lparr> se_metadata = \<lparr> em_id = ne_id e, em_stream_id = st, em_stream_version = version,
        em_global_position = position, em_event_type = ne_event_type e,
        em_occurred_at = ne_occurred_at e, em_recorded_at = ne_recorded_at e,
        em_agent_id = ne_agent_id e, em_session_id = ne_session_id e,
        em_correlation_id = ne_correlation_id e, em_causation_id = ne_causation_id e \<rparr>,
      se_payload = ne_payload e \<rparr>"

definition stamped :: "'e event_log \<Rightarrow> stream_id \<Rightarrow> 'e new_event list \<Rightarrow> 'e stored_event list" where
  "stamped log st es =
    map (\<lambda>(k, e). stamp st (of_nat (stream_count log st + k)) (of_nat (length log + k)) e)
      (enumerate 0 es)"

definition spec_append ::
  "'e event_log \<Rightarrow> stream_id \<Rightarrow> expected_version \<Rightarrow> 'e new_event list \<Rightarrow> 'e stored_event list memory_result"
where
  "spec_append log st x es =
    (if \<not> version_matches x (spec_version log st)
     then Err (VersionConflict (as_str st) (expectation x) (spec_version log st))
     else case first_duplicate (set (map event_id_of log)) es of
            Some i \<Rightarrow> Err (DuplicateEvent (as_str i))
          | None \<Rightarrow>
              if length log < 2 ^ 64 \<and> length log + length es \<le> 2 ^ 64
              then Ok (stamped log st es) else Err CapacityOverflow)"

lemma stamp_simps [simp]:
  "event_id_of (stamp st v p e) = ne_id e" "stream_of (stamp st v p e) = st"
  "version_of (stamp st v p e) = v" "position_of (stamp st v p e) = p"
  "se_payload (stamp st v p e) = ne_payload e"
  by (auto simp: stamp_def)

lemma stamped_Nil [simp]: "stamped log st [] = []"
  by (simp add: stamped_def)

lemma length_stamped [simp]: "length (stamped log st es) = length es"
  by (simp add: stamped_def)

lemma stamped_snoc:
  "stamped log st (es @ [e]) =
     stamped log st es @ [stamp st (of_nat (stream_count log st + length es)) (of_nat (length log + length es)) e]"
  by (simp add: stamped_def enumerate_append_eq)

lemma stream_of_stamped: "e \<in> set (stamped log st es) \<Longrightarrow> stream_of e = st"
  by (auto simp: stamped_def)

lemma ids_stamped [simp]: "map event_id_of (stamped log st es) = map ne_id es"
  by (induction es rule: rev_induct) (auto simp: stamped_snoc)

lemma payloads_stamped [simp]: "map se_payload (stamped log st es) = map ne_payload es"
  by (induction es rule: rev_induct) (auto simp: stamped_snoc)

lemma stream_count_stamped: "stream_count (stamped log st es) st' = (if st' = st then length es else 0)"
  by (induction es rule: rev_induct) (auto simp: stamped_snoc)

lemma first_duplicate_None:
  "first_duplicate known es = None \<longleftrightarrow> distinct (map ne_id es) \<and> set (map ne_id es) \<inter> known = {}"
  by (induction known es rule: first_duplicate.induct) auto

lemma log_ok_stamped:
  assumes "log_ok log" "distinct (map ne_id es)" "set (map ne_id es) \<inter> set (map event_id_of log) = {}"
    "length log + length es \<le> 2 ^ 64"
  shows "log_ok (log @ stamped log st es)"
  using assms
proof (induction es rule: rev_induct)
  case (snoc e es)
  then have "log_ok (log @ stamped log st es)" by auto
  moreover have "ne_id e \<notin> set (map event_id_of (log @ stamped log st es))"
    using snoc.prems by (simp only: map_append set_append ids_stamped) auto
  ultimately show ?case
    using snoc.prems
    by (simp add: stamped_snoc log_ok_snoc stream_count_stamped flip: append_assoc)
qed simp

lemma spec_append_ok:
  "log_ok log \<Longrightarrow> spec_append log st x es = Ok c \<Longrightarrow> log_ok (log @ c) \<and> c = stamped log st es"
  by (auto simp: spec_append_def first_duplicate_None intro!: log_ok_stamped
      split: if_splits option.splits)

section \<open>Contract of an event store\<close>

locale event_store =
  fixes append :: "'s \<Rightarrow> stream_id \<Rightarrow> expected_version \<Rightarrow> 'e new_event list \<Rightarrow>
      'e stored_event list memory_result \<times> 's"
    and load_stream :: "'s \<Rightarrow> stream_id \<Rightarrow> u64 option \<Rightarrow> 'e stored_event list"
    and load_all :: "'s \<Rightarrow> u64 option \<Rightarrow> nat \<Rightarrow> 'e stored_event list"
    and stream_version :: "'s \<Rightarrow> stream_id \<Rightarrow> u64 option"
    and len :: "'s \<Rightarrow> nat"
    and log :: "'s \<Rightarrow> 'e event_log"
    and invar :: "'s \<Rightarrow> bool"
  assumes invar_log: "invar s \<Longrightarrow> log_ok (log s)"
    and append_ok: "invar s \<Longrightarrow> append s st x es = (Ok c, s') \<Longrightarrow>
      invar s' \<and> spec_append (log s) st x es = Ok c \<and> log s' = log s @ c"
    and append_err: "invar s \<Longrightarrow> append s st x es = (Err e, s') \<Longrightarrow> invar s' \<and> log s' = log s"
    and load_stream_log: "invar s \<Longrightarrow> load_stream s st after =
      filter (\<lambda>e. stream_of e = st \<and> after_ok after (version_of e)) (log s)"
    and load_all_log: "invar s \<Longrightarrow> load_all s after limit =
      take limit (filter (\<lambda>e. after_ok after (position_of e)) (log s))"
    and stream_version_log: "invar s \<Longrightarrow> stream_version s st = spec_version (log s) st"
    and len_log: "invar s \<Longrightarrow> len s = length (log s)"
begin

text \<open>Any sequence of appends, successful or not, only extends the log.\<close>

lemma append_extends: "invar s \<Longrightarrow> append s st x es = (r, s') \<Longrightarrow> invar s' \<and> (\<exists>c. log s' = log s @ c)"
  by (cases r) (blast dest: append_ok, metis append_err append_Nil2)

lemma append_version:
  assumes "invar s" "append s st x es = (Ok c, s')"
  shows "stream_count (log s') st' = stream_count (log s) st' + (if st' = st then length es else 0)"
proof -
  have "log s' = log s @ stamped (log s) st es"
    using append_ok [OF assms] spec_append_ok [OF invar_log [OF assms(1)]] by auto
  then show ?thesis by (simp add: stream_count_stamped)
qed

end

text \<open>Reading a well-formed log after a cursor is dropping a prefix of it.\<close>

definition resume_index :: "u64 option \<Rightarrow> nat" where
  "resume_index after = (case after of None \<Rightarrow> 0 | Some c \<Rightarrow> Suc (unat c))"

lemma filter_after_drop:
  assumes "log_ok log"
  shows "filter (\<lambda>e. after_ok after (position_of e)) log = drop (resume_index after) log"
  using assms
proof (induction log rule: rev_induct)
  case (snoc e log)
  then have ok: "log_ok log" "length log < 2 ^ 64" "position_of e = of_nat (length log)"
    by (auto simp: log_ok_snoc)
  have "after_ok after (position_of e) \<longleftrightarrow> resume_index after \<le> length log"
    using ok by (auto simp: after_ok_def resume_index_def word_less_nat_alt split: option.splits)
  then show ?case
    using snoc.IH [OF ok(1)] by auto
qed simp

end
