(* ===== verification/In_Memory_Store.thy ===== *)
theory In_Memory_Store
  imports Event_Log
begin

text \<open>
  The in-memory event store of \<open>src/src/store/in_memory\<close>: a vector of committed events, the
  positions of each stream and the set of known identifiers. \<open>HashMap\<close> and \<open>HashSet\<close>, which
  the code never iterates, are a partial function and a set. Every reachable store is the
  canonical store of its own log (\<open>ims_inv\<close>), and each operation implements the specification
  of \<open>Event_Log\<close>.
\<close>

section \<open>Validation (\<open>in_memory/validation.rs\<close>)\<close>

definition validate_expected :: "stream_id \<Rightarrow> expected_version \<Rightarrow> u64 option \<Rightarrow> unit memory_result" where
  "validate_expected stream expected actual =
    (let matches = (case expected of
         AnyVersion \<Rightarrow> True
       | NoStream \<Rightarrow> actual = None
       | Exact version \<Rightarrow> actual = Some version)
     in if matches then Ok ()
        else Err (VersionConflict (as_str stream)
               (case expected of AnyVersion \<Rightarrow> None | NoStream \<Rightarrow> None | Exact version \<Rightarrow> Some version)
               actual))"

fun unique_ids_loop :: "event_id set \<Rightarrow> event_id set \<Rightarrow> 'e new_event list \<Rightarrow> unit memory_result" where
  "unique_ids_loop known batch [] = Ok ()"
| "unique_ids_loop known batch (event # events) =
    (if ne_id event \<in> known \<or> ne_id event \<in> batch
     then Err (DuplicateEvent (as_str (ne_id event)))
     else unique_ids_loop known (insert (ne_id event) batch) events)"

definition unique_ids :: "event_id set \<Rightarrow> 'e new_event list \<Rightarrow> unit memory_result" where
  "unique_ids known events = unique_ids_loop known {} events"

section \<open>The store (\<open>in_memory/mod.rs\<close>)\<close>

record 'e in_memory_store =
  ims_events :: "'e stored_event list"
  ims_streams :: "stream_id \<rightharpoonup> usize list"
  ims_event_ids :: "event_id set"

definition ims_default :: "'e in_memory_store" where
  "ims_default = \<lparr> ims_events = [], ims_streams = Map.empty, ims_event_ids = {} \<rparr>"

definition ims_stream_version :: "'e in_memory_store \<Rightarrow> stream_id \<Rightarrow> u64 option" where
  "ims_stream_version s stream =
    (case ims_streams s stream of
       None \<Rightarrow> None
     | Some positions \<Rightarrow> map_option (\<lambda>index. version_of (ims_events s ! index)) (last_of positions))"

definition ims_len :: "'e in_memory_store \<Rightarrow> usize" where
  "ims_len s = length (ims_events s)"

definition ims_load_stream :: "'e in_memory_store \<Rightarrow> stream_id \<Rightarrow> u64 option \<Rightarrow> 'e stored_event list" where
  "ims_load_stream s stream after =
    filter (\<lambda>event. after_ok after (version_of event))
      (map (\<lambda>index. ims_events s ! index)
        (case ims_streams s stream of None \<Rightarrow> [] | Some positions \<Rightarrow> positions))"

definition ims_load_all :: "'e in_memory_store \<Rightarrow> u64 option \<Rightarrow> usize \<Rightarrow> 'e stored_event list" where
  "ims_load_all s after limit =
    take limit (filter (\<lambda>event. after_ok after (position_of event)) (ims_events s))"

definition next_version :: "u64 option \<Rightarrow> u64 memory_result" where
  "next_version actual =
    (case actual of None \<Rightarrow> Ok 0 | Some version \<Rightarrow> ok_or (checked_add version 1) CapacityOverflow)"

definition prepare_step ::
  "stream_id \<Rightarrow> u64 \<Rightarrow> u64 \<Rightarrow> 'e stored_event list \<Rightarrow> usize \<times> 'e new_event \<Rightarrow> 'e stored_event list memory_result"
where
  "prepare_step stream start_version start_position committed p =
    (case p of (offset, event) \<Rightarrow>
      and_then (ok_or (u64_try_from offset) CapacityOverflow) (\<lambda>offset.
      and_then (ok_or (checked_add start_version offset) CapacityOverflow) (\<lambda>stream_version.
      and_then (ok_or (checked_add start_position offset) CapacityOverflow) (\<lambda>global_position.
        Ok (committed @
          [\<lparr> se_metadata =
               \<lparr> em_id = ne_id event, em_stream_id = stream, em_stream_version = stream_version,
                 em_global_position = global_position, em_event_type = ne_event_type event,
                 em_occurred_at = ne_occurred_at event, em_recorded_at = ne_recorded_at event,
                 em_agent_id = ne_agent_id event, em_session_id = ne_session_id event,
                 em_correlation_id = ne_correlation_id event,
                 em_causation_id = ne_causation_id event \<rparr>,
             se_payload = ne_payload event \<rparr>])))))"

definition prepare_append ::
  "'e in_memory_store \<Rightarrow> stream_id \<Rightarrow> expected_version \<Rightarrow> 'e new_event list \<Rightarrow> 'e stored_event list memory_result"
where
  "prepare_append s stream expected events =
    (let actual = ims_stream_version s stream in
     and_then (validate_expected stream expected actual) (\<lambda>_.
     and_then (unique_ids (ims_event_ids s) events) (\<lambda>_.
     and_then (next_version actual) (\<lambda>start_version.
     and_then (ok_or (u64_try_from (length (ims_events s))) CapacityOverflow) (\<lambda>start_position.
       try_fold (prepare_step stream start_version start_position) [] (enumerate 0 events))))))"

text \<open>The owned variant moves the fields out of each event; its offset loop is the same.\<close>

definition prepare_owned_step ::
  "stream_id \<Rightarrow> u64 \<Rightarrow> u64 \<Rightarrow> 'e stored_event list \<Rightarrow> usize \<times> 'e new_event \<Rightarrow> 'e stored_event list memory_result"
where
  "prepare_owned_step stream start_version start_position committed p =
    (let (offset, event) = p in
      and_then (ok_or (u64_try_from offset) CapacityOverflow) (\<lambda>offset.
      and_then (ok_or (checked_add start_version offset) CapacityOverflow) (\<lambda>stream_version.
      and_then (ok_or (checked_add start_position offset) CapacityOverflow) (\<lambda>global_position.
        Ok (committed @ [stamp stream stream_version global_position event])))))"

definition prepare_append_owned ::
  "'e in_memory_store \<Rightarrow> stream_id \<Rightarrow> expected_version \<Rightarrow> 'e new_event list \<Rightarrow> 'e stored_event list memory_result"
where
  "prepare_append_owned s stream expected events =
    (let actual = ims_stream_version s stream in
     and_then (validate_expected stream expected actual) (\<lambda>_.
     and_then (unique_ids (ims_event_ids s) events) (\<lambda>_.
     and_then (next_version actual) (\<lambda>start_version.
     and_then (ok_or (u64_try_from (length (ims_events s))) CapacityOverflow) (\<lambda>start_position.
       try_fold (prepare_owned_step stream start_version start_position) [] (enumerate 0 events))))))"

fun commit_loop ::
  "'e stored_event list \<Rightarrow> usize list \<Rightarrow> event_id set \<Rightarrow> 'e stored_event list \<Rightarrow>
   'e stored_event list \<times> usize list \<times> event_id set"
where
  "commit_loop events positions ids [] = (events, positions, ids)"
| "commit_loop events positions ids (event # rest) =
    commit_loop (events @ [event]) (positions @ [length events]) (insert (event_id_of event) ids) rest"

definition commit_prepared :: "'e in_memory_store \<Rightarrow> 'e stored_event list \<Rightarrow> 'e in_memory_store" where
  "commit_prepared s committed =
    (case committed of
       [] \<Rightarrow> s
     | first # _ \<Rightarrow>
         (let positions = (case ims_streams s (stream_of first) of None \<Rightarrow> [] | Some ps \<Rightarrow> ps);
              (events', positions', ids') =
                commit_loop (ims_events s) positions (ims_event_ids s) committed
          in \<lparr> ims_events = events', ims_streams = (ims_streams s)(stream_of first \<mapsto> positions'),
               ims_event_ids = ids' \<rparr>))"

definition commit_prepared_owned :: "'e in_memory_store \<Rightarrow> 'e stored_event list \<Rightarrow> 'e in_memory_store" where
  "commit_prepared_owned s committed =
    (case first_of committed of
       None \<Rightarrow> s
     | Some first \<Rightarrow>
         (let positions = (case ims_streams s (stream_of first) of None \<Rightarrow> [] | Some ps \<Rightarrow> ps)
          in case commit_loop (ims_events s) positions (ims_event_ids s) committed of
               (events', positions', ids') \<Rightarrow>
                 s\<lparr> ims_events := events',
                    ims_streams := (ims_streams s)(stream_of first \<mapsto> positions'),
                    ims_event_ids := ids' \<rparr>))"

definition ims_append ::
  "'e in_memory_store \<Rightarrow> stream_id \<Rightarrow> expected_version \<Rightarrow> 'e new_event list \<Rightarrow>
   'e stored_event list memory_result \<times> 'e in_memory_store"
where
  "ims_append s stream expected events =
    (case prepare_append s stream expected events of
       Err e \<Rightarrow> (Err e, s)
     | Ok committed \<Rightarrow> (Ok committed, commit_prepared s committed))"

definition ims_append_owned ::
  "'e in_memory_store \<Rightarrow> stream_id \<Rightarrow> expected_version \<Rightarrow> 'e new_event list \<Rightarrow>
   'e stored_event list memory_result \<times> 'e in_memory_store"
where
  "ims_append_owned s stream expected events =
    (case prepare_append_owned s stream expected events of
       Err e \<Rightarrow> (Err e, s)
     | Ok committed \<Rightarrow> (Ok committed, commit_prepared s committed))"

definition ims_append_owned_receipt ::
  "'e in_memory_store \<Rightarrow> stream_id \<Rightarrow> expected_version \<Rightarrow> 'e new_event list \<Rightarrow>
   append_receipt memory_result \<times> 'e in_memory_store"
where
  "ims_append_owned_receipt s stream expected events =
    (case prepare_append_owned s stream expected events of
       Err e \<Rightarrow> (Err e, s)
     | Ok committed \<Rightarrow> (Ok (from_events committed), commit_prepared_owned s committed))"

definition restore_step :: "'e in_memory_store \<Rightarrow> 'e stored_event \<Rightarrow> 'e in_memory_store memory_result" where
  "restore_step s event =
    and_then (ok_or (u64_try_from (length (ims_events s))) CapacityOverflow) (\<lambda>expected_position.
      if position_of event \<noteq> expected_position
      then Err (InvalidReplay (''global position '' @ show_u64 (position_of event) @ '', expected '' @
             show_u64 expected_position))
      else and_then (next_version (ims_stream_version s (stream_of event))) (\<lambda>expected_version.
        if version_of event \<noteq> expected_version
        then Err (InvalidReplay (''stream '' @ as_str (stream_of event) @ '' version '' @
               show_u64 (version_of event) @ '', expected '' @ show_u64 expected_version))
        else if event_id_of event \<in> ims_event_ids s
        then Err (DuplicateEvent (as_str (event_id_of event)))
        else
          (let positions = (case ims_streams s (stream_of event) of None \<Rightarrow> [] | Some ps \<Rightarrow> ps) in
           Ok \<lparr> ims_events = ims_events s @ [event],
                ims_streams = (ims_streams s)(stream_of event \<mapsto> positions @ [length (ims_events s)]),
                ims_event_ids = insert (event_id_of event) (ims_event_ids s) \<rparr>)))"

definition restore :: "'e stored_event list \<Rightarrow> 'e in_memory_store memory_result" where
  "restore events = try_fold restore_step ims_default events"

section \<open>The canonical store of a log\<close>

definition stream_positions :: "'e event_log \<Rightarrow> stream_id \<Rightarrow> nat list" where
  "stream_positions log st = filter (\<lambda>i. stream_of (log ! i) = st) [0..<length log]"

definition ims_of :: "'e event_log \<Rightarrow> 'e in_memory_store" where
  "ims_of log =
    \<lparr> ims_events = log,
      ims_streams = (\<lambda>st. if stream_positions log st = [] then None else Some (stream_positions log st)),
      ims_event_ids = set (map event_id_of log) \<rparr>"

definition ims_inv :: "'e in_memory_store \<Rightarrow> bool" where
  "ims_inv s \<longleftrightarrow> log_ok (ims_events s) \<and> s = ims_of (ims_events s)"

lemma ims_invE: "ims_inv s \<Longrightarrow> (\<And>log. log_ok log \<Longrightarrow> s = ims_of log \<Longrightarrow> P) \<Longrightarrow> P"
  by (auto simp: ims_inv_def)

lemma ims_of_sel [simp]:
  "ims_events (ims_of log) = log" "ims_event_ids (ims_of log) = set (map event_id_of log)"
  by (auto simp: ims_of_def)

lemma ims_inv_of [simp]: "ims_inv (ims_of log) \<longleftrightarrow> log_ok log"
  by (auto simp: ims_inv_def)

lemma stream_positions_snoc:
  "stream_positions (log @ [e]) st =
     stream_positions log st @ (if stream_of e = st then [length log] else [])"
proof -
  have "filter (\<lambda>i. stream_of ((log @ [e]) ! i) = st) [0..<length log] = stream_positions log st"
    unfolding stream_positions_def by (rule filter_cong) (auto simp: nth_append)
  then show ?thesis by (simp add: stream_positions_def)
qed

lemma length_stream_positions: "length (stream_positions log st) = stream_count log st"
  by (induction log rule: rev_induct) (auto simp: stream_positions_snoc, simp add: stream_positions_def)

lemma events_of_stream: "map ((!) log) (stream_positions log st) = filter (in_stream st) log"
proof (induction log rule: rev_induct)
  case (snoc e log)
  have "map ((!) (log @ [e])) (stream_positions log st) = map ((!) log) (stream_positions log st)"
    by (auto simp: stream_positions_def nth_append)
  with snoc show ?case by (simp add: stream_positions_snoc in_stream_def)
qed (simp add: stream_positions_def)

lemma last_version:
  assumes "log_ok log" "stream_count log st \<noteq> 0"
  shows "version_of (last (filter (in_stream st) log)) = of_nat (stream_count log st - 1)"
  using assms
  by (induction log rule: rev_induct) (auto simp: log_ok_snoc in_stream_def)

lemma stream_version_of [simp]:
  assumes "log_ok log"
  shows "ims_stream_version (ims_of log) st = spec_version log st"
proof (cases "stream_positions log st = []")
  case True
  then show ?thesis
    using length_stream_positions [of log st]
    by (simp add: ims_stream_version_def ims_of_def spec_version_def)
next
  case False
  then have "stream_count log st \<noteq> 0" by (simp flip: length_stream_positions)
  moreover have "log ! last (stream_positions log st) = last (filter (in_stream st) log)"
    using False by (simp add: last_map flip: events_of_stream)
  ultimately show ?thesis
    using last_version [OF assms, of st] False
    by (simp add: ims_stream_version_def ims_of_def spec_version_def last_of_eq)
qed

text \<open>Pushing one event keeps the store canonical.\<close>

lemma ims_of_snoc:
  "ims_of (log @ [e]) =
     \<lparr> ims_events = log @ [e],
       ims_streams = (ims_streams (ims_of log))(stream_of e \<mapsto>
         (case ims_streams (ims_of log) (stream_of e) of None \<Rightarrow> [] | Some ps \<Rightarrow> ps) @ [length log]),
       ims_event_ids = insert (event_id_of e) (ims_event_ids (ims_of log)) \<rparr>"
  by (auto simp: ims_of_def stream_positions_snoc fun_eq_iff)

lemma commit_loop_append:
  "commit_loop evs ps ids (xs @ ys) =
     (case commit_loop evs ps ids xs of (evs', ps', ids') \<Rightarrow> commit_loop evs' ps' ids' ys)"
  by (induction evs ps ids xs rule: commit_loop.induct) auto

lemma commit_prepared_snoc:
  assumes "stream_of e = stream_of (hd (c @ [e]))"
  shows "commit_prepared s (c @ [e]) =
    (let s' = commit_prepared s c
     in \<lparr> ims_events = ims_events s' @ [e],
          ims_streams = (ims_streams s')(stream_of e \<mapsto>
            (case ims_streams s' (stream_of e) of None \<Rightarrow> [] | Some ps \<Rightarrow> ps) @ [length (ims_events s')]),
          ims_event_ids = insert (event_id_of e) (ims_event_ids s') \<rparr>)"
  using assms
  by (cases c) (auto simp: commit_prepared_def commit_loop_append Let_def split: prod.splits option.splits)

lemma commit_prepared_of:
  "(\<And>e. e \<in> set c \<Longrightarrow> stream_of e = st) \<Longrightarrow> commit_prepared (ims_of log) c = ims_of (log @ c)"
proof (induction c rule: rev_induct)
  case (snoc e c)
  then have "stream_of e = stream_of (hd (c @ [e]))"
    by (cases c) auto
  with snoc show ?case
    by (simp add: commit_prepared_snoc ims_of_snoc Let_def flip: append_assoc)
qed (simp add: commit_prepared_def)

lemma commit_prepared_owned_eq: "commit_prepared_owned = commit_prepared"
  by (intro ext) (auto simp: commit_prepared_owned_def commit_prepared_def first_of_def Let_def
      split: list.splits prod.splits)

section \<open>Refinement of the log specification\<close>

lemma validate_expected_eq:
  "validate_expected st x actual =
     (if version_matches x actual then Ok () else Err (VersionConflict (as_str st) (expectation x) actual))"
  by (auto simp: validate_expected_def version_matches_def expectation_def split: expected_version.splits)

lemma unique_ids_loop_eq:
  "unique_ids_loop known batch es =
     (case first_duplicate (known \<union> batch) es of None \<Rightarrow> Ok () | Some i \<Rightarrow> Err (DuplicateEvent (as_str i)))"
  by (induction known batch es rule: unique_ids_loop.induct) auto

lemma unique_ids_eq:
  "unique_ids known es =
     (case first_duplicate known es of None \<Rightarrow> Ok () | Some i \<Rightarrow> Err (DuplicateEvent (as_str i)))"
  by (simp add: unique_ids_def unique_ids_loop_eq)

lemma next_version_spec:
  assumes "log_ok log"
  shows "next_version (spec_version log st) =
    (if stream_count log st < 2 ^ 64 then Ok (of_nat (stream_count log st)) else Err CapacityOverflow)"
proof -
  have "stream_count log st \<le> 2 ^ 64"
    using assms stream_count_le [of log st] by (simp add: log_ok_def)
  then show ?thesis
    by (cases "stream_count log st")
      (auto simp: next_version_def spec_version_def checked_add_def unat_of_nat)
qed

lemma prepare_step_eq:
  "prepare_step st v p c (k, e) =
     (if k < 2 ^ 64 \<and> unat v + k < 2 ^ 64 \<and> unat p + k < 2 ^ 64
      then Ok (c @ [stamp st (v + of_nat k) (p + of_nat k) e]) else Err CapacityOverflow)"
  by (auto simp: prepare_step_def stamp_def u64_try_from_def checked_add_def ok_or_def unat_of_nat)

lemma prepare_owned_step_eq: "prepare_owned_step = prepare_step"
  by (intro ext) (simp add: prepare_owned_step_def prepare_step_def stamp_def split: prod.splits)

lemma prepare_loop:
  assumes "stream_count log st \<le> length log" "length log < 2 ^ 64"
  shows "try_fold (prepare_step st (of_nat (stream_count log st)) (of_nat (length log))) [] (enumerate 0 es) =
    (if length log + length es \<le> 2 ^ 64 then Ok (stamped log st es) else Err CapacityOverflow)"
proof (induction es rule: rev_induct)
  case (snoc e es)
  then show ?case
    using assms by (auto simp: enumerate_append_eq try_fold_append prepare_step_eq stamped_snoc)
qed (use assms in simp)

lemma prepare_append_of:
  assumes "log_ok log"
  shows "prepare_append (ims_of log) st x es = spec_append log st x es"
proof (cases "stream_count log st < 2 ^ 64 \<and> length log < 2 ^ 64")
  case True
  then show ?thesis
    using prepare_loop [OF stream_count_le, of log st es] assms
    by (simp add: prepare_append_def spec_append_def validate_expected_eq unique_ids_eq
        next_version_spec u64_try_from_def split: option.splits)
next
  case False
  then show ?thesis
    using assms stream_count_le [of log st]
    by (auto simp: prepare_append_def spec_append_def validate_expected_eq unique_ids_eq
        next_version_spec u64_try_from_def split: option.splits)
qed

lemma prepare_append_owned_eq: "prepare_append_owned = prepare_append"
  by (intro ext) (simp add: prepare_append_owned_def prepare_append_def prepare_owned_step_eq)

lemma ims_append_of:
  assumes "log_ok log"
  shows "ims_append (ims_of log) st x es =
    (case spec_append log st x es of Ok c \<Rightarrow> (Ok c, ims_of (log @ c)) | Err e \<Rightarrow> (Err e, ims_of log))"
proof (cases "spec_append log st x es")
  case (Ok c)
  then have "c = stamped log st es" using spec_append_ok [OF assms] by blast
  then have "commit_prepared (ims_of log) c = ims_of (log @ c)"
    by (auto intro: commit_prepared_of dest: stream_of_stamped)
  then show ?thesis by (simp add: ims_append_def prepare_append_of [OF assms] Ok)
qed (simp add: ims_append_def prepare_append_of [OF assms])

lemma load_stream_of:
  "ims_load_stream (ims_of log) st after =
     filter (\<lambda>e. stream_of e = st \<and> after_ok after (version_of e)) log"
proof -
  have "(case ims_streams (ims_of log) st of None \<Rightarrow> [] | Some ps \<Rightarrow> ps) = stream_positions log st"
    by (simp add: ims_of_def)
  then have "ims_load_stream (ims_of log) st after =
      filter (\<lambda>e. after_ok after (version_of e)) (filter (in_stream st) log)"
    by (simp add: ims_load_stream_def events_of_stream)
  then show ?thesis by (simp add: in_stream_def conj_commute)
qed

interpretation ims: event_store ims_append ims_load_stream ims_load_all ims_stream_version ims_len
  ims_events ims_inv
proof unfold_locales
  fix s :: "'a in_memory_store" and st x es c s'
  assume inv: "ims_inv s" and app: "ims_append s st x es = (Ok c, s')"
  from inv obtain log where log: "log_ok log" "s = ims_of log" by (rule ims_invE)
  with app show "ims_inv s' \<and> spec_append (ims_events s) st x es = Ok c \<and> ims_events s' = ims_events s @ c"
    using spec_append_ok [OF log(1)] by (auto simp: ims_append_of split: result.splits)
next
  fix s :: "'a in_memory_store" and st x es e s'
  assume inv: "ims_inv s" and app: "ims_append s st x es = (Err e, s')"
  from inv obtain log where log: "log_ok log" "s = ims_of log" by (rule ims_invE)
  with app show "ims_inv s' \<and> ims_events s' = ims_events s"
    by (auto simp: ims_append_of split: result.splits)
qed (auto elim!: ims_invE simp: load_stream_of ims_load_all_def ims_len_def)

section \<open>Restoring a store from a journal\<close>

lemma restore_step_of:
  assumes "log_ok log" "length log < 2 ^ 64"
  shows "log_ok (log @ [e]) \<Longrightarrow> restore_step (ims_of log) e = Ok (ims_of (log @ [e]))"
    and "\<not> log_ok (log @ [e]) \<Longrightarrow> \<exists>err. restore_step (ims_of log) e = Err err"
proof -
  have count: "stream_count log (stream_of e) < 2 ^ 64"
    using stream_count_le [of log "stream_of e"] assms(2) by simp
  show "log_ok (log @ [e]) \<Longrightarrow> restore_step (ims_of log) e = Ok (ims_of (log @ [e]))"
    using assms count
    by (simp add: restore_step_def u64_try_from_def next_version_spec log_ok_snoc ims_of_snoc Let_def)
  show "\<not> log_ok (log @ [e]) \<Longrightarrow> \<exists>err. restore_step (ims_of log) e = Err err"
    using assms count
    by (auto simp: restore_step_def u64_try_from_def next_version_spec log_ok_snoc Let_def)
qed

lemma restore_step_full: "length log = 2 ^ 64 \<Longrightarrow> restore_step (ims_of log) e = Err CapacityOverflow"
  by (simp add: restore_step_def u64_try_from_def)

lemma ims_default_of: "ims_default = ims_of []"
  by (simp add: ims_default_def ims_of_def stream_positions_def fun_eq_iff)

lemma restore_iff:
  "(log_ok log \<longrightarrow> restore log = Ok (ims_of log)) \<and> (\<not> log_ok log \<longrightarrow> (\<exists>e. restore log = Err e))"
proof (induction log rule: rev_induct)
  case Nil
  then show ?case by (simp add: restore_def ims_default_of)
next
  case (snoc e log)
  have unf: "restore (log @ [e]) = and_then (restore log) (\<lambda>s. restore_step s e)"
    by (simp add: restore_def try_fold_append)
  show ?case
  proof (cases "log_ok log")
    case False
    with snoc.IH log_ok_append_left show ?thesis by (auto simp: unf)
  next
    case True
    then have le: "length log \<le> 2 ^ 64" by (simp add: log_ok_def)
    show ?thesis
    proof (cases "length log < 2 ^ 64")
      case True
      with \<open>log_ok log\<close> snoc.IH restore_step_of [of log e] show ?thesis by (auto simp: unf)
    next
      case False
      with le have full: "length log = 2 ^ 64" by simp
      then have "\<not> log_ok (log @ [e])" by (simp add: log_ok_def)
      with \<open>log_ok log\<close> snoc.IH restore_step_full [OF full] show ?thesis by (auto simp: unf)
    qed
  qed
qed

lemma restore_Ok [result_simps]: "restore log = Ok s \<longleftrightarrow> log_ok log \<and> s = ims_of log"
  using restore_iff [of log] by (cases "log_ok log") auto

section \<open>Properties of the in-memory store\<close>

inductive ims_reachable :: "'e in_memory_store \<Rightarrow> bool" where
  start: "ims_reachable ims_default"
| borrowed: "ims_reachable s \<Longrightarrow> ims_append s st x es = (r, s') \<Longrightarrow> ims_reachable s'"
| owned: "ims_reachable s \<Longrightarrow> ims_append_owned s st x es = (r, s') \<Longrightarrow> ims_reachable s'"
| receipt: "ims_reachable s \<Longrightarrow> ims_append_owned_receipt s st x es = (r', s') \<Longrightarrow> ims_reachable s'"

lemma ims_append_owned_eq: "ims_append_owned = ims_append"
  by (intro ext) (simp add: ims_append_owned_def ims_append_def prepare_append_owned_eq)

lemma ims_receipt_eq:
  "ims_append_owned_receipt s st x es =
     (case ims_append s st x es of (r, s') \<Rightarrow> (map_ok from_events r, s'))"
  by (simp add: ims_append_owned_receipt_def ims_append_def prepare_append_owned_eq
      commit_prepared_owned_eq split: result.splits)

lemma ims_append_inv: "ims_inv s \<Longrightarrow> ims_append s st x es = (r, s') \<Longrightarrow> ims_inv s'"
  using ims.append_extends by blast

lemma ims_reachable_inv: "ims_reachable s \<Longrightarrow> ims_inv s"
proof (induction rule: ims_reachable.induct)
  case start
  then show ?case by (simp add: ims_default_of)
next
  case (receipt s st x es r' s')
  then obtain r where "ims_append s st x es = (r, s')"
    by (auto simp: ims_receipt_eq split: prod.splits)
  then show ?case using receipt.IH ims_append_inv by blast
qed (auto simp: ims_append_owned_eq intro: ims_append_inv)

lemma ims_append_spec:
  "ims_inv s \<Longrightarrow> ims_append s st x es =
    (case spec_append (ims_events s) st x es of
       Ok c \<Rightarrow> (Ok c, ims_of (ims_events s @ c))
     | Err e \<Rightarrow> (Err e, s))"
  by (auto elim!: ims_invE simp: ims_append_of split: result.splits)

text \<open>
  C1: an append to a store in a well-formed state does exactly what the log specification says:
  it rejects a wrong version expectation, then a duplicate identifier (naming the first one), then
  a log that would outgrow 64-bit positions, and otherwise commits the whole batch with the next
  dense positions and stream versions; a rejected append leaves the store as it was.
\<close>

theorem append_refines_log:
  assumes "ims_inv s"
  shows "ims_append s st x es =
    (case spec_append (ims_events s) st x es of
       Ok c \<Rightarrow> (Ok c, ims_of (ims_events s @ c))
     | Err e \<Rightarrow> (Err e, s))"
  using assms by (rule ims_append_spec)

definition sample_event :: "string \<Rightarrow> nat new_event" where
  "sample_event i =
    \<lparr> ne_id = TextId i, ne_event_type = ''sample'', ne_occurred_at = Timestamp 1,
      ne_recorded_at = Timestamp 2, ne_agent_id = TextId ''agent'', ne_session_id = TextId ''session'',
      ne_correlation_id = None, ne_causation_id = None, ne_payload = 7 \<rparr>"

theorem append_refines_log_witness:
  "ims_inv (ims_default :: nat in_memory_store) \<and>
   ims_append ims_default (TextId ''s'') NoStream [sample_event ''a'', sample_event ''b''] =
     (Ok [stamp (TextId ''s'') 0 0 (sample_event ''a''), stamp (TextId ''s'') 1 1 (sample_event ''b'')],
      ims_of [stamp (TextId ''s'') 0 0 (sample_event ''a''), stamp (TextId ''s'') 1 1 (sample_event ''b'')])"
proof
  show inv: "ims_inv (ims_default :: nat in_memory_store)" by (simp add: ims_default_of)
  show "ims_append ims_default (TextId ''s'') NoStream [sample_event ''a'', sample_event ''b''] =
     (Ok [stamp (TextId ''s'') 0 0 (sample_event ''a''), stamp (TextId ''s'') 1 1 (sample_event ''b'')],
      ims_of [stamp (TextId ''s'') 0 0 (sample_event ''a''), stamp (TextId ''s'') 1 1 (sample_event ''b'')])"
    unfolding append_refines_log [OF inv]
    by (simp add: ims_default_def spec_append_def spec_version_def version_matches_def
        stamped_def sample_event_def)
qed

text \<open>
  C19: every store that can be reached from the empty one by any mix of the three append paths has
  dense global positions, dense versions in every stream and globally unique event identifiers,
  and its stream index and identifier set agree with its events.
\<close>

theorem reachable_log_well_formed:
  assumes "ims_reachable s"
  shows "log_ok (ims_events s) \<and> s = ims_of (ims_events s)"
  using ims_reachable_inv [OF assms] by (simp add: ims_inv_def)

theorem reachable_log_well_formed_witness:
  "\<exists>s :: nat in_memory_store. ims_reachable s \<and> length (ims_events s) = 1 \<and> log_ok (ims_events s) \<and>
     s = ims_of (ims_events s)"
proof -
  let ?s = "snd (ims_append (ims_default :: nat in_memory_store) (TextId ''s'') NoStream [sample_event ''a''])"
  have r: "ims_reachable ?s"
    by (rule ims_reachable.borrowed [OF ims_reachable.start]) (rule prod.collapse [symmetric])
  have "length (ims_events ?s) = 1"
    by (simp add: ims_default_of ims_append_of spec_append_def spec_version_def version_matches_def)
  with r reachable_log_well_formed [OF r] show ?thesis by blast
qed

text \<open>
  The owned append and the receipt-only append have the same result, the same errors and the
  same effect on the store as the borrowing append; the receipt is computed from the very events
  that were committed.
\<close>

theorem append_paths_agree:
  "ims_append_owned s st x es = ims_append s st x es \<and>
   ims_append_owned_receipt s st x es =
     (case ims_append s st x es of
        (Ok c, s') \<Rightarrow> (Ok (from_events c), s')
      | (Err e, s') \<Rightarrow> (Err e, s'))"
  by (auto simp: ims_append_owned_eq ims_receipt_eq split: prod.splits result.splits)

text \<open>
  Optimistic concurrency: of two writers that append a non-empty batch under the same exact
  version expectation, the second is always refused with a version conflict, whatever events it
  brings.
\<close>

theorem stale_exact_append_refused:
  assumes "ims_inv s" "ims_append s st (Exact v) es = (Ok c, s')" "es \<noteq> []"
  shows "ims_append s' st (Exact v) fs =
    (Err (VersionConflict (as_str st) (Some v) (Some (v + of_nat (length es)))), s')"
proof -
  have inv': "ims_inv s'" and spec: "spec_append (ims_events s) st (Exact v) es = Ok c"
    using ims.append_ok [OF assms(1,2)] by auto
  have count: "stream_count (ims_events s') st = stream_count (ims_events s) st + length es"
    using ims.append_version [OF assms(1,2), of st] by simp
  from spec have v: "stream_count (ims_events s) st \<noteq> 0"
    "v = of_nat (stream_count (ims_events s) st - 1)" and
    room: "length (ims_events s) + length es \<le> 2 ^ 64"
    by (auto simp: spec_append_def version_matches_def spec_version_def split: if_splits option.splits)
  have now: "spec_version (ims_events s') st = Some (v + of_nat (length es))"
    using v count by (simp add: spec_version_def)
  have "length es < 2 ^ 64"
    using v(1) room stream_count_le [of "ims_events s" st] by simp
  then have "(of_nat (length es) :: u64) \<noteq> 0"
    using assms(3) of_nat_u64_inject [of "length es" 0] by simp
  then have "v + of_nat (length es) \<noteq> v" by simp
  with now show ?thesis
    by (simp add: ims_append_spec [OF inv'] spec_append_def version_matches_def expectation_def)
qed

theorem stale_exact_append_refused_witness:
  "\<exists>s s' c. ims_inv s \<and> ims_append s (TextId ''s'') (Exact 0) [sample_event ''b''] = (Ok c, s') \<and>
     ims_append s' (TextId ''s'') (Exact 0) [sample_event ''z''] =
       (Err (VersionConflict ''s'' (Some 0) (Some 1)), s')"
proof -
  let ?a = "stamp (TextId ''s'') 0 0 (sample_event ''a'')"
  let ?b = "stamp (TextId ''s'') 1 1 (sample_event ''b'')"
  have inv: "ims_inv (ims_of [?a])"
    using log_ok_snoc [of "[]" ?a] by simp
  have app: "ims_append (ims_of [?a]) (TextId ''s'') (Exact 0) [sample_event ''b''] = (Ok [?b], ims_of [?a, ?b])"
    unfolding ims_append_spec [OF inv]
    by (simp add: spec_append_def spec_version_def version_matches_def stamped_def, simp add: sample_event_def)
  from inv app stale_exact_append_refused [OF inv app, of "[sample_event ''z'']"] show ?thesis
    by fastforce
qed

text \<open>
  Restoring accepts exactly the well-formed logs, and what it builds is the store those events
  came from: restoring the events of any store that appends can produce gives that store back.
\<close>

theorem restore_round_trip:
  "(restore log = Ok s \<longleftrightarrow> log_ok log \<and> s = ims_of log) \<and>
   (ims_inv t \<longrightarrow> restore (ims_events t) = Ok t)"
  by (auto simp: restore_Ok ims_inv_def)

theorem restore_round_trip_witness:
  "ims_inv (ims_default :: nat in_memory_store) \<and> restore (ims_events ims_default) = Ok (ims_default :: nat in_memory_store)"
  using restore_round_trip [where t = "ims_default :: nat in_memory_store" and log = "[]"
      and s = "ims_default :: nat in_memory_store"]
  by (simp add: ims_default_of)

lemma versions_dense:
  "log_ok log \<Longrightarrow> map version_of (filter (in_stream st) log) = map of_nat [0..<stream_count log st]"
  by (induction log rule: rev_induct) (auto simp: log_ok_snoc in_stream_def)

text \<open>
  Loading a stream returns its events in commit order and the \<open>n\<close>-th of them has version \<open>n\<close>;
  loading all events after a cursor returns at most the requested number of events that directly
  follow the cursor in the log.
\<close>

theorem loads_are_dense:
  assumes "ims_inv s"
  shows "map version_of (ims_load_stream s st None) = map of_nat [0..<stream_count (ims_events s) st] \<and>
    ims_load_all s after limit = take limit (drop (resume_index after) (ims_events s))"
proof -
  have "ims_load_stream s st None = filter (in_stream st) (ims_events s)"
    using ims.load_stream_log [OF assms] by (simp add: after_ok_def in_stream_def [abs_def])
  then show ?thesis
    using ims.invar_log [OF assms] ims.load_all_log [OF assms]
    by (simp add: versions_dense filter_after_drop)
qed

theorem loads_are_dense_witness:
  "\<exists>s :: nat in_memory_store. ims_inv s \<and> map version_of (ims_load_stream s (TextId ''s'') None) = [0] \<and>
     ims_load_all s None 5 = ims_events s"
proof -
  let ?a = "stamp (TextId ''s'') 0 0 (sample_event ''a'')"
  have inv: "ims_inv (ims_of [?a])"
    using log_ok_snoc [of "[]" ?a] by simp
  from inv loads_are_dense [OF inv, of "TextId ''s''" None 5] show ?thesis
    by (intro exI [of _ "ims_of [?a]"]) (simp add: resume_index_def)
qed

end
