(* ===== verification/Subscription.thy ===== *)
theory Subscription
  imports In_Memory_Store
begin

text \<open>
  The explicitly acknowledged catch-up subscription of \<open>src/src/store/subscription.rs\<close>. The
  subscription is generic in the store it polls, so its operations take the store's \<open>load_all\<close>
  as an argument and its properties are proved from the \<open>event_store\<close> contract. Runs that mix
  appends, polls and acknowledgements in any order are an inductive relation.
\<close>

section \<open>Operations\<close>

record subscription_checkpoint =
  sc_global_position :: "u64 option"

record catch_up_subscription =
  cus_checkpoint :: subscription_checkpoint
  cus_delivered_through :: "u64 option"
  cus_batch_size :: usize

definition subscription_new :: "subscription_checkpoint \<Rightarrow> usize \<Rightarrow> catch_up_subscription memory_result" where
  "subscription_new checkpoint batch_size =
    (if batch_size = 0
     then Err (InvalidValue ''subscription.batch_size'' ''must be greater than zero'')
     else Ok \<lparr> cus_checkpoint = checkpoint, cus_delivered_through = None, cus_batch_size = batch_size \<rparr>)"

definition poll ::
  "('s \<Rightarrow> u64 option \<Rightarrow> usize \<Rightarrow> 'e stored_event list) \<Rightarrow> 's \<Rightarrow> catch_up_subscription \<Rightarrow>
   'e stored_event list \<times> catch_up_subscription"
where
  "poll load_all store sub =
    (let events = load_all store (sc_global_position (cus_checkpoint sub)) (cus_batch_size sub)
     in (events, sub\<lparr>cus_delivered_through := map_option position_of (last_of events)\<rparr>))"

definition acknowledge :: "u64 \<Rightarrow> catch_up_subscription \<Rightarrow> unit memory_result \<times> catch_up_subscription" where
  "acknowledge global_position sub =
    (case cus_delivered_through sub of
       None \<Rightarrow> (Err (InvalidValue ''subscription.acknowledge'' ''no events have been delivered''), sub)
     | Some delivered \<Rightarrow>
         if global_position > delivered \<or>
            (case sc_global_position (cus_checkpoint sub) of
               None \<Rightarrow> False | Some current \<Rightarrow> global_position < current)
         then (Err (InvalidValue ''subscription.acknowledge'' ''position is outside the delivered range''), sub)
         else (Ok (), sub\<lparr> cus_checkpoint := \<lparr> sc_global_position = Some global_position \<rparr>,
                          cus_delivered_through := None \<rparr>))"

text \<open>The index of the first event that has not been acknowledged.\<close>

definition next_index :: "catch_up_subscription \<Rightarrow> nat" where
  "next_index sub = resume_index (sc_global_position (cus_checkpoint sub))"

text \<open>A consumer that acknowledges the last event of every batch it polls.\<close>

definition poll_acknowledge ::
  "('s \<Rightarrow> u64 option \<Rightarrow> usize \<Rightarrow> 'e stored_event list) \<Rightarrow> 's \<Rightarrow> catch_up_subscription \<Rightarrow>
   'e stored_event list \<times> catch_up_subscription"
where
  "poll_acknowledge load_all store sub =
    (case poll load_all store sub of
       (events, sub') \<Rightarrow>
         (events, case last_of events of
                    None \<Rightarrow> sub' | Some e \<Rightarrow> snd (acknowledge (position_of e) sub')))"

fun consume ::
  "('s \<Rightarrow> u64 option \<Rightarrow> usize \<Rightarrow> 'e stored_event list) \<Rightarrow> 's \<Rightarrow> nat \<Rightarrow> catch_up_subscription \<Rightarrow>
   'e stored_event list \<times> catch_up_subscription"
where
  "consume load_all store 0 sub = ([], sub)"
| "consume load_all store (Suc n) sub =
    (case poll_acknowledge load_all store sub of
       (events, sub') \<Rightarrow>
         (case consume load_all store n sub' of (rest, sub'') \<Rightarrow> (events @ rest, sub'')))"

section \<open>Runs\<close>

text \<open>
  A run of one subscription against one store: the log grows, batches are delivered and positions
  are acknowledged or refused. The last argument collects every event delivered so far.
\<close>

inductive sub_run ::
  "('s \<Rightarrow> stream_id \<Rightarrow> expected_version \<Rightarrow> 'e new_event list \<Rightarrow> 'e stored_event list memory_result \<times> 's) \<Rightarrow>
   ('s \<Rightarrow> u64 option \<Rightarrow> usize \<Rightarrow> 'e stored_event list) \<Rightarrow> 's \<Rightarrow> catch_up_subscription \<Rightarrow>
   's \<Rightarrow> catch_up_subscription \<Rightarrow> 'e stored_event set \<Rightarrow> bool"
  for app load s0 sub0
where
  start: "sub_run app load s0 sub0 s0 sub0 {}"
| appended: "sub_run app load s0 sub0 s sub seen \<Longrightarrow> app s st x es = (r, s') \<Longrightarrow>
     sub_run app load s0 sub0 s' sub seen"
| polled: "sub_run app load s0 sub0 s sub seen \<Longrightarrow> poll load s sub = (events, sub') \<Longrightarrow>
     sub_run app load s0 sub0 s sub' (seen \<union> set events)"
| acknowledged: "sub_run app load s0 sub0 s sub seen \<Longrightarrow> acknowledge p sub = (r', sub') \<Longrightarrow>
     sub_run app load s0 sub0 s sub' seen"

lemma acknowledge_Ok:
  "acknowledge p sub = (Ok (), sub') \<longleftrightarrow>
     (\<exists>d. cus_delivered_through sub = Some d \<and> p \<le> d \<and>
        (\<forall>c. sc_global_position (cus_checkpoint sub) = Some c \<longrightarrow> c \<le> p) \<and>
        sub' = sub\<lparr> cus_checkpoint := \<lparr> sc_global_position = Some p \<rparr>, cus_delivered_through := None \<rparr>)"
  by (auto simp: acknowledge_def not_less split: option.splits if_splits)

lemma acknowledge_Err: "acknowledge p sub = (Err e, sub') \<Longrightarrow> sub' = sub"
  by (auto simp: acknowledge_def split: option.splits if_splits)

text \<open>What the delivered-through mark means: that batch starts at the checkpoint and was handed out.\<close>

definition delivered_ok :: "'e event_log \<Rightarrow> catch_up_subscription \<Rightarrow> 'e stored_event set \<Rightarrow> bool" where
  "delivered_ok log sub seen \<longleftrightarrow>
    (\<forall>d. cus_delivered_through sub = Some d \<longrightarrow>
       unat d < length log \<and> (\<forall>i. next_index sub \<le> i \<and> i \<le> unat d \<longrightarrow> log ! i \<in> seen))"

definition acknowledged_ok ::
  "'e event_log \<Rightarrow> catch_up_subscription \<Rightarrow> catch_up_subscription \<Rightarrow> 'e stored_event set \<Rightarrow> bool"
where
  "acknowledged_ok log sub0 sub seen \<longleftrightarrow> next_index sub0 \<le> next_index sub \<and>
    (\<forall>i. next_index sub0 \<le> i \<and> i < next_index sub \<longrightarrow> i < length log \<and> log ! i \<in> seen)"

lemma delivered_ok_append: "delivered_ok lg sub seen \<Longrightarrow> delivered_ok (lg @ c) sub seen"
  by (auto simp: delivered_ok_def nth_append)

lemma acknowledged_ok_append: "acknowledged_ok lg sub0 sub seen \<Longrightarrow> acknowledged_ok (lg @ c) sub0 sub seen"
  by (auto simp: acknowledged_ok_def nth_append)

lemma acknowledged_ok_acknowledge:
  assumes "delivered_ok lg sub seen" "acknowledged_ok lg sub0 sub seen" "acknowledge p sub = (Ok (), sub')"
  shows "acknowledged_ok lg sub0 sub' seen"
proof -
  from assms(3) obtain d where d: "cus_delivered_through sub = Some d" "p \<le> d"
    "\<forall>c. sc_global_position (cus_checkpoint sub) = Some c \<longrightarrow> c \<le> p"
    "sub' = sub\<lparr> cus_checkpoint := \<lparr> sc_global_position = Some p \<rparr>, cus_delivered_through := None \<rparr>"
    by (auto simp: acknowledge_Ok)
  have "next_index sub' = Suc (unat p)" "unat p \<le> unat d" "next_index sub \<le> Suc (unat p)"
    using d by (auto simp: next_index_def resume_index_def word_le_nat_alt split: option.splits)
  note idx = this
  have "i < length lg \<and> lg ! i \<in> seen" if i: "next_index sub0 \<le> i" "i < next_index sub'" for i
  proof (cases "i < next_index sub")
    case True
    with i assms(2) show ?thesis by (simp add: acknowledged_ok_def)
  next
    case False
    with i idx have "next_index sub \<le> i" "i \<le> unat d" by auto
    with assms(1) d(1) show ?thesis by (auto simp: delivered_ok_def)
  qed
  then show ?thesis using idx assms(2) by (simp add: acknowledged_ok_def)
qed

context event_store
begin

lemma poll_log:
  assumes "invar s" "poll load_all s sub = (events, sub')"
  shows "events = take (cus_batch_size sub) (drop (next_index sub) (log s))"
    and "sub' = sub\<lparr>cus_delivered_through := map_option position_of (last_of events)\<rparr>"
  using assms filter_after_drop [OF invar_log [OF assms(1)]]
  by (auto simp: poll_def load_all_log next_index_def Let_def)

lemma last_position:
  assumes "invar s" "take n (drop k (log s)) = events" "last_of events = Some e"
  shows "unat (position_of e) = k + length events - 1" "k + length events \<le> length (log s)" "events \<noteq> []"
proof -
  from assms(3) have ne: "events \<noteq> []" and e: "e = last events" by (auto simp: last_of_Some)
  have len: "length events \<le> length (log s) - k" using assms(2) by auto
  moreover have "length events > 0" using ne by simp
  ultimately have bound: "k + length events \<le> length (log s)"
    by linarith
  with \<open>length events > 0\<close> have idx: "k + length events - 1 < length (log s)"
    by linarith
  have "last events = events ! (length events - 1)" using ne by (rule last_conv_nth)
  also have "\<dots> = log s ! (k + (length events - 1))"
  proof -
    have "events ! j = log s ! (k + j)" if "j < length events" for j
      using that bound unfolding assms(2) [symmetric] by simp
    then show ?thesis using ne by simp
  qed
  also have "k + (length events - 1) = k + length events - 1"
    using \<open>length events > 0\<close> by linarith
  finally have "e = log s ! (k + length events - 1)" using e by simp
  then have "position_of e = of_nat (k + length events - 1)"
    using log_ok_position [OF invar_log [OF assms(1)] idx] by simp
  moreover have "k + length events - 1 < 2 ^ 64"
    using idx invar_log [OF assms(1)] by (simp add: log_ok_def)
  ultimately show "unat (position_of e) = k + length events - 1" by simp
  show "k + length events \<le> length (log s)" "events \<noteq> []" by fact+
qed

lemma poll_delivered:
  assumes "invar s" "poll load_all s sub = (events, sub')"
  shows "delivered_ok (log s) sub' (seen \<union> set events)"
proof (cases "last_of events")
  case None
  then show ?thesis using poll_log(2) [OF assms] by (simp add: delivered_ok_def)
next
  case (Some e)
  note lp = last_position [OF assms(1) poll_log(1) [OF assms, symmetric] Some]
  have next': "next_index sub' = next_index sub"
    using poll_log(2) [OF assms] by (simp add: next_index_def)
  have "log s ! i \<in> set events" if "next_index sub \<le> i" "i \<le> unat (position_of e)" for i
  proof -
    have "i - next_index sub < length events" using that lp by (cases "length events") auto
    then have "events ! (i - next_index sub) \<in> set events" by simp
    moreover have "events ! (i - next_index sub) = log s ! i"
      using that \<open>i - next_index sub < length events\<close> lp poll_log(1) [OF assms] by simp
    ultimately show ?thesis by simp
  qed
  then show ?thesis
    using lp Some poll_log(2) [OF assms] next' by (cases "length events") (auto simp: delivered_ok_def)
qed

text \<open>Nothing is acknowledged before it was delivered.\<close>

lemma run_acknowledges_delivered:
  assumes "sub_run append load_all s0 sub0 s sub seen" "invar s0" "cus_delivered_through sub0 = None"
  shows "invar s \<and> delivered_ok (log s) sub seen \<and> acknowledged_ok (log s) sub0 sub seen"
  using assms
proof (induction rule: sub_run.induct)
  case start
  then show ?case by (simp add: delivered_ok_def acknowledged_ok_def)
next
  case (appended s sub seen st x es r s')
  then obtain c where "invar s'" "log s' = log s @ c"
    using append_extends by blast
  with appended delivered_ok_append acknowledged_ok_append show ?case by metis
next
  case (polled s sub seen events sub')
  then have "next_index sub' = next_index sub"
    using poll_log(2) [of s sub events sub'] by (simp add: next_index_def)
  with polled poll_delivered [of s sub events sub' seen] show ?case
    by (auto simp: acknowledged_ok_def)
next
  case (acknowledged s sub seen p r' sub')
  show ?case
  proof (cases r')
    case (Err e)
    then show ?thesis using acknowledged acknowledge_Err by blast
  next
    case (Ok u)
    then have ack: "acknowledge p sub = (Ok (), sub')" using acknowledged.hyps by simp
    then have "cus_delivered_through sub' = None" by (auto simp: acknowledge_Ok)
    with acknowledged ack acknowledged_ok_acknowledge show ?thesis
      by (auto simp: delivered_ok_def [of _ sub'])
  qed
qed

text \<open>A consumer that acknowledges every batch reads the log once, in order.\<close>

lemma poll_acknowledge_log:
  assumes "invar s" "poll_acknowledge load_all s sub = (events, sub')"
  shows "events = take (cus_batch_size sub) (drop (next_index sub) (log s))"
    "cus_batch_size sub' = cus_batch_size sub"
    "events \<noteq> [] \<Longrightarrow> next_index sub' = next_index sub + length events"
    "events = [] \<Longrightarrow> next_index sub' = next_index sub"
proof -
  obtain sub1 where p: "poll load_all s sub = (events, sub1)"
    using assms(2) by (auto simp: poll_acknowledge_def split: prod.splits)
  note pl = poll_log [OF assms(1) p]
  show "events = take (cus_batch_size sub) (drop (next_index sub) (log s))" by (rule pl)
  show "cus_batch_size sub' = cus_batch_size sub"
    using assms(2) p pl(2)
    by (auto simp: poll_acknowledge_def acknowledge_def split: option.splits)
  show "next_index sub' = next_index sub" if "events = []"
    using that assms(2) p pl(2) by (auto simp: poll_acknowledge_def next_index_def)
  show "next_index sub' = next_index sub + length events" if ne: "events \<noteq> []"
  proof -
    obtain e where e: "last_of events = Some e" using last_of_eq [OF ne] by (rule that)
    note lp = last_position [OF assms(1) pl(1) [symmetric] e]
    have "\<forall>c. sc_global_position (cus_checkpoint sub) = Some c \<longrightarrow> \<not> position_of e < c"
      using lp by (auto simp: next_index_def resume_index_def word_less_nat_alt)
    then have "sub' = sub\<lparr> cus_checkpoint := \<lparr> sc_global_position = Some (position_of e) \<rparr>,
        cus_delivered_through := None \<rparr>"
      using assms(2) p pl(2) e
      by (auto simp: poll_acknowledge_def acknowledge_def split: option.splits)
    then show ?thesis using lp by (simp add: next_index_def resume_index_def)
  qed
qed

lemma consume_log:
  assumes "invar s"
  shows "fst (consume load_all s n sub) = take (n * cus_batch_size sub) (drop (next_index sub) (log s))"
proof (induction n arbitrary: sub)
  case (Suc n)
  obtain events sub' where pa: "poll_acknowledge load_all s sub = (events, sub')" by force
  note pal = poll_acknowledge_log [OF assms pa]
  have "fst (consume load_all s (Suc n) sub) = events @ fst (consume load_all s n sub')"
    by (simp add: pa split: prod.splits)
  also have "\<dots> = events @ take (n * cus_batch_size sub) (drop (next_index sub') (log s))"
    by (simp add: Suc.IH pal(2))
  also have "\<dots> = take (Suc n * cus_batch_size sub) (drop (next_index sub) (log s))"
  proof (cases "events = []")
    case True
    then have "cus_batch_size sub = 0 \<or> drop (next_index sub) (log s) = []" using pal(1) by auto
    then show ?thesis using True pal(4) by auto
  next
    case False
    have "take (n * cus_batch_size sub) (drop (length events) (drop (next_index sub) (log s))) =
        take (n * cus_batch_size sub) (drop (cus_batch_size sub) (drop (next_index sub) (log s)))"
      using pal(1) by (auto simp: min_def)
    then show ?thesis
      using pal(1) pal(3) [OF False] by (simp add: take_add add.commute)
  qed
  finally show ?case .
qed simp

end

section \<open>Properties of the subscription\<close>

text \<open>
  At-least-once delivery. In any run of appends, polls and acknowledgements against the
  in-memory store, in any order and with refused acknowledgements too, every event between the
  starting checkpoint and the current one was handed out by a poll, so no event is skipped and
  none is acknowledged before it was delivered; the checkpoint never moves backwards.
\<close>

theorem acknowledged_events_were_delivered:
  assumes "sub_run ims_append ims_load_all s0 sub0 s sub seen" "ims_inv s0"
    "cus_delivered_through sub0 = None"
  shows "next_index sub0 \<le> next_index sub \<and>
    (\<forall>i. next_index sub0 \<le> i \<and> i < next_index sub \<longrightarrow> i < length (ims_events s) \<and> ims_events s ! i \<in> seen)"
  using ims.run_acknowledges_delivered [OF assms] by (simp add: acknowledged_ok_def)

theorem acknowledged_events_were_delivered_witness:
  "\<exists>(s :: nat in_memory_store) sub seen sub0.
     sub_run ims_append ims_load_all s sub0 s sub seen \<and> ims_inv s \<and> next_index sub0 = 0 \<and>
     next_index sub = 1 \<and> ims_events s ! 0 \<in> seen"
proof -
  let ?a = "stamp (TextId ''s'') 0 0 (sample_event ''a'')"
  let ?s = "ims_of [?a]"
  let ?init = "\<lparr> cus_checkpoint = \<lparr> sc_global_position = None \<rparr>, cus_delivered_through = None, cus_batch_size = 8 \<rparr>"
  let ?done = "?init\<lparr> cus_checkpoint := \<lparr> sc_global_position = Some 0 \<rparr> \<rparr>"
  have inv: "ims_inv ?s" using log_ok_snoc [of "[]" ?a] by simp
  have polled: "poll ims_load_all ?s ?init = ([?a], ?init\<lparr>cus_delivered_through := Some 0\<rparr>)"
    by (simp add: poll_def ims_load_all_def after_ok_def last_of_def Let_def)
  have acked: "acknowledge 0 (?init\<lparr>cus_delivered_through := Some 0\<rparr>) = (Ok (), ?done)"
    by (simp add: acknowledge_def)
  have run: "sub_run ims_append ims_load_all ?s ?init ?s ?done ({} \<union> set [?a])"
    by (rule sub_run.acknowledged [OF sub_run.polled [OF sub_run.start polled] acked])
  have "next_index ?init = 0" "next_index ?done = 1"
    by (simp_all add: next_index_def resume_index_def)
  with run inv acknowledged_events_were_delivered [OF run inv] show ?thesis by fastforce
qed

text \<open>
  Polling is repeatable: until something is acknowledged, polling again against a store that
  only grew returns the same batch again, possibly extended up to the batch size.
\<close>

theorem poll_redelivers:
  assumes "ims_inv s" "poll ims_load_all s sub = (events, sub')"
    "ims_append s st x es = (r, s')"
  shows "\<exists>more. fst (poll ims_load_all s' sub') = events @ more \<and>
    length (events @ more) \<le> cus_batch_size sub"
proof -
  obtain c where s': "ims_inv s'" "ims_events s' = ims_events s @ c"
    using ims.append_extends [OF assms(1,3)] by blast
  obtain events' sub'' where p: "poll ims_load_all s' sub' = (events', sub'')" by force
  have "next_index sub' = next_index sub" "cus_batch_size sub' = cus_batch_size sub"
    using ims.poll_log(2) [OF assms(1,2)] by (simp_all add: next_index_def)
  then have "events' = take (cus_batch_size sub) (drop (next_index sub) (ims_events s @ c))"
    using ims.poll_log(1) [OF s'(1) p] s'(2) by simp
  moreover have "events = take (cus_batch_size sub) (drop (next_index sub) (ims_events s))"
    by (rule ims.poll_log(1) [OF assms(1,2)])
  ultimately have "events' = events @ take (cus_batch_size sub - length (drop (next_index sub) (ims_events s)))
      (drop (next_index sub - length (ims_events s)) c)"
    by simp
  moreover have "length events' \<le> cus_batch_size sub"
    using \<open>events' = take _ _\<close> by simp
  ultimately show ?thesis using p by auto
qed

theorem poll_redelivers_witness:
  "\<exists>more. fst (poll ims_load_all
       (snd (ims_append (ims_of [stamp (TextId ''s'') 0 0 (sample_event ''a'')]) (TextId ''s'') AnyVersion [sample_event ''b'']))
       (snd (poll ims_load_all (ims_of [stamp (TextId ''s'') 0 0 (sample_event ''a'')])
          \<lparr> cus_checkpoint = \<lparr> sc_global_position = None \<rparr>, cus_delivered_through = None, cus_batch_size = 8 \<rparr>)))
     = [stamp (TextId ''s'') 0 0 (sample_event ''a'')] @ more"
proof -
  let ?a = "stamp (TextId ''s'') 0 0 (sample_event ''a'')"
  let ?sub = "\<lparr> cus_checkpoint = \<lparr> sc_global_position = None \<rparr>, cus_delivered_through = None, cus_batch_size = 8 \<rparr>"
  have inv: "ims_inv (ims_of [?a])" using log_ok_snoc [of "[]" ?a] by simp
  have polled: "poll ims_load_all (ims_of [?a]) ?sub = ([?a], ?sub\<lparr>cus_delivered_through := Some 0\<rparr>)"
    by (simp add: poll_def ims_load_all_def after_ok_def last_of_def Let_def)
  show ?thesis
    using poll_redelivers [OF inv polled prod.collapse [symmetric], of "TextId ''s''" AnyVersion "[sample_event ''b'']"]
    by (auto simp: polled)
qed

text \<open>
  C17: a consumer that acknowledges the last event of each batch receives, after \<open>n\<close> rounds, the
  first \<open>n\<close> batches' worth of events after its checkpoint, each exactly once and in commit order.
\<close>

theorem consumer_reads_log_in_order:
  assumes "ims_inv s"
  shows "fst (consume ims_load_all s n sub) =
    take (n * cus_batch_size sub) (drop (next_index sub) (ims_events s))"
  by (rule ims.consume_log [OF assms])

theorem consumer_reads_log_in_order_witness:
  "ims_inv (ims_of [stamp (TextId ''s'') 0 0 (sample_event ''a'')]) \<and>
   fst (consume ims_load_all (ims_of [stamp (TextId ''s'') 0 0 (sample_event ''a'')]) 3
     \<lparr> cus_checkpoint = \<lparr> sc_global_position = None \<rparr>, cus_delivered_through = None, cus_batch_size = 1 \<rparr>)
   = [stamp (TextId ''s'') 0 0 (sample_event ''a'')]"
proof -
  let ?a = "stamp (TextId ''s'') 0 0 (sample_event ''a'')"
  have inv: "ims_inv (ims_of [?a])" using log_ok_snoc [of "[]" ?a] by simp
  then show ?thesis
    using consumer_reads_log_in_order [OF inv]
    by (simp add: next_index_def resume_index_def del: consume.simps)
qed

end
