(* ===== verification/Crc32c.thy ===== *)
theory Crc32c
  imports Prelude
begin

text \<open>
  The checksum of \<open>src/src/store/frame.rs\<close>: the table-driven CRC-32C that the journal and the
  snapshot frames use, and the bitwise reference that the unit tests of the same file compare it
  with on sample inputs. The two agree on every input.
\<close>

section \<open>Definitions\<close>

definition crc_bit :: "u32 \<Rightarrow> u32" where
  "crc_bit crc = (let mask = 0 - (crc AND 1) in drop_bit 1 crc XOR (0x82f63b78 AND mask))"

fun crc_bits :: "nat \<Rightarrow> u32 \<Rightarrow> u32" where
  "crc_bits 0 crc = crc"
| "crc_bits (Suc n) crc = crc_bits n (crc_bit crc)"

definition crc32c_table :: "u32 list" where
  "crc32c_table = map (\<lambda>index. crc_bits 8 (of_nat index)) [0..<256]"

definition crc_table_step :: "u32 \<Rightarrow> u8 \<Rightarrow> u32" where
  "crc_table_step crc byte =
    (let index = unat (hd (u32_le_bytes crc) XOR byte) in drop_bit 8 crc XOR (crc32c_table ! index))"

definition crc32c :: "bytes \<Rightarrow> u32" where
  "crc32c bs = NOT (foldl crc_table_step (NOT 0) bs)"

definition reference_step :: "u32 \<Rightarrow> u8 \<Rightarrow> u32" where
  "reference_step crc byte = crc_bits 8 (crc XOR ucast byte)"

definition reference_crc32c :: "bytes \<Rightarrow> u32" where
  "reference_crc32c bs = NOT (foldl reference_step (NOT 0) bs)"

section \<open>The bit step is linear\<close>

lemma crc_bit_eq: "crc_bit x = drop_bit 1 x XOR (if odd x then 0x82f63b78 else 0)"
proof (cases "odd x")
  case True
  then have "x AND 1 = 1" by (simp add: and_one_eq odd_iff_mod_2_eq_one)
  then show ?thesis using True by (simp add: crc_bit_def)
next
  case False
  then have "x AND 1 = 0" by (simp add: and_one_eq even_iff_mod_2_eq_zero)
  then show ?thesis using False by (simp add: crc_bit_def)
qed

lemma odd_xor: "odd (a XOR b) \<longleftrightarrow> odd a \<noteq> odd (b :: u32)"
  by (simp add: even_xor_iff)

lemma crc_bit_xor: "crc_bit (a XOR b) = crc_bit a XOR crc_bit b"
  by (cases "odd a"; cases "odd b")
    (simp_all add: crc_bit_eq odd_xor drop_bit_xor xor.assoc xor.left_commute xor.commute)

lemma crc_bits_xor: "crc_bits n (a XOR b) = crc_bits n a XOR crc_bits n b"
  by (induction n arbitrary: a b) (simp_all add: crc_bit_xor)

text \<open>A word whose low bits are zero is only shifted.\<close>

lemma crc_bits_shift: "take_bit n x = 0 \<Longrightarrow> crc_bits n x = drop_bit n (x :: u32)"
proof (induction n arbitrary: x)
  case (Suc n)
  from Suc.prems have low: "\<not> bit x i" if "i < Suc n" for i
    using that by (metis bit_0_eq bit_take_bit_iff bot_apply bot_bool_def)
  have "even x" using low [of 0] by (simp add: bit_0)
  then have "crc_bit x = drop_bit 1 x" by (simp add: crc_bit_eq)
  moreover have "take_bit n (drop_bit 1 x) = 0"
    using low by (intro bit_word_eqI) (auto simp: bit_take_bit_iff bit_drop_bit_eq)
  ultimately show ?case using Suc.IH [of "drop_bit 1 x"] by simp
qed simp

lemma split_low_byte: "(x :: u32) = take_bit 8 x XOR push_bit 8 (drop_bit 8 x)"
  by (rule bit_word_eqI)
    (auto simp: bit_xor_iff bit_take_bit_iff bit_push_bit_iff bit_drop_bit_eq dest: bit_imp_le_length)

lemma crc_byte: "crc_bits 8 x = crc_bits 8 (take_bit 8 x) XOR drop_bit 8 x"
proof -
  have "take_bit 8 (push_bit 8 (drop_bit 8 x)) = 0"
    by (intro bit_word_eqI) (auto simp: bit_take_bit_iff bit_push_bit_iff)
  then have "crc_bits 8 (push_bit 8 (drop_bit 8 x)) = drop_bit 8 (push_bit 8 (drop_bit 8 x))"
    by (rule crc_bits_shift)
  also have "\<dots> = drop_bit 8 x"
    by (intro bit_word_eqI) (auto simp: bit_push_bit_iff bit_drop_bit_eq dest: bit_imp_le_length)
  finally show ?thesis
    by (subst split_low_byte) (simp only: crc_bits_xor)
qed

lemma nth_table: "i < n \<Longrightarrow> map f [0..<n] ! i = f i"
  by simp

lemma crc32c_table_nth: "i < 256 \<Longrightarrow> crc32c_table ! i = crc_bits 8 (of_nat i)"
  unfolding crc32c_table_def by (rule nth_table)

lemma crc_step_agrees: "crc_table_step crc byte = reference_step crc byte"
proof -
  let ?index = "(ucast crc :: u8) XOR byte"
  have idx: "of_nat (unat ?index) = take_bit 8 (crc XOR ucast byte)"
    by (rule bit_word_eqI)
      (auto simp: bit_ucast_iff bit_xor_iff bit_take_bit_iff dest: bit_imp_le_length simp flip: unsigned_ucast_eq)
  have "drop_bit 8 (ucast byte :: u32) = 0"
    by (rule bit_word_eqI) (auto simp: bit_ucast_iff bit_drop_bit_eq dest: bit_imp_le_length)
  then have high: "drop_bit 8 (crc XOR ucast byte) = drop_bit 8 crc" by (simp add: drop_bit_xor)
  have "crc32c_table ! unat ?index = crc_bits 8 (take_bit 8 (crc XOR ucast byte))"
    unfolding idx [symmetric] by (rule crc32c_table_nth [OF unat_u8_less])
  moreover have "hd (u32_le_bytes crc) = ucast crc" by (simp add: eval_nat_numeral)
  ultimately show ?thesis
    unfolding crc_table_step_def reference_step_def Let_def crc_byte [of "crc XOR ucast byte"] high
    by (simp only: xor.commute)
qed

section \<open>Error detection\<close>

lemma xor_cancel: "a XOR c = b XOR c \<Longrightarrow> a = (b :: u32)"
  by (metis xor.assoc xor.right_neutral xor_self_eq)

lemma crc_bit_zero: "crc_bit z = 0 \<Longrightarrow> z = 0"
proof -
  assume zero: "crc_bit z = 0"
  have "even z"
  proof (rule ccontr)
    assume "odd z"
    with zero have "drop_bit 1 z XOR 0x82f63b78 = 0x82f63b78 XOR (0x82f63b78 :: u32)"
      by (simp add: crc_bit_eq)
    then have "drop_bit 1 z = (0x82f63b78 :: u32)" by (rule xor_cancel)
    then have "bit (drop_bit 1 z) 31" by simp
    then have "bit z 32" by (simp add: bit_drop_bit_eq)
    then show False using bit_imp_le_length [of z 32] by simp
  qed
  with zero have "drop_bit 1 z = 0" by (simp add: crc_bit_eq)
  then have high: "\<not> bit z (Suc i)" for i
    using bit_drop_bit_eq [of 1 z] by (simp add: fun_eq_iff)
  show "z = 0"
  proof (rule bit_word_eqI)
    fix i show "bit z i = bit 0 i" using \<open>even z\<close> high by (cases i) (simp_all add: bit_0)
  qed
qed

lemma crc_bits_inject: "crc_bits n x = crc_bits n y \<Longrightarrow> x = y"
proof (induction n arbitrary: x y)
  case (Suc n)
  then have "crc_bit x = crc_bit y" by simp
  then have "crc_bit (x XOR y) = 0" by (simp add: crc_bit_xor)
  then have "x XOR y = y XOR y" using crc_bit_zero by simp
  then show ?case by (rule xor_cancel)
qed simp

lemma crc_fold_inject:
  "foldl reference_step x bs = foldl reference_step y bs \<Longrightarrow> x = y"
  by (induction bs arbitrary: x y) (auto simp: reference_step_def dest!: crc_bits_inject xor_cancel)

lemma reference_step_byte: "reference_step crc a = reference_step crc b \<Longrightarrow> a = b"
proof -
  assume "reference_step crc a = reference_step crc b"
  then have "ucast a XOR crc = (ucast b XOR crc :: u32)"
    unfolding reference_step_def by (metis crc_bits_inject xor.commute)
  then have "(ucast a :: u32) = ucast b" by (rule xor_cancel)
  then have "bit (ucast a :: u32) i = bit (ucast b :: u32) i" for i by simp
  then show "a = b" by (intro bit_word_eqI) (force simp: bit_ucast_iff)
qed

lemma crc32c_reference: "crc32c bs = reference_crc32c bs"
  by (simp add: crc32c_def reference_crc32c_def crc_step_agrees [abs_def])

lemma crc32c_byte_change: "a \<noteq> b \<Longrightarrow> crc32c (pre @ a # post) \<noteq> crc32c (pre @ b # post)"
  by (auto simp: crc32c_reference reference_crc32c_def dest!: crc_fold_inject reference_step_byte)

text \<open>
  C7: the table-driven checksum that the code runs equals the bit-by-bit definition of CRC-32C on
  every input, and both give the published check value on the standard test string.
\<close>

theorem crc32c_table_correct:
  "crc32c bs = reference_crc32c bs \<and> crc32c (as_bytes ''123456789'') = 0xe3069283"
proof -
  have "reference_crc32c (as_bytes ''123456789'') = 0xe3069283"
    by code_simp
  then show ?thesis by (simp add: crc32c_reference)
qed

end
