(* ===== verification/Disk_IO.thy ===== *)
theory Disk_IO
  imports Memory_Types
begin

text \<open>
  The part of \<open>std::fs::File\<close> that the durable stores use, as a handle on the bytes of one file:
  its contents, its position and the outcomes the operating system will give to the calls to
  come. A call takes the next outcome: it may complete, transfer only part of the requested bytes
  (\<open>read\<close> and \<open>write\<close> may), or fail with a message. \<open>write_all\<close> and \<open>read_exact\<close> are the loops
  of the standard library over those calls.
\<close>

section \<open>Handles and system calls\<close>

datatype io_outcome = IoDone | IoShort nat | IoFault string

record file_handle =
  fh_bytes :: bytes
  fh_pos :: usize
  fh_plan :: "io_outcome list"

type_synonym 'a io_result = "('a, string) result"

definition next_outcome :: "file_handle \<Rightarrow> io_outcome \<times> file_handle" where
  "next_outcome d = (case fh_plan d of [] \<Rightarrow> (IoDone, d) | x # p \<Rightarrow> (x, d\<lparr>fh_plan := p\<rparr>))"

definition resized :: "nat \<Rightarrow> bytes \<Rightarrow> bytes" where
  "resized n bs = take n bs @ replicate (n - length bs) 0"

definition write_at :: "nat \<Rightarrow> bytes \<Rightarrow> bytes \<Rightarrow> bytes" where
  "write_at pos chunk bs = (if chunk = [] then bs else resized pos bs @ chunk @ drop (pos + length chunk) bs)"

definition file_call :: "(file_handle \<Rightarrow> 'a \<times> file_handle) \<Rightarrow> file_handle \<Rightarrow> 'a io_result \<times> file_handle" where
  "file_call f d =
    (case next_outcome d of
       (IoFault m, d') \<Rightarrow> (Err m, d')
     | (_, d') \<Rightarrow> (case f d' of (a, d'') \<Rightarrow> (Ok a, d'')))"

definition file_len :: "file_handle \<Rightarrow> nat io_result \<times> file_handle" where
  "file_len = file_call (\<lambda>d. (length (fh_bytes d), d))"

definition file_set_len :: "nat \<Rightarrow> file_handle \<Rightarrow> unit io_result \<times> file_handle" where
  "file_set_len n = file_call (\<lambda>d. ((), d\<lparr>fh_bytes := resized n (fh_bytes d)\<rparr>))"

definition file_seek_start :: "nat \<Rightarrow> file_handle \<Rightarrow> unit io_result \<times> file_handle" where
  "file_seek_start n = file_call (\<lambda>d. ((), d\<lparr>fh_pos := n\<rparr>))"

definition file_seek_end :: "file_handle \<Rightarrow> unit io_result \<times> file_handle" where
  "file_seek_end = file_call (\<lambda>d. ((), d\<lparr>fh_pos := length (fh_bytes d)\<rparr>))"

definition file_sync :: "file_handle \<Rightarrow> unit io_result \<times> file_handle" where
  "file_sync = file_call (\<lambda>d. ((), d))"

definition file_read :: "nat \<Rightarrow> file_handle \<Rightarrow> bytes io_result \<times> file_handle" where
  "file_read n d =
    (case next_outcome d of
       (IoFault m, d') \<Rightarrow> (Err m, d')
     | (IoDone, d') \<Rightarrow>
         (let chunk = take n (drop (fh_pos d') (fh_bytes d'))
          in (Ok chunk, d'\<lparr>fh_pos := fh_pos d' + length chunk\<rparr>))
     | (IoShort k, d') \<Rightarrow>
         (let chunk = take (min n (max 1 k)) (drop (fh_pos d') (fh_bytes d'))
          in (Ok chunk, d'\<lparr>fh_pos := fh_pos d' + length chunk\<rparr>)))"

definition file_write :: "bytes \<Rightarrow> file_handle \<Rightarrow> nat io_result \<times> file_handle" where
  "file_write bs d =
    (case next_outcome d of
       (IoFault m, d') \<Rightarrow> (Err m, d')
     | (IoDone, d') \<Rightarrow>
         (Ok (length bs), d'\<lparr>fh_bytes := write_at (fh_pos d') bs (fh_bytes d'), fh_pos := fh_pos d' + length bs\<rparr>)
     | (IoShort k, d') \<Rightarrow>
         (let chunk = take k bs
          in (Ok (length chunk),
              d'\<lparr>fh_bytes := write_at (fh_pos d') chunk (fh_bytes d'), fh_pos := fh_pos d' + length chunk\<rparr>)))"

section \<open>The loops of the standard library\<close>

function write_all :: "bytes \<Rightarrow> file_handle \<Rightarrow> unit io_result \<times> file_handle" where
  "write_all bs d =
    (if bs = [] then (Ok (), d)
     else case file_write bs d of
       (Err m, d') \<Rightarrow> (Err m, d')
     | (Ok n, d') \<Rightarrow>
         if n = 0 then (Err ''failed to write whole buffer'', d') else write_all (drop n bs) d')"
  by pat_completeness auto
termination by (relation "measure (\<lambda>(bs, d). length bs)") auto

declare write_all.simps [simp del]

text \<open>A read that stops at the end of the file, with what it had transferred until then.\<close>

function fill_buffer :: "nat \<Rightarrow> bytes \<Rightarrow> file_handle \<Rightarrow> bytes io_result \<times> file_handle" where
  "fill_buffer n out d =
    (if length out < n then
       (case file_read (n - length out) d of
          (Err m, d') \<Rightarrow> (Err m, d')
        | (Ok chunk, d') \<Rightarrow> if chunk = [] then (Ok out, d') else fill_buffer n (out @ chunk) d')
     else (Ok out, d))"
  by pat_completeness auto
termination by (relation "measure (\<lambda>(n, out, d). n - length out)") (auto simp: length_greater_0_conv [symmetric] simp del: length_greater_0_conv)

declare fill_buffer.simps [simp del]

definition read_exact :: "nat \<Rightarrow> file_handle \<Rightarrow> bytes io_result \<times> file_handle" where
  "read_exact n d =
    (case fill_buffer n [] d of
       (Err m, d') \<Rightarrow> (Err m, d')
     | (Ok out, d') \<Rightarrow> if length out = n then (Ok out, d') else (Err ''failed to fill whole buffer'', d'))"

section \<open>What the calls do\<close>

definition io_fault :: "io_outcome \<Rightarrow> bool" where
  "io_fault x \<longleftrightarrow> (case x of IoFault _ \<Rightarrow> True | IoShort k \<Rightarrow> k = 0 | IoDone \<Rightarrow> False)"

text \<open>No call to come fails: transfers may still be cut into pieces of any non-zero size.\<close>

definition no_faults :: "file_handle \<Rightarrow> bool" where
  "no_faults d \<longleftrightarrow> list_all (\<lambda>x. \<not> io_fault x) (fh_plan d)"

lemma next_outcome_eq:
  "next_outcome d = (x, d') \<Longrightarrow> fh_bytes d' = fh_bytes d \<and> fh_pos d' = fh_pos d"
  by (auto simp: next_outcome_def split: list.splits)

lemma next_outcome_no_faults:
  "no_faults d \<Longrightarrow> next_outcome d = (x, d') \<Longrightarrow> \<not> io_fault x \<and> no_faults d'"
  by (auto simp: next_outcome_def no_faults_def io_fault_def split: list.splits)

lemma resized_length [simp]: "length (resized n bs) = n"
  by (simp add: resized_def)

lemma resized_le: "n \<le> length bs \<Longrightarrow> resized n bs = take n bs"
  by (simp add: resized_def)

lemma write_at_end: "write_at (length bs) chunk bs = bs @ chunk"
  by (simp add: write_at_def resized_le)

lemma take_min_length: "take (min (length xs) k) xs = take k xs"
  by (simp add: min_def)

lemma min_length_0: "min (length xs) k = 0 \<longleftrightarrow> xs = [] \<or> k = 0"
  by (auto simp: min_def)

lemma take_min_drop: "take (min (length xs - i) k) (drop i xs) = take k (drop i xs)"
  by (simp add: min_def)

lemma file_call_cases:
  assumes "file_call f d = (r, d')"
  obtains (fault) m where "r = Err m" "fh_bytes d' = fh_bytes d" "fh_pos d' = fh_pos d" "\<not> no_faults d"
  | (finished) a d0 where "r = Ok a" "fh_bytes d0 = fh_bytes d" "fh_pos d0 = fh_pos d"
      "no_faults d \<Longrightarrow> no_faults d0" "f d0 = (a, d')"
proof -
  obtain x d0 where n: "next_outcome d = (x, d0)" by force
  note eqs = next_outcome_eq [OF n] next_outcome_no_faults [OF _ n]
  show thesis
  proof (cases x)
    case (IoFault m)
    with assms n eqs show thesis by (auto simp: file_call_def io_fault_def intro: fault)
  qed (use assms n eqs in \<open>auto simp: file_call_def intro: finished split: prod.splits\<close>)
qed

lemma file_len_spec:
  "file_len d = (r, d') \<Longrightarrow> fh_bytes d' = fh_bytes d \<and> fh_pos d' = fh_pos d \<and>
     (\<forall>n. r = Ok n \<longrightarrow> n = length (fh_bytes d)) \<and> (no_faults d \<longrightarrow> no_faults d' \<and> r = Ok (length (fh_bytes d)))"
  unfolding file_len_def by (erule file_call_cases) auto

lemma file_set_len_spec:
  "file_set_len n d = (r, d') \<Longrightarrow> fh_pos d' = fh_pos d \<and>
     (\<forall>m. r = Err m \<longrightarrow> fh_bytes d' = fh_bytes d) \<and> (r = Ok () \<longrightarrow> fh_bytes d' = resized n (fh_bytes d)) \<and>
     (no_faults d \<longrightarrow> no_faults d' \<and> r = Ok ())"
  unfolding file_set_len_def by (erule file_call_cases) (auto simp: no_faults_def)

lemma file_seek_start_spec:
  "file_seek_start n d = (r, d') \<Longrightarrow> fh_bytes d' = fh_bytes d \<and> (r = Ok () \<longrightarrow> fh_pos d' = n) \<and>
     (no_faults d \<longrightarrow> no_faults d' \<and> r = Ok ())"
  unfolding file_seek_start_def by (erule file_call_cases) (auto simp: no_faults_def)

lemma file_seek_end_spec:
  "file_seek_end d = (r, d') \<Longrightarrow> fh_bytes d' = fh_bytes d \<and> (r = Ok () \<longrightarrow> fh_pos d' = length (fh_bytes d)) \<and>
     (no_faults d \<longrightarrow> no_faults d' \<and> r = Ok ())"
  unfolding file_seek_end_def by (erule file_call_cases) (auto simp: no_faults_def)

lemma file_sync_spec:
  "file_sync d = (r, d') \<Longrightarrow> fh_bytes d' = fh_bytes d \<and> fh_pos d' = fh_pos d \<and>
     (no_faults d \<longrightarrow> no_faults d' \<and> r = Ok ())"
  unfolding file_sync_def by (erule file_call_cases) auto

lemma file_read_spec:
  assumes "file_read n d = (r, d')"
  shows "fh_bytes d' = fh_bytes d \<and> (no_faults d \<longrightarrow> no_faults d' \<and> (\<exists>chunk. r = Ok chunk)) \<and>
    (\<forall>chunk. r = Ok chunk \<longrightarrow> fh_pos d' = fh_pos d + length chunk \<and> length chunk \<le> n \<and>
       chunk = take (length chunk) (drop (fh_pos d) (fh_bytes d)) \<and>
       (chunk = [] \<longrightarrow> n = 0 \<or> length (fh_bytes d) \<le> fh_pos d))"
proof -
  obtain x d0 where nx: "next_outcome d = (x, d0)" by force
  note eqs = next_outcome_eq [OF nx] next_outcome_no_faults [OF _ nx]
  have nf: "no_faults (d0\<lparr>fh_pos := i\<rparr>) = no_faults d0" for i by (simp add: no_faults_def)
  show ?thesis
  proof (cases x)
    case (IoFault m)
    with assms nx eqs show ?thesis by (auto simp: file_read_def io_fault_def)
  qed (use assms nx eqs nf in \<open>auto simp: file_read_def Let_def take_min_drop\<close>)
qed

lemma file_write_spec:
  assumes "file_write bs d = (r, d')" "fh_pos d = length (fh_bytes d)"
  shows "(no_faults d \<longrightarrow> no_faults d') \<and> fh_pos d' = length (fh_bytes d') \<and>
    (\<forall>m. r = Err m \<longrightarrow> fh_bytes d' = fh_bytes d \<and> \<not> no_faults d) \<and>
    (\<forall>n. r = Ok n \<longrightarrow> n \<le> length bs \<and> fh_bytes d' = fh_bytes d @ take n bs \<and>
       (n = 0 \<longrightarrow> bs = [] \<or> \<not> no_faults d))"
proof -
  obtain x d0 where nx: "next_outcome d = (x, d0)" by force
  note eqs = next_outcome_eq [OF nx] next_outcome_no_faults [OF _ nx]
  have nf: "no_faults (d0\<lparr>fh_bytes := b, fh_pos := i\<rparr>) = no_faults d0" for i b
    by (simp add: no_faults_def)
  show ?thesis
  proof (cases x)
    case (IoFault m)
    with assms nx eqs show ?thesis by (auto simp: file_write_def io_fault_def)
  qed (use assms nx eqs nf in \<open>auto simp: file_write_def Let_def write_at_end take_min_length min_length_0 io_fault_def\<close>)
qed

lemma write_all_spec:
  assumes "write_all bs d = (r, d')" "fh_pos d = length (fh_bytes d)"
  shows "\<exists>k \<le> length bs. fh_bytes d' = fh_bytes d @ take k bs \<and> fh_pos d' = length (fh_bytes d') \<and>
    (r = Ok () \<longrightarrow> k = length bs) \<and> (no_faults d \<longrightarrow> no_faults d' \<and> r = Ok ())"
  using assms
proof (induction bs d arbitrary: r d' rule: write_all.induct)
  case (1 bs d)
  show ?case
  proof (cases "bs = []")
    case True
    with 1 show ?thesis by (auto simp: write_all.simps)
  next
    case False
    obtain w d1 where w: "file_write bs d = (w, d1)" by force
    note spec = file_write_spec [OF w "1.prems"(2)]
    show ?thesis
    proof (cases w)
      case (Err m)
      with 1 w spec False show ?thesis by (intro exI [of _ 0]) (auto simp: write_all.simps [of bs])
    next
      case (Ok n)
      show ?thesis
      proof (cases "n = 0")
        case True
        with 1 w spec Ok False show ?thesis
          by (intro exI [of _ 0]) (auto simp: write_all.simps [of bs])
      next
        case n: False
        have "write_all (drop n bs) d1 = (r, d')"
          using "1.prems"(1) w Ok n False by (simp add: write_all.simps [of bs])
        with "1.IH" [OF False w [symmetric] Ok n] spec obtain k where
          "k \<le> length (drop n bs)" "fh_bytes d' = fh_bytes d1 @ take k (drop n bs)"
          "fh_pos d' = length (fh_bytes d')" "r = Ok () \<longrightarrow> k = length (drop n bs)"
          "no_faults d \<longrightarrow> no_faults d' \<and> r = Ok ()" by blast
        with spec Ok show ?thesis
          by (intro exI [of _ "n + k"]) (auto simp: take_add)
      qed
    qed
  qed
qed

lemma fill_buffer_spec:
  assumes "fill_buffer n out d = (r, d')" "length out \<le> n"
  shows "fh_bytes d' = fh_bytes d \<and> (no_faults d \<longrightarrow> no_faults d' \<and> (\<exists>got. r = Ok got)) \<and>
    (\<forall>got. r = Ok got \<longrightarrow> got = out @ take (n - length out) (drop (fh_pos d) (fh_bytes d)) \<and>
       fh_pos d' + length out = fh_pos d + length got)"
  using assms
proof (induction n out d arbitrary: r d' rule: fill_buffer.induct)
  case (1 n out d)
  show ?case
  proof (cases "length out < n")
    case False
    with 1 show ?thesis by (auto simp: fill_buffer.simps [of n out])
  next
    case True
    obtain w d1 where w: "file_read (n - length out) d = (w, d1)" by force
    note spec = file_read_spec [OF w]
    show ?thesis
    proof (cases w)
      case (Err m)
      with 1 w spec True show ?thesis by (auto simp: fill_buffer.simps [of n out])
    next
      case (Ok chunk)
      show ?thesis
      proof (cases "chunk = []")
        case nil: True
        with spec Ok True have "length (fh_bytes d) \<le> fh_pos d" by auto
        with 1 w spec Ok True nil show ?thesis by (auto simp: fill_buffer.simps [of n out])
      next
        case ne: False
        have step: "fill_buffer n (out @ chunk) d1 = (r, d')"
          using "1.prems"(1) w Ok ne True by (simp add: fill_buffer.simps [of n out])
        have chunk: "chunk = take (length chunk) (drop (fh_pos d) (fh_bytes d))"
          and len: "length chunk \<le> n - length out" and pos: "fh_pos d1 = fh_pos d + length chunk"
          and bytes: "fh_bytes d1 = fh_bytes d" using spec Ok by blast+
        note IH = "1.IH" [OF True w [symmetric] Ok ne step]
        have "chunk @ take (n - (length out + length chunk)) (drop (fh_pos d1) (fh_bytes d)) =
            take (n - length out) (drop (fh_pos d) (fh_bytes d))"
        proof -
          have "n - length out = length chunk + (n - (length out + length chunk))" using len by linarith
          then show ?thesis
            using chunk pos by (simp add: take_add add.commute)
        qed
        with IH len bytes pos spec Ok True show ?thesis by auto
      qed
    qed
  qed
qed

end
