(* ===== verification/Codec.thy ===== *)
theory Codec
  imports Memory_Types
begin

text \<open>
  The \<open>Codec\<close> trait of \<open>src/src/codec/mod.rs\<close> as a contract: whatever \<open>encode\<close> produces for a
  valid value, \<open>decode\<close> turns back into that value. The durable stores are verified against this
  contract.
\<close>

locale codec =
  fixes encode :: "'v \<Rightarrow> bytes memory_result"
    and decode :: "bytes \<Rightarrow> 'v memory_result"
    and valid :: "'v \<Rightarrow> bool"
  assumes decode_encode: "valid v \<Longrightarrow> encode v = Ok bs \<Longrightarrow> decode bs = Ok v"
begin

lemma encode_inject: "valid v \<Longrightarrow> valid w \<Longrightarrow> encode v = Ok bs \<Longrightarrow> encode w = Ok bs \<Longrightarrow> v = w"
  using decode_encode by (metis result.inject(1))

end

text \<open>A codec for a single value, used to run the journal on concrete data.\<close>

definition sample_encode :: "'v \<Rightarrow> 'v \<Rightarrow> bytes memory_result" where
  "sample_encode a v = (if v = a then Ok [1] else Err (CodecError ''unknown value''))"

definition sample_decode :: "'v \<Rightarrow> bytes \<Rightarrow> 'v memory_result" where
  "sample_decode a bs = (if bs = [1] then Ok a else Err (CodecError ''unknown bytes''))"

lemma sample_codec: "codec (sample_encode a) (sample_decode a) (\<lambda>_. True)"
  by unfold_locales (auto simp: sample_encode_def sample_decode_def split: if_splits)

end
