(* ===== verification/Journal_Frame.thy ===== *)
theory Journal_Frame
  imports Crc32c Disk_IO Codec
begin

text \<open>
  The journal format of \<open>src/src/store/frame.rs\<close>: a file header followed by batches, each with a
  marker, a length, a checksum and the length-prefixed encodings of its events; and the scanner
  that reads a journal back and tells a torn last batch from corruption. The scanner reads through
  a file handle whose reads may be short; a pure parser over the bytes of the file is its
  specification.
\<close>

section \<open>Format\<close>

definition FILE_HEADER :: bytes where
  "FILE_HEADER = as_bytes ''WMEMLOG1''"

definition BATCH_MAGIC :: bytes where
  "BATCH_MAGIC = as_bytes ''BAT1''"

definition BATCH_HEADER_LEN :: usize where
  "BATCH_HEADER_LEN = 16"

datatype 'v scan_outcome =
    ScanComplete (scanned: "'v list") (durable: u64)
  | PartialTail (scanned: "'v list") (durable: u64)

definition frame_io :: "string \<Rightarrow> 'a io_result \<Rightarrow> 'a memory_result" where
  "frame_io operation r = (case r of Ok a \<Rightarrow> Ok a | Err message \<Rightarrow> Err (IoError operation message))"

definition frame_corrupt :: "u64 \<Rightarrow> string \<Rightarrow> memory_error" where
  "frame_corrupt offset reason = CorruptLog offset reason"

definition encode_event :: "('v \<Rightarrow> bytes memory_result) \<Rightarrow> bytes \<Rightarrow> 'v \<Rightarrow> bytes memory_result" where
  "encode_event encode payload event =
    and_then (encode event) (\<lambda>encoded.
    and_then (ok_or (u64_try_from (length encoded)) CapacityOverflow) (\<lambda>len.
    Ok (payload @ u64_le_bytes len @ encoded)))"

definition encode_batch ::
  "'v list \<Rightarrow> ('v \<Rightarrow> bytes memory_result) \<Rightarrow> usize \<Rightarrow> bytes memory_result" where
  "encode_batch events encode max_frame_bytes =
    and_then (ok_or (u32_try_from (length events)) CapacityOverflow) (\<lambda>count.
    and_then (try_fold (encode_event encode) (u32_le_bytes count) events) (\<lambda>payload.
    if length payload > max_frame_bytes
    then Err (InvalidValue ''event_batch'' ''encoded batch exceeds max_frame_bytes'')
    else and_then (ok_or (u64_try_from (length payload)) CapacityOverflow) (\<lambda>len.
      Ok (BATCH_MAGIC @ u64_le_bytes len @ u32_le_bytes (crc32c payload) @ payload))))"

section \<open>Decoding\<close>

definition slice_get :: "'a list \<Rightarrow> nat \<Rightarrow> nat \<Rightarrow> 'a list option" where
  "slice_get xs a b = (if a \<le> b \<and> b \<le> length xs then Some (take (b - a) (drop a xs)) else None)"

definition read_u32 :: "bytes \<Rightarrow> usize \<Rightarrow> (u32 \<times> usize) option" where
  "read_u32 bs cursor =
    Option.bind (usize_checked_add cursor 4) (\<lambda>end.
    Option.bind (slice_get bs cursor end) (\<lambda>raw. Some (from_le_bytes raw, end)))"

definition read_u64 :: "bytes \<Rightarrow> usize \<Rightarrow> (u64 \<times> usize) option" where
  "read_u64 bs cursor =
    Option.bind (usize_checked_add cursor 8) (\<lambda>end.
    Option.bind (slice_get bs cursor end) (\<lambda>raw. Some (from_le_bytes raw, end)))"

fun decode_events ::
  "nat \<Rightarrow> bytes \<Rightarrow> (bytes \<Rightarrow> 'v memory_result) \<Rightarrow> u64 \<Rightarrow> usize \<Rightarrow> 'v list \<Rightarrow> ('v list \<times> usize) memory_result"
where
  "decode_events 0 payload decode offset cursor events = Ok (events, cursor)"
| "decode_events (Suc n) payload decode offset cursor events =
    and_then (ok_or (Option.bind (read_u64 payload cursor)
        (\<lambda>(value, c). map_option (\<lambda>len. (len, c)) (usize_try_from value)))
      (frame_corrupt offset ''invalid event length'')) (\<lambda>(len, cursor).
    and_then (ok_or (Option.bind (usize_checked_add cursor len)
        (\<lambda>end. if end \<le> length payload then Some end else None))
      (frame_corrupt offset ''truncated event payload'')) (\<lambda>end.
    and_then (decode (take (end - cursor) (drop cursor payload))) (\<lambda>event.
    decode_events n payload decode offset end (events @ [event]))))"

definition decode_payload ::
  "bytes \<Rightarrow> (bytes \<Rightarrow> 'v memory_result) \<Rightarrow> u64 \<Rightarrow> 'v list memory_result" where
  "decode_payload payload decode offset =
    and_then (ok_or (read_u32 payload 0) (frame_corrupt offset ''missing event count'')) (\<lambda>(count, cursor).
    and_then (decode_events (unat count) payload decode offset cursor []) (\<lambda>(events, cursor).
    if cursor \<noteq> length payload then Err (frame_corrupt offset ''trailing bytes in batch'')
    else Ok events))"

section \<open>Scanning\<close>

datatype read_state = ReadComplete | ReadPartial | ReadEof

definition read_or_partial :: "nat \<Rightarrow> file_handle \<Rightarrow> (read_state \<times> bytes) io_result \<times> file_handle" where
  "read_or_partial n d =
    (case fill_buffer n [] d of
       (Err m, d') \<Rightarrow> (Err m, d')
     | (Ok out, d') \<Rightarrow>
         (Ok (if length out < n then (if out = [] then ReadEof else ReadPartial) else ReadComplete, out), d'))"

definition check_batch_header :: "usize \<Rightarrow> u64 \<Rightarrow> bytes \<Rightarrow> (usize \<times> u32) memory_result" where
  "check_batch_header max_frame_bytes offset header =
    (if take 4 header \<noteq> BATCH_MAGIC then Err (frame_corrupt offset ''invalid batch marker'')
     else and_then (ok_or (usize_try_from (from_le_bytes (take 8 (drop 4 header))))
         (frame_corrupt offset ''batch length exceeds platform capacity'')) (\<lambda>payload_len.
       if payload_len > max_frame_bytes
       then Err (frame_corrupt offset ''batch exceeds configured frame limit'')
       else Ok (payload_len, from_le_bytes (take 4 (drop 12 header)))))"

definition accept_batch ::
  "(bytes \<Rightarrow> 'v memory_result) \<Rightarrow> u64 \<Rightarrow> bytes \<Rightarrow> u32 \<Rightarrow> ('v list \<times> u64) memory_result" where
  "accept_batch decode offset payload expected_crc =
    (if crc32c payload \<noteq> expected_crc then Err (frame_corrupt offset ''batch checksum mismatch'')
     else and_then (decode_payload payload decode offset) (\<lambda>events.
       and_then (ok_or (Option.bind (u64_try_from (BATCH_HEADER_LEN + length payload)) (checked_add offset))
         CapacityOverflow) (\<lambda>offset'. Ok (events, offset'))))"

lemma read_or_partial_spec:
  assumes "read_or_partial n d = (r, d')"
  shows "fh_bytes d' = fh_bytes d \<and> (no_faults d \<longrightarrow> no_faults d' \<and> (\<exists>got. r = Ok got)) \<and>
    (\<forall>state out. r = Ok (state, out) \<longrightarrow> out = take n (drop (fh_pos d) (fh_bytes d)) \<and>
       fh_pos d' = fh_pos d + length out \<and>
       state = (if length out < n then (if out = [] then ReadEof else ReadPartial) else ReadComplete))"
proof -
  obtain w d1 where w: "fill_buffer n [] d = (w, d1)" by force
  from fill_buffer_spec [OF this] assms w show ?thesis
    by (auto simp: read_or_partial_def split: result.splits)
qed

lemma read_complete_progress:
  assumes "read_or_partial n d = (Ok (ReadComplete, out), d')" "0 < n"
  shows "length (fh_bytes d') - fh_pos d' < length (fh_bytes d) - fh_pos d"
  using read_or_partial_spec [OF assms(1)] assms(2) by (auto split: if_splits)

lemma read_no_regress:
  "read_or_partial n d = (Ok (state, out), d') \<Longrightarrow>
     length (fh_bytes d') - fh_pos d' \<le> length (fh_bytes d) - fh_pos d"
  by (drule read_or_partial_spec) auto

lemma scan_step_decreases:
  "(Ok (ReadComplete, header), d1) = read_or_partial BATCH_HEADER_LEN d \<Longrightarrow>
   (Ok (state, payload), d2) = read_or_partial n d1 \<Longrightarrow>
     length (fh_bytes d2) - fh_pos d2 < length (fh_bytes d) - fh_pos d"
  using read_complete_progress [of BATCH_HEADER_LEN d header d1] read_no_regress [of n d1 state payload d2]
  by (simp add: BATCH_HEADER_LEN_def)

function scan_loop ::
  "(bytes \<Rightarrow> 'v memory_result) \<Rightarrow> usize \<Rightarrow> 'v list \<Rightarrow> u64 \<Rightarrow> file_handle \<Rightarrow>
     'v scan_outcome memory_result \<times> file_handle"
where
  "scan_loop decode max_frame_bytes events offset d =
    (case read_or_partial BATCH_HEADER_LEN d of
       (Err m, d1) \<Rightarrow> (Err (IoError ''read batch header'' m), d1)
     | (Ok (ReadEof, _), d1) \<Rightarrow> (Ok (ScanComplete events offset), d1)
     | (Ok (ReadPartial, _), d1) \<Rightarrow> (Ok (PartialTail events offset), d1)
     | (Ok (ReadComplete, header), d1) \<Rightarrow>
         (case check_batch_header max_frame_bytes offset header of
            Err e \<Rightarrow> (Err e, d1)
          | Ok (payload_len, expected_crc) \<Rightarrow>
              (case read_or_partial payload_len d1 of
                 (Err m, d2) \<Rightarrow> (Err (IoError ''read batch'' m), d2)
               | (Ok (state, payload), d2) \<Rightarrow>
                   if state \<noteq> ReadComplete then (Ok (PartialTail events offset), d2)
                   else (case accept_batch decode offset payload expected_crc of
                           Err e \<Rightarrow> (Err e, d2)
                         | Ok (batch, offset') \<Rightarrow>
                             scan_loop decode max_frame_bytes (events @ batch) offset' d2))))"
  by pat_completeness auto
termination
  by (relation "measure (\<lambda>(decode, m, events, offset, d). length (fh_bytes d) - fh_pos d)")
    (auto intro: scan_step_decreases)

declare scan_loop.simps [simp del]

definition scan ::
  "(bytes \<Rightarrow> 'v memory_result) \<Rightarrow> usize \<Rightarrow> file_handle \<Rightarrow> 'v scan_outcome memory_result \<times> file_handle"
where
  "scan decode max_frame_bytes d =
    (case file_seek_start 0 d of
       (Err m, d1) \<Rightarrow> (Err (IoError ''seek'' m), d1)
     | (Ok _, d1) \<Rightarrow>
         (case read_exact (length FILE_HEADER) d1 of
            (Err m, d2) \<Rightarrow> (Err (IoError ''read file header'' m), d2)
          | (Ok file_header, d2) \<Rightarrow>
              if file_header \<noteq> FILE_HEADER
              then (Err (CorruptLog 0 ''unsupported file header''), d2)
              else scan_loop decode max_frame_bytes [] (of_nat (length FILE_HEADER)) d2))"

section \<open>The pure parser\<close>

function parse_batches ::
  "(bytes \<Rightarrow> 'v memory_result) \<Rightarrow> usize \<Rightarrow> 'v list \<Rightarrow> u64 \<Rightarrow> bytes \<Rightarrow> 'v scan_outcome memory_result"
where
  "parse_batches decode limit events offset bs =
    (if bs = [] then Ok (ScanComplete events offset)
     else if length bs < BATCH_HEADER_LEN then Ok (PartialTail events offset)
     else and_then (check_batch_header limit offset (take BATCH_HEADER_LEN bs)) (\<lambda>(len, crc).
       if length bs < BATCH_HEADER_LEN + len then Ok (PartialTail events offset)
       else and_then (accept_batch decode offset (take len (drop BATCH_HEADER_LEN bs)) crc)
         (\<lambda>(batch, offset').
           parse_batches decode limit (events @ batch) offset' (drop (BATCH_HEADER_LEN + len) bs))))"
  by pat_completeness auto
termination
  by (relation "measure (\<lambda>(decode, limit, events, offset, bs). length bs)")
    (auto simp: BATCH_HEADER_LEN_def)

declare parse_batches.simps [simp del]

definition parse_journal :: "(bytes \<Rightarrow> 'v memory_result) \<Rightarrow> usize \<Rightarrow> bytes \<Rightarrow> 'v scan_outcome memory_result" where
  "parse_journal decode limit bs =
    (if length bs < length FILE_HEADER
     then Err (IoError ''read file header'' ''failed to fill whole buffer'')
     else if take (length FILE_HEADER) bs \<noteq> FILE_HEADER
     then Err (CorruptLog 0 ''unsupported file header'')
     else parse_batches decode limit [] (of_nat (length FILE_HEADER)) (drop (length FILE_HEADER) bs))"

section \<open>The scanner implements the parser\<close>

definition unread :: "file_handle \<Rightarrow> bytes" where
  "unread d = drop (fh_pos d) (fh_bytes d)"

lemma read_split:
  "read_or_partial n d = (Ok (state, out), d') \<Longrightarrow>
     out = take n (unread d) \<and> unread d' = drop n (unread d) \<and> (no_faults d \<longrightarrow> no_faults d') \<and>
     state = (if length (unread d) < n then (if unread d = [] then ReadEof else ReadPartial) else ReadComplete)"
  by (drule read_or_partial_spec) (auto simp: unread_def add.commute)

lemma scan_loop_parse:
  assumes "scan_loop decode limit events offset d = (r, d')" "no_faults d"
  shows "r = parse_batches decode limit events offset (unread d) \<and> no_faults d'"
  using assms
proof (induction decode limit events offset d arbitrary: r d' rule: scan_loop.induct)
  case (1 decode limit events offset d)
  let ?bs = "unread d"
  obtain w d1 where w: "read_or_partial BATCH_HEADER_LEN d = (w, d1)" by force
  with read_or_partial_spec [OF w] "1.prems"(2) obtain st header where ok: "w = Ok (st, header)"
    by (metis surj_pair)
  note h = read_split [OF w [unfolded ok]]
  show ?case
  proof (cases "length ?bs < BATCH_HEADER_LEN")
    case True
    with "1.prems"(1) w ok h "1.prems"(2) show ?thesis
      by (auto simp: scan_loop.simps [of decode] parse_batches.simps [of decode])
  next
    case False
    then have st: "st = ReadComplete" and ne: "?bs \<noteq> []"
      using h by (auto simp: BATCH_HEADER_LEN_def)
    have unf: "parse_batches decode limit events offset ?bs =
        and_then (check_batch_header limit offset header) (\<lambda>(len, crc).
          if length ?bs < BATCH_HEADER_LEN + len then Ok (PartialTail events offset)
          else and_then (accept_batch decode offset (take len (drop BATCH_HEADER_LEN ?bs)) crc)
            (\<lambda>(batch, offset').
              parse_batches decode limit (events @ batch) offset' (drop (BATCH_HEADER_LEN + len) ?bs)))"
      using False ne h by (subst parse_batches.simps) simp
    show ?thesis
    proof (cases "check_batch_header limit offset header")
      case (Err e)
      with "1.prems" w ok st h unf show ?thesis by (auto simp: scan_loop.simps [of decode])
    next
      case (Ok pair)
      then obtain len crc where chk: "check_batch_header limit offset header = Ok (len, crc)"
        by (metis surj_pair)
      obtain v d2 where v: "read_or_partial len d1 = (v, d2)" by force
      with read_or_partial_spec [OF v] "1.prems"(2) h obtain st2 payload where ok2: "v = Ok (st2, payload)"
        by (metis surj_pair)
      note p = read_split [OF v [unfolded ok2]]
      show ?thesis
      proof (cases "length ?bs < BATCH_HEADER_LEN + len")
        case True
        then have "st2 \<noteq> ReadComplete" using p h False by auto
        with "1.prems" w ok st h v ok2 p chk True unf show ?thesis
          by (auto simp: scan_loop.simps [of decode])
      next
        case enough: False
        then have st2: "st2 = ReadComplete" using p h by auto
        have pay: "payload = take len (drop BATCH_HEADER_LEN ?bs)"
          and rest: "unread d2 = drop (BATCH_HEADER_LEN + len) ?bs"
          and nf: "no_faults d2"
          using p h "1.prems"(2) by (simp_all add: add.commute add.left_commute)
        show ?thesis
        proof (cases "accept_batch decode offset payload crc")
          case (Err e)
          with "1.prems" w ok st v ok2 st2 chk unf pay enough nf show ?thesis
            by (auto simp: scan_loop.simps [of decode])
        next
          case (Ok acc)
          then obtain batch offset' where acc: "accept_batch decode offset payload crc = Ok (batch, offset')"
            by (metis surj_pair)
          have "scan_loop decode limit (events @ batch) offset' d2 = (r, d')"
            using "1.prems"(1) w ok st chk v ok2 st2 acc by (simp add: scan_loop.simps [of _ _ _ _ d])
          from "1.IH" [OF w [symmetric] ok refl st chk refl v [symmetric] ok2 refl _ acc refl this nf] st2
          show ?thesis using unf chk enough acc rest pay by simp
        qed
      qed
    qed
  qed
qed

lemma read_bytes: "read_or_partial n d = (r, d') \<Longrightarrow> fh_bytes d' = fh_bytes d"
  by (drule read_or_partial_spec) simp

lemma scan_loop_bytes: "fh_bytes (snd (scan_loop decode limit events offset d)) = fh_bytes d"
proof (induction decode limit events offset d rule: scan_loop.induct)
  case (1 decode limit events offset d)
  show ?case
    by (subst scan_loop.simps)
      (auto simp: 1 split: prod.splits result.splits read_state.splits dest!: read_bytes)
qed

lemma read_exact_spec:
  assumes "read_exact n d = (r, d')"
  shows "fh_bytes d' = fh_bytes d \<and> (\<forall>out. r = Ok out \<longrightarrow> unread d' = drop n (unread d)) \<and>
    (no_faults d \<longrightarrow> no_faults d' \<and>
       r = (if length (unread d) < n then Err ''failed to fill whole buffer'' else Ok (take n (unread d))))"
proof -
  obtain w d1 where w: "fill_buffer n [] d = (w, d1)" by force
  from fill_buffer_spec [OF w] assms w show ?thesis
    by (cases w) (auto simp: read_exact_def unread_def add.commute split: if_splits)
qed

lemma scan_parse:
  assumes "scan decode limit d = (r, d')"
  shows "fh_bytes d' = fh_bytes d \<and>
    (no_faults d \<longrightarrow> no_faults d' \<and> r = parse_journal decode limit (fh_bytes d))"
proof -
  obtain r1 d1 where s1: "file_seek_start 0 d = (r1, d1)" by force
  obtain r2 d2 where s2: "read_exact (length FILE_HEADER) d1 = (r2, d2)" by force
  obtain r3 d3 where s3: "scan_loop decode limit [] (of_nat (length FILE_HEADER)) d2 = (r3, d3)" by force
  note seek = file_seek_start_spec [OF s1] and header = read_exact_spec [OF s2]
  have bytes: "fh_bytes d3 = fh_bytes d2" using scan_loop_bytes [of decode limit "[]" _ d2] s3 by (metis snd_conv)
  show ?thesis
  proof (cases r1)
    case (Err m)
    with assms s1 seek show ?thesis by (auto simp: scan_def)
  next
    case r1: (Ok u)
    then have un: "unread d1 = fh_bytes d" using seek by (simp add: unread_def)
    show ?thesis
    proof (cases r2)
      case (Err m)
      with assms s1 r1 s2 seek header un show ?thesis
        by (auto simp: scan_def parse_journal_def split: if_splits)
    next
      case r2: (Ok out)
      show ?thesis
      proof (cases "out = FILE_HEADER")
        case False
        with assms s1 r1 s2 r2 seek header un show ?thesis
          by (auto simp: scan_def parse_journal_def split: if_splits)
      next
        case True
        with assms s1 r1 s2 r2 s3 have "r = r3" "d' = d3" by (auto simp: scan_def)
        moreover have "no_faults d \<Longrightarrow> r3 = parse_batches decode limit [] (of_nat (length FILE_HEADER))
            (drop (length FILE_HEADER) (fh_bytes d)) \<and> no_faults d3"
          using scan_loop_parse [OF s3] seek header r2 un by auto
        ultimately show ?thesis
          using True seek header un r2 bytes by (auto simp: parse_journal_def split: if_splits)
      qed
    qed
  qed
qed

text \<open>
  As long as no read fails, the scanner's result depends only on the bytes of the file and not
  on how the operating system cuts the reads into pieces: it is what the pure parser computes from
  those bytes. Scanning never changes the file, whether or not reads fail.
\<close>

theorem scan_chunk_independent:
  assumes "scan decode limit d = (r, d')"
  shows "fh_bytes d' = fh_bytes d \<and> (no_faults d \<longrightarrow> r = parse_journal decode limit (fh_bytes d))"
  using scan_parse [OF assms] by blast

section \<open>Round trip of a batch\<close>

definition event_item :: "bytes \<Rightarrow> bytes" where
  "event_item encoded = u64_le_bytes (of_nat (length encoded)) @ encoded"

lemma encode_event_Ok:
  "encode_event encode acc e = Ok q \<longleftrightarrow> (\<exists>b. encode e = Ok b \<and> length b < 2 ^ 64 \<and> q = acc @ event_item b)"
  by (auto simp: encode_event_def result_simps u64_try_from_Some event_item_def)

lemma encode_fold:
  "try_fold (encode_event encode) acc es = Ok p \<Longrightarrow>
     \<exists>encs. list_all2 (\<lambda>e b. encode e = Ok b \<and> length b < 2 ^ 64) es encs \<and>
       p = acc @ concat (map event_item encs)"
proof (induction es arbitrary: acc)
  case (Cons e es)
  then obtain b where b: "encode e = Ok b" "length b < 2 ^ 64"
    and rest: "try_fold (encode_event encode) (acc @ event_item b) es = Ok p"
    by (auto simp: encode_event_Ok result_simps)
  from Cons.IH [OF rest] obtain encs where
    "list_all2 (\<lambda>e b. encode e = Ok b \<and> length b < 2 ^ 64) es encs"
    "p = (acc @ event_item b) @ concat (map event_item encs)" by blast
  with b show ?case by (intro exI [of _ "b # encs"]) auto
qed simp

lemma slice_get_append: "slice_get (xs @ ys @ zs) (length xs) (length xs + length ys) = Some ys"
  by (simp add: slice_get_def)

lemma read_u64_append:
  "length pre + 8 \<le> usize_max \<Longrightarrow> read_u64 (pre @ u64_le_bytes w @ post) (length pre) = Some (w, length pre + 8)"
  using slice_get_append [of pre "u64_le_bytes w" post]
  by (simp add: read_u64_def usize_checked_add_def)

lemma read_u32_append:
  "length pre + 4 \<le> usize_max \<Longrightarrow> read_u32 (pre @ u32_le_bytes w @ post) (length pre) = Some (w, length pre + 4)"
  using slice_get_append [of pre "u32_le_bytes w" post]
  by (simp add: read_u32_def usize_checked_add_def)

lemma decode_events_step:
  "read_u64 payload c = Some (w, c') \<Longrightarrow> c' + unat w \<le> length payload \<Longrightarrow> length payload \<le> usize_max \<Longrightarrow>
   decode (take (unat w) (drop c' payload)) = Ok e \<Longrightarrow>
   decode_events (Suc n) payload decode offset c acc =
     decode_events n payload decode offset (c' + unat w) (acc @ [e])"
  by (simp add: usize_checked_add_def)

lemma decode_events_items:
  assumes "codec encode decode valid"
    and "list_all2 (\<lambda>e b. encode e = Ok b \<and> length b < 2 ^ 64) es encs" "list_all valid es"
    and "length (pre @ concat (map event_item encs)) \<le> usize_max"
  shows "decode_events (length es) (pre @ concat (map event_item encs)) decode offset (length pre) acc =
    Ok (acc @ es, length (pre @ concat (map event_item encs)))"
  using assms(2-)
proof (induction es encs arbitrary: pre acc rule: list_all2_induct)
  case (Cons e es b encs)
  let ?w = "of_nat (length b) :: u64" and ?rest = "concat (map event_item encs)"
  let ?payload = "pre @ concat (map event_item (b # encs))"
  have bytes: "?payload = pre @ u64_le_bytes ?w @ b @ ?rest"
    by (simp add: event_item_def)
  have un: "unat ?w = length b" using Cons.hyps by simp
  have "length pre + 8 \<le> usize_max"
    using Cons.prems(2) unfolding bytes by (simp del: length_concat)
  then have rd: "read_u64 ?payload (length pre) = Some (?w, length pre + 8)"
    unfolding bytes by (rule read_u64_append)
  have dec: "decode (take (unat ?w) (drop (length pre + 8) ?payload)) = Ok e"
    using codec.decode_encode [OF assms(1)] Cons.hyps Cons.prems unfolding bytes un by auto
  have room: "length pre + 8 + unat ?w \<le> length ?payload"
    unfolding bytes un by (simp del: length_concat)
  have "decode_events (length es) ((pre @ event_item b) @ ?rest) decode offset (length (pre @ event_item b)) (acc @ [e]) =
      Ok ((acc @ [e]) @ es, length ((pre @ event_item b) @ ?rest))"
    using Cons.prems by (intro Cons.IH) auto
  moreover have "(pre @ event_item b) @ ?rest = ?payload" "length (pre @ event_item b) = length pre + 8 + unat ?w"
    using un by (simp_all add: event_item_def)
  ultimately have "decode_events (length es) ?payload decode offset (length pre + 8 + unat ?w) (acc @ [e]) =
      Ok (acc @ e # es, length ?payload)"
    by (simp only: append_assoc append_Cons append_Nil)
  then show ?case
    using decode_events_step [where n = "length es" and decode = decode, OF rd room Cons.prems(2) dec]
    by (simp only: length_Cons)
qed simp

lemma encode_batch_Ok:
  assumes "encode_batch es encode limit = Ok frame"
  obtains encs payload where "list_all2 (\<lambda>e b. encode e = Ok b \<and> length b < 2 ^ 64) es encs"
    "payload = u32_le_bytes (of_nat (length es)) @ concat (map event_item encs)"
    "length es < 2 ^ 32" "length payload \<le> limit" "length payload < 2 ^ 64"
    "frame = BATCH_MAGIC @ u64_le_bytes (of_nat (length payload)) @ u32_le_bytes (crc32c payload) @ payload"
proof -
  from assms obtain payload where
    fold: "try_fold (encode_event encode) (u32_le_bytes (of_nat (length es))) es = Ok payload"
    and rest: "length es < 2 ^ 32" "length payload \<le> limit" "length payload < 2 ^ 64"
      "frame = BATCH_MAGIC @ u64_le_bytes (of_nat (length payload)) @ u32_le_bytes (crc32c payload) @ payload"
    by (auto simp: encode_batch_def result_simps u32_try_from_Some u64_try_from_Some not_less split: if_splits)
  from encode_fold [OF fold] rest that show thesis by blast
qed

lemma decode_payload_batch:
  assumes "codec encode decode valid" "list_all valid es" "length es < 2 ^ 32"
    and "list_all2 (\<lambda>e b. encode e = Ok b \<and> length b < 2 ^ 64) es encs"
    and "payload = u32_le_bytes (of_nat (length es)) @ concat (map event_item encs)" "length payload < 2 ^ 64"
  shows "decode_payload payload decode offset = Ok es"
proof -
  have le: "length payload \<le> usize_max" using assms(6) by (simp add: usize_max_def)
  have "read_u32 payload 0 = Some (of_nat (length es), 4)"
    using read_u32_append [of "[]" "of_nat (length es)" "concat (map event_item encs)"] le
    by (simp add: assms(5) usize_max_def)
  moreover have "decode_events (length es) payload decode offset 4 [] = Ok (es, length payload)"
    using decode_events_items [OF assms(1,4,2), where pre = "u32_le_bytes (of_nat (length es))" and acc = "[]"] le
    by (simp add: assms(5))
  ultimately show ?thesis using assms(3) by (simp add: decode_payload_def)
qed

lemma BATCH_MAGIC_length [simp]: "length BATCH_MAGIC = 4"
  by (simp add: BATCH_MAGIC_def)

lemma FILE_HEADER_length [simp]: "length FILE_HEADER = 8"
  by (simp add: FILE_HEADER_def)

lemma encode_batch_length:
  "encode_batch es encode limit = Ok frame \<Longrightarrow> BATCH_HEADER_LEN \<le> length frame \<and> length frame < 2 ^ 64 + 16"
  by (erule encode_batch_Ok) (simp add: BATCH_HEADER_LEN_def)

lemma frame_header_ok:
  assumes "encode_batch es encode limit = Ok frame"
  shows "check_batch_header limit offset (take BATCH_HEADER_LEN (frame @ rest)) =
    Ok (length frame - BATCH_HEADER_LEN, crc32c (drop BATCH_HEADER_LEN frame))"
  using assms
proof (rule encode_batch_Ok)
  fix payload
  assume len: "length payload \<le> limit" "length payload < 2 ^ 64"
    and frame: "frame = BATCH_MAGIC @ u64_le_bytes (of_nat (length payload)) @ u32_le_bytes (crc32c payload) @ payload"
  let ?h = "BATCH_MAGIC @ u64_le_bytes (of_nat (length payload)) @ u32_le_bytes (crc32c payload)"
  have h: "take BATCH_HEADER_LEN (frame @ rest) = ?h" and d: "drop BATCH_HEADER_LEN frame = payload"
    and l: "length frame - BATCH_HEADER_LEN = length payload"
    by (simp_all add: frame BATCH_HEADER_LEN_def)
  show ?thesis
    unfolding h d l using len by (simp add: check_batch_header_def)
qed

lemma parse_batch:
  assumes "codec encode decode valid" "list_all valid es" "encode_batch es encode limit = Ok frame"
    and "unat offset + length frame < 2 ^ 64"
  shows "parse_batches decode limit events offset (frame @ rest) =
    parse_batches decode limit (events @ es) (offset + of_nat (length frame)) rest"
proof -
  note len = encode_batch_length [OF assms(3)]
  let ?p = "drop BATCH_HEADER_LEN frame"
  have dec: "decode_payload ?p decode offset = Ok es"
    using assms(3)
    by (rule encode_batch_Ok)
      (auto simp: BATCH_HEADER_LEN_def intro!: decode_payload_batch [OF assms(1,2)])
  have acc: "accept_batch decode offset ?p (crc32c ?p) = Ok (es, offset + of_nat (length frame))"
    using len assms(4) dec by (simp add: accept_batch_def u64_try_from_def checked_add_def)
  have "take (length frame - BATCH_HEADER_LEN) (drop BATCH_HEADER_LEN (frame @ rest)) = ?p"
    "drop (BATCH_HEADER_LEN + (length frame - BATCH_HEADER_LEN)) (frame @ rest) = rest"
    using len by auto
  moreover have "frame \<noteq> []" "\<not> length (frame @ rest) < BATCH_HEADER_LEN"
    using len by (auto simp: BATCH_HEADER_LEN_def)
  ultimately show ?thesis
    using len acc frame_header_ok [OF assms(3)] by (subst parse_batches.simps) simp
qed

text \<open>A batch cut short anywhere is a partial tail, and nothing of it is read.\<close>

lemma parse_torn:
  assumes "encode_batch es encode limit = Ok frame" "0 < k" "k < length frame"
  shows "parse_batches decode limit events offset (take k frame) = Ok (PartialTail events offset)"
proof (cases "k < BATCH_HEADER_LEN")
  case True
  with assms show ?thesis by (subst parse_batches.simps) auto
next
  case False
  then have "take BATCH_HEADER_LEN (take k frame) = take BATCH_HEADER_LEN (frame @ [])"
    by (simp add: min_def)
  then have "check_batch_header limit offset (take BATCH_HEADER_LEN (take k frame)) =
      Ok (length frame - BATCH_HEADER_LEN, crc32c (drop BATCH_HEADER_LEN frame))"
    using frame_header_ok [OF assms(1)] by metis
  moreover have "length (take k frame) < BATCH_HEADER_LEN + (length frame - BATCH_HEADER_LEN)"
    "\<not> length (take k frame) < BATCH_HEADER_LEN" "take k frame \<noteq> []"
    using assms False by auto
  ultimately show ?thesis using assms(3) by (subst parse_batches.simps) simp
qed

section \<open>Journals\<close>

text \<open>A journal image: batches of events with the frames that encode them.\<close>

definition frames_of :: "('v \<Rightarrow> bytes memory_result) \<Rightarrow> usize \<Rightarrow> 'v list list \<Rightarrow> bytes list memory_result" where
  "frames_of encode limit batches = try_map (\<lambda>es. encode_batch es encode limit) batches"

lemma parse_frames:
  assumes "codec encode decode valid"
    and "frames_of encode limit batches = Ok frames" "list_all (list_all valid) batches"
    and "unat offset + length (concat frames) < 2 ^ 64"
  shows "parse_batches decode limit events offset (concat frames @ tail) =
    parse_batches decode limit (events @ concat batches) (offset + of_nat (length (concat frames))) tail"
proof -
  have "list_all2 (\<lambda>es frame. encode_batch es encode limit = Ok frame) batches frames"
    using assms(2) by (simp add: frames_of_def result_simps)
  then show ?thesis
    using assms(3,4)
  proof (induction batches frames arbitrary: events offset rule: list_all2_induct)
    case (Cons es batches frame frames)
    then have room: "unat offset + length frame < 2 ^ 64"
      and step: "unat (offset + of_nat (length frame)) = unat offset + length frame"
      by (auto simp del: length_concat simp: unat_word_ariths)
    have "parse_batches decode limit events offset (frame @ concat frames @ tail) =
        parse_batches decode limit (events @ es) (offset + of_nat (length frame)) (concat frames @ tail)"
      using parse_batch [OF assms(1) _ _ room] Cons by auto
    also have "\<dots> = parse_batches decode limit ((events @ es) @ concat batches)
        (offset + of_nat (length frame) + of_nat (length (concat frames))) tail"
      using Cons.prems step by (intro Cons.IH) (simp_all del: length_concat)
    finally show ?case by (simp add: add.assoc)
  qed simp
qed

lemma parse_journal_frames:
  assumes "codec encode decode valid"
    and "frames_of encode limit batches = Ok frames" "list_all (list_all valid) batches"
    and "length (FILE_HEADER @ concat frames) < 2 ^ 64"
  shows "parse_journal decode limit (FILE_HEADER @ concat frames @ tail) =
    parse_batches decode limit (concat batches) (of_nat (length (FILE_HEADER @ concat frames))) tail"
proof -
  have off: "unat (of_nat (length FILE_HEADER) :: u64) = 8" by simp
  then have "parse_batches decode limit [] (of_nat (length FILE_HEADER)) (concat frames @ tail) =
      parse_batches decode limit ([] @ concat batches)
        (of_nat (length FILE_HEADER) + of_nat (length (concat frames))) tail"
    using assms by (intro parse_frames) (simp_all del: length_concat)
  then show ?thesis
    by (simp add: parse_journal_def del: length_concat)
qed

lemma journal_whole:
  assumes "codec encode decode valid"
    and "frames_of encode limit batches = Ok frames" "list_all (list_all valid) batches"
    and "length (FILE_HEADER @ concat frames) < 2 ^ 64"
  shows "parse_journal decode limit (FILE_HEADER @ concat frames) =
    Ok (ScanComplete (concat batches) (of_nat (length (FILE_HEADER @ concat frames))))"
  using parse_journal_frames [OF assms, of "[]"] by (simp add: parse_batches.simps)

lemma journal_torn:
  assumes "codec encode decode valid"
    and "frames_of encode limit batches = Ok frames" "list_all (list_all valid) batches"
    and "length (FILE_HEADER @ concat frames) < 2 ^ 64"
    and "encode_batch es encode limit = Ok frame" "0 < k" "k < length frame"
  shows "parse_journal decode limit (FILE_HEADER @ concat frames @ take k frame) =
    Ok (PartialTail (concat batches) (of_nat (length (FILE_HEADER @ concat frames))))"
  using parse_journal_frames [OF assms(1-4), of "take k frame"] parse_torn [OF assms(5-7)] by simp

text \<open>
  A journal that holds the frames of a sequence of batches scans back to exactly those events,
  in order and with the whole file counted as durable; if a crash left only a proper prefix of one
  more batch behind, the scan still returns exactly the earlier events, reports a partial tail and
  puts the durable length at the end of the last complete batch.
\<close>

theorem journal_scan_round_trip:
  assumes "codec encode decode valid"
    and "frames_of encode limit batches = Ok frames" "list_all (list_all valid) batches"
    and "length (FILE_HEADER @ concat frames) < 2 ^ 64" "no_faults d"
    and "encode_batch es encode limit = Ok frame" "k < length frame"
    and "fh_bytes d = FILE_HEADER @ concat frames @ take k frame"
  shows "fst (scan decode limit d) =
    (let n = of_nat (length (FILE_HEADER @ concat frames))
     in if k = 0 then Ok (ScanComplete (concat batches) n) else Ok (PartialTail (concat batches) n))"
proof -
  have "fst (scan decode limit d) = parse_journal decode limit (fh_bytes d)"
    using scan_parse [of decode limit d] assms(5) by (metis prod.collapse)
  then show ?thesis
    using assms journal_whole [OF assms(1-4)] journal_torn [OF assms(1-4,6)]
    by (auto simp: Let_def)
qed

definition sample_frame :: bytes where
  "sample_frame =
    BATCH_MAGIC @ u64_le_bytes 13 @ u32_le_bytes (crc32c (u32_le_bytes 1 @ event_item [1])) @
      u32_le_bytes 1 @ event_item [1]"

lemma sample_frame: "encode_batch [a] (sample_encode a) 100 = Ok sample_frame"
  by (simp add: encode_batch_def encode_event_def sample_encode_def sample_frame_def event_item_def
      u32_try_from_def u64_try_from_def)

lemma sample_frame_length [simp]: "length sample_frame = 29"
  by (simp add: sample_frame_def event_item_def)

theorem journal_scan_round_trip_witness:
  "fst (scan (sample_decode (5 :: nat)) 100
      \<lparr> fh_bytes = FILE_HEADER @ concat [sample_frame] @ take 3 sample_frame, fh_pos = 0, fh_plan = [IoDone, IoShort 2] \<rparr>) =
    Ok (PartialTail [5] 37)"
proof -
  have "frames_of (sample_encode (5 :: nat)) 100 [[5]] = Ok [sample_frame]"
    by (simp add: frames_of_def sample_frame)
  from journal_scan_round_trip [OF sample_codec this _ _ _ sample_frame, of
      "\<lparr> fh_bytes = FILE_HEADER @ concat [sample_frame] @ take 3 sample_frame, fh_pos = 0, fh_plan = [IoDone, IoShort 2] \<rparr>" 3]
  show ?thesis
    by (simp add: no_faults_def io_fault_def)
qed

theorem scan_chunk_independent_witness:
  "fst (scan (sample_decode (5 :: nat)) 100 \<lparr> fh_bytes = FILE_HEADER, fh_pos = 3, fh_plan = [IoDone, IoShort 2] \<rparr>) =
    parse_journal (sample_decode 5) 100 FILE_HEADER"
proof -
  let ?d = "\<lparr> fh_bytes = FILE_HEADER, fh_pos = 3, fh_plan = [IoDone, IoShort 2] \<rparr>"
  obtain r d' where s: "scan (sample_decode (5 :: nat)) 100 ?d = (r, d')" by force
  from scan_chunk_independent [OF s] s show ?thesis by (simp add: no_faults_def io_fault_def)
qed

section \<open>Corruption\<close>

lemma journal_damaged_payload:
  assumes "codec encode decode valid"
    and "frames_of encode limit batches = Ok frames" "list_all (list_all valid) batches"
    and "length (FILE_HEADER @ concat frames) < 2 ^ 64"
    and "encode_batch es encode limit = Ok (pre @ x # post)" "BATCH_HEADER_LEN \<le> length pre" "y \<noteq> x"
  shows "parse_journal decode limit (FILE_HEADER @ concat frames @ pre @ y # post @ tail) =
    Err (CorruptLog (of_nat (length (FILE_HEADER @ concat frames))) ''batch checksum mismatch'')"
proof -
  let ?offset = "of_nat (length (FILE_HEADER @ concat frames)) :: u64"
  let ?h = "take BATCH_HEADER_LEN pre" and ?p = "drop BATCH_HEADER_LEN pre"
  let ?bytes = "pre @ y # post @ tail" and ?len = "length (pre @ x # post) - BATCH_HEADER_LEN"
  have header: "check_batch_header limit ?offset (take BATCH_HEADER_LEN ?bytes) = Ok (?len, crc32c (?p @ x # post))"
    using frame_header_ok [OF assms(5), of ?offset "[]"] assms(6) by simp
  have payload: "take ?len (drop BATCH_HEADER_LEN ?bytes) = ?p @ y # post"
    using assms(6) by simp
  have "accept_batch decode ?offset (?p @ y # post) (crc32c (?p @ x # post)) =
      Err (CorruptLog ?offset ''batch checksum mismatch'')"
    using crc32c_byte_change [OF assms(7)] by (simp add: accept_batch_def frame_corrupt_def)
  then have "parse_batches decode limit (concat batches) ?offset ?bytes =
      Err (CorruptLog ?offset ''batch checksum mismatch'')"
    using header payload assms(6) by (subst parse_batches.simps) simp
  then show ?thesis using parse_journal_frames [OF assms(1-4), of ?bytes] by simp
qed

text \<open>
  C6: changing any single byte of a stored batch payload is always detected: a scan of the damaged
  journal fails with a checksum mismatch at the offset of that batch, whatever follows it, and no
  damaged event is ever returned.
\<close>

theorem damaged_byte_detected:
  assumes "codec encode decode valid"
    and "frames_of encode limit batches = Ok frames" "list_all (list_all valid) batches"
    and "length (FILE_HEADER @ concat frames) < 2 ^ 64"
    and "encode_batch es encode limit = Ok (pre @ x # post)" "BATCH_HEADER_LEN \<le> length pre" "y \<noteq> x"
    and "no_faults d" "fh_bytes d = FILE_HEADER @ concat frames @ pre @ y # post @ tail"
  shows "fst (scan decode limit d) =
    Err (CorruptLog (of_nat (length (FILE_HEADER @ concat frames))) ''batch checksum mismatch'')"
proof -
  have "fst (scan decode limit d) = parse_journal decode limit (fh_bytes d)"
    using scan_parse [of decode limit d] assms(8) by (metis prod.collapse)
  then show ?thesis using journal_damaged_payload [OF assms(1-7)] assms(9) by simp
qed

theorem damaged_byte_detected_witness:
  "fst (scan (sample_decode (5 :: nat)) 100
      \<lparr> fh_bytes = FILE_HEADER @ butlast sample_frame @ [7], fh_pos = 0, fh_plan = [] \<rparr>) =
    Err (CorruptLog 8 ''batch checksum mismatch'')"
proof -
  let ?d = "\<lparr> fh_bytes = FILE_HEADER @ butlast sample_frame @ [7], fh_pos = 0, fh_plan = [] \<rparr>"
  have last: "last sample_frame = 1" by (simp add: sample_frame_def event_item_def)
  have "sample_frame \<noteq> []" using sample_frame_length by force
  then have split: "sample_frame = butlast sample_frame @ 1 # []"
    using last append_butlast_last_id [of sample_frame] by simp
  have "encode_batch [5 :: nat] (sample_encode 5) 100 = Ok (butlast sample_frame @ 1 # [])"
    unfolding split [symmetric] by (rule sample_frame)
  from damaged_byte_detected [OF sample_codec _ _ _ this, where batches = "[]" and frames = "[]" and d = ?d
      and y = 7 and tail = "[]"]
  show ?thesis
    by (simp add: no_faults_def frames_of_def BATCH_HEADER_LEN_def)
qed

end
