(* ===== verification/File_Store.thy ===== *)
theory File_Store
  imports In_Memory_Store Journal_Frame
begin

text \<open>
  The durable event store of \<open>src/src/store/file.rs\<close>: an in-memory store kept in step with an
  append-only journal. Operations take the handle with the outcomes of the system calls to come,
  so that every early return, the rollback of a failed write and the recovery of a torn tail are
  branches of the model. The codec, whose code is a parameter of the store, is a parameter here.
\<close>

section \<open>Options and store\<close>

datatype recovery_policy = Strict | TruncatePartialTail

datatype durability = Flush | SyncData | SyncAll

record file_store_options =
  fso_recovery :: recovery_policy
  fso_durability :: durability
  fso_max_frame_bytes :: usize

definition fso_default :: file_store_options where
  "fso_default =
    \<lparr> fso_recovery = Strict, fso_durability = SyncAll, fso_max_frame_bytes = 256 * 1024 * 1024 \<rparr>"

record 'e file_event_store =
  fes_path :: string
  fes_file :: file_handle
  fes_options :: file_store_options
  fes_inner :: "'e in_memory_store"
  fes_durable_len :: u64

datatype lock_outcome = LockAcquired | LockWouldBlock | LockError string

definition io_op ::
  "string \<Rightarrow> (file_handle \<Rightarrow> 'a io_result \<times> file_handle) \<Rightarrow> file_handle \<Rightarrow> 'a memory_result \<times> file_handle"
where
  "io_op operation call d = (case call d of (r, d') \<Rightarrow> (frame_io operation r, d'))"

definition sync :: "durability \<Rightarrow> file_handle \<Rightarrow> unit memory_result \<times> file_handle" where
  "sync durability d =
    (case durability of
       Flush \<Rightarrow> (Ok (), d)
     | SyncData \<Rightarrow> io_op ''sync event log'' file_sync d
     | SyncAll \<Rightarrow> io_op ''sync event log data and metadata'' file_sync d)"

definition try_lock :: "lock_outcome \<Rightarrow> unit memory_result" where
  "try_lock lock =
    (case lock of
       LockAcquired \<Rightarrow> Ok ()
     | LockWouldBlock \<Rightarrow> Err ExternalModification
     | LockError m \<Rightarrow> Err (IoError ''lock event log'' m))"

section \<open>Opening\<close>

definition file_open :: "file_handle \<Rightarrow> unit io_result \<times> file_handle" where
  "file_open = file_call (\<lambda>d. ((), d\<lparr>fh_pos := 0\<rparr>))"

definition write_header :: "durability \<Rightarrow> file_handle \<Rightarrow> unit memory_result \<times> file_handle" where
  "write_header durability =
    seq_op (io_op ''read event log metadata'' file_len) (\<lambda>len.
      if len = 0
      then seq_op (io_op ''write event log header'' (write_all FILE_HEADER)) (\<lambda>_. sync durability)
      else lift_op (Ok ()))"

definition recover_tail ::
  "file_store_options \<Rightarrow> 'v scan_outcome \<Rightarrow> file_handle \<Rightarrow> ('v list \<times> u64) memory_result \<times> file_handle"
where
  "recover_tail options outcome =
    (let (events, durable_len, partial) =
       (case outcome of
          ScanComplete events durable_len \<Rightarrow> (events, durable_len, False)
        | PartialTail events durable_len \<Rightarrow> (events, durable_len, True))
     in if partial \<and> fso_recovery options = Strict
        then lift_op (Err (CorruptLog durable_len ''partial trailing batch''))
        else if partial
        then seq_op (io_op ''truncate partial event batch'' (file_set_len (unat durable_len))) (\<lambda>_.
             seq_op (sync (fso_durability options)) (\<lambda>_. lift_op (Ok (events, durable_len))))
        else lift_op (Ok (events, durable_len)))"

definition fes_open ::
  "string \<Rightarrow> (bytes \<Rightarrow> 'e stored_event memory_result) \<Rightarrow> file_store_options \<Rightarrow> lock_outcome \<Rightarrow> file_handle \<Rightarrow>
   'e file_event_store memory_result \<times> file_handle"
where
  "fes_open path decode options lock =
    (if fso_max_frame_bytes options < 4
     then lift_op (Err (InvalidValue ''max_frame_bytes'' ''must fit at least the event-count field''))
     else seq_op (io_op ''open event log'' file_open) (\<lambda>_.
       seq_op (lift_op (try_lock lock)) (\<lambda>_.
       seq_op (write_header (fso_durability options)) (\<lambda>_.
       seq_op (scan decode (fso_max_frame_bytes options)) (\<lambda>outcome.
       seq_op (recover_tail options outcome) (\<lambda>(events, durable_len).
       seq_op (io_op ''seek event log end'' file_seek_end) (\<lambda>_ d.
         (map_ok (\<lambda>inner. \<lparr> fes_path = path, fes_file = d, fes_options = options,
              fes_inner = inner, fes_durable_len = durable_len \<rparr>) (restore events), d))))))))"

section \<open>Appending\<close>

definition on_file ::
  "(file_handle \<Rightarrow> 'a memory_result \<times> file_handle) \<Rightarrow> 'e file_event_store \<Rightarrow> 'a memory_result \<times> 'e file_event_store"
where
  "on_file call s = (case call (fes_file s) of (r, d) \<Rightarrow> (r, s\<lparr>fes_file := d\<rparr>))"

definition rollback_tail :: "'e file_event_store \<Rightarrow> unit memory_result \<times> 'e file_event_store" where
  "rollback_tail s =
    seq_op (on_file (io_op ''rollback partial event batch'' (file_set_len (unat (fes_durable_len s))))) (\<lambda>_.
    seq_op (on_file (io_op ''seek after rollback'' (file_seek_start (unat (fes_durable_len s))))) (\<lambda>_.
      on_file (sync (fso_durability (fes_options s))))) s"

definition write_frame :: "bytes \<Rightarrow> 'e file_event_store \<Rightarrow> unit memory_result \<times> 'e file_event_store" where
  "write_frame frame s =
    (case on_file (io_op ''append event batch'' (write_all frame)) s of
       (Err e, s1) \<Rightarrow> seq_op rollback_tail (\<lambda>_. lift_op (Err e)) s1
     | (Ok _, s1) \<Rightarrow>
         (case on_file (sync (fso_durability (fes_options s1))) s1 of
            (Err e, s2) \<Rightarrow> seq_op rollback_tail (\<lambda>_. lift_op (Err e)) s2
          | (Ok _, s2) \<Rightarrow>
              (case Option.bind (u64_try_from (length frame)) (checked_add (fes_durable_len s2)) of
                 None \<Rightarrow> (Err CapacityOverflow, s2)
               | Some n \<Rightarrow> (Ok (), s2\<lparr>fes_durable_len := n\<rparr>))))"

definition persist ::
  "('e stored_event \<Rightarrow> bytes memory_result) \<Rightarrow> 'e stored_event list \<Rightarrow> 'e file_event_store \<Rightarrow>
   unit memory_result \<times> 'e file_event_store"
where
  "persist encode events s =
    (if events = [] then (Ok (), s)
     else seq_op (on_file (io_op ''read event log metadata'' file_len)) (\<lambda>actual_len.
       if actual_len \<noteq> unat (fes_durable_len s) then lift_op (Err ExternalModification)
       else seq_op (lift_op (encode_batch events encode (fso_max_frame_bytes (fes_options s)))) (\<lambda>frame.
         seq_op (on_file (io_op ''seek append position'' (file_seek_start (unat (fes_durable_len s))))) (\<lambda>_.
           write_frame frame))) s)"

definition fes_append ::
  "('e stored_event \<Rightarrow> bytes memory_result) \<Rightarrow> 'e file_event_store \<Rightarrow> stream_id \<Rightarrow> expected_version \<Rightarrow>
   'e new_event list \<Rightarrow> 'e stored_event list memory_result \<times> 'e file_event_store"
where
  "fes_append encode s stream expected events =
    seq_op (lift_op (prepare_append (fes_inner s) stream expected events)) (\<lambda>committed.
    seq_op (persist encode committed) (\<lambda>_ s'.
      (Ok committed, s'\<lparr>fes_inner := commit_prepared (fes_inner s') committed\<rparr>))) s"

definition fes_append_owned ::
  "('e stored_event \<Rightarrow> bytes memory_result) \<Rightarrow> 'e file_event_store \<Rightarrow> stream_id \<Rightarrow> expected_version \<Rightarrow>
   'e new_event list \<Rightarrow> 'e stored_event list memory_result \<times> 'e file_event_store"
where
  "fes_append_owned encode s stream expected events =
    seq_op (lift_op (prepare_append_owned (fes_inner s) stream expected events)) (\<lambda>committed.
    seq_op (persist encode committed) (\<lambda>_ s'.
      (Ok committed, s'\<lparr>fes_inner := commit_prepared (fes_inner s') committed\<rparr>))) s"

definition fes_append_owned_receipt ::
  "('e stored_event \<Rightarrow> bytes memory_result) \<Rightarrow> 'e file_event_store \<Rightarrow> stream_id \<Rightarrow> expected_version \<Rightarrow>
   'e new_event list \<Rightarrow> append_receipt memory_result \<times> 'e file_event_store"
where
  "fes_append_owned_receipt encode s stream expected events =
    seq_op (lift_op (prepare_append_owned (fes_inner s) stream expected events)) (\<lambda>committed.
    seq_op (persist encode committed) (\<lambda>_ s'.
      (let receipt = from_events committed
       in (Ok receipt, s'\<lparr>fes_inner := commit_prepared_owned (fes_inner s') committed\<rparr>)))) s"

definition fes_load_stream :: "'e file_event_store \<Rightarrow> stream_id \<Rightarrow> u64 option \<Rightarrow> 'e stored_event list" where
  "fes_load_stream s = ims_load_stream (fes_inner s)"

definition fes_load_all :: "'e file_event_store \<Rightarrow> u64 option \<Rightarrow> usize \<Rightarrow> 'e stored_event list" where
  "fes_load_all s = ims_load_all (fes_inner s)"

definition fes_stream_version :: "'e file_event_store \<Rightarrow> stream_id \<Rightarrow> u64 option" where
  "fes_stream_version s = ims_stream_version (fes_inner s)"

definition fes_len :: "'e file_event_store \<Rightarrow> usize" where
  "fes_len s = ims_len (fes_inner s)"

section \<open>What the file operations do\<close>

lemma frame_io_simps [simp]: "frame_io op (Ok a) = Ok a" "frame_io op (Err m) = Err (IoError op m)"
  by (simp_all add: frame_io_def)

lemma frame_io_Ok [result_simps]: "frame_io op r = Ok a \<longleftrightarrow> r = Ok a"
  by (cases r) auto

lemma frame_io_Err [result_simps]: "frame_io op r = Err e \<longleftrightarrow> (\<exists>m. r = Err m \<and> e = IoError op m)"
  by (cases r) auto

lemma seq_op_cases:
  assumes "seq_op m f s = (r, s')"
  obtains (fail) e where "m s = (Err e, s')" "r = Err e"
  | (step) a s1 where "m s = (Ok a, s1)" "f a s1 = (r, s')"
  using assms by (auto simp: seq_op_def split: prod.splits result.splits)

lemma io_op_cases:
  assumes "io_op op call d = (r, d')"
  obtains (good) a where "call d = (Ok a, d')" "r = Ok a"
  | (bad) m where "call d = (Err m, d')" "r = Err (IoError op m)"
  using assms by (auto simp: io_op_def frame_io_def split: prod.splits result.splits)

lemma on_file_cases:
  assumes "on_file call s = (r, s')"
  obtains d where "call (fes_file s) = (r, d)" "s' = s\<lparr>fes_file := d\<rparr>"
  using assms by (auto simp: on_file_def split: prod.splits)

lemma sync_spec:
  "sync durability d = (r, d') \<Longrightarrow> fh_bytes d' = fh_bytes d \<and> fh_pos d' = fh_pos d \<and>
     (no_faults d \<longrightarrow> no_faults d' \<and> r = Ok ())"
  by (cases durability) (auto simp: sync_def elim!: io_op_cases dest!: file_sync_spec)

text \<open>The journal written so far, and whatever follows it in the file.\<close>

definition journal_at :: "'e file_event_store \<Rightarrow> bytes \<Rightarrow> bytes \<Rightarrow> bool" where
  "journal_at s img tail \<longleftrightarrow> fh_bytes (fes_file s) = img @ tail \<and>
    fes_durable_len s = of_nat (length img) \<and> length img < 2 ^ 64"

definition same_store :: "'e file_event_store \<Rightarrow> 'e file_event_store \<Rightarrow> bool" where
  "same_store s s' \<longleftrightarrow> fes_path s' = fes_path s \<and> fes_options s' = fes_options s \<and> fes_inner s' = fes_inner s"

lemma same_store_file [simp]: "same_store s (s\<lparr>fes_file := d\<rparr>)"
  by (simp add: same_store_def)

lemma same_store_refl [simp]: "same_store s s"
  by (simp add: same_store_def)

lemma same_store_trans: "same_store s t \<Longrightarrow> same_store t u \<Longrightarrow> same_store s u"
  by (simp add: same_store_def)

lemma journal_at_unat: "journal_at s img tail \<Longrightarrow> unat (fes_durable_len s) = length img"
  by (simp add: journal_at_def)

lemma rollback_spec:
  assumes "rollback_tail s = (r, s')" "journal_at s img tail"
  shows "same_store s s' \<and> (journal_at s' img [] \<or>
    (journal_at s' img tail \<and> (\<exists>m. r = Err (IoError ''rollback partial event batch'' m))))"
  using assms(1) unfolding rollback_tail_def
proof (cases rule: seq_op_cases)
  case (fail e)
  then show ?thesis
    using assms(2)
    by (auto elim!: on_file_cases io_op_cases dest!: file_set_len_spec
        simp: result_simps journal_at_def)
next
  case (step u s1)
  from step(1) assms(2) have s1: "journal_at s1 img []" "same_store s s1"
    by (auto elim!: on_file_cases io_op_cases dest!: file_set_len_spec
        simp: result_simps journal_at_def resized_le)
  from step(2) show ?thesis
  proof (cases rule: seq_op_cases)
    case (fail e)
    then show ?thesis using s1
      by (auto elim!: on_file_cases io_op_cases dest!: file_seek_start_spec
          simp: journal_at_def same_store_def)
  next
    case (step u s2)
    then show ?thesis using s1
      by (auto elim!: on_file_cases io_op_cases dest!: file_seek_start_spec sync_spec
          simp: journal_at_def same_store_def)
  qed
qed

lemma rollback_then_err:
  assumes "seq_op rollback_tail (\<lambda>_. lift_op (Err e)) s = (r, s')" "journal_at s img tail"
  shows "same_store s s' \<and> (\<exists>e'. r = Err e') \<and> (journal_at s' img [] \<or>
    (journal_at s' img tail \<and> (\<exists>m. r = Err (IoError ''rollback partial event batch'' m))))"
  using assms(1)
proof (cases rule: seq_op_cases)
  case (fail e)
  then show ?thesis using rollback_spec [OF fail(1) assms(2)] by simp
next
  case (step u s1)
  then show ?thesis using rollback_spec [OF step(1) assms(2)] by (auto simp: lift_op_def)
qed

lemma write_frame_spec:
  assumes "write_frame frame s = (r, s')" "journal_at s img []" "fh_pos (fes_file s) = length img"
  shows "same_store s s' \<and>
    ((r = Ok () \<and> journal_at s' (img @ frame) []) \<or>
     ((\<exists>e. r = Err e) \<and> journal_at s' img []) \<or>
     (\<exists>k \<le> length frame. journal_at s' img (take k frame) \<and>
        ((\<exists>m. r = Err (IoError ''rollback partial event batch'' m)) \<or>
         (r = Err CapacityOverflow \<and> 2 ^ 64 \<le> length img + length frame))))"
proof -
  obtain r1 s1 where w: "on_file (io_op ''append event batch'' (write_all frame)) s = (r1, s1)" by force
  then obtain d q where d: "write_all frame (fes_file s) = (q, d)" "r1 = frame_io ''append event batch'' q"
    "s1 = s\<lparr>fes_file := d\<rparr>"
    by (auto elim!: on_file_cases io_op_cases)
  have at_end: "fh_pos (fes_file s) = length (fh_bytes (fes_file s))"
    using assms(2,3) by (simp add: journal_at_def)
  from write_all_spec [OF d(1) at_end] obtain k where k: "k \<le> length frame"
    "fh_bytes d = img @ take k frame" "q = Ok () \<longrightarrow> k = length frame"
    using assms(2) by (auto simp: journal_at_def)
  then have at1: "journal_at s1 img (take k frame)" "same_store s s1"
    using assms(2) d by (auto simp: journal_at_def)
  show ?thesis
  proof (cases r1)
    case (Err e)
    with assms(1) w have "seq_op rollback_tail (\<lambda>_. lift_op (Err e)) s1 = (r, s')"
      by (simp add: write_frame_def)
    from rollback_then_err [OF this at1(1)] show ?thesis
      using at1(2) k(1) same_store_trans by blast
  next
    case (Ok u)
    then have full: "journal_at s1 img frame" using at1 k d by (auto simp: result_simps)
    obtain r2 s2 where y: "on_file (sync (fso_durability (fes_options s1))) s1 = (r2, s2)" by force
    then have at2: "journal_at s2 img frame" "same_store s s2"
      using full at1(2) by (auto elim!: on_file_cases dest!: sync_spec simp: journal_at_def same_store_def)
    show ?thesis
    proof (cases r2)
      case (Err e)
      with assms(1) w Ok y have "seq_op rollback_tail (\<lambda>_. lift_op (Err e)) s2 = (r, s')"
        by (simp add: write_frame_def)
      from rollback_then_err [OF this at2(1)] show ?thesis
        using at2(2) same_store_trans [of s s2 s'] by (auto intro!: exI [of _ "length frame"])
    next
      case ok2: (Ok u2)
      have ov: "Option.bind (u64_try_from (length frame)) (checked_add (fes_durable_len s2)) =
          (if length img + length frame < 2 ^ 64 then Some (of_nat (length (img @ frame))) else None)"
        using at2(1) by (auto simp: journal_at_def u64_try_from_def checked_add_of_nat)
      show ?thesis
      proof (cases "length img + length frame < 2 ^ 64")
        case True
        then show ?thesis
          using assms(1) w Ok y ok2 ov at2
          by (auto simp: write_frame_def journal_at_def same_store_def)
      next
        case False
        then show ?thesis
          using assms(1) w Ok y ok2 ov at2
          by (auto simp: write_frame_def intro!: exI [of _ "length frame"])
      qed
    qed
  qed
qed

lemma persist_spec:
  assumes "persist encode events s = (r, s')" "journal_at s img tail"
  shows "same_store s s' \<and>
    ((events = [] \<and> r = Ok () \<and> s' = s) \<or>
     ((\<exists>e. r = Err e) \<and> journal_at s' img tail) \<or>
     (tail = [] \<and> (\<exists>frame. encode_batch events encode (fso_max_frame_bytes (fes_options s)) = Ok frame \<and>
        ((r = Ok () \<and> journal_at s' (img @ frame) []) \<or>
         (\<exists>k \<le> length frame. journal_at s' img (take k frame) \<and>
            ((\<exists>m. r = Err (IoError ''rollback partial event batch'' m)) \<or>
             (r = Err CapacityOverflow \<and> 2 ^ 64 \<le> length img + length frame)))))))"
proof (cases "events = []")
  case True
  with assms show ?thesis by (simp add: persist_def)
next
  case False
  note du = journal_at_unat [OF assms(2)]
  from False assms(1) have "seq_op (on_file (io_op ''read event log metadata'' file_len)) (\<lambda>actual_len.
       if actual_len \<noteq> unat (fes_durable_len s) then lift_op (Err ExternalModification)
       else seq_op (lift_op (encode_batch events encode (fso_max_frame_bytes (fes_options s)))) (\<lambda>frame.
         seq_op (on_file (io_op ''seek append position'' (file_seek_start (unat (fes_durable_len s))))) (\<lambda>_.
           write_frame frame))) s = (r, s')"
    by (simp add: persist_def)
  then show ?thesis
  proof (cases rule: seq_op_cases)
    case (fail e)
    then show ?thesis using assms(2)
      by (auto elim!: on_file_cases io_op_cases dest!: file_len_spec simp: journal_at_def)
  next
    case (step n s1)
    from step(1) obtain d where d: "file_len (fes_file s) = (Ok n, d)" "s1 = s\<lparr>fes_file := d\<rparr>"
      by (auto elim!: on_file_cases io_op_cases)
    from file_len_spec [OF d(1)] d(2) assms(2)
    have s1: "same_store s s1" "journal_at s1 img tail" "n = length (img @ tail)"
      by (simp_all add: journal_at_def)
    show ?thesis
    proof (cases "tail = [] \<and> (\<exists>frame. encode_batch events encode (fso_max_frame_bytes (fes_options s)) = Ok frame)")
      case False
      have "s' = s1 \<and> (\<exists>e. r = Err e)"
      proof (cases "tail = []")
        case True
        with False obtain e where "encode_batch events encode (fso_max_frame_bytes (fes_options s)) = Err e"
          by (cases "encode_batch events encode (fso_max_frame_bytes (fes_options s))") auto
        with True step(2) s1(3) du show ?thesis by auto
      next
        case False
        with step(2) s1(3) du show ?thesis by (auto simp: lift_op_def)
      qed
      then show ?thesis using s1 by blast
    next
      case True
      then obtain frame where tail: "tail = []"
        and frame: "encode_batch events encode (fso_max_frame_bytes (fes_options s)) = Ok frame" by blast
      from step(2) tail frame s1 du have
        "seq_op (on_file (io_op ''seek append position'' (file_seek_start (length img)))) (\<lambda>_. write_frame frame) s1 = (r, s')"
        by (simp split: if_splits)
      then show ?thesis
      proof (cases rule: seq_op_cases)
        case (fail e)
        then show ?thesis using s1
          by (auto elim!: on_file_cases io_op_cases dest!: file_seek_start_spec
              simp: journal_at_def same_store_def)
      next
        case (step u s2)
        from step(1) s1 tail
        have s2: "same_store s s2" "journal_at s2 img []" "fh_pos (fes_file s2) = length img"
          by (auto elim!: on_file_cases io_op_cases dest!: file_seek_start_spec
              simp: journal_at_def same_store_def)
        note ws = write_frame_spec [OF step(2) s2(2,3)]
        then have same: "same_store s s'" using s2(1) same_store_trans by blast
        from ws consider "r = Ok () \<and> journal_at s' (img @ frame) []"
          | "(\<exists>e. r = Err e) \<and> journal_at s' img []"
          | "\<exists>k \<le> length frame. journal_at s' img (take k frame) \<and>
              ((\<exists>m. r = Err (IoError ''rollback partial event batch'' m)) \<or>
               (r = Err CapacityOverflow \<and> 2 ^ 64 \<le> length img + length frame))" by blast
        then show ?thesis by cases (simp_all add: same tail frame)
      qed
    qed
  qed
qed

section \<open>The store invariant\<close>

text \<open>The bytes of a journal that holds a given log.\<close>

definition journal_image ::
  "('v \<Rightarrow> bytes memory_result) \<Rightarrow> usize \<Rightarrow> 'v list \<Rightarrow> bytes \<Rightarrow> bool" where
  "journal_image encode limit log img \<longleftrightarrow>
    (\<exists>batches frames. frames_of encode limit batches = Ok frames \<and> concat batches = log \<and>
       img = FILE_HEADER @ concat frames)"

lemma journal_image_empty: "journal_image encode limit [] FILE_HEADER"
  unfolding journal_image_def by (intro exI [of _ "[]"]) (simp add: frames_of_def)

lemma journal_image_snoc:
  assumes "journal_image encode limit log img" "encode_batch c encode limit = Ok frame"
  shows "journal_image encode limit (log @ c) (img @ frame)"
proof -
  from assms(1) obtain batches frames where
    "frames_of encode limit batches = Ok frames" "concat batches = log" "img = FILE_HEADER @ concat frames"
    by (auto simp: journal_image_def)
  with assms(2) show ?thesis
    unfolding journal_image_def
    by (intro exI [of _ "batches @ [c]"] exI [of _ "frames @ [frame]"])
      (auto simp: frames_of_def result_simps intro!: list_all2_appendI)
qed

definition fes_inv :: "('e stored_event \<Rightarrow> bytes memory_result) \<Rightarrow> 'e file_event_store \<Rightarrow> bool" where
  "fes_inv encode s \<longleftrightarrow> ims_inv (fes_inner s) \<and> 4 \<le> fso_max_frame_bytes (fes_options s) \<and>
    (\<exists>img tail. journal_image encode (fso_max_frame_bytes (fes_options s)) (ims_events (fes_inner s)) img \<and>
       journal_at s img tail)"

definition fes_log :: "'e file_event_store \<Rightarrow> 'e event_log" where
  "fes_log s = ims_events (fes_inner s)"

lemma fes_inv_ims: "fes_inv encode s \<Longrightarrow> ims_inv (fes_inner s)"
  by (simp add: fes_inv_def)

lemma fes_append_cases:
  assumes "fes_append encode s st x es = (r, s')" "ims_inv (fes_inner s)"
  obtains (refused) e where "spec_append (fes_log s) st x es = Err e" "r = Err e" "s' = s"
  | (failed) c e where "spec_append (fes_log s) st x es = Ok c" "persist encode c s = (Err e, s')" "r = Err e"
  | (committed) c s1 where "spec_append (fes_log s) st x es = Ok c" "persist encode c s = (Ok (), s1)"
      "r = Ok c" "s' = s1\<lparr>fes_inner := commit_prepared (fes_inner s1) c\<rparr>"
proof -
  have prep: "prepare_append (fes_inner s) st x es = spec_append (fes_log s) st x es"
    using assms(2) by (auto elim!: ims_invE simp: prepare_append_of fes_log_def)
  show thesis
  proof (cases "spec_append (fes_log s) st x es")
    case (Err e)
    with assms(1) show thesis by (intro refused [of e]) (auto simp: fes_append_def prep)
  next
    case (Ok c)
    with assms(1) have "seq_op (persist encode c) (\<lambda>_ s'.
        (Ok c, s'\<lparr>fes_inner := commit_prepared (fes_inner s') c\<rparr>)) s = (r, s')"
      by (simp add: fes_append_def prep)
    then show thesis
      by (cases rule: seq_op_cases) (use Ok failed committed in simp_all)
  qed
qed

lemma commit_fes_inner:
  assumes "ims_inv (fes_inner s)" "spec_append (fes_log s) st x es = Ok c"
  shows "commit_prepared (fes_inner s) c = ims_of (fes_log s @ c) \<and> log_ok (fes_log s @ c)"
proof -
  from assms(1) have log: "log_ok (fes_log s)" "fes_inner s = ims_of (fes_log s)"
    by (auto simp: ims_inv_def fes_log_def)
  with spec_append_ok [OF log(1) assms(2)] show ?thesis
    by (metis commit_prepared_of stream_of_stamped)
qed

lemma fes_append_err:
  assumes "fes_inv encode s" "fes_append encode s st x es = (Err e, s')"
  shows "fes_inv encode s' \<and> fes_log s' = fes_log s"
  using assms(2) fes_inv_ims [OF assms(1)]
proof (cases rule: fes_append_cases)
  case (failed c e)
  from assms(1) obtain img tail where
    img: "journal_image encode (fso_max_frame_bytes (fes_options s)) (ims_events (fes_inner s)) img"
    and at: "journal_at s img tail" by (auto simp: fes_inv_def)
  from persist_spec [OF failed(2) at] have "same_store s s'" "\<exists>tail'. journal_at s' img tail'" by auto
  with assms(1) img show ?thesis
    by (auto simp: fes_inv_def same_store_def fes_log_def)
qed (use assms in auto)

lemma fes_append_ok:
  assumes "fes_inv encode s" "fes_append encode s st x es = (Ok c, s')"
  shows "fes_inv encode s' \<and> spec_append (fes_log s) st x es = Ok c \<and> fes_log s' = fes_log s @ c"
  using assms(2) fes_inv_ims [OF assms(1)]
proof (cases rule: fes_append_cases)
  case (committed c' s1)
  from assms(1) obtain img tail where
    img: "journal_image encode (fso_max_frame_bytes (fes_options s)) (fes_log s) img"
    and at: "journal_at s img tail" by (auto simp: fes_inv_def fes_log_def)
  from persist_spec [OF committed(2) at] have same: "same_store s s1" and
    "\<exists>img' tail'. journal_image encode (fso_max_frame_bytes (fes_options s)) (fes_log s @ c') img' \<and> journal_at s1 img' tail'"
    using img at journal_image_snoc by force+
  then obtain img' tail' where
    img': "journal_image encode (fso_max_frame_bytes (fes_options s)) (fes_log s @ c') img'" "journal_at s1 img' tail'"
    by blast
  have "commit_prepared (fes_inner s1) c' = ims_of (fes_log s @ c')" "log_ok (fes_log s @ c')"
    using commit_fes_inner [OF fes_inv_ims [OF assms(1)] committed(1)] same by (auto simp: same_store_def)
  with committed img' same assms(1) show ?thesis
    by (auto simp: fes_inv_def fes_log_def same_store_def journal_at_def)
qed simp_all

interpretation fes: event_store "fes_append encode" fes_load_stream fes_load_all fes_stream_version fes_len
  fes_log "fes_inv encode" for encode :: "'e stored_event \<Rightarrow> bytes memory_result"
proof unfold_locales
  fix s :: "'e file_event_store" and st x es c s'
  assume "fes_inv encode s" "fes_append encode s st x es = (Ok c, s')"
  then show "fes_inv encode s' \<and> spec_append (fes_log s) st x es = Ok c \<and> fes_log s' = fes_log s @ c"
    by (rule fes_append_ok)
next
  fix s :: "'e file_event_store" and st x es e s'
  assume "fes_inv encode s" "fes_append encode s st x es = (Err e, s')"
  then show "fes_inv encode s' \<and> fes_log s' = fes_log s"
    by (rule fes_append_err)
qed (auto dest!: fes_inv_ims simp: fes_log_def fes_load_stream_def fes_load_all_def fes_stream_version_def
    fes_len_def ims.invar_log ims.load_stream_log ims.load_all_log ims.stream_version_log ims.len_log)

section \<open>Opening a journal\<close>

lemma file_open_spec:
  "file_open d = (r, d') \<Longrightarrow> fh_bytes d' = fh_bytes d \<and> (no_faults d \<longrightarrow> no_faults d' \<and> fh_pos d' = 0 \<and> r = Ok ())"
  unfolding file_open_def by (erule file_call_cases) (auto simp: no_faults_def)

lemma run_open:
  assumes "no_faults d"
  obtains d' where "io_op op file_open d = (Ok (), d')" "fh_bytes d' = fh_bytes d" "fh_pos d' = 0" "no_faults d'"
proof -
  obtain r d' where "file_open d = (r, d')" by force
  with file_open_spec [OF this] assms that [of d'] show thesis by (auto simp: io_op_def)
qed

lemma run_sync:
  assumes "no_faults d"
  obtains d' where "sync du d = (Ok (), d')" "fh_bytes d' = fh_bytes d" "fh_pos d' = fh_pos d" "no_faults d'"
  using sync_spec assms that by (metis prod.collapse)

lemma run_header:
  assumes "no_faults d" "fh_pos d = 0"
  obtains d' where "write_header du d = (Ok (), d')"
    "fh_bytes d' = (if fh_bytes d = [] then FILE_HEADER else fh_bytes d)" "no_faults d'"
proof -
  obtain r1 d1 where l: "file_len d = (r1, d1)" by force
  from file_len_spec [OF l] assms(1) have r1: "r1 = Ok (length (fh_bytes d))"
    and len: "fh_bytes d1 = fh_bytes d" "fh_pos d1 = fh_pos d" "no_faults d1" by blast+
  have l': "io_op ''read event log metadata'' file_len d = (Ok (length (fh_bytes d)), d1)"
    using l r1 by (simp add: io_op_def)
  show thesis
  proof (cases "fh_bytes d = []")
    case False
    then show thesis using l' len assms(1) that [of d1]
      by (simp add: write_header_def seq_op_def l' lift_op_def)
  next
    case True
    obtain r2 d2 where w: "write_all FILE_HEADER d1 = (r2, d2)" by force
    have "fh_pos d1 = length (fh_bytes d1)" using len assms(2) True by simp
    from write_all_spec [OF w this] len assms(1) True have
      d2: "r2 = Ok ()" "fh_bytes d2 = FILE_HEADER" "no_faults d2" by auto
    then have w': "io_op ''write event log header'' (write_all FILE_HEADER) d1 = (Ok (), d2)"
      using w by (simp add: io_op_def)
    obtain d3 where "sync du d2 = (Ok (), d3)" "fh_bytes d3 = fh_bytes d2" "no_faults d3"
      using run_sync [OF d2(3)] by metis
    then show thesis
      using that [of d3] True d2 by (simp add: write_header_def seq_op_def l' w')
  qed
qed

lemma run_set_len:
  assumes "no_faults d"
  obtains d' where "io_op op (file_set_len n) d = (Ok (), d')" "fh_bytes d' = resized n (fh_bytes d)" "no_faults d'"
proof -
  obtain r d' where "file_set_len n d = (r, d')" by force
  with file_set_len_spec [OF this] assms that [of d'] show thesis by (auto simp: io_op_def)
qed

lemma run_seek_end:
  assumes "no_faults d"
  obtains d' where "io_op op file_seek_end d = (Ok (), d')" "fh_bytes d' = fh_bytes d" "no_faults d'"
proof -
  obtain r d' where "file_seek_end d = (r, d')" by force
  with file_seek_end_spec [OF this] assms that [of d'] show thesis by (auto simp: io_op_def)
qed

text \<open>What opening does to a file, when no system call fails.\<close>

definition open_result ::
  "file_store_options \<Rightarrow> bytes \<Rightarrow> 'v scan_outcome \<Rightarrow> ('v list \<times> u64 \<times> bytes) memory_result" where
  "open_result options bs outcome =
    (case outcome of
       ScanComplete events n \<Rightarrow> Ok (events, n, bs)
     | PartialTail events n \<Rightarrow>
         if fso_recovery options = Strict then Err (CorruptLog n ''partial trailing batch'')
         else Ok (events, n, resized (unat n) bs))"

lemma run_recover:
  assumes "no_faults d"
  obtains d' where "no_faults d'"
    "recover_tail options outcome d =
      (map_ok (\<lambda>(events, n, bs). (events, n)) (open_result options (fh_bytes d) outcome), d')"
    "fh_bytes d' = (case open_result options (fh_bytes d) outcome of Ok (_, _, bs) \<Rightarrow> bs | Err _ \<Rightarrow> fh_bytes d)"
proof (cases "\<exists>events n. outcome = PartialTail events n \<and> fso_recovery options \<noteq> Strict")
  case True
  then obtain events n where o: "outcome = PartialTail events n" "fso_recovery options \<noteq> Strict" by blast
  obtain d1 where d1: "io_op ''truncate partial event batch'' (file_set_len (unat n)) d = (Ok (), d1)"
    "fh_bytes d1 = resized (unat n) (fh_bytes d)" "no_faults d1"
    using run_set_len [OF assms] by metis
  obtain d2 where d2: "sync (fso_durability options) d1 = (Ok (), d2)" "fh_bytes d2 = fh_bytes d1" "no_faults d2"
    using run_sync [OF d1(3)] by metis
  show thesis
    using o d1 d2 that [of d2]
    by (simp add: recover_tail_def open_result_def seq_op_def lift_op_def)
next
  case False
  then show thesis
    using assms that [of d]
    by (cases outcome) (auto simp: recover_tail_def open_result_def lift_op_def)
qed

lemma fes_open_spec:
  assumes "no_faults d" "4 \<le> fso_max_frame_bytes options"
    and "bs = (if fh_bytes d = [] then FILE_HEADER else fh_bytes d)"
    and "parse_journal decode (fso_max_frame_bytes options) bs = Ok outcome"
  obtains d' where "no_faults d'"
    "fes_open path decode options LockAcquired d =
      (and_then (open_result options bs outcome) (\<lambda>(events, n, _).
         map_ok (\<lambda>inner. \<lparr> fes_path = path, fes_file = d', fes_options = options, fes_inner = inner,
           fes_durable_len = n \<rparr>) (restore events)), d')"
    "fh_bytes d' = (case open_result options bs outcome of Ok (_, _, bs') \<Rightarrow> bs' | Err _ \<Rightarrow> bs)"
proof -
  obtain d1 where d1: "io_op ''open event log'' file_open d = (Ok (), d1)" "fh_bytes d1 = fh_bytes d"
    "fh_pos d1 = 0" "no_faults d1" using run_open [OF assms(1)] by metis
  obtain d2 where d2: "write_header (fso_durability options) d1 = (Ok (), d2)" "fh_bytes d2 = bs" "no_faults d2"
    using run_header [OF d1(4,3)] assms(3) d1(2) by metis
  obtain r3 d3 where s3: "scan decode (fso_max_frame_bytes options) d2 = (r3, d3)" by force
  with scan_parse [OF s3] d2 assms(4) have d3: "r3 = Ok outcome" "fh_bytes d3 = bs" "no_faults d3" by auto
  obtain d4 where d4: "no_faults d4" "recover_tail options outcome d3 =
      (map_ok (\<lambda>(events, n, bs). (events, n)) (open_result options bs outcome), d4)"
    "fh_bytes d4 = (case open_result options bs outcome of Ok (_, _, bs') \<Rightarrow> bs' | Err _ \<Rightarrow> bs)"
    using run_recover [OF d3(3), of options outcome] d3(2) by metis
  obtain d5 where d5: "io_op ''seek event log end'' file_seek_end d4 = (Ok (), d5)"
    "fh_bytes d5 = fh_bytes d4" "no_faults d5" using run_seek_end [OF d4(1)] by metis
  have unf: "fes_open path decode options LockAcquired d =
      seq_op (recover_tail options outcome) (\<lambda>(events, durable_len).
       seq_op (io_op ''seek event log end'' file_seek_end) (\<lambda>_ d.
         (map_ok (\<lambda>inner. \<lparr> fes_path = path, fes_file = d, fes_options = options,
              fes_inner = inner, fes_durable_len = durable_len \<rparr>) (restore events), d))) d3"
    using assms(2) s3 d3(1)
    by (simp add: fes_open_def seq_op_def lift_op_def d1(1) d2(1) try_lock_def)
  show thesis
  proof (cases "open_result options bs outcome")
    case (Err e)
    with d4 unf that [of d4] show thesis by (simp add: seq_op_def)
  next
    case (Ok t)
    obtain events n bs' where "t = (events, n, bs')" by (cases t)
    with Ok d4 have rec: "recover_tail options outcome d3 = (Ok (events, n), d4)" by simp
    show thesis
      using that [of d5] d4 d5 Ok \<open>t = _\<close> unf
      by (simp add: seq_op_def rec)
  qed
qed

section \<open>Recovery\<close>

text \<open>The file holds the journal and nothing else.\<close>

definition fes_clean :: "'e file_event_store \<Rightarrow> bool" where
  "fes_clean s \<longleftrightarrow> length (fh_bytes (fes_file s)) = unat (fes_durable_len s)"

lemma fes_clean_journal:
  assumes "fes_inv encode s" "fes_clean s"
  shows "journal_image encode (fso_max_frame_bytes (fes_options s)) (fes_log s) (fh_bytes (fes_file s)) \<and>
    journal_at s (fh_bytes (fes_file s)) []"
  using assms by (auto simp: fes_inv_def fes_clean_def fes_log_def journal_at_def)

lemma journal_image_parse:
  assumes "codec encode decode valid" "journal_image encode limit log img" "list_all valid log"
    and "length img < 2 ^ 64"
  shows "parse_journal decode limit img = Ok (ScanComplete log (of_nat (length img)))"
    and "encode_batch c encode limit = Ok frame \<Longrightarrow> 0 < k \<Longrightarrow> k < length frame \<Longrightarrow>
      parse_journal decode limit (img @ take k frame) = Ok (PartialTail log (of_nat (length img)))"
proof -
  from assms(2) obtain batches frames where b: "frames_of encode limit batches = Ok frames"
    "concat batches = log" "img = FILE_HEADER @ concat frames" by (auto simp: journal_image_def)
  then have v: "list_all (list_all valid) batches" using assms(3) by (auto simp: list_all_iff)
  have len: "length (FILE_HEADER @ concat frames) < 2 ^ 64" using assms(4) b(3) by simp
  show "parse_journal decode limit img = Ok (ScanComplete log (of_nat (length img)))"
    using journal_whole [OF assms(1) b(1) v len] b by simp
  show "encode_batch c encode limit = Ok frame \<Longrightarrow> 0 < k \<Longrightarrow> k < length frame \<Longrightarrow>
      parse_journal decode limit (img @ take k frame) = Ok (PartialTail log (of_nat (length img)))"
    using journal_torn [OF assms(1) b(1) v len] b by simp
qed

lemma journal_image_nonempty: "journal_image encode limit log img \<Longrightarrow> img \<noteq> []"
  by (auto simp: journal_image_def FILE_HEADER_def as_bytes_def)

lemma opened_store:
  assumes "no_faults d" "4 \<le> fso_max_frame_bytes options" "fh_bytes d \<noteq> []"
    and "parse_journal decode (fso_max_frame_bytes options) (fh_bytes d) = Ok outcome"
    and "open_result options (fh_bytes d) outcome = Ok (log, of_nat (length img), img)"
    and "log_ok log" "journal_image encode (fso_max_frame_bytes options) log img" "length img < 2 ^ 64"
  shows "\<exists>t d'. fes_open path decode options LockAcquired d = (Ok t, d') \<and> fh_bytes d' = img \<and>
    fes_inner t = ims_of log \<and> fes_file t = d' \<and> fes_durable_len t = of_nat (length img) \<and>
    fes_inv encode t \<and> fes_clean t"
proof -
  obtain d' where "no_faults d'" and o: "fes_open path decode options LockAcquired d =
      (and_then (open_result options (fh_bytes d) outcome) (\<lambda>(events, n, _).
         map_ok (\<lambda>inner. \<lparr> fes_path = path, fes_file = d', fes_options = options, fes_inner = inner,
           fes_durable_len = n \<rparr>) (restore events)), d')"
    and b: "fh_bytes d' = img"
    using fes_open_spec [OF assms(1,2) refl, of decode outcome path] assms(3-5) by auto
  let ?t = "\<lparr> fes_path = path, fes_file = d', fes_options = options, fes_inner = ims_of log,
      fes_durable_len = of_nat (length img) \<rparr>"
  have "restore log = Ok (ims_of log)" using assms(6) by (simp add: restore_Ok)
  then have "fes_open path decode options LockAcquired d = (Ok ?t, d')" using o assms(5) by simp
  moreover have "fes_inv encode ?t" "fes_clean ?t"
    using assms(2,6-8) b by (auto simp: fes_inv_def fes_clean_def journal_at_def)
  ultimately show ?thesis using b
    by (intro exI [of _ ?t] exI [of _ d']) simp
qed

lemma reopen_whole:
  assumes "codec encode decode valid" "list_all valid log" "log_ok log"
    and "journal_image encode (fso_max_frame_bytes options) log img" "length img < 2 ^ 64"
    and "no_faults d" "4 \<le> fso_max_frame_bytes options" "fh_bytes d = img"
  shows "\<exists>t d'. fes_open path decode options LockAcquired d = (Ok t, d') \<and> fh_bytes d' = img \<and>
    fes_inner t = ims_of log \<and> fes_file t = d' \<and> fes_durable_len t = of_nat (length img) \<and>
    fes_inv encode t \<and> fes_clean t"
  using assms journal_image_parse(1) [OF assms(1,4,2,5)] journal_image_nonempty [OF assms(4)]
  by (intro opened_store [where outcome = "ScanComplete log (of_nat (length img))"])
    (simp_all add: open_result_def)

lemma reopen_torn:
  assumes "codec encode decode valid" "list_all valid log" "log_ok log"
    and "journal_image encode (fso_max_frame_bytes options) log img" "length img < 2 ^ 64"
    and "no_faults d" "4 \<le> fso_max_frame_bytes options" "fh_bytes d = img @ take k frame"
    and "encode_batch c encode (fso_max_frame_bytes options) = Ok frame" "0 < k" "k < length frame"
  shows "fso_recovery options = TruncatePartialTail \<Longrightarrow>
      \<exists>t d'. fes_open path decode options LockAcquired d = (Ok t, d') \<and> fh_bytes d' = img \<and>
        fes_inner t = ims_of log \<and> fes_file t = d' \<and> fes_durable_len t = of_nat (length img) \<and>
        fes_inv encode t \<and> fes_clean t"
    and "fso_recovery options = Strict \<Longrightarrow>
      \<exists>d'. fes_open path decode options LockAcquired d =
        (Err (CorruptLog (of_nat (length img)) ''partial trailing batch''), d') \<and> fh_bytes d' = fh_bytes d"
proof -
  note parse = journal_image_parse(2) [OF assms(1,4,2,5,9-11)]
  have ne: "fh_bytes d \<noteq> []" using journal_image_nonempty [OF assms(4)] assms(8) by simp
  have un: "unat (of_nat (length img) :: u64) = length img" using assms(5) by simp
  show "fso_recovery options = TruncatePartialTail \<Longrightarrow>
      \<exists>t d'. fes_open path decode options LockAcquired d = (Ok t, d') \<and> fh_bytes d' = img \<and>
        fes_inner t = ims_of log \<and> fes_file t = d' \<and> fes_durable_len t = of_nat (length img) \<and>
        fes_inv encode t \<and> fes_clean t"
    using assms ne parse un
    by (intro opened_store [where outcome = "PartialTail log (of_nat (length img))"])
      (simp_all add: open_result_def resized_le)
  assume strict: "fso_recovery options = Strict"
  show "\<exists>d'. fes_open path decode options LockAcquired d =
        (Err (CorruptLog (of_nat (length img)) ''partial trailing batch''), d') \<and> fh_bytes d' = fh_bytes d"
  proof (rule fes_open_spec [OF assms(6,7) refl, of decode "PartialTail log (of_nat (length img))" path])
    show "parse_journal decode (fso_max_frame_bytes options)
        (if fh_bytes d = [] then FILE_HEADER else fh_bytes d) = Ok (PartialTail log (of_nat (length img)))"
      using ne parse assms(8) by (simp only: if_False)
  qed (use strict ne in \<open>auto simp: open_result_def\<close>)
qed

section \<open>Properties of the durable store\<close>



lemma reopen_after_crash:
  assumes "codec encode decode valid" "fes_inv encode s" "fes_clean s"
    and "spec_append (fes_log s) st x es = Ok c" "list_all valid (fes_log s @ c)"
    and "encode_batch c encode (fso_max_frame_bytes (fes_options s)) = Ok frame"
    and "length (fh_bytes (fes_file s) @ frame) < 2 ^ 64" "k \<le> length frame"
    and "no_faults d" "fh_bytes d = fh_bytes (fes_file s) @ take k frame"
  shows "\<exists>t d'. fes_open path decode ((fes_options s)\<lparr>fso_recovery := TruncatePartialTail\<rparr>) LockAcquired d = (Ok t, d') \<and>
    fes_inv encode t \<and> fes_clean t \<and>
    fes_log t = (if k = length frame then fes_log s @ c else fes_log s) \<and>
    fh_bytes d' = (if k = length frame then fh_bytes (fes_file s) @ frame else fh_bytes (fes_file s))"
proof -
  let ?o = "(fes_options s)\<lparr>fso_recovery := TruncatePartialTail\<rparr>" and ?img = "fh_bytes (fes_file s)"
  have img: "journal_image encode (fso_max_frame_bytes ?o) (fes_log s) ?img"
    using fes_clean_journal [OF assms(2,3)] by simp
  have ok: "log_ok (fes_log s)" "log_ok (fes_log s @ c)" "4 \<le> fso_max_frame_bytes ?o"
    using assms(2) commit_fes_inner [OF fes_inv_ims assms(4)]
    by (auto simp: fes_inv_def ims_inv_def fes_log_def)
  have valid: "list_all valid (fes_log s)" using assms(5) by simp
  have frame: "encode_batch c encode (fso_max_frame_bytes ?o) = Ok frame" using assms(6) by simp
  consider "k = length frame" | "k = 0" "k \<noteq> length frame" | "0 < k" "k < length frame"
    using assms(8) by linarith
  then show ?thesis
  proof cases
    case 1
    from reopen_whole [OF assms(1,5) ok(2) journal_image_snoc [OF img frame] assms(7,9) ok(3)] 1 assms(10)
    show ?thesis by (fastforce simp: fes_log_def)
  next
    case 2
    from reopen_whole [OF assms(1) valid ok(1) img _ assms(9) ok(3)] 2 assms(7,10)
    show ?thesis by (fastforce simp: fes_log_def)
  next
    case 3
    from reopen_torn(1) [OF assms(1) valid ok(1) img _ assms(9) ok(3) assms(10) frame 3] 3 assms(7)
    show ?thesis by (fastforce simp: fes_log_def)
  qed
qed

text \<open>
  C3: crash atomicity. Take a clean store and an append whose frame was being written when the
  process died, so that the file ends in the first \<open>k\<close> bytes of that frame. Reopening with
  truncation gives a clean store in a consistent state that has the whole batch if the whole frame
  reached the file and nothing of it otherwise.
\<close>

theorem crash_atomicity:
  assumes "codec encode decode valid" "fes_inv encode s" "fes_clean s"
    and "spec_append (fes_log s) st x es = Ok c" "list_all valid (fes_log s @ c)"
    and "encode_batch c encode (fso_max_frame_bytes (fes_options s)) = Ok frame"
    and "length (fh_bytes (fes_file s) @ frame) < 2 ^ 64" "k \<le> length frame"
    and "no_faults d" "fh_bytes d = fh_bytes (fes_file s) @ take k frame"
  shows "\<exists>t d'. fes_open path decode ((fes_options s)\<lparr>fso_recovery := TruncatePartialTail\<rparr>) LockAcquired d = (Ok t, d') \<and>
    fes_inv encode t \<and> fes_clean t \<and>
    fes_log t = (if k = length frame then fes_log s @ c else fes_log s) \<and>
    fh_bytes d' = (if k = length frame then fh_bytes (fes_file s) @ frame else fh_bytes (fes_file s))"
  using assms by (rule reopen_after_crash)

text \<open>
  Under the strict policy the same torn file is refused with the offset at which the durable
  journal ends, and opening it does not change a byte of it.
\<close>

theorem strict_open_refuses_torn_tail:
  assumes "codec encode decode valid" "fes_inv encode s" "fes_clean s" "list_all valid (fes_log s)"
    and "encode_batch c encode (fso_max_frame_bytes (fes_options s)) = Ok frame" "0 < k" "k < length frame"
    and "no_faults d" "fh_bytes d = fh_bytes (fes_file s) @ take k frame"
  shows "\<exists>d'. fes_open path decode ((fes_options s)\<lparr>fso_recovery := Strict\<rparr>) LockAcquired d =
    (Err (CorruptLog (fes_durable_len s) ''partial trailing batch''), d') \<and> fh_bytes d' = fh_bytes d"
proof -
  let ?o = "(fes_options s)\<lparr>fso_recovery := Strict\<rparr>" and ?img = "fh_bytes (fes_file s)"
  have img: "journal_image encode (fso_max_frame_bytes ?o) (fes_log s) ?img"
    and len: "length ?img < 2 ^ 64" "fes_durable_len s = of_nat (length ?img)"
    using fes_clean_journal [OF assms(2,3)] by (auto simp: journal_at_def)
  have ok: "log_ok (fes_log s)" "4 \<le> fso_max_frame_bytes ?o"
    using assms(2) by (auto simp: fes_inv_def ims_inv_def fes_log_def)
  have "encode_batch c encode (fso_max_frame_bytes ?o) = Ok frame" using assms(5) by simp
  from reopen_torn(2) [OF assms(1,4) ok(1) img len(1) assms(8) ok(2) assms(9) this assms(6,7)] len(2)
  show ?thesis by simp
qed

text \<open>
  Reopening after any history of appends is faithful: with a clean file and a codec that decodes
  what it encodes, the reopened store has exactly the in-memory state of the store that wrote the
  journal, the same durable length, and the file is not changed; opening an empty file creates an
  empty store whose journal is just the file header.
\<close>

theorem reopen_restores_store:
  assumes "codec encode decode valid" "no_faults d"
  shows "(fes_inv encode s \<and> fes_clean s \<and> list_all valid (fes_log s) \<and> fh_bytes d = fh_bytes (fes_file s) \<longrightarrow>
      (\<exists>t d'. fes_open path decode (fes_options s) LockAcquired d = (Ok t, d') \<and> fes_inner t = fes_inner s \<and>
         fes_durable_len t = fes_durable_len s \<and> fh_bytes d' = fh_bytes d \<and> fes_inv encode t \<and> fes_clean t)) \<and>
    (fh_bytes d = [] \<and> 4 \<le> fso_max_frame_bytes options \<longrightarrow>
      (\<exists>t d'. fes_open path decode options LockAcquired d = (Ok t, d') \<and> fes_log t = [] \<and>
         fh_bytes d' = FILE_HEADER \<and> fes_inv encode t \<and> fes_clean t))"
proof (intro conjI impI)
  assume s: "fes_inv encode s \<and> fes_clean s \<and> list_all valid (fes_log s) \<and> fh_bytes d = fh_bytes (fes_file s)"
  let ?img = "fh_bytes (fes_file s)"
  have img: "journal_image encode (fso_max_frame_bytes (fes_options s)) (fes_log s) ?img"
    and len: "length ?img < 2 ^ 64" "fes_durable_len s = of_nat (length ?img)"
    using s fes_clean_journal [of encode s] by (auto simp: journal_at_def)
  have ok: "log_ok (fes_log s)" "4 \<le> fso_max_frame_bytes (fes_options s)" "fes_inner s = ims_of (fes_log s)"
    using s by (auto simp: fes_inv_def ims_inv_def fes_log_def)
  from reopen_whole [OF assms(1) _ ok(1) img len(1) assms(2) ok(2)] s len(2) ok(3)
  show "\<exists>t d'. fes_open path decode (fes_options s) LockAcquired d = (Ok t, d') \<and> fes_inner t = fes_inner s \<and>
         fes_durable_len t = fes_durable_len s \<and> fh_bytes d' = fh_bytes d \<and> fes_inv encode t \<and> fes_clean t"
    by fastforce
next
  assume e: "fh_bytes d = [] \<and> 4 \<le> fso_max_frame_bytes options"
  have parse: "parse_journal decode (fso_max_frame_bytes options) FILE_HEADER = Ok (ScanComplete [] 8)"
    using journal_image_parse(1) [OF assms(1) journal_image_empty, where limit = "fso_max_frame_bytes options"] by simp
  have rest: "restore ([] :: 'a stored_event list) = Ok (ims_of [])" by (simp add: restore_Ok)
  show "\<exists>t d'. fes_open path decode options LockAcquired d = (Ok t, d') \<and> fes_log t = [] \<and>
         fh_bytes d' = FILE_HEADER \<and> fes_inv encode t \<and> fes_clean t"
  proof (rule fes_open_spec [OF assms(2) _ refl, of options decode "ScanComplete [] 8" path])
    show "4 \<le> fso_max_frame_bytes options" using e by simp
    show "parse_journal decode (fso_max_frame_bytes options)
        (if fh_bytes d = [] then FILE_HEADER else fh_bytes d) = Ok (ScanComplete [] 8)" using e parse by simp
  next
    fix d'
    let ?t = "\<lparr> fes_path = path, fes_file = d', fes_options = options, fes_inner = ims_of [],
        fes_durable_len = 8 \<rparr> :: 'a file_event_store"
    assume o: "fes_open path decode options LockAcquired d =
        (and_then (open_result options (if fh_bytes d = [] then FILE_HEADER else fh_bytes d) (ScanComplete [] 8))
           (\<lambda>(events, n, _). map_ok (\<lambda>inner. \<lparr> fes_path = path, fes_file = d', fes_options = options,
              fes_inner = inner, fes_durable_len = n \<rparr>) (restore events)), d')"
      and b: "fh_bytes d' = (case open_result options (if fh_bytes d = [] then FILE_HEADER else fh_bytes d)
           (ScanComplete ([] :: 'a stored_event list) 8) of Ok (_, _, bs') \<Rightarrow> bs' | Err _ \<Rightarrow> if fh_bytes d = [] then FILE_HEADER else fh_bytes d)"
    have "fes_open path decode options LockAcquired d = (Ok ?t, d')" "fh_bytes d' = FILE_HEADER"
      using o b e rest by (simp_all add: open_result_def)
    moreover have "journal_at ?t FILE_HEADER []"
      using \<open>fh_bytes d' = FILE_HEADER\<close> by (simp add: journal_at_def)
    then have "fes_inv encode ?t" "fes_clean ?t"
      using e \<open>fh_bytes d' = FILE_HEADER\<close> journal_image_empty [of encode "fso_max_frame_bytes options"]
      by (auto simp: fes_inv_def fes_clean_def)
    ultimately show ?thesis
      by (intro exI [of _ ?t] exI [of _ d']) (simp add: fes_log_def)
  qed
qed

text \<open>
  Once the file is longer than the durable journal (a failed rollback or a foreign writer), no
  append that has something to write gets through: it fails without touching the file, with
  \<open>ExternalModification\<close> when the metadata could be read and the batch is acceptable.
\<close>

theorem foreign_tail_blocks_appends:
  assumes "fes_inv encode s" "\<not> fes_clean s" "es \<noteq> []" "fes_append encode s st x es = (r, s')"
  shows "(\<exists>e. r = Err e) \<and> fh_bytes (fes_file s') = fh_bytes (fes_file s) \<and> fes_log s' = fes_log s \<and>
    (no_faults (fes_file s) \<and> (\<exists>c. spec_append (fes_log s) st x es = Ok c) \<longrightarrow> r = Err ExternalModification)"
proof -
  from assms(1,2) obtain img tail where at: "journal_at s img tail" "tail \<noteq> []"
    by (fastforce simp: fes_inv_def fes_clean_def journal_at_def)
  have inner: "fes_log s' = fes_log s" if "same_store s s'"
    using that by (simp add: same_store_def fes_log_def)
  have ne: "c \<noteq> []" if "spec_append (fes_log s) st x es = Ok c" for c
    using spec_append_ok [OF _ that] assms(1,3)
    by (auto simp: fes_inv_def ims_inv_def fes_log_def dest: arg_cong [where f = length])
  show ?thesis
    using assms(4) fes_inv_ims [OF assms(1)]
  proof (cases rule: fes_append_cases)
    case (failed c e)
    from persist_spec [OF failed(2) at(1)] at(2)
    have "same_store s s'" "fh_bytes (fes_file s') = fh_bytes (fes_file s)"
      using at(1) by (auto simp: journal_at_def)
    moreover have "e = ExternalModification" if nf: "no_faults (fes_file s)"
    proof -
      obtain q d where l: "file_len (fes_file s) = (q, d)" by force
      from file_len_spec [OF l] nf have "q = Ok (length (fh_bytes (fes_file s)))" by blast
      then have "on_file (io_op ''read event log metadata'' file_len) s =
          (Ok (length (fh_bytes (fes_file s))), s\<lparr>fes_file := d\<rparr>)"
        using l by (simp add: on_file_def io_op_def)
      then show ?thesis
        using failed(2) ne [OF failed(1)] assms(2)
        by (simp add: persist_def seq_op_def fes_clean_def lift_op_def)
    qed
    ultimately show ?thesis using failed inner by blast
  next
    case (committed c s1)
    from persist_spec [OF committed(2) at(1)] at(2) ne [OF committed(1)] show ?thesis by auto
  qed auto
qed

section \<open>Running the store on a small journal\<close>

definition sample_stored :: "nat stored_event" where
  "sample_stored = stamp (TextId ''s'') 0 0 (sample_event ''a'')"

definition sample_store :: "io_outcome list \<Rightarrow> bytes \<Rightarrow> nat file_event_store" where
  "sample_store plan tail =
    \<lparr> fes_path = ''log'', fes_file = \<lparr> fh_bytes = FILE_HEADER @ tail, fh_pos = 0, fh_plan = plan \<rparr>,
      fes_options = \<lparr> fso_recovery = Strict, fso_durability = Flush, fso_max_frame_bytes = 100 \<rparr>,
      fes_inner = ims_of [], fes_durable_len = 8 \<rparr>"

lemma sample_store_inv: "fes_inv encode (sample_store plan tail)"
proof -
  have "journal_at (sample_store plan tail) FILE_HEADER tail"
    by (simp add: journal_at_def sample_store_def)
  then show ?thesis
    using journal_image_empty [of encode 100] unfolding fes_inv_def by (auto simp: sample_store_def)
qed

lemma sample_store_sel [simp]:
  "fes_log (sample_store plan tail) = []" "fh_bytes (fes_file (sample_store plan tail)) = FILE_HEADER @ tail"
  "fso_max_frame_bytes (fes_options (sample_store plan tail)) = 100"
  "fes_durable_len (sample_store plan tail) = 8" "fes_clean (sample_store plan tail) \<longleftrightarrow> tail = []"
  "no_faults (fes_file (sample_store plan tail)) \<longleftrightarrow> list_all (\<lambda>x. \<not> io_fault x) plan"
  by (simp_all add: sample_store_def fes_log_def fes_clean_def no_faults_def)

lemma sample_spec_append:
  "spec_append [] (TextId ''s'') NoStream [sample_event ''a''] = Ok [sample_stored]"
  by (simp add: spec_append_def version_matches_def spec_version_def stamped_def sample_stored_def)



lemma sample_batch: "encode_batch [sample_stored] (sample_encode sample_stored)
    (fso_max_frame_bytes (fes_options (sample_store plan tail))) = Ok sample_frame"
  by (simp add: sample_frame)

lemma sample_spec_store:
  "spec_append (fes_log (sample_store plan tail)) (TextId ''s'') NoStream [sample_event ''a''] = Ok [sample_stored]"
  by (simp add: sample_spec_append)

theorem crash_atomicity_witness:
  "\<exists>t d'. fes_open ''log'' (sample_decode sample_stored)
      ((fes_options (sample_store [] []))\<lparr>fso_recovery := TruncatePartialTail\<rparr>) LockAcquired
      \<lparr> fh_bytes = FILE_HEADER @ take 20 sample_frame, fh_pos = 0, fh_plan = [IoShort 5] \<rparr> = (Ok t, d') \<and>
    fes_log t = [] \<and> fh_bytes d' = FILE_HEADER"
proof -
  let ?d = "\<lparr> fh_bytes = FILE_HEADER @ take 20 sample_frame, fh_pos = 0, fh_plan = [IoShort 5] \<rparr>"
  have "\<exists>t d'. fes_open ''log'' (sample_decode sample_stored)
      ((fes_options (sample_store [] []))\<lparr>fso_recovery := TruncatePartialTail\<rparr>) LockAcquired ?d = (Ok t, d') \<and>
    fes_inv (sample_encode sample_stored) t \<and> fes_clean t \<and>
    fes_log t = (if 20 = length sample_frame then fes_log (sample_store [] []) @ [sample_stored] else fes_log (sample_store [] [])) \<and>
    fh_bytes d' = (if 20 = length sample_frame then fh_bytes (fes_file (sample_store [] [])) @ sample_frame
       else fh_bytes (fes_file (sample_store [] [])))"
    by (rule crash_atomicity [OF sample_codec sample_store_inv _ sample_spec_store _ sample_batch])
      (simp_all add: no_faults_def io_fault_def)
  then show ?thesis by (auto split: if_splits)
qed

theorem strict_open_refuses_torn_tail_witness:
  "\<exists>d'. fes_open ''log'' (sample_decode sample_stored)
      ((fes_options (sample_store [] []))\<lparr>fso_recovery := Strict\<rparr>) LockAcquired
      \<lparr> fh_bytes = FILE_HEADER @ take 20 sample_frame, fh_pos = 0, fh_plan = [] \<rparr> =
    (Err (CorruptLog 8 ''partial trailing batch''), d')"
proof -
  let ?d = "\<lparr> fh_bytes = FILE_HEADER @ take 20 sample_frame, fh_pos = 0, fh_plan = [] \<rparr>"
  have "\<exists>d'. fes_open ''log'' (sample_decode sample_stored)
      ((fes_options (sample_store [] []))\<lparr>fso_recovery := Strict\<rparr>) LockAcquired ?d =
    (Err (CorruptLog (fes_durable_len (sample_store [] [])) ''partial trailing batch''), d') \<and> fh_bytes d' = fh_bytes ?d"
    by (rule strict_open_refuses_torn_tail [OF sample_codec sample_store_inv _ _ sample_batch, where k = 20])
      (simp_all add: no_faults_def)
  then show ?thesis by auto
qed

theorem reopen_restores_store_witness:
  "\<exists>t d'. fes_open ''log'' (sample_decode sample_stored) (fes_options (sample_store [] [])) LockAcquired
      \<lparr> fh_bytes = FILE_HEADER, fh_pos = 0, fh_plan = [] \<rparr> = (Ok t, d') \<and> fes_log t = [] \<and> fh_bytes d' = FILE_HEADER"
proof -
  let ?d = "\<lparr> fh_bytes = FILE_HEADER, fh_pos = 0, fh_plan = [] \<rparr>"
  have pre: "fes_inv (sample_encode sample_stored) (sample_store [] []) \<and> fes_clean (sample_store [] []) \<and>
      list_all (\<lambda>_. True) (fes_log (sample_store [] [])) \<and> fh_bytes ?d = fh_bytes (fes_file (sample_store [] []))"
    by (simp add: sample_store_inv)
  have nf: "no_faults ?d" by (simp add: no_faults_def)
  have "fes_inner (sample_store [] []) = ims_of []" by (simp add: sample_store_def)
  with reopen_restores_store [OF sample_codec nf, of sample_stored "sample_store [] []" "''log''"
      "fes_options (sample_store [] [])"] pre
  show ?thesis by (auto simp: fes_log_def)
qed

theorem foreign_tail_blocks_appends_witness:
  "\<exists>s'. fes_append (sample_encode sample_stored) (sample_store [] [1, 2]) (TextId ''s'') NoStream
      [sample_event ''a''] = (Err ExternalModification, s') \<and> fes_log s' = []"
proof -
  obtain r s' where a: "fes_append (sample_encode sample_stored) (sample_store [] [1, 2]) (TextId ''s'') NoStream
      [sample_event ''a''] = (r, s')" by force
  from foreign_tail_blocks_appends [OF sample_store_inv _ _ a] a sample_spec_append show ?thesis by simp
qed

end
