(* ===== verification/Store_Interface.thy ===== *)
theory Store_Interface
  imports File_Store
begin

text \<open>
  The provided methods of the trait \<open>EventStore\<close> in \<open>src/src/store/mod.rs\<close>: what an owned append, a
  receipt-only append and an emptiness test are for a store that does not override them. Both
  stores of the crate override the appends, to move events instead of cloning them; the overrides
  are the provided methods, on every branch and with the same effect on the store and its file.
\<close>

section \<open>Provided methods\<close>

type_synonym ('s, 'e, 'r) append_op =
  "'s \<Rightarrow> stream_id \<Rightarrow> expected_version \<Rightarrow> 'e new_event list \<Rightarrow> 'r memory_result \<times> 's"

definition default_append_owned :: "('s, 'e, 'e stored_event list) append_op \<Rightarrow> ('s, 'e, 'e stored_event list) append_op" where
  "default_append_owned app s stream expected events = app s stream expected events"

definition default_append_owned_receipt ::
  "('s, 'e, 'e stored_event list) append_op \<Rightarrow> ('s, 'e, append_receipt) append_op"
where
  "default_append_owned_receipt append_owned s stream expected events =
    (case append_owned s stream expected events of (r, s') \<Rightarrow> (map_ok from_events r, s'))"

definition default_is_empty :: "('s \<Rightarrow> usize) \<Rightarrow> 's \<Rightarrow> bool" where
  "default_is_empty len s \<longleftrightarrow> len s = 0"

section \<open>The overrides of the file store\<close>

lemma fes_append_owned_eq: "fes_append_owned = fes_append"
  by (intro ext) (simp add: fes_append_owned_def fes_append_def prepare_append_owned_eq)

lemma fes_receipt_eq:
  "fes_append_owned_receipt encode s st x es = (case fes_append encode s st x es of (r, s') \<Rightarrow> (map_ok from_events r, s'))"
proof (cases "prepare_append (fes_inner s) st x es")
  case (Ok c)
  obtain r s1 where "persist encode c s = (r, s1)" by force
  then show ?thesis
    by (cases r) (simp_all add: fes_append_owned_receipt_def fes_append_def prepare_append_owned_eq commit_prepared_owned_eq
        seq_op_def lift_op_def Ok Let_def)
qed (simp add: fes_append_owned_receipt_def fes_append_def prepare_append_owned_eq seq_op_def lift_op_def)

text \<open>
  The append methods that the in-memory store and the file store override agree with the ones the
  trait provides, errors and partial effects included.
\<close>

theorem overrides_agree_with_defaults:
  "ims_append_owned = default_append_owned ims_append \<and>
   ims_append_owned_receipt = default_append_owned_receipt ims_append_owned \<and>
   fes_append_owned encode = default_append_owned (fes_append encode) \<and>
   fes_append_owned_receipt encode = default_append_owned_receipt (fes_append_owned encode)"
proof (intro conjI ext)
  show "ims_append_owned s st x es = default_append_owned ims_append s st x es" for s st x and es :: "'a new_event list"
    by (simp add: default_append_owned_def ims_append_owned_eq)
  show "ims_append_owned_receipt s st x es = default_append_owned_receipt ims_append_owned s st x es"
    for s st x and es :: "'b new_event list"
    by (simp add: default_append_owned_receipt_def ims_append_owned_eq ims_receipt_eq)
  show "fes_append_owned encode s st x es = default_append_owned (fes_append encode) s st x es" for s st x es
    by (simp add: default_append_owned_def fes_append_owned_eq)
  show "fes_append_owned_receipt encode s st x es = default_append_owned_receipt (fes_append_owned encode) s st x es" for s st x es
    by (simp add: default_append_owned_receipt_def fes_append_owned_eq fes_receipt_eq)
qed

section \<open>Receipts of any store\<close>

context event_store
begin

text \<open>A receipt names the events that the log gained, and an empty store is one with an empty log.\<close>

lemma receipt_of_log:
  assumes "invar s" "default_append_owned_receipt (default_append_owned append) s st x es = (Ok receipt, s')"
  shows "\<exists>c. log s' = log s @ c \<and> c = stamped (log s) st es \<and> receipt = from_events c"
proof -
  obtain c where c: "append s st x es = (Ok c, s')" "receipt = from_events c"
    using assms(2)
    by (auto simp: default_append_owned_receipt_def default_append_owned_def map_ok_Ok split: prod.splits)
  with append_ok [OF assms(1) c(1)] spec_append_ok [OF invar_log [OF assms(1)]] show ?thesis by auto
qed

lemma is_empty_log: "invar s \<Longrightarrow> default_is_empty len s \<longleftrightarrow> log s = []"
  by (simp add: default_is_empty_def len_log)

end

end
