(* ===== verification/Codec_Wrappers.thy ===== *)
theory Codec_Wrappers
  imports Codec
begin

text \<open>
  The two wrappers of \<open>src/src/codec\<close> around an inner codec: the size-bounded LZ4 envelope
  (\<open>compression.rs\<close>) and the authenticated XChaCha20-Poly1305 envelope (\<open>encryption.rs\<close>). The block
  compressor and the cipher are third-party code: they are parameters, with what their
  documentation promises as \<open>lz4_laws\<close> and \<open>aead_laws\<close>. Each wrapper turns a codec into a codec.
\<close>

section \<open>LZ4 envelope\<close>

record lz4_block =
  lz4_max_output :: "usize \<Rightarrow> usize"
  lz4_compress_into :: "bytes \<Rightarrow> usize \<Rightarrow> bytes option"
  lz4_decompress_into :: "bytes \<Rightarrow> usize \<Rightarrow> bytes option"

text \<open>
  \<open>compress_into\<close> and \<open>decompress_into\<close> take the input and the capacity of the output slice and
  give back the bytes written there. Compression fits the documented maximal size, which is never
  below the input size, and decompression into a slice of the original length restores the input.
\<close>

definition lz4_laws :: "lz4_block \<Rightarrow> bool" where
  "lz4_laws lz \<longleftrightarrow> (\<forall>raw cap c. lz4_compress_into lz raw cap = Some c \<longrightarrow>
      length c \<le> cap \<and> lz4_decompress_into lz c (length raw) = Some raw) \<and>
    (\<forall>n. n \<le> lz4_max_output lz n)"

definition LZ4_HEADER :: bytes where
  "LZ4_HEADER = as_bytes ''WMEMLZ01''"

definition LZ4_HEADER_LEN :: usize where
  "LZ4_HEADER_LEN = 25"

definition MODE_RAW :: u8 where
  "MODE_RAW = 0"

definition MODE_LZ4 :: u8 where
  "MODE_LZ4 = 1"

definition lz4_codec_error :: "string \<Rightarrow> memory_error" where
  "lz4_codec_error message = CodecError message"

definition lz4_invalid :: "string \<Rightarrow> memory_error" where
  "lz4_invalid reason = InvalidValue ''max_decoded_bytes'' reason"

definition lz4_new :: "usize \<Rightarrow> usize memory_result" where
  "lz4_new max_decoded_bytes =
    (if max_decoded_bytes = 0 then Err (lz4_invalid ''must be greater than zero'') else Ok max_decoded_bytes)"

definition lz4_encode ::
  "lz4_block \<Rightarrow> usize \<Rightarrow> ('v \<Rightarrow> bytes memory_result) \<Rightarrow> 'v \<Rightarrow> bytes memory_result" where
  "lz4_encode lz max_decoded_bytes inner value =
    and_then (inner value) (\<lambda>raw.
    if length raw > max_decoded_bytes then Err (lz4_invalid ''encoded value exceeds max_decoded_bytes'')
    else and_then (ok_or (usize_checked_add LZ4_HEADER_LEN (lz4_max_output lz (length raw))) CapacityOverflow) (\<lambda>capacity.
      and_then (ok_or (lz4_compress_into lz raw (capacity - LZ4_HEADER_LEN))
          (lz4_codec_error ''LZ4 output capacity was insufficient'')) (\<lambda>compressed.
      let (mode, payload) = (if length compressed < length raw then (MODE_LZ4, compressed) else (MODE_RAW, raw))
      in and_then (ok_or (u64_try_from (length raw)) CapacityOverflow) (\<lambda>raw_len.
         and_then (ok_or (u64_try_from (length payload)) CapacityOverflow) (\<lambda>stored_len.
         Ok (LZ4_HEADER @ [mode] @ u64_le_bytes raw_len @ u64_le_bytes stored_len @ payload))))))"

definition lz4_payload :: "lz4_block \<Rightarrow> u8 \<Rightarrow> usize \<Rightarrow> bytes \<Rightarrow> bytes memory_result" where
  "lz4_payload lz mode raw_len payload =
    (if mode = MODE_RAW then
       (if length payload = raw_len then Ok payload else Err (lz4_codec_error ''raw payload length mismatch''))
     else if mode = MODE_LZ4 then
       and_then (ok_or (lz4_decompress_into lz payload raw_len) (lz4_codec_error ''invalid LZ4 payload'')) (\<lambda>raw.
         if length raw \<noteq> raw_len then Err (lz4_codec_error ''decoded payload length mismatch'') else Ok raw)
     else Err (lz4_codec_error ''unsupported compression mode''))"

definition lz4_decode ::
  "lz4_block \<Rightarrow> usize \<Rightarrow> (bytes \<Rightarrow> 'v memory_result) \<Rightarrow> bytes \<Rightarrow> 'v memory_result" where
  "lz4_decode lz max_decoded_bytes inner bs =
    (if length bs < LZ4_HEADER_LEN \<or> take 8 bs \<noteq> LZ4_HEADER
     then Err (lz4_codec_error ''unsupported LZ4 envelope'')
     else and_then (ok_or (usize_try_from (from_le_bytes (take 8 (drop 9 bs))))
         (lz4_codec_error ''decoded length exceeds platform capacity'')) (\<lambda>raw_len.
       if raw_len > max_decoded_bytes
       then Err (lz4_codec_error ''decoded value exceeds configured size limit'')
       else and_then (ok_or (usize_try_from (from_le_bytes (take 8 (drop 17 bs))))
           (lz4_codec_error ''stored length exceeds platform capacity'')) (\<lambda>stored_len.
         and_then (ok_or (usize_checked_add LZ4_HEADER_LEN stored_len) CapacityOverflow) (\<lambda>envelope_len.
         if length bs \<noteq> envelope_len then Err (lz4_codec_error ''compressed envelope length mismatch'')
         else and_then (lz4_payload lz (bs ! 8) raw_len (drop LZ4_HEADER_LEN bs)) (\<lambda>raw.
           if length raw \<noteq> raw_len then Err (lz4_codec_error ''decoded payload length mismatch'')
           else inner raw)))))"

lemma lz4_envelope_fields:
  fixes raw_len stored_len :: u64 and mode :: u8 and payload :: bytes
  defines "env \<equiv> LZ4_HEADER @ [mode] @ u64_le_bytes raw_len @ u64_le_bytes stored_len @ payload"
  shows "take 8 env = LZ4_HEADER" "env ! 8 = mode" "take 8 (drop 9 env) = u64_le_bytes raw_len"
    "take 8 (drop 17 env) = u64_le_bytes stored_len" "drop LZ4_HEADER_LEN env = payload"
    "length env = LZ4_HEADER_LEN + length payload"
  by (simp_all add: env_def LZ4_HEADER_def LZ4_HEADER_LEN_def as_bytes_def nth_append)

lemma lz4_encode_Ok:
  assumes "lz4_encode lz limit inner v = Ok env" "lz4_laws lz"
  obtains raw mode payload where "inner v = Ok raw" "length raw \<le> limit" "length raw < 2 ^ 64"
    "length payload < 2 ^ 64" "LZ4_HEADER_LEN + length payload \<le> usize_max"
    "env = LZ4_HEADER @ [mode] @ u64_le_bytes (of_nat (length raw)) @ u64_le_bytes (of_nat (length payload)) @ payload"
    "lz4_payload lz mode (length raw) payload = Ok raw"
proof -
  from assms(1) obtain raw compressed mode payload where raw: "inner v = Ok raw" "length raw \<le> limit"
    and cap: "LZ4_HEADER_LEN + lz4_max_output lz (length raw) \<le> usize_max"
    and comp: "lz4_compress_into lz raw (lz4_max_output lz (length raw)) = Some compressed"
    and mode: "(mode, payload) = (if length compressed < length raw then (MODE_LZ4, compressed) else (MODE_RAW, raw))"
    and len: "length raw < 2 ^ 64" "length payload < 2 ^ 64"
    and env: "env = LZ4_HEADER @ [mode] @ u64_le_bytes (of_nat (length raw)) @ u64_le_bytes (of_nat (length payload)) @ payload"
    by (auto simp: lz4_encode_def result_simps usize_checked_add_def u64_try_from_Some Let_def not_less
        split: if_splits prod.splits)
  have "length compressed \<le> lz4_max_output lz (length raw)" "length raw \<le> lz4_max_output lz (length raw)"
    "lz4_decompress_into lz compressed (length raw) = Some raw"
    using assms(2) comp by (auto simp: lz4_laws_def)
  then have "LZ4_HEADER_LEN + length payload \<le> usize_max" "lz4_payload lz mode (length raw) payload = Ok raw"
    using mode cap by (auto simp: lz4_payload_def MODE_RAW_def MODE_LZ4_def split: if_splits)
  with raw len env that show thesis by blast
qed

lemma lz4_codec:
  assumes "codec encode decode valid" "lz4_laws lz"
  shows "codec (lz4_encode lz limit encode) (lz4_decode lz limit decode) valid"
proof
  fix v env assume v: "valid v" and enc: "lz4_encode lz limit encode v = Ok env"
  from enc assms(2) show "lz4_decode lz limit decode env = Ok v"
  proof (rule lz4_encode_Ok)
    fix raw mode payload
    assume a: "encode v = Ok raw" "length raw \<le> limit" "length raw < 2 ^ 64" "length payload < 2 ^ 64"
      "LZ4_HEADER_LEN + length payload \<le> usize_max"
      and env: "env = LZ4_HEADER @ [mode] @ u64_le_bytes (of_nat (length raw)) @ u64_le_bytes (of_nat (length payload)) @ payload"
      and p: "lz4_payload lz mode (length raw) payload = Ok raw"
    have "decode raw = Ok v" using codec.decode_encode [OF assms(1) v a(1)] .
    then show ?thesis
      using a p unfolding env lz4_decode_def
      by (simp only: lz4_envelope_fields) (simp add: usize_checked_add_def)
  qed
qed

text \<open>
  The LZ4 wrapper keeps the codec contract: whatever it encodes (compressed or, when compression
  does not help, raw) it decodes back to the same value, and it never accepts an envelope that
  declares more than the configured decoded size.
\<close>

theorem lz4_wrapper_is_codec:
  assumes "codec encode decode valid" "lz4_laws lz"
  shows "codec (lz4_encode lz limit encode) (lz4_decode lz limit decode) valid \<and>
    (\<forall>bs v. lz4_decode lz limit decode bs = Ok v \<longrightarrow>
       (\<exists>raw. decode raw = Ok v \<and> length raw \<le> limit))"
proof (intro conjI allI impI)
  show "codec (lz4_encode lz limit encode) (lz4_decode lz limit decode) valid"
    using assms by (rule lz4_codec)
  fix bs v assume "lz4_decode lz limit decode bs = Ok v"
  then show "\<exists>raw. decode raw = Ok v \<and> length raw \<le> limit"
    by (auto simp: lz4_decode_def result_simps not_less split: if_splits)
qed

text \<open>A block compressor that stores a run of one byte as a single byte.\<close>

definition sample_lz4 :: lz4_block where
  "sample_lz4 =
    \<lparr> lz4_max_output = Suc,
      lz4_compress_into = (\<lambda>raw cap.
        if raw \<noteq> [] \<and> raw = replicate (length raw) (hd raw) \<and> 1 \<le> cap then Some [hd raw] else None),
      lz4_decompress_into = (\<lambda>c n. case c of [b] \<Rightarrow> Some (replicate n b) | _ \<Rightarrow> None) \<rparr>"

lemma sample_lz4_laws: "lz4_laws sample_lz4"
  by (auto simp: lz4_laws_def sample_lz4_def split: if_splits)

theorem lz4_wrapper_is_codec_witness:
  "codec (lz4_encode sample_lz4 10 (sample_encode (3 :: nat))) (lz4_decode sample_lz4 10 (sample_decode 3)) (\<lambda>_. True)"
  by (rule lz4_wrapper_is_codec [OF sample_codec sample_lz4_laws, THEN conjunct1])

section \<open>Encrypted envelope\<close>

text \<open>
  The cipher: \<open>seal\<close> gives the ciphertext and the tag for a key, a nonce, associated data and a
  plaintext; \<open>open\<close> checks and removes the tag.
\<close>

record aead =
  aead_seal :: "bytes \<Rightarrow> bytes \<Rightarrow> bytes \<Rightarrow> bytes \<Rightarrow> (bytes \<times> bytes) option"
  aead_open :: "bytes \<Rightarrow> bytes \<Rightarrow> bytes \<Rightarrow> bytes \<Rightarrow> bytes option"

definition aead_laws :: "aead \<Rightarrow> bool" where
  "aead_laws a \<longleftrightarrow> (\<forall>key nonce aad p c t. aead_seal a key nonce aad p = Some (c, t) \<longrightarrow>
     length c = length p \<and> length t = 16 \<and> aead_open a key nonce aad (c @ t) = Some p)"

definition XC_HEADER :: bytes where
  "XC_HEADER = as_bytes ''WMEMXE01''"

definition NONCE_LEN :: usize where
  "NONCE_LEN = 24"

definition TAG_LEN :: usize where
  "TAG_LEN = 16"

definition MAX_KEY_ID_BYTES :: usize where
  "MAX_KEY_ID_BYTES = 64"

definition FIXED_HEADER_LEN :: usize where
  "FIXED_HEADER_LEN = 9 + NONCE_LEN"

definition xc_codec_error :: "string \<Rightarrow> memory_error" where
  "xc_codec_error message = CodecError message"

record encryption_key =
  ek_id :: string
  ek_bytes :: bytes

record encryption_keys =
  active_key :: "encryption_key memory_result"
  decryption_key :: "string \<Rightarrow> bytes memory_result"

definition is_ascii :: "string \<Rightarrow> bool" where
  "is_ascii s \<longleftrightarrow> list_all (\<lambda>b. b < 0x80) (as_bytes s)"

definition validate_key_id :: "string \<Rightarrow> unit memory_result" where
  "validate_key_id i =
    (if i = [] \<or> length i > MAX_KEY_ID_BYTES \<or> \<not> is_ascii i
     then Err (InvalidValue ''encryption.key_id'' ''must be 1..=64 ASCII bytes'') else Ok ())"

record static_key =
  sk_id :: string
  sk_bytes :: bytes

definition static_key_new :: "string \<Rightarrow> bytes \<Rightarrow> static_key memory_result" where
  "static_key_new i bs = and_then (validate_key_id i) (\<lambda>_. Ok \<lparr> sk_id = i, sk_bytes = bs \<rparr>)"

definition static_keys :: "static_key \<Rightarrow> encryption_keys" where
  "static_keys k =
    \<lparr> active_key = Ok \<lparr> ek_id = sk_id k, ek_bytes = sk_bytes k \<rparr>,
      decryption_key = (\<lambda>i. if i = sk_id k then Ok (sk_bytes k) else Err (xc_codec_error ''encryption key is unavailable'')) \<rparr>"

definition with_nonce_source :: "bytes \<Rightarrow> usize \<Rightarrow> (bytes \<times> usize) memory_result" where
  "with_nonce_source ctx max_plaintext_bytes =
    (if ctx = [] then Err (InvalidValue ''encryption.context'' ''must not be empty'')
     else if max_plaintext_bytes = 0 then Err (InvalidValue ''max_plaintext_bytes'' ''must be greater than zero'')
     else Ok (ctx, max_plaintext_bytes))"

text \<open>The constructor with the nonces of the operating system, whose randomness can be unavailable.\<close>

definition os_nonce :: "bytes option \<Rightarrow> bytes memory_result" where
  "os_nonce random = ok_or random (xc_codec_error ''operating-system randomness is unavailable'')"

definition xchacha_new :: "bytes \<Rightarrow> usize \<Rightarrow> (bytes \<times> usize) memory_result" where
  "xchacha_new ctx max_plaintext_bytes = with_nonce_source ctx max_plaintext_bytes"

definition envelope_header :: "string \<Rightarrow> bytes \<Rightarrow> bytes memory_result" where
  "envelope_header key_id nonce =
    (if length key_id \<ge> 256 then Err (xc_codec_error ''key identifier is too long'')
     else Ok (XC_HEADER @ [of_nat (length key_id)] @ nonce @ as_bytes key_id))"

record envelope =
  env_header :: bytes
  env_key_id :: string
  env_nonce :: bytes
  env_ciphertext :: bytes

definition parse_envelope :: "bytes \<Rightarrow> envelope memory_result" where
  "parse_envelope bs =
    (if length bs < FIXED_HEADER_LEN \<or> take 8 bs \<noteq> XC_HEADER
     then Err (xc_codec_error ''unsupported encrypted envelope'')
     else and_then (ok_or (usize_checked_add FIXED_HEADER_LEN (unat (bs ! 8))) CapacityOverflow) (\<lambda>header_len.
       if length bs < header_len + TAG_LEN then Err (xc_codec_error ''truncated encrypted envelope'')
       else and_then (ok_or (from_utf8 (take (header_len - FIXED_HEADER_LEN) (drop FIXED_HEADER_LEN bs)))
           (xc_codec_error ''invalid key identifier'')) (\<lambda>key_id.
         and_then (validate_key_id key_id) (\<lambda>_.
         Ok \<lparr> env_header = take header_len bs, env_key_id = key_id,
              env_nonce = take NONCE_LEN (drop 9 bs), env_ciphertext = drop header_len bs \<rparr>))))"

text \<open>\<open>nonce\<close> is what the nonce source fills in for the call.\<close>

definition xchacha_encode ::
  "aead \<Rightarrow> encryption_keys \<Rightarrow> bytes memory_result \<Rightarrow> bytes \<Rightarrow> usize \<Rightarrow> ('v \<Rightarrow> bytes memory_result) \<Rightarrow>
   'v \<Rightarrow> bytes memory_result"
where
  "xchacha_encode cipher keys nonce ctx max_plaintext_bytes inner value =
    and_then (inner value) (\<lambda>plaintext.
    if length plaintext > max_plaintext_bytes
    then Err (InvalidValue ''plaintext'' ''encoded value exceeds max_plaintext_bytes'')
    else and_then (active_key keys) (\<lambda>key.
      and_then (validate_key_id (ek_id key)) (\<lambda>_.
      and_then nonce (\<lambda>nonce.
      and_then (envelope_header (ek_id key) nonce) (\<lambda>header.
      let aad = header @ ctx
      in and_then (ok_or (aead_seal cipher (ek_bytes key) nonce aad plaintext) (xc_codec_error ''encryption failed''))
           (\<lambda>(ciphertext, tag). Ok (header @ ciphertext @ tag)))))))"

definition xchacha_decode ::
  "aead \<Rightarrow> encryption_keys \<Rightarrow> bytes \<Rightarrow> usize \<Rightarrow> (bytes \<Rightarrow> 'v memory_result) \<Rightarrow> bytes \<Rightarrow> 'v memory_result"
where
  "xchacha_decode cipher keys ctx max_plaintext_bytes inner bs =
    and_then (parse_envelope bs) (\<lambda>envelope.
    if length (env_ciphertext envelope) < TAG_LEN \<or> length (env_ciphertext envelope) - TAG_LEN > max_plaintext_bytes
    then Err (xc_codec_error ''ciphertext exceeds configured size limit'')
    else let aad = env_header envelope @ ctx
      in and_then (decryption_key keys (env_key_id envelope)) (\<lambda>key.
         and_then (ok_or (aead_open cipher key (env_nonce envelope) aad (env_ciphertext envelope))
             (xc_codec_error ''authentication failed'')) inner))"

text \<open>Without randomness nothing is encrypted.\<close>

lemma no_randomness_no_ciphertext: "xchacha_encode cipher keys (os_nonce None) ctx limit encode v \<noteq> Ok bs"
  by (auto simp: xchacha_encode_def os_nonce_def result_simps)

lemma ascii_utf8: "list_all (\<lambda>b. b < 0x80) bs \<Longrightarrow> utf8_valid bs"
  by (induction bs) auto

lemma validate_key_id_Ok [result_simps]:
  "validate_key_id i = Ok u \<longleftrightarrow> i \<noteq> [] \<and> length i \<le> 64 \<and> is_ascii i"
  by (auto simp: validate_key_id_def MAX_KEY_ID_BYTES_def)

lemma parse_envelope_round_trip:
  assumes "validate_key_id i = Ok ()" "length nonce = NONCE_LEN" "envelope_header i nonce = Ok header"
    and "TAG_LEN \<le> length body"
  shows "parse_envelope (header @ body) =
    Ok \<lparr> env_header = header, env_key_id = i, env_nonce = nonce, env_ciphertext = body \<rparr>"
proof -
  from assms(1) have i: "length i \<le> 64" "is_ascii i" by (auto simp: validate_key_id_def MAX_KEY_ID_BYTES_def split: if_splits)
  have header: "header = XC_HEADER @ [of_nat (length i)] @ nonce @ as_bytes i"
    using assms(3) by (simp add: envelope_header_def split: if_splits)
  have key: "unat (of_nat (length i) :: u8) = length i"
    using i(1) by (simp add: unat_of_nat)
  have str: "from_utf8 (as_bytes i) = Some i"
    using i(2) by (simp add: str_ok_def ascii_utf8 is_ascii_def)
  have hl: "length XC_HEADER = 8" by (simp add: XC_HEADER_def)
  have fields: "take 8 (header @ body) = XC_HEADER" "(header @ body) ! 8 = of_nat (length i)"
    "take (length i) (drop FIXED_HEADER_LEN (header @ body)) = as_bytes i"
    "take NONCE_LEN (drop 9 (header @ body)) = nonce"
    "length header = FIXED_HEADER_LEN + length i"
    using assms(2) hl by (simp_all add: header FIXED_HEADER_LEN_def NONCE_LEN_def nth_append)
  show ?thesis
    using fields assms(1,4) key str i(1)
    by (simp add: parse_envelope_def usize_checked_add_def usize_max_def FIXED_HEADER_LEN_def NONCE_LEN_def)
qed

lemma xchacha_encode_Ok:
  assumes "xchacha_encode cipher keys nonce ctx limit encode v = Ok bs" "aead_laws cipher"
    "\<And>n. nonce = Ok n \<Longrightarrow> length n = NONCE_LEN"
  obtains plain key n header c t where "encode v = Ok plain" "length plain \<le> limit" "active_key keys = Ok key"
    "aead_open cipher (ek_bytes key) n (header @ ctx) (c @ t) = Some plain" "length (c @ t) = length plain + TAG_LEN"
    "parse_envelope bs = Ok \<lparr> env_header = header, env_key_id = ek_id key, env_nonce = n, env_ciphertext = c @ t \<rparr>"
proof -
  from assms(1) obtain plain key n header c t where e: "encode v = Ok plain" "length plain \<le> limit"
    "active_key keys = Ok key" "validate_key_id (ek_id key) = Ok ()" "nonce = Ok n"
    "envelope_header (ek_id key) n = Ok header" "aead_seal cipher (ek_bytes key) n (header @ ctx) plain = Some (c, t)"
    and bs: "bs = header @ c @ t"
    by (auto simp: xchacha_encode_def result_simps Let_def not_less split: if_splits)
  from assms(2) e(7) have l: "length (c @ t) = length plain + TAG_LEN"
    "aead_open cipher (ek_bytes key) n (header @ ctx) (c @ t) = Some plain"
    by (auto simp: aead_laws_def TAG_LEN_def)
  with parse_envelope_round_trip [OF e(4) assms(3) [OF e(5)] e(6), of "c @ t"] e bs that show thesis by simp
qed

lemma xchacha_codec:
  assumes "codec encode decode valid" "aead_laws cipher" "\<And>n. nonce = Ok n \<Longrightarrow> length n = NONCE_LEN"
    and "\<And>k. active_key keys = Ok k \<Longrightarrow> decryption_key keys (ek_id k) = Ok (ek_bytes k)"
  shows "codec (xchacha_encode cipher keys nonce ctx limit encode) (xchacha_decode cipher keys ctx limit decode) valid"
proof
  fix v bs assume v: "valid v" and enc: "xchacha_encode cipher keys nonce ctx limit encode v = Ok bs"
  from enc assms(2,3) show "xchacha_decode cipher keys ctx limit decode bs = Ok v"
  proof (rule xchacha_encode_Ok)
    fix plain key n header c t
    assume e: "encode v = Ok plain" "length plain \<le> limit" "active_key keys = Ok key"
      "aead_open cipher (ek_bytes key) n (header @ ctx) (c @ t) = Some plain" "length (c @ t) = length plain + TAG_LEN"
      "parse_envelope bs = Ok \<lparr> env_header = header, env_key_id = ek_id key, env_nonce = n, env_ciphertext = c @ t \<rparr>"
    have "decode plain = Ok v" using codec.decode_encode [OF assms(1) v e(1)] .
    then show ?thesis using e assms(4) [OF e(3)] by (simp add: xchacha_decode_def Let_def)
  qed
qed

text \<open>
  C18: the encrypting wrapper under a static key keeps the codec contract for every nonce and
  context; and an envelope written under one key identifier is refused, before any decryption, by a
  store that holds a key under another identifier.
\<close>

theorem encrypted_wrapper_is_codec:
  assumes "codec encode decode valid" "aead_laws cipher" "length n = NONCE_LEN"
    and "static_key_new i kb = Ok k" "static_key_new j kb' = Ok k'" "j \<noteq> i"
  shows "codec (xchacha_encode cipher (static_keys k) (Ok n) ctx limit encode)
      (xchacha_decode cipher (static_keys k) ctx limit decode) valid \<and>
    (\<forall>v bs. xchacha_encode cipher (static_keys k) (Ok n) ctx limit encode v = Ok bs \<longrightarrow>
       xchacha_decode cipher (static_keys k') ctx limit decode bs =
         Err (CodecError ''encryption key is unavailable''))"
proof (intro conjI allI impI)
  show "codec (xchacha_encode cipher (static_keys k) (Ok n) ctx limit encode)
      (xchacha_decode cipher (static_keys k) ctx limit decode) valid"
    using assms by (intro xchacha_codec) (auto simp: static_keys_def)
  fix v bs assume enc: "xchacha_encode cipher (static_keys k) (Ok n) ctx limit encode v = Ok bs"
  have ids: "sk_id k = i" "sk_id k' = j" using assms(4,5) by (auto simp: static_key_new_def result_simps)
  have "\<And>m. Ok n = Ok m \<Longrightarrow> length m = NONCE_LEN" using assms(3) by simp
  with enc assms(2)
  show "xchacha_decode cipher (static_keys k') ctx limit decode bs =
      Err (CodecError ''encryption key is unavailable'')"
    by (rule xchacha_encode_Ok)
      (use ids assms(6) in \<open>auto simp: xchacha_decode_def static_keys_def xc_codec_error_def Let_def\<close>)
qed

text \<open>A cipher that appends a tag and leaves the text as it is.\<close>

definition sample_aead :: aead where
  "sample_aead =
    \<lparr> aead_seal = (\<lambda>key nonce aad p. Some (p, replicate 16 0)),
      aead_open = (\<lambda>key nonce aad m. if 16 \<le> length m then Some (take (length m - 16) m) else None) \<rparr>"

theorem encrypted_wrapper_is_codec_witness:
  "codec (xchacha_encode sample_aead (static_keys \<lparr> sk_id = ''k1'', sk_bytes = replicate 32 7 \<rparr>)
      (Ok (replicate 24 0)) [1] 100 (sample_encode (3 :: nat)))
    (xchacha_decode sample_aead (static_keys \<lparr> sk_id = ''k1'', sk_bytes = replicate 32 7 \<rparr>) [1] 100 (sample_decode 3))
    (\<lambda>_. True)"
proof -
  have laws: "aead_laws sample_aead" by (simp add: aead_laws_def sample_aead_def)
  have n: "length (replicate 24 (0 :: u8)) = NONCE_LEN" by (simp add: NONCE_LEN_def)
  have new: "static_key_new i kb = Ok \<lparr> sk_id = i, sk_bytes = kb \<rparr>" if "i = ''k1'' \<or> i = ''k2''" for i kb
    using that by (auto simp: static_key_new_def validate_key_id_def is_ascii_def as_bytes_def byte_of_char_def
        MAX_KEY_ID_BYTES_def)
  show ?thesis
    by (rule encrypted_wrapper_is_codec [OF sample_codec laws n new new, where i = "''k1''" and j = "''k2''",
          THEN conjunct1]) simp_all
qed

end
