(* ===== verification/Replay.thy ===== *)
theory Replay
  imports Event_Log
begin

text \<open>
  Replay of a projection over an event log (\<open>src/src/projection/replay.rs\<close>): the cursor that tracks
  the last position and the version of every stream, the validation of each next event, complete
  replay (borrowing and consuming) and resumption from a snapshot. The \<open>Projection\<close> trait is a
  record of operations; the locale \<open>projection\<close> states what the trait documents about them.
\<close>

section \<open>Projections and cursors\<close>

record ('e, 'p) projection_ops =
  pr_default :: 'p
  pr_prepare_replay :: "'p \<Rightarrow> 'e stored_event list \<Rightarrow> 'p"
  pr_apply :: "'p \<Rightarrow> 'e stored_event \<Rightarrow> unit memory_result \<times> 'p"
  pr_apply_owned :: "'p \<Rightarrow> 'e stored_event \<Rightarrow> unit memory_result \<times> 'p"

record replay_cursor =
  rc_global_position :: "u64 option"
  rc_stream_versions :: "(stream_id, u64) btree_map"

record 'p projection_snapshot =
  ps_cursor :: replay_cursor
  ps_projection :: 'p

definition cursor_default :: replay_cursor where
  "cursor_default = \<lparr> rc_global_position = None, rc_stream_versions = [] \<rparr>"

section \<open>Validation of the next event\<close>

definition validate_next ::
  "replay_cursor \<Rightarrow> event_id set \<Rightarrow> 'e stored_event \<Rightarrow> bool \<Rightarrow> (u64 \<times> u64 \<times> event_id set) memory_result"
where
  "validate_next cursor event_ids event require_zero_start =
    (if event_id_of event \<in> event_ids then Err (DuplicateEvent (as_str (event_id_of event)))
     else let event_ids = insert (event_id_of event) event_ids in
       and_then (case rc_global_position cursor of
           None \<Rightarrow> Ok 0
         | Some position \<Rightarrow> ok_or (checked_add position 1) CapacityOverflow) (\<lambda>expected_position.
       if require_zero_start \<and> rc_global_position cursor = None \<and> expected_position \<noteq> 0
       then Err (InvalidReplay ''complete replay must start at zero'')
       else if position_of event \<noteq> expected_position
       then Err (InvalidReplay (''global position '' @ show_u64 (position_of event) @ '', expected '' @
              show_u64 expected_position))
       else and_then (case bt_get (rc_stream_versions cursor) (stream_of event) of
           None \<Rightarrow> Ok 0
         | Some version \<Rightarrow> ok_or (checked_add version 1) CapacityOverflow) (\<lambda>expected_version.
         if version_of event \<noteq> expected_version
         then Err (InvalidReplay (''stream '' @ as_str (stream_of event) @ '' version '' @
                show_u64 (version_of event) @ '', expected '' @ show_u64 expected_version))
         else Ok (expected_position, expected_version, event_ids))))"

section \<open>Applying a sequence\<close>

fun apply_loop ::
  "('p \<Rightarrow> 'e stored_event \<Rightarrow> unit memory_result \<times> 'p) \<Rightarrow> bool \<Rightarrow> 'p \<Rightarrow> replay_cursor \<Rightarrow> event_id set \<Rightarrow>
   'e stored_event list \<Rightarrow> ('p \<times> replay_cursor) memory_result"
where
  "apply_loop apply zero projection cursor event_ids [] = Ok (projection, cursor)"
| "apply_loop apply zero projection cursor event_ids (event # events) =
    and_then (validate_next cursor event_ids event zero)
      (\<lambda>(expected_position, expected_version, event_ids').
        (case apply projection event of
           (Err e, _) \<Rightarrow> Err e
         | (Ok _, projection') \<Rightarrow>
             apply_loop apply zero projection'
               \<lparr> rc_global_position = Some expected_position,
                 rc_stream_versions = bt_insert (rc_stream_versions cursor) (stream_of event) expected_version \<rparr>
               event_ids' events))"

definition apply_sequence ::
  "('e, 'p) projection_ops \<Rightarrow> 'p \<Rightarrow> replay_cursor \<Rightarrow> 'e stored_event list \<Rightarrow> bool \<Rightarrow> ('p \<times> replay_cursor) memory_result"
where
  "apply_sequence ops projection cursor events require_zero_start =
    (let projection = pr_prepare_replay ops projection events
     in apply_loop (pr_apply ops) require_zero_start projection cursor {} events)"

definition apply_owned_sequence ::
  "('e, 'p) projection_ops \<Rightarrow> 'p \<Rightarrow> replay_cursor \<Rightarrow> 'e stored_event list \<Rightarrow> bool \<Rightarrow> ('p \<times> replay_cursor) memory_result"
where
  "apply_owned_sequence ops projection cursor events require_zero_start =
    (let projection = pr_prepare_replay ops projection events
     in apply_loop (pr_apply_owned ops) require_zero_start projection cursor {} events)"

definition replay_tracked ::
  "('e, 'p) projection_ops \<Rightarrow> 'e stored_event list \<Rightarrow> ('p \<times> replay_cursor) memory_result" where
  "replay_tracked ops events = apply_sequence ops (pr_default ops) cursor_default events True"

definition replay :: "('e, 'p) projection_ops \<Rightarrow> 'e stored_event list \<Rightarrow> 'p memory_result" where
  "replay ops events = map_ok fst (replay_tracked ops events)"

definition replay_owned :: "('e, 'p) projection_ops \<Rightarrow> 'e stored_event list \<Rightarrow> 'p memory_result" where
  "replay_owned ops events =
    map_ok fst (apply_owned_sequence ops (pr_default ops) cursor_default events True)"

definition resume ::
  "('e, 'p) projection_ops \<Rightarrow> 'p projection_snapshot \<Rightarrow> 'e stored_event list \<Rightarrow> ('p \<times> replay_cursor) memory_result"
where
  "resume ops snapshot tail = apply_sequence ops (ps_projection snapshot) (ps_cursor snapshot) tail False"

section \<open>The cursor of a log\<close>

definition cursor_step :: "replay_cursor \<Rightarrow> 'e stored_event \<Rightarrow> replay_cursor" where
  "cursor_step c e =
    \<lparr> rc_global_position = Some (position_of e),
      rc_stream_versions = bt_insert (rc_stream_versions c) (stream_of e) (version_of e) \<rparr>"

definition cursor_of :: "'e event_log \<Rightarrow> replay_cursor" where
  "cursor_of log = foldl cursor_step cursor_default log"

lemma cursor_of_Nil [simp]: "cursor_of [] = cursor_default"
  by (simp add: cursor_of_def)

lemma cursor_of_snoc [simp]: "cursor_of (log @ [e]) = cursor_step (cursor_of log) e"
  by (simp add: cursor_of_def)

lemma cursor_position:
  "log_ok log \<Longrightarrow> rc_global_position (cursor_of log) =
     (if log = [] then None else Some (of_nat (length log - 1)))"
  by (induction log rule: rev_induct) (auto simp: cursor_default_def cursor_step_def log_ok_snoc)

lemma cursor_version:
  "log_ok log \<Longrightarrow> bt_get (rc_stream_versions (cursor_of log)) st = spec_version log st"
proof (induction log rule: rev_induct)
  case (snoc e log)
  then show ?case
    by (auto simp: cursor_step_def log_ok_snoc spec_version_def)
qed (simp add: cursor_default_def spec_version_def)

lemma cursor_bt_ok: "bt_ok (rc_stream_versions (cursor_of log))"
  by (induction log rule: rev_induct) (auto simp: cursor_step_def cursor_default_def)

text \<open>Validation accepts exactly the event that extends a well-formed log.\<close>

lemma next_position:
  assumes "log_ok log"
  shows "(case rc_global_position (cursor_of log) of None \<Rightarrow> Ok 0
      | Some position \<Rightarrow> ok_or (checked_add position 1) CapacityOverflow) =
    (if length log < 2 ^ 64 then Ok (of_nat (length log)) else Err CapacityOverflow)"
proof (cases "log = []")
  case False
  have le: "length log \<le> 2 ^ 64" using assms by (simp add: log_ok_def)
  have "checked_add (of_nat (length log - 1) :: u64) (of_nat 1) =
      (if length log < 2 ^ 64 then Some (of_nat (length log)) else None)"
    using False le by (subst checked_add_of_nat) (auto simp: Suc_leI)
  then show ?thesis using False by (simp add: cursor_position [OF assms])
qed (simp add: cursor_default_def)

lemma next_stream_version:
  assumes "log_ok log" "length log < 2 ^ 64"
  shows "(case bt_get (rc_stream_versions (cursor_of log)) st of None \<Rightarrow> Ok 0
      | Some version \<Rightarrow> ok_or (checked_add version 1) CapacityOverflow) = Ok (of_nat (stream_count log st))"
proof -
  have lt: "stream_count log st < 2 ^ 64" using stream_count_le [of log st] assms(2) by simp
  show ?thesis
  proof (cases "stream_count log st = 0")
    case False
    have "checked_add (of_nat (stream_count log st - 1) :: u64) (of_nat 1) = Some (of_nat (stream_count log st))"
      using False lt by (subst checked_add_of_nat) auto
    then show ?thesis using False by (simp add: cursor_version [OF assms(1)] spec_version_def)
  qed (simp add: cursor_version [OF assms(1)] spec_version_def)
qed

lemma cursor_none: "log_ok log \<Longrightarrow> rc_global_position (cursor_of log) = None \<longleftrightarrow> log = []"
  by (simp add: cursor_position)

lemma validate_next_ok:
  assumes "log_ok log" "ids \<subseteq> set (map event_id_of log)"
  shows "log_ok (log @ [e]) \<Longrightarrow>
    validate_next (cursor_of log) ids e zero = Ok (position_of e, version_of e, insert (event_id_of e) ids)"
  using assms
  by (auto simp: validate_next_def log_ok_snoc next_position next_stream_version cursor_none Let_def subset_iff image_iff)

lemma validate_next_iff:
  assumes "log_ok log"
  shows "(\<exists>r. validate_next (cursor_of log) (set (map event_id_of log)) e zero = Ok r) \<longleftrightarrow> log_ok (log @ [e])"
proof (cases "length log < 2 ^ 64")
  case True
  then show ?thesis
    using assms
    by (auto simp: validate_next_def log_ok_snoc next_position next_stream_version cursor_none Let_def)
next
  case False
  then show ?thesis
    using assms by (auto simp: validate_next_def log_ok_snoc next_position Let_def)
qed

section \<open>The loop is a validated fold\<close>

definition apply_step :: "('p \<Rightarrow> 'e stored_event \<Rightarrow> unit memory_result \<times> 'p) \<Rightarrow> 'p \<Rightarrow> 'e stored_event \<Rightarrow> 'p memory_result" where
  "apply_step apply p e = (case apply p e of (Ok _, p') \<Rightarrow> Ok p' | (Err x, _) \<Rightarrow> Err x)"

definition project :: "('p \<Rightarrow> 'e stored_event \<Rightarrow> unit memory_result \<times> 'p) \<Rightarrow> 'p \<Rightarrow> 'e stored_event list \<Rightarrow> 'p memory_result" where
  "project apply p events = try_fold (apply_step apply) p events"

lemma project_simps [simp]:
  "project apply p [] = Ok p"
  "project apply p (e # es) = and_then (apply_step apply p e) (\<lambda>p'. project apply p' es)"
  by (simp_all add: project_def)

lemma apply_loop_Cons:
  "apply_loop apply zero p c ids (e # es) =
    and_then (validate_next c ids e zero) (\<lambda>(pos, ver, ids').
      and_then (apply_step apply p e) (\<lambda>p'.
        apply_loop apply zero p' \<lparr> rc_global_position = Some pos,
          rc_stream_versions = bt_insert (rc_stream_versions c) (stream_of e) ver \<rparr> ids' es))"
  by (auto simp: apply_step_def split: prod.splits result.splits intro!: and_then_cong)

declare apply_loop.simps(2) [simp del]

lemma apply_loop_accepts:
  assumes "log_ok (log @ tail)" "ids \<subseteq> set (map event_id_of log)"
  shows "apply_loop apply zero p (cursor_of log) ids tail =
    map_ok (\<lambda>p'. (p', cursor_of (log @ tail))) (project apply p tail)"
  using assms
proof (induction tail arbitrary: log ids p)
  case (Cons e tail)
  then have ok: "log_ok (log @ [e])" "log_ok log"
    using log_ok_append_left [of "log @ [e]" tail] by (auto simp: log_ok_snoc)
  have step: "\<lparr> rc_global_position = Some (position_of e),
      rc_stream_versions = bt_insert (rc_stream_versions (cursor_of log)) (stream_of e) (version_of e) \<rparr> =
    cursor_of (log @ [e])" by (simp add: cursor_step_def)
  have "apply_loop apply zero p' (cursor_of (log @ [e])) (insert (event_id_of e) ids) tail =
      map_ok (\<lambda>p'. (p', cursor_of (log @ e # tail))) (project apply p' tail)" for p'
    using Cons.IH [of "log @ [e]" "insert (event_id_of e) ids" p'] Cons.prems by auto
  then show ?case
    unfolding apply_loop_Cons validate_next_ok [OF ok(2) Cons.prems(2) ok(1)]
    by (cases "apply_step apply p e") (simp_all add: step del: cursor_of_snoc)
qed simp

lemma apply_loop_rejects:
  assumes "log_ok log" "\<not> log_ok (log @ tail)"
  shows "\<exists>x. apply_loop apply zero p (cursor_of log) (set (map event_id_of log)) tail = Err x"
  using assms
proof (induction tail arbitrary: log p)
  case (Cons e tail)
  show ?case
  proof (cases "log_ok (log @ [e])")
    case True
    note v = validate_next_ok [OF Cons.prems(1) subset_refl True, of zero]
    have step: "\<lparr> rc_global_position = Some (position_of e),
        rc_stream_versions = bt_insert (rc_stream_versions (cursor_of log)) (stream_of e) (version_of e) \<rparr> =
      cursor_of (log @ [e])" by (simp add: cursor_step_def)
    have "insert (event_id_of e) (set (map event_id_of log)) = set (map event_id_of (log @ [e]))" by auto
    then show ?thesis
      unfolding apply_loop_Cons v
      using Cons.IH [OF True] Cons.prems(2)
      by (cases "apply_step apply p e") (simp_all add: step del: cursor_of_snoc)
  next
    case False
    with validate_next_iff [OF Cons.prems(1), of e zero]
    show ?thesis unfolding apply_loop_Cons
      by (cases "validate_next (cursor_of log) (set (map event_id_of log)) e zero") auto
  qed
qed simp

lemma validate_next_zero: "validate_next c ids e zero = validate_next c ids e False"
  by (cases "rc_global_position c") (auto simp: validate_next_def Let_def)

lemma map_ok_and_then: "map_ok f (and_then r g) = and_then r (\<lambda>x. map_ok f (g x))"
  by (cases r) simp_all

lemma validate_next_ids:
  "event_id_of e \<notin> known \<Longrightarrow>
   validate_next c (known \<union> ids) e zero = map_ok (\<lambda>(p, v, i). (p, v, known \<union> i)) (validate_next c ids e zero)"
  by (simp add: validate_next_def Let_def map_ok_and_then if_distrib [of "map_ok _"] cong: if_cong)

lemma apply_loop_zero: "apply_loop apply zero p c ids es = apply_loop apply False p c ids es"
proof (induction es arbitrary: p c ids)
  case (Cons e es)
  then show ?case unfolding apply_loop_Cons validate_next_zero [of _ _ _ zero] by simp
qed simp

lemma apply_loop_ids:
  "known \<inter> set (map event_id_of es) = {} \<Longrightarrow>
   apply_loop apply zero p c (known \<union> ids) es = apply_loop apply zero p c ids es"
proof (induction es arbitrary: p c ids)
  case (Cons e es)
  then have "event_id_of e \<notin> known" "known \<inter> set (map event_id_of es) = {}" by auto
  with Cons.IH show ?case
    unfolding apply_loop_Cons validate_next_ids [OF \<open>event_id_of e \<notin> known\<close>]
    by (cases "validate_next c ids e zero") (auto intro!: and_then_cong)
qed simp

lemma validate_next_grows: "validate_next c ids e zero = Ok (p, v, ids') \<Longrightarrow> ids' = insert (event_id_of e) ids"
  by (auto simp: validate_next_def Let_def result_simps split: if_splits option.splits)

lemma apply_loop_append:
  "apply_loop apply zero p c ids (xs @ ys) =
    and_then (apply_loop apply zero p c ids xs) (\<lambda>(p', c').
      apply_loop apply zero p' c' (ids \<union> set (map event_id_of xs)) ys)"
proof (induction xs arbitrary: p c ids)
  case (Cons e xs)
  show ?case
    unfolding append_Cons apply_loop_Cons
    by (cases "validate_next c ids e zero"; cases "apply_step apply p e")
      (auto simp: Cons.IH dest!: validate_next_grows)
qed simp

section \<open>Replay and resumption of any projection\<close>

locale projection =
  fixes ops :: "('e, 'p) projection_ops"
  assumes prepare_neutral: "pr_prepare_replay ops p events = p"
    and owned_agrees: "pr_apply_owned ops p event = pr_apply ops p event"
begin

lemma replay_tracked_accepts:
  "log_ok log \<Longrightarrow> replay_tracked ops log =
     map_ok (\<lambda>p. (p, cursor_of log)) (project (pr_apply ops) (pr_default ops) log)"
  using apply_loop_accepts [of "[]" log "{}"]
  by (simp add: replay_tracked_def apply_sequence_def prepare_neutral)

lemma replay_tracked_rejects: "\<not> log_ok log \<Longrightarrow> \<exists>x. replay_tracked ops log = Err x"
  using apply_loop_rejects [of "[]" log]
  by (simp add: replay_tracked_def apply_sequence_def prepare_neutral)

lemma replay_tracked_Ok:
  "replay_tracked ops log = Ok (p, c) \<longleftrightarrow>
     log_ok log \<and> c = cursor_of log \<and> project (pr_apply ops) (pr_default ops) log = Ok p"
  using replay_tracked_accepts [of log] replay_tracked_rejects [of log]
  by (cases "log_ok log") (auto simp: result_simps)

lemma resume_continues:
  assumes "replay_tracked ops log = Ok (p, c)"
    and "set (map event_id_of log) \<inter> set (map event_id_of tail) = {}"
  shows "resume ops \<lparr> ps_cursor = c, ps_projection = p \<rparr> tail = replay_tracked ops (log @ tail)"
proof -
  have "replay_tracked ops (log @ tail) =
      apply_loop (pr_apply ops) True p c (set (map event_id_of log)) tail"
    using assms(1)
    by (simp add: replay_tracked_def apply_sequence_def prepare_neutral apply_loop_append)
  also have "\<dots> = apply_loop (pr_apply ops) False p c ({} \<union> set (map event_id_of log)) tail"
    by (simp add: apply_loop_zero [of _ True])
  also have "\<dots> = apply_loop (pr_apply ops) False p c {} tail"
    using apply_loop_ids [OF assms(2), of "pr_apply ops" False p c "{}"] by simp
  finally show ?thesis by (simp add: resume_def apply_sequence_def prepare_neutral)
qed

lemma replay_owned_agrees: "replay_owned ops log = replay ops log"
proof -
  have "pr_apply_owned ops = pr_apply ops" by (intro ext) (rule owned_agrees)
  then show ?thesis
    by (simp add: replay_owned_def replay_def replay_tracked_def apply_owned_sequence_def apply_sequence_def)
qed

end

end
