(* ===== verification/Snapshot_Store.thy ===== *)
theory Snapshot_Store
  imports Replay
begin

text \<open>
  The trait \<open>SnapshotStore\<close> of \<open>src/src/snapshot/mod.rs\<close> as a contract, and the in-memory store
  of \<open>src/src/snapshot/in_memory.rs\<close>, which implements it. The contract is stated over the map from
  positions to stored snapshots: a snapshot is immutable once saved, and the latest one is the one
  with the greatest global position.
\<close>

abbreviation snapshot_position :: "'p projection_snapshot \<Rightarrow> u64 option" where
  "snapshot_position s \<equiv> rc_global_position (ps_cursor s)"

definition no_cursor_error :: memory_error where
  "no_cursor_error = InvalidValue ''snapshot.cursor'' ''cannot persist an empty replay cursor''"

definition snapshot_conflict :: memory_error where
  "snapshot_conflict = InvalidValue ''snapshot'' ''different snapshot already exists at this position''"

text \<open>The entry with the greatest position.\<close>

definition is_latest :: "(u64 \<rightharpoonup> 'v) \<Rightarrow> 'v option \<Rightarrow> bool" where
  "is_latest m r \<longleftrightarrow>
    (case r of None \<Rightarrow> m = Map.empty | Some v \<Rightarrow> \<exists>p. m p = Some v \<and> (\<forall>q. m q \<noteq> None \<longrightarrow> q \<le> p))"

lemma is_latest_unique: "is_latest m r \<Longrightarrow> is_latest m r' \<Longrightarrow> r = r'"
  by (auto simp: is_latest_def split: option.splits)
    (metis option.distinct(1) option.inject order_antisym)+

lemma is_latest_update:
  assumes "\<And>q. m q \<noteq> None \<Longrightarrow> q \<le> p"
  shows "is_latest (m(p \<mapsto> v)) (Some v)"
  using assms by (auto simp: is_latest_def intro: exI [of _ p])

section \<open>The contract\<close>

text \<open>
  \<open>canon x\<close> is the value a load returns for the saved snapshot \<open>x\<close>, and \<open>same y x\<close> the test that
  the stored snapshot \<open>y\<close> is the one being saved again.
\<close>

locale snapshot_store =
  fixes save :: "'p projection_snapshot \<Rightarrow> 's \<Rightarrow> unit memory_result \<times> 's"
    and load_latest :: "'s \<Rightarrow> 'p projection_snapshot option memory_result"
    and stored :: "'s \<Rightarrow> u64 \<rightharpoonup> 'p projection_snapshot"
    and inv :: "'s \<Rightarrow> bool"
    and valid :: "'p projection_snapshot \<Rightarrow> bool"
    and canon :: "'p projection_snapshot \<Rightarrow> 'p projection_snapshot"
    and same :: "'p projection_snapshot \<Rightarrow> 'p projection_snapshot \<Rightarrow> bool"
  assumes save_no_cursor: "snapshot_position x = None \<Longrightarrow> save x s = (Err no_cursor_error, s)"
    and save_new: "inv s \<Longrightarrow> valid x \<Longrightarrow> snapshot_position x = Some p \<Longrightarrow> stored s p = None \<Longrightarrow>
      \<exists>s'. save x s = (Ok (), s') \<and> inv s' \<and> stored s' = (stored s)(p \<mapsto> canon x)"
    and save_same: "inv s \<Longrightarrow> valid x \<Longrightarrow> snapshot_position x = Some p \<Longrightarrow> stored s p = Some y \<Longrightarrow> same y x \<Longrightarrow>
      \<exists>s'. save x s = (Ok (), s') \<and> inv s' \<and> stored s' = stored s"
    and save_conflict: "inv s \<Longrightarrow> valid x \<Longrightarrow> snapshot_position x = Some p \<Longrightarrow> stored s p = Some y \<Longrightarrow> \<not> same y x \<Longrightarrow>
      \<exists>s'. save x s = (Err snapshot_conflict, s') \<and> inv s' \<and> stored s' = stored s"
    and load_latest_ok: "inv s \<Longrightarrow> \<exists>r. load_latest s = Ok r \<and> is_latest (stored s) r"
begin

lemma save_then_load:
  assumes "inv s" "valid x" "snapshot_position x = Some p" "\<And>q. stored s q \<noteq> None \<Longrightarrow> q < p"
  shows "\<exists>s'. save x s = (Ok (), s') \<and> inv s' \<and> load_latest s' = Ok (Some (canon x))"
proof -
  have "stored s p = None" using assms(4) by force
  with save_new [OF assms(1-3)] obtain s' where s': "save x s = (Ok (), s')" "inv s'" "stored s' = (stored s)(p \<mapsto> canon x)"
    by blast
  obtain r where r: "load_latest s' = Ok r" "is_latest (stored s') r" using load_latest_ok [OF s'(2)] by blast
  have "is_latest (stored s') (Some (canon x))"
    unfolding s'(3) using assms(4) by (intro is_latest_update less_imp_le) auto
  with r is_latest_unique s' show ?thesis by blast
qed

lemma saved_is_immutable:
  assumes "inv s" "valid x" "stored s q = Some y"
  shows "inv (snd (save x s)) \<and> stored (snd (save x s)) q = Some y"
proof (cases "snapshot_position x")
  case None
  with assms show ?thesis by (auto simp: save_no_cursor)
next
  case pos: (Some p)
  show ?thesis
  proof (cases "stored s p")
    case None
    with assms(3) have "q \<noteq> p" by auto
    with save_new [OF assms(1,2) pos None] assms(3) show ?thesis by fastforce
  next
    case (Some z)
    from save_same [OF assms(1,2) pos Some] save_conflict [OF assms(1,2) pos Some] assms(3)
    show ?thesis by (cases "same z x") fastforce+
  qed
qed

end

section \<open>The in-memory store\<close>

record 'p in_memory_snapshots =
  is_snapshots :: "(u64, 'p projection_snapshot) btree_map"

definition iss_default :: "'p in_memory_snapshots" where
  "iss_default = \<lparr> is_snapshots = [] \<rparr>"

text \<open>
  \<open>PartialEq\<close> of the stored values is an argument: for a \<open>MemoryProjection\<close> it compares the data
  and not the indexes.
\<close>

definition iss_save ::
  "('p projection_snapshot \<Rightarrow> 'p projection_snapshot \<Rightarrow> bool) \<Rightarrow> 'p projection_snapshot \<Rightarrow> 'p in_memory_snapshots \<Rightarrow>
   unit memory_result \<times> 'p in_memory_snapshots"
where
  "iss_save eq snapshot s =
    (case rc_global_position (ps_cursor snapshot) of
       None \<Rightarrow> (Err no_cursor_error, s)
     | Some position \<Rightarrow>
         (case bt_get (is_snapshots s) position of
            Some existing \<Rightarrow> if eq existing snapshot then (Ok (), s) else (Err snapshot_conflict, s)
          | None \<Rightarrow> (Ok (), s\<lparr>is_snapshots := bt_insert (is_snapshots s) position snapshot\<rparr>)))"

definition iss_load_latest :: "'p in_memory_snapshots \<Rightarrow> 'p projection_snapshot option memory_result" where
  "iss_load_latest s = Ok (map_option snd (last_of (is_snapshots s)))"

lemma last_of_bt_latest:
  assumes "bt_ok m"
  shows "is_latest (bt_get m) (map_option snd (last_of m))"
proof (cases m rule: rev_cases)
  case (snoc m' x)
  obtain p v where x: "x = (p, v)" by force
  have get: "bt_get m p = Some v" using assms by (simp add: bt_get_in snoc x)
  have "q \<le> p" if "bt_get m q = Some u" for q u
    using that assms by (auto simp: bt_get_in snoc x bt_ok_def sorted_wrt_append)
  with get show ?thesis by (auto simp: is_latest_def last_of_snoc snoc x)
qed (auto simp: is_latest_def last_of_def bt_get_def)

interpretation iss: snapshot_store "iss_save eq" iss_load_latest "\<lambda>s. bt_get (is_snapshots s)"
  "\<lambda>s. bt_ok (is_snapshots s)" "\<lambda>_. True" "\<lambda>x. x" eq for eq
  by unfold_locales (auto simp: iss_save_def iss_load_latest_def last_of_bt_latest)

end
