(* ===== verification/Snapshot_File.thy ===== *)
theory Snapshot_File
  imports Snapshot_Store File_Store
begin

text \<open>
  The file snapshot store: the frame of \<open>src/src/snapshot/file/frame.rs\<close> and the generation-named
  files of \<open>src/src/snapshot/file/mod.rs\<close>. A directory is the list of its entries in the order
  \<open>read_dir\<close> yields them, with the outcomes the operating system gives to the calls to come; a save
  writes a temporary entry and renames it, and removes it when a call fails.
\<close>

section \<open>The frame (\<open>frame.rs\<close>)\<close>

definition SNAPSHOT_HEADER :: bytes where
  "SNAPSHOT_HEADER = as_bytes ''WMEMSN01''"

definition SNAPSHOT_HEADER_LEN :: usize where
  "SNAPSHOT_HEADER_LEN = 20"

definition snap_corrupt :: "string \<Rightarrow> memory_error" where
  "snap_corrupt reason = CorruptLog 0 reason"

definition snap_io :: "string \<Rightarrow> 'a io_result \<Rightarrow> 'a memory_result" where
  "snap_io operation r = (case r of Ok a \<Rightarrow> Ok a | Err m \<Rightarrow> Err (IoError operation m))"

definition snap_encode :: "bytes \<Rightarrow> bytes memory_result" where
  "snap_encode bs =
    and_then (ok_or (u64_try_from (length bs)) CapacityOverflow) (\<lambda>len.
      Ok (SNAPSHOT_HEADER @ u64_le_bytes len @ u32_le_bytes (crc32c bs) @ bs))"

definition validate_header :: "bytes \<Rightarrow> usize \<Rightarrow> (usize \<times> u32) memory_result" where
  "validate_header header max_bytes =
    (if take 8 header \<noteq> SNAPSHOT_HEADER then Err (snap_corrupt ''unsupported snapshot header'')
     else and_then (ok_or (usize_try_from (from_le_bytes (take 8 (drop 8 header))))
         (snap_corrupt ''snapshot length exceeds platform capacity'')) (\<lambda>len.
       if len > max_bytes then Err (snap_corrupt ''snapshot exceeds configured size limit'')
       else Ok (len, from_le_bytes (take 4 (drop 16 header)))))"

definition snap_call ::
  "string \<Rightarrow> (file_handle \<Rightarrow> 'a io_result \<times> file_handle) \<Rightarrow> file_handle \<Rightarrow> 'a memory_result \<times> file_handle"
where
  "snap_call operation call h = (case call h of (r, h') \<Rightarrow> (snap_io operation r, h'))"

definition read_buffered :: "usize \<Rightarrow> file_handle \<Rightarrow> bytes memory_result \<times> file_handle" where
  "read_buffered max_bytes =
    seq_op (snap_call ''read snapshot header'' (read_exact SNAPSHOT_HEADER_LEN)) (\<lambda>header.
    seq_op (lift_op (validate_header header max_bytes)) (\<lambda>(len, expected_crc).
    seq_op (snap_call ''read snapshot payload'' (read_exact len)) (\<lambda>bs.
    seq_op (snap_call ''read snapshot metadata'' file_len) (\<lambda>actual_len.
    seq_op (lift_op (ok_or (u64_try_from (SNAPSHOT_HEADER_LEN + len)) CapacityOverflow)) (\<lambda>framed_len.
    if actual_len \<noteq> unat framed_len \<or> crc32c bs \<noteq> expected_crc
    then lift_op (Err (snap_corrupt ''snapshot length or checksum mismatch''))
    else lift_op (Ok bs))))))"

text \<open>The memory-mapped variant sees the whole file as one slice.\<close>

definition read_mapped :: "usize \<Rightarrow> bytes \<Rightarrow> bytes memory_result" where
  "read_mapped max_bytes mapped =
    (if length mapped < SNAPSHOT_HEADER_LEN then Err (snap_corrupt ''truncated snapshot header'')
     else and_then (validate_header (take SNAPSHOT_HEADER_LEN mapped) max_bytes) (\<lambda>(len, expected_crc).
       and_then (ok_or (usize_checked_add SNAPSHOT_HEADER_LEN len) CapacityOverflow) (\<lambda>framed_len.
       if length mapped \<noteq> framed_len then Err (snap_corrupt ''snapshot length mismatch'')
       else if crc32c (drop SNAPSHOT_HEADER_LEN mapped) \<noteq> expected_crc
       then Err (snap_corrupt ''snapshot checksum mismatch'')
       else Ok (drop SNAPSHOT_HEADER_LEN mapped))))"

section \<open>Directories\<close>

record directory =
  dir_entries :: "(string \<times> bytes) list"
  dir_plan :: "io_outcome list"
  dir_pid :: nat
  dir_next_temp :: u64

definition entry_set :: "string \<Rightarrow> bytes \<Rightarrow> (string \<times> bytes) list \<Rightarrow> (string \<times> bytes) list" where
  "entry_set name bs entries =
    (if name \<in> fst ` set entries then map (\<lambda>(n, b). if n = name then (n, bs) else (n, b)) entries
     else entries @ [(name, bs)])"

definition entry_remove :: "string \<Rightarrow> (string \<times> bytes) list \<Rightarrow> (string \<times> bytes) list" where
  "entry_remove name entries = filter (\<lambda>(n, b). n \<noteq> name) entries"

definition dir_call :: "(directory \<Rightarrow> 'a io_result \<times> directory) \<Rightarrow> directory \<Rightarrow> 'a io_result \<times> directory" where
  "dir_call f d =
    (let d' = d\<lparr>dir_plan := tl (dir_plan d)\<rparr>
     in case dir_plan d of IoFault m # _ \<Rightarrow> (Err m, d') | _ \<Rightarrow> f d')"

definition dir_list :: "directory \<Rightarrow> string list io_result \<times> directory" where
  "dir_list = dir_call (\<lambda>d. (Ok (map fst (dir_entries d)), d))"

definition dir_entry :: "string \<Rightarrow> directory \<Rightarrow> string io_result \<times> directory" where
  "dir_entry name = dir_call (\<lambda>d. (Ok name, d))"

text \<open>\<open>Path::exists\<close> reports an error of the metadata call as absence.\<close>

definition dir_exists :: "string \<Rightarrow> directory \<Rightarrow> bool \<times> directory" where
  "dir_exists name d =
    (case dir_call (\<lambda>d. (Ok (name \<in> fst ` set (dir_entries d)), d)) d of
       (Ok b, d') \<Rightarrow> (b, d') | (Err _, d') \<Rightarrow> (False, d'))"

definition dir_read :: "string \<Rightarrow> directory \<Rightarrow> bytes io_result \<times> directory" where
  "dir_read name = dir_call (\<lambda>d.
    (case map_of (dir_entries d) name of Some bs \<Rightarrow> Ok bs | None \<Rightarrow> Err ''No such file or directory'', d))"

definition dir_create_new :: "string \<Rightarrow> directory \<Rightarrow> unit io_result \<times> directory" where
  "dir_create_new name = dir_call (\<lambda>d.
    if name \<in> fst ` set (dir_entries d) then (Err ''File exists'', d)
    else (Ok (), d\<lparr>dir_entries := entry_set name [] (dir_entries d)\<rparr>))"

definition dir_rename :: "string \<Rightarrow> string \<Rightarrow> directory \<Rightarrow> unit io_result \<times> directory" where
  "dir_rename source target = dir_call (\<lambda>d.
    (case map_of (dir_entries d) source of
       None \<Rightarrow> (Err ''No such file or directory'', d)
     | Some bs \<Rightarrow> (Ok (), d\<lparr>dir_entries := entry_set target bs (entry_remove source (dir_entries d))\<rparr>)))"

definition dir_remove :: "string \<Rightarrow> directory \<Rightarrow> unit io_result \<times> directory" where
  "dir_remove name = dir_call (\<lambda>d.
    if name \<in> fst ` set (dir_entries d) then (Ok (), d\<lparr>dir_entries := entry_remove name (dir_entries d)\<rparr>)
    else (Err ''No such file or directory'', d))"

text \<open>A call on the open file of an entry, which shares the outcomes of the directory.\<close>

definition on_entry ::
  "string \<Rightarrow> (file_handle \<Rightarrow> 'a memory_result \<times> file_handle) \<Rightarrow> directory \<Rightarrow> 'a memory_result \<times> directory"
where
  "on_entry name call d =
    (case map_of (dir_entries d) name of
       None \<Rightarrow> (Err (IoError ''open snapshot'' ''No such file or directory''), d)
     | Some bs \<Rightarrow>
         (case call \<lparr> fh_bytes = bs, fh_pos = 0, fh_plan = dir_plan d \<rparr> of
            (r, h) \<Rightarrow> (r, d\<lparr> dir_entries := entry_set name (fh_bytes h) (dir_entries d), dir_plan := fh_plan h \<rparr>)))"

definition dir_op ::
  "string \<Rightarrow> (directory \<Rightarrow> 'a io_result \<times> directory) \<Rightarrow> directory \<Rightarrow> 'a memory_result \<times> directory"
where
  "dir_op operation call d = (case call d of (r, d') \<Rightarrow> (snap_io operation r, d'))"

section \<open>Generation names\<close>

definition pad20 :: "string \<Rightarrow> string" where
  "pad20 s = replicate (20 - length s) (CHR ''0'') @ s"

definition final_name :: "string \<Rightarrow> u64 \<Rightarrow> string" where
  "final_name pre position = pre @ ''-'' @ pad20 (show_u64 position) @ ''.wmsnap''"

definition temporary_name :: "string \<Rightarrow> nat \<Rightarrow> u64 \<Rightarrow> string" where
  "temporary_name final pid i = ''.'' @ final @ ''.tmp-'' @ show_nat pid @ ''-'' @ show_u64 i"

definition digit_value :: "char \<Rightarrow> nat option" where
  "digit_value c = (let n = of_char c in if 48 \<le> n \<and> n \<le> 57 then Some (n - 48) else None)"

fun parse_digits :: "string \<Rightarrow> nat \<Rightarrow> nat option" where
  "parse_digits [] acc = Some acc"
| "parse_digits (c # cs) acc =
    Option.bind (digit_value c) (\<lambda>v.
      if acc * 10 + v < 2 ^ 64 then parse_digits cs (acc * 10 + v) else None)"

definition parse_u64 :: "string \<Rightarrow> u64 option" where
  "parse_u64 s =
    (let body = (case s of c # cs \<Rightarrow> if c = CHR ''+'' then cs else s | [] \<Rightarrow> [])
     in if body = [] then None else map_option of_nat (parse_digits body 0))"

definition strip_prefix :: "string \<Rightarrow> string \<Rightarrow> string option" where
  "strip_prefix p s = (if prefix p s then Some (drop (length p) s) else None)"

definition strip_suffix :: "string \<Rightarrow> string \<Rightarrow> string option" where
  "strip_suffix p s = (if suffix p s then Some (take (length s - length p) s) else None)"

definition generation_of :: "string \<Rightarrow> string \<Rightarrow> u64 option" where
  "generation_of pre name =
    (if \<not> str_ok name then None
     else Option.bind (Option.bind (strip_prefix (pre @ ''-'') name) (strip_suffix ''.wmsnap'')) parse_u64)"

section \<open>The store (\<open>mod.rs\<close>)\<close>

record snapshot_options =
  so_durability :: durability
  so_max_snapshot_bytes :: usize

definition so_default :: snapshot_options where
  "so_default = \<lparr> so_durability = SyncAll, so_max_snapshot_bytes = 512 * 1024 * 1024 \<rparr>"

record file_snapshot_store =
  fss_prefix :: string
  fss_options :: snapshot_options
  fss_mapped_reads :: bool

definition fss_open ::
  "string \<Rightarrow> snapshot_options \<Rightarrow> directory \<Rightarrow> file_snapshot_store memory_result \<times> directory"
where
  "fss_open pre options =
    (if pre = [] \<or> trim pre \<noteq> pre \<or> CHR ''/'' \<in> set pre \<or> CHR 0x5C \<in> set pre
     then lift_op (Err (InvalidValue ''snapshot.prefix'' ''must be a simple non-empty file prefix''))
     else if so_max_snapshot_bytes options = 0
     then lift_op (Err (InvalidValue ''max_snapshot_bytes'' ''must be greater than zero''))
     else seq_op (dir_op ''create snapshot directory'' (dir_call (\<lambda>d. (Ok (), d)))) (\<lambda>_.
       lift_op (Ok \<lparr> fss_prefix = pre, fss_options = options, fss_mapped_reads = False \<rparr>)))"

definition with_memory_mapped_reads :: "file_snapshot_store \<Rightarrow> file_snapshot_store" where
  "with_memory_mapped_reads st = st\<lparr>fss_mapped_reads := True\<rparr>"

fun latest_loop ::
  "string \<Rightarrow> string list \<Rightarrow> (u64 \<times> string) option \<Rightarrow> directory \<Rightarrow> (u64 \<times> string) option memory_result \<times> directory"
where
  "latest_loop pre [] latest = lift_op (Ok latest)"
| "latest_loop pre (name # names) latest =
    seq_op (dir_op ''read snapshot entry'' (dir_entry name)) (\<lambda>name.
      (case generation_of pre name of
         None \<Rightarrow> latest_loop pre names latest
       | Some position \<Rightarrow>
           if (case latest of None \<Rightarrow> True | Some (current, _) \<Rightarrow> position > current)
           then latest_loop pre names (Some (position, name))
           else latest_loop pre names latest))"

definition latest_path :: "file_snapshot_store \<Rightarrow> directory \<Rightarrow> (u64 \<times> string) option memory_result \<times> directory" where
  "latest_path st =
    seq_op (dir_op ''read snapshot directory'' dir_list) (\<lambda>names. latest_loop (fss_prefix st) names None)"

definition frame_read :: "file_snapshot_store \<Rightarrow> string \<Rightarrow> directory \<Rightarrow> bytes memory_result \<times> directory" where
  "frame_read st name =
    (if fss_mapped_reads st
     then seq_op (dir_op ''map snapshot'' (dir_read name)) (\<lambda>mapped.
       lift_op (read_mapped (so_max_snapshot_bytes (fss_options st)) mapped))
     else seq_op (dir_op ''open snapshot'' (dir_call (\<lambda>d. (Ok (), d)))) (\<lambda>_.
       on_entry name (read_buffered (so_max_snapshot_bytes (fss_options st)))))"

definition read_path ::
  "(bytes \<Rightarrow> 'p projection_snapshot memory_result) \<Rightarrow> file_snapshot_store \<Rightarrow> string \<Rightarrow> u64 \<Rightarrow> directory \<Rightarrow>
   'p projection_snapshot memory_result \<times> directory"
where
  "read_path decode st name expected_position =
    seq_op (frame_read st name) (\<lambda>payload.
    seq_op (lift_op (decode payload)) (\<lambda>snapshot.
    if rc_global_position (ps_cursor snapshot) \<noteq> Some expected_position
    then lift_op (Err (snap_corrupt ''snapshot filename and cursor disagree''))
    else lift_op (Ok snapshot)))"

definition encode_frame ::
  "('p projection_snapshot \<Rightarrow> bytes memory_result) \<Rightarrow> file_snapshot_store \<Rightarrow> 'p projection_snapshot \<Rightarrow> bytes memory_result"
where
  "encode_frame encode st snapshot =
    and_then (encode snapshot) (\<lambda>bs.
    if length bs > so_max_snapshot_bytes (fss_options st)
    then Err (InvalidValue ''snapshot'' ''encoded snapshot exceeds max_snapshot_bytes'')
    else snap_encode bs)"

definition snap_sync :: "durability \<Rightarrow> file_handle \<Rightarrow> unit memory_result \<times> file_handle" where
  "snap_sync durability h =
    (case durability of
       Flush \<Rightarrow> (Ok (), h)
     | SyncData \<Rightarrow> snap_call ''sync snapshot'' file_sync h
     | SyncAll \<Rightarrow> snap_call ''sync snapshot data and metadata'' file_sync h)"

definition temporary_path :: "string \<Rightarrow> directory \<Rightarrow> string \<times> directory" where
  "temporary_path final d =
    (temporary_name final (dir_pid d) (dir_next_temp d), d\<lparr>dir_next_temp := dir_next_temp d + 1\<rparr>)"

definition write_temporary ::
  "file_snapshot_store \<Rightarrow> bytes \<Rightarrow> string \<Rightarrow> string \<Rightarrow> directory \<Rightarrow> unit memory_result \<times> directory"
where
  "write_temporary st frame temporary final =
    seq_op (dir_op ''create temporary snapshot'' (dir_create_new temporary)) (\<lambda>_.
    seq_op (on_entry temporary (snap_call ''write snapshot'' (write_all frame))) (\<lambda>_.
    seq_op (on_entry temporary (snap_sync (so_durability (fss_options st)))) (\<lambda>_.
    dir_op ''commit snapshot'' (dir_rename temporary final))))"

text \<open>Leaving the scope without the commit drops the guard, which removes the temporary file.\<close>

definition guard_drop :: "string \<Rightarrow> directory \<Rightarrow> directory" where
  "guard_drop temporary d = snd (dir_remove temporary d)"

definition write_generation ::
  "file_snapshot_store \<Rightarrow> bytes \<Rightarrow> string \<Rightarrow> directory \<Rightarrow> unit memory_result \<times> directory"
where
  "write_generation st frame final d =
    (case temporary_path final d of (temporary, d) \<Rightarrow>
      (case write_temporary st frame temporary final d of
         (Ok u, d') \<Rightarrow> (Ok u, d')
       | (Err e, d') \<Rightarrow> (Err e, guard_drop temporary d')))"

definition fss_save ::
  "('p projection_snapshot \<Rightarrow> bytes memory_result) \<Rightarrow> file_snapshot_store \<Rightarrow> 'p projection_snapshot \<Rightarrow> directory \<Rightarrow>
   unit memory_result \<times> directory"
where
  "fss_save encode st snapshot d =
    (case rc_global_position (ps_cursor snapshot) of
       None \<Rightarrow> (Err no_cursor_error, d)
     | Some position \<Rightarrow>
         (let final = final_name (fss_prefix st) position in
          case encode_frame encode st snapshot of
            Err e \<Rightarrow> (Err e, d)
          | Ok frame \<Rightarrow>
              (case dir_exists final d of
                 (True, d') \<Rightarrow>
                   seq_op (dir_op ''read existing snapshot'' (dir_read final)) (\<lambda>existing.
                     if existing = frame then lift_op (Ok ()) else lift_op (Err snapshot_conflict)) d'
               | (False, d') \<Rightarrow> write_generation st frame final d')))"

definition fss_load_latest ::
  "(bytes \<Rightarrow> 'p projection_snapshot memory_result) \<Rightarrow> file_snapshot_store \<Rightarrow> directory \<Rightarrow>
   'p projection_snapshot option memory_result \<times> directory"
where
  "fss_load_latest decode st =
    seq_op (latest_path st) (\<lambda>latest.
      (case latest of
         None \<Rightarrow> lift_op (Ok None)
       | Some (position, name) \<Rightarrow>
           seq_op (read_path decode st name position) (\<lambda>snapshot. lift_op (Ok (Some snapshot)))))"

section \<open>Generation names are parsed back\<close>

lemma digit_value_digit [simp]: "n < 10 \<Longrightarrow> digit_value (char_of (48 + n)) = Some n"
  by (simp add: digit_value_def Let_def)

lemma parse_digits_append:
  "parse_digits (s @ t) acc = Option.bind (parse_digits s acc) (parse_digits t)"
  by (induction s acc rule: parse_digits.induct) (auto split: bind_splits)

lemma parse_digits_show: "n < 2 ^ 64 \<Longrightarrow> parse_digits (show_nat n) 0 = Some n"
proof (induction n rule: show_nat.induct)
  case (1 n)
  show ?case
  proof (cases "n < 10")
    case True
    then show ?thesis by (simp add: show_nat.simps [of n])
  next
    case False
    have "n div 10 < 2 ^ 64" using "1.prems" by simp
    then have "parse_digits (show_nat (n div 10)) 0 = Some (n div 10)" using "1.IH" False by simp
    moreover have "n div 10 * 10 + n mod 10 < 2 ^ 64" using "1.prems" by simp
    ultimately show ?thesis using False by (simp add: show_nat.simps [of n] parse_digits_append)
  qed
qed

lemma parse_digits_zeros: "parse_digits (replicate k (CHR ''0'') @ s) 0 = parse_digits s 0"
  by (induction k) (simp_all add: digit_value_def Let_def)

lemma show_nat_digits: "c \<in> set (show_nat n) \<Longrightarrow> digit_value c \<noteq> None"
proof (induction n rule: show_nat.induct)
  case (1 n)
  then show ?case by (cases "n < 10") (auto simp: show_nat.simps [of n])
qed

lemma show_nat_nonempty [simp]: "show_nat n \<noteq> []"
  by (subst show_nat.simps) simp

lemma parse_u64_pad: "parse_u64 (pad20 (show_u64 w)) = Some w"
proof -
  have "parse_digits (pad20 (show_u64 w)) 0 = Some (unat w)"
    using unsigned_less [of w, where 'a = nat] by (simp add: pad20_def parse_digits_zeros show_u64_def parse_digits_show)
  moreover have "\<not> (\<exists>cs. pad20 (show_u64 w) = CHR ''+'' # cs)"
  proof
    assume "\<exists>cs. pad20 (show_u64 w) = CHR ''+'' # cs"
    then have "CHR ''+'' \<in> set (pad20 (show_u64 w))" by auto
    then have "digit_value (CHR ''+'') \<noteq> None"
      by (auto simp: pad20_def show_u64_def dest: show_nat_digits split: if_splits)
    then show False by (simp add: digit_value_def)
  qed
  moreover have "pad20 (show_u64 w) \<noteq> []" by (simp add: pad20_def show_u64_def)
  ultimately show ?thesis
    by (auto simp: parse_u64_def Let_def split: list.splits)
qed

lemma utf8_valid_append: "utf8_valid xs \<Longrightarrow> utf8_valid ys \<Longrightarrow> utf8_valid (xs @ ys)"
proof (induction xs rule: utf8_valid.induct)
  case (2 a rest)
  show ?case
  proof (cases "a < 0x80")
    case True
    with 2 show ?thesis by simp
  next
    case a: False
    with "2.prems" obtain b rest2 where rest: "rest = b # rest2" by (cases rest) auto
    show ?thesis
    proof (cases "0xC2 \<le> a \<and> a \<le> 0xDF")
      case True
      with 2 a rest show ?thesis by simp
    next
      case a2: False
      with "2.prems" a rest obtain c rest3 where rest2: "rest2 = c # rest3" by (cases rest2) auto
      show ?thesis
      proof (cases "0xE0 \<le> a \<and> a \<le> 0xEF")
        case True
        with 2 a a2 rest rest2 show ?thesis by auto
      next
        case a3: False
        with "2.prems" a a2 rest rest2 obtain d rest4 where "rest3 = d # rest4" by (cases rest3) auto
        with 2 a a2 a3 rest rest2 show ?thesis by auto
      qed
    qed
  qed
qed simp

lemma utf8_valid_ascii: "(\<And>b. b \<in> set xs \<Longrightarrow> b < 0x80) \<Longrightarrow> utf8_valid xs"
  by (induction xs) auto

lemma str_ok_append: "str_ok s \<Longrightarrow> str_ok t \<Longrightarrow> str_ok (s @ t)"
  by (simp add: str_ok_def as_bytes_def utf8_valid_append)

lemma str_ok_ascii:
  assumes "\<And>c. c \<in> set s \<Longrightarrow> of_char c < (128 :: nat)"
  shows "str_ok s"
  unfolding str_ok_def as_bytes_def
proof (rule utf8_valid_ascii)
  fix b :: u8
  assume "b \<in> set (map byte_of_char s)"
  then obtain c where "c \<in> set s" "b = byte_of_char c" by auto
  then show "b < 0x80" using assms [of c] by (simp add: byte_of_char_def word_less_nat_alt unat_of_nat)
qed

lemma digit_ascii: "digit_value c \<noteq> None \<Longrightarrow> of_char c < (128 :: nat)"
  by (auto simp: digit_value_def Let_def split: if_splits)

lemma str_ok_pad: "str_ok (pad20 (show_u64 w))"
  by (rule str_ok_ascii) (auto simp: pad20_def show_u64_def dest!: show_nat_digits intro: digit_ascii split: if_splits)

lemma generation_of_final: "str_ok pre \<Longrightarrow> generation_of pre (final_name pre p) = Some p"
proof -
  assume pre: "str_ok pre"
  have "str_ok (final_name pre p)"
    unfolding final_name_def using pre str_ok_pad
    by (intro str_ok_append) (auto simp: str_ok_def as_bytes_def byte_of_char_def)
  then show ?thesis
    by (simp add: generation_of_def final_name_def strip_prefix_def strip_suffix_def parse_u64_pad suffix_def)
qed

lemma final_name_inject: "final_name pre p = final_name pre q \<longleftrightarrow> p = q"
proof
  assume "final_name pre p = final_name pre q"
  then have "pad20 (show_u64 p) = pad20 (show_u64 q)" by (simp add: final_name_def)
  then show "p = q" using parse_u64_pad by (metis option.inject)
qed simp

lemma temporary_ends_with_digit: "\<exists>s c. temporary_name final pid i = s @ [c] \<and> digit_value c \<noteq> None"
proof -
  obtain s c where "show_u64 i = s @ [c]" by (metis rev_exhaust show_nat_nonempty show_u64_def)
  moreover from this have "digit_value c \<noteq> None" using show_nat_digits [of c "unat i"] by (simp add: show_u64_def)
  ultimately show ?thesis by (intro exI [of _ "''.'' @ final @ ''.tmp-'' @ show_nat pid @ ''-'' @ s"]) (auto simp: temporary_name_def)
qed

lemma temporary_not_generation: "generation_of pre (temporary_name final pid i) = None"
proof -
  obtain s c where t: "temporary_name final pid i = s @ [c]" "digit_value c \<noteq> None"
    using temporary_ends_with_digit by blast
  have "\<not> suffix ''.wmsnap'' (drop k (s @ [c]))" for k
  proof
    assume "suffix ''.wmsnap'' (drop k (s @ [c]))"
    then obtain u where "drop k (s @ [c]) = u @ ''.wmsnap''" by (auto simp: suffix_def)
    then have "last (drop k (s @ [c])) = CHR ''p''" "drop k (s @ [c]) \<noteq> []" by auto
    then have "c = CHR ''p''" by (metis drop_eq_Nil last_drop last_snoc linorder_not_le)
    with t(2) show False by (simp add: digit_value_def)
  qed
  then show ?thesis by (simp add: generation_of_def t strip_prefix_def strip_suffix_def)
qed

lemma temporary_not_final: "str_ok pre \<Longrightarrow> temporary_name final pid i \<noteq> final_name pre p"
  using generation_of_final temporary_not_generation by (metis option.distinct(1))

section \<open>Reading a frame\<close>

lemma read_exact_calm:
  assumes "read_exact n h = (r, h')" "no_faults h"
  shows "fh_bytes h' = fh_bytes h \<and> no_faults h' \<and>
    (if n \<le> length (fh_bytes h) - fh_pos h
     then r = Ok (take n (drop (fh_pos h) (fh_bytes h))) \<and> fh_pos h' = fh_pos h + n
     else \<exists>m. r = Err m)"
proof -
  obtain w h1 where w: "fill_buffer n [] h = (w, h1)" by force
  note spec = fill_buffer_spec [OF w]
  obtain got where got: "w = Ok got" using spec assms(2) by auto
  have g: "got = take n (drop (fh_pos h) (fh_bytes h))" "fh_pos h1 = fh_pos h + length got"
    using spec got by auto
  have h: "fh_bytes h1 = fh_bytes h" "no_faults h1" using spec assms(2) by auto
  have "(r, h') = (if length got = n then (Ok got, h1) else (Err ''failed to fill whole buffer'', h1))"
    using assms(1) by (simp add: read_exact_def w got)
  then show ?thesis using g h by (auto split: if_splits)
qed

lemma snap_call_eq: "snap_call operation call h = (snap_io operation (fst (call h)), snd (call h))"
  by (simp add: snap_call_def split: prod.splits)

lemma snap_io_simps [simp]: "snap_io operation (Ok a) = Ok a" "snap_io operation (Err m) = Err (IoError operation m)"
  by (simp_all add: snap_io_def)

lemma validate_header_Ok:
  "validate_header header max_bytes = Ok (len, crc) \<longleftrightarrow> take 8 header = SNAPSHOT_HEADER \<and>
    len = unat (from_le_bytes (take 8 (drop 8 header)) :: u64) \<and> len \<le> max_bytes \<and>
    crc = from_le_bytes (take 4 (drop 16 header))"
  by (auto simp: validate_header_def)

lemma read_mapped_Ok:
  "read_mapped max_bytes bs = Ok payload \<longleftrightarrow>
    (\<exists>len crc. SNAPSHOT_HEADER_LEN \<le> length bs \<and> validate_header (take SNAPSHOT_HEADER_LEN bs) max_bytes = Ok (len, crc) \<and>
      SNAPSHOT_HEADER_LEN + len \<le> usize_max \<and> length bs = SNAPSHOT_HEADER_LEN + len \<and>
      payload = drop SNAPSHOT_HEADER_LEN bs \<and> crc32c payload = crc)"
  by (auto simp: read_mapped_def usize_checked_add_def result_simps)

lemma read_buffered_spec:
  assumes "read_buffered max_bytes h = (r, h')" "no_faults h" "fh_pos h = 0"
  shows "fh_bytes h' = fh_bytes h \<and> no_faults h' \<and> (\<forall>payload. r = Ok payload \<longleftrightarrow> read_mapped max_bytes (fh_bytes h) = Ok payload)"
proof -
  obtain r1 h1 where c1: "read_exact SNAPSHOT_HEADER_LEN h = (r1, h1)" by force
  note s1 = read_exact_calm [OF c1 assms(2)]
  show ?thesis
  proof (cases r1)
    case (Err m)
    then have "length (fh_bytes h) < SNAPSHOT_HEADER_LEN" using s1 assms(3) by (auto split: if_splits)
    then show ?thesis using assms(1) Err c1 s1
      by (auto simp: read_buffered_def seq_op_def snap_call_eq read_mapped_def)
  next
    case (Ok header)
    then have hd: "SNAPSHOT_HEADER_LEN \<le> length (fh_bytes h)" "header = take SNAPSHOT_HEADER_LEN (fh_bytes h)"
      "fh_pos h1 = SNAPSHOT_HEADER_LEN" "fh_bytes h1 = fh_bytes h" "no_faults h1"
      using s1 assms(3) by (auto split: if_splits)
    show ?thesis
    proof (cases "validate_header header max_bytes")
      case (Err e)
      then show ?thesis using assms(1) Ok c1 hd
        by (auto simp: read_buffered_def seq_op_def snap_call_eq lift_op_def read_mapped_def)
    next
      case v: (Ok lc)
      obtain len crc where lc: "lc = (len, crc)" by force
      obtain r2 h2 where c2: "read_exact len h1 = (r2, h2)" by force
      note s2 = read_exact_calm [OF c2 hd(5)]
      obtain r3 h3 where c3: "file_len h2 = (r3, h3)" by force
      note s3 = file_len_spec [OF c3]
      show ?thesis
      proof (cases r2)
        case (Err m)
        then have "length (fh_bytes h) < SNAPSHOT_HEADER_LEN + len" using s2 hd by (auto split: if_splits)
        then show ?thesis using assms(1) Ok c1 hd Err c2 s2 v
          by (auto simp: read_buffered_def seq_op_def snap_call_eq lift_op_def read_mapped_Ok lc)
      next
        case r2: (Ok bs)
        then have bs: "bs = take len (drop SNAPSHOT_HEADER_LEN (fh_bytes h))" "fh_bytes h2 = fh_bytes h" "no_faults h2"
          using s2 hd by (auto split: if_splits)
        have "r3 = Ok (length (fh_bytes h2))" "fh_bytes h3 = fh_bytes h2" "no_faults h3" using s3 bs(3) by blast+
        then have r3: "r3 = Ok (length (fh_bytes h))" "fh_bytes h3 = fh_bytes h" "no_faults h3" using bs(2) by simp_all
        have u: "u64_try_from (SNAPSHOT_HEADER_LEN + len) =
            (if SNAPSHOT_HEADER_LEN + len \<le> usize_max then Some (of_nat (SNAPSHOT_HEADER_LEN + len)) else None)"
          by (auto simp: u64_try_from_def usize_max_def)
        have n: "unat (of_nat (SNAPSHOT_HEADER_LEN + len) :: u64) = SNAPSHOT_HEADER_LEN + len"
          if "SNAPSHOT_HEADER_LEN + len \<le> usize_max" using that by (intro unat_of_nat_u64) (simp add: usize_max_def)
        have "(r, h') = (if SNAPSHOT_HEADER_LEN + len \<le> usize_max
            then if length (fh_bytes h) \<noteq> SNAPSHOT_HEADER_LEN + len \<or> crc32c bs \<noteq> crc
              then (Err (snap_corrupt ''snapshot length or checksum mismatch''), h3) else (Ok bs, h3)
            else (Err CapacityOverflow, h3))"
          using assms(1) Ok c1 v c2 r2 c3 r3 n
          by (cases "SNAPSHOT_HEADER_LEN + len \<le> usize_max")
            (auto simp: read_buffered_def seq_op_def snap_call_eq lift_op_def lc u)
        then show ?thesis using bs r3 hd v by (auto simp: read_mapped_Ok lc split: if_splits)
      qed
    qed
  qed
qed

lemma read_mapped_encode:
  assumes "snap_encode bs = Ok frame" "length bs \<le> max_bytes" "length frame \<le> usize_max"
  shows "read_mapped max_bytes frame = Ok bs"
proof -
  have f: "length bs < 2 ^ 64" "frame = SNAPSHOT_HEADER @ u64_le_bytes (of_nat (length bs)) @ u32_le_bytes (crc32c bs) @ bs"
    using assms(1) by (auto simp: snap_encode_def result_simps u64_try_from_Some)
  have l: "length SNAPSHOT_HEADER = 8" by (simp add: SNAPSHOT_HEADER_def)
  show ?thesis
    unfolding read_mapped_Ok validate_header_Ok
    using f(1) assms(2,3) l by (simp add: f(2) SNAPSHOT_HEADER_LEN_def)
qed

section \<open>What the directory calls do\<close>

definition dir_calm :: "directory \<Rightarrow> bool" where
  "dir_calm d \<longleftrightarrow> list_all (\<lambda>x. \<not> io_fault x) (dir_plan d)"

lemma dir_call_calm: "dir_calm d \<Longrightarrow> dir_call f d = f (d\<lparr>dir_plan := tl (dir_plan d)\<rparr>)"
  by (cases "dir_plan d") (auto simp: dir_call_def Let_def dir_calm_def io_fault_def split: io_outcome.splits)

lemma dir_calm_tl [simp]: "dir_calm d \<Longrightarrow> dir_calm (d\<lparr>dir_plan := tl (dir_plan d)\<rparr>)"
  by (cases "dir_plan d") (auto simp: dir_calm_def)

lemma dir_call_cases:
  assumes "dir_call f d = (r, d')"
  obtains (fault) m where "r = Err m" "d' = d\<lparr>dir_plan := tl (dir_plan d)\<rparr>"
  | (called) "f (d\<lparr>dir_plan := tl (dir_plan d)\<rparr>) = (r, d')"
  using assms by (auto simp: dir_call_def Let_def split: list.splits io_outcome.splits)

lemma map_of_replace:
  "map_of (map (\<lambda>(n, b). if n = name then (n, bs) else (n, b)) entries) n =
    (if n = name then map_option (\<lambda>_. bs) (map_of entries n) else map_of entries n)"
  by (induction entries) auto

lemma fst_replace: "map fst (map (\<lambda>(n, b). if n = name then (n, bs) else (n, b)) entries) = map fst entries"
  by (induction entries) auto

lemma map_of_entry_set:
  "map_of (entry_set name bs entries) n = (if n = name then Some bs else map_of entries n)"
proof (cases "name \<in> fst ` set entries")
  case True
  then have "map_of entries name \<noteq> None" by (simp add: map_of_eq_None_iff)
  then show ?thesis using True by (auto simp: entry_set_def map_of_replace)
next
  case False
  then have "map_of entries name = None" by (simp add: map_of_eq_None_iff)
  then show ?thesis using False by (simp add: entry_set_def map_add_def split: option.splits)
qed

lemma map_of_entry_remove: "map_of (entry_remove name entries) n = (if n = name then None else map_of entries n)"
  by (induction entries) (auto simp: entry_remove_def)

lemma distinct_entry_set: "distinct (map fst entries) \<Longrightarrow> distinct (map fst (entry_set name bs entries))"
  by (auto simp: entry_set_def fst_replace simp del: map_map)

lemma distinct_entry_remove: "distinct (map fst entries) \<Longrightarrow> distinct (map fst (entry_remove name entries))"
  by (induction entries) (auto simp: entry_remove_def)

lemma set_entry_set: "fst ` set (entry_set name bs entries) = insert name (fst ` set entries)"
proof (cases "name \<in> fst ` set entries")
  case True
  have "fst ` set (entry_set name bs entries) = set (map fst (map (\<lambda>(n, b). if n = name then (n, bs) else (n, b)) entries))"
    using True by (simp add: entry_set_def image_image)
  then show ?thesis unfolding fst_replace using True by auto
qed (simp add: entry_set_def)

text \<open>The lookup function of the entries and the entries that a call may touch.\<close>

abbreviation entry :: "directory \<Rightarrow> string \<rightharpoonup> bytes" where
  "entry d \<equiv> map_of (dir_entries d)"

definition only_touches :: "string set \<Rightarrow> directory \<Rightarrow> directory \<Rightarrow> bool" where
  "only_touches names d d' \<longleftrightarrow> (\<forall>n. n \<notin> names \<longrightarrow> entry d' n = entry d n) \<and>
    (distinct (map fst (dir_entries d)) \<longrightarrow> distinct (map fst (dir_entries d'))) \<and> dir_pid d' = dir_pid d"

lemma only_touches_refl: "only_touches names d (d\<lparr>dir_plan := plan\<rparr>)" "only_touches names d (d\<lparr>dir_next_temp := t\<rparr>)"
  "only_touches names d d"
  by (auto simp: only_touches_def)

lemma only_touches_trans: "only_touches a d d1 \<Longrightarrow> only_touches b d1 d2 \<Longrightarrow> only_touches (a \<union> b) d d2"
  by (auto simp: only_touches_def)

lemma only_touches_mono: "only_touches a d d' \<Longrightarrow> a \<subseteq> b \<Longrightarrow> only_touches b d d'"
  by (auto simp: only_touches_def)

lemma only_touches_set: "only_touches {name} d (d\<lparr>dir_entries := entry_set name bs (dir_entries d), dir_plan := plan\<rparr>)"
  by (auto simp: only_touches_def map_of_entry_set distinct_entry_set)

lemma dir_create_spec:
  "dir_create_new name d = (r, d') \<Longrightarrow> only_touches {name} d d' \<and> (r = Ok () \<longrightarrow> entry d name = None \<and> entry d' name = Some []) \<and>
    (\<forall>m. r = Err m \<longrightarrow> entry d' = entry d)"
  unfolding dir_create_new_def
  by (erule dir_call_cases)
    (auto simp: only_touches_def map_of_entry_set distinct_entry_set map_of_eq_None_iff split: if_splits)

lemma dir_rename_spec:
  "dir_rename source target d = (r, d') \<Longrightarrow> only_touches {source, target} d d' \<and>
    (r = Ok () \<longrightarrow> entry d' target = entry d source \<and> entry d source \<noteq> None \<and> (source \<noteq> target \<longrightarrow> entry d' source = None)) \<and>
    (\<forall>m. r = Err m \<longrightarrow> entry d' = entry d)"
  unfolding dir_rename_def
  by (erule dir_call_cases)
    (auto simp: only_touches_def map_of_entry_set map_of_entry_remove distinct_entry_set distinct_entry_remove
      split: option.splits)

lemma dir_remove_spec:
  "dir_remove name d = (r, d') \<Longrightarrow> only_touches {name} d d' \<and> (r = Ok () \<longrightarrow> entry d' name = None)"
  unfolding dir_remove_def
  by (erule dir_call_cases)
    (auto simp: only_touches_def map_of_entry_remove distinct_entry_remove split: if_splits)

lemma on_entry_spec:
  assumes "on_entry name call d = (r, d')"
  shows "only_touches {name} d d' \<and>
    (\<forall>bs. entry d name = Some bs \<longrightarrow> (\<exists>h. call \<lparr> fh_bytes = bs, fh_pos = 0, fh_plan = dir_plan d \<rparr> = (r, h) \<and>
       entry d' name = Some (fh_bytes h) \<and> dir_plan d' = fh_plan h \<and> dir_next_temp d' = dir_next_temp d))"
  using assms
  by (auto simp: on_entry_def only_touches_refl map_of_entry_set only_touches_set split: option.splits prod.splits)

lemma dir_op_eq: "dir_op operation call d = (snap_io operation (fst (call d)), snd (call d))"
  by (simp add: dir_op_def split: prod.splits)

section \<open>Saving is atomic\<close>

lemma snap_write_spec:
  assumes "snap_call operation (write_all frame) \<lparr> fh_bytes = [], fh_pos = 0, fh_plan = plan \<rparr> = (r, h)"
  shows "(r = Ok () \<longrightarrow> fh_bytes h = frame) \<and>
    (list_all (\<lambda>x. \<not> io_fault x) plan \<longrightarrow> r = Ok () \<and> list_all (\<lambda>x. \<not> io_fault x) (fh_plan h))"
proof -
  let ?h = "\<lparr> fh_bytes = [], fh_pos = 0, fh_plan = plan \<rparr>"
  obtain w h1 where w: "write_all frame ?h = (w, h1)" by force
  then have e: "r = snap_io operation w" "h = h1" using assms by (simp_all add: snap_call_def)
  obtain k where k: "k \<le> length frame" "fh_bytes h1 = take k frame" "w = Ok () \<longrightarrow> k = length frame"
    "no_faults ?h \<longrightarrow> no_faults h1 \<and> w = Ok ()"
    using write_all_spec [OF w] by auto
  then show ?thesis by (cases w) (auto simp: e no_faults_def)
qed

lemma snap_sync_spec:
  assumes "snap_sync durability h = (r, h')"
  shows "fh_bytes h' = fh_bytes h \<and> (no_faults h \<longrightarrow> r = Ok () \<and> no_faults h')"
proof -
  have "fh_bytes (snd (file_sync h)) = fh_bytes h \<and> (no_faults h \<longrightarrow> no_faults (snd (file_sync h)) \<and> fst (file_sync h) = Ok ())"
    using file_sync_spec [of h "fst (file_sync h)" "snd (file_sync h)"] by simp
  then show ?thesis using assms by (auto simp: snap_sync_def snap_call_eq split: durability.splits)
qed

lemma write_temporary_spec:
  assumes "write_temporary st frame temporary final d = (r, d')" "temporary \<noteq> final"
  shows "only_touches {temporary, final} d d' \<and> (r = Ok () \<longrightarrow> entry d' final = Some frame \<and> entry d' temporary = None) \<and>
    (\<forall>e. r = Err e \<longrightarrow> entry d' final = entry d final)"
proof -
  obtain r1 d1 where c1: "dir_create_new temporary d = (r1, d1)" by force
  note s1 = dir_create_spec [OF c1]
  obtain r2 d2 where c2: "on_entry temporary (snap_call ''write snapshot'' (write_all frame)) d1 = (r2, d2)" by force
  note s2 = on_entry_spec [OF c2]
  obtain r3 d3 where c3: "on_entry temporary (snap_sync (so_durability (fss_options st))) d2 = (r3, d3)" by force
  note s3 = on_entry_spec [OF c3]
  obtain r4 d4 where c4: "dir_rename temporary final d3 = (r4, d4)" by force
  note s4 = dir_rename_spec [OF c4]
  have t1: "only_touches {temporary} d d1" using s1 by blast
  have t2: "only_touches {temporary} d d2" using only_touches_trans [OF t1, of "{temporary}" d2] s2 by simp
  have t3: "only_touches {temporary} d d3" using only_touches_trans [OF t2, of "{temporary}" d3] s3 by simp
  have t4: "only_touches {temporary, final} d d4"
    using only_touches_mono [OF only_touches_trans [OF t3, of "{temporary, final}" d4]] s4 by blast
  have weak: "only_touches {temporary} d e \<Longrightarrow> only_touches {temporary, final} d e \<and> entry e final = entry d final" for e
    using assms(2) by (auto simp: only_touches_def)
  show ?thesis
  proof (cases r1)
    case (Err m)
    with assms c1 weak [OF t1] show ?thesis by (auto simp: write_temporary_def seq_op_def dir_op_eq)
  next
    case r1: (Ok u)
    then have e1: "entry d1 temporary = Some []" using s1 by simp
    show ?thesis
    proof (cases r2)
      case (Err m)
      with assms c1 c2 r1 weak [OF t2] show ?thesis by (auto simp: write_temporary_def seq_op_def dir_op_eq)
    next
      case r2: (Ok u)
      then have e2: "entry d2 temporary = Some frame" using s2 e1 snap_write_spec by fastforce
      show ?thesis
      proof (cases r3)
        case (Err m)
        with assms c1 c2 c3 r1 r2 weak [OF t3] show ?thesis by (auto simp: write_temporary_def seq_op_def dir_op_eq)
      next
        case r3: (Ok u)
        then have e3: "entry d3 temporary = Some frame" using s3 e2 snap_sync_spec by fastforce
        have "(r, d') = (snap_io ''commit snapshot'' r4, d4)"
          using assms c1 c2 c3 c4 r1 r2 r3 by (simp add: write_temporary_def seq_op_def dir_op_eq)
        with e3 s4 t4 weak [OF t3] assms(2) show ?thesis by (cases r4) auto
      qed
    qed
  qed
qed

lemma write_generation_spec:
  assumes "write_generation st frame final d = (r, d')"
    and "temporary = temporary_name final (dir_pid d) (dir_next_temp d)" "temporary \<noteq> final"
  shows "only_touches {temporary, final} d d' \<and> (r = Ok () \<longrightarrow> entry d' final = Some frame \<and> entry d' temporary = None) \<and>
    (\<forall>e. r = Err e \<longrightarrow> entry d' final = entry d final)"
proof -
  let ?d = "d\<lparr>dir_next_temp := dir_next_temp d + 1\<rparr>"
  obtain w d1 where w: "write_temporary st frame temporary final ?d = (w, d1)" by force
  note spec = write_temporary_spec [OF w assms(3)]
  obtain x d2 where x: "dir_remove temporary d1 = (x, d2)" by force
  have t: "only_touches {temporary, final} d d1"
    using spec by (auto simp: only_touches_def)
  have t2: "only_touches {temporary, final} d d2" "entry d2 final = entry d1 final"
    using t dir_remove_spec [OF x] assms(3) by (auto simp: only_touches_def)
  show ?thesis
    using assms(1) spec t t2 w x
    by (cases w) (auto simp: write_generation_def temporary_path_def assms(2) guard_drop_def)
qed

lemma dir_exists_spec:
  assumes "dir_exists name d = (b, d')"
  shows "d' = d\<lparr>dir_plan := tl (dir_plan d)\<rparr> \<and> (b \<longrightarrow> entry d name \<noteq> None) \<and> (dir_calm d \<longrightarrow> b = (entry d name \<noteq> None))"
proof -
  obtain r d1 where c: "dir_call (\<lambda>d. (Ok (name \<in> fst ` set (dir_entries d)), d)) d = (r, d1)" by force
  show ?thesis
  proof (cases "dir_calm d")
    case True
    with assms show ?thesis by (auto simp: dir_exists_def dir_call_calm map_of_eq_None_iff)
  next
    case False
    have "(b, d') = (case r of Ok b \<Rightarrow> (b, d1) | Err _ \<Rightarrow> (False, d1))"
      using assms c by (simp add: dir_exists_def split: result.splits)
    with c False show ?thesis
      by (elim dir_call_cases) (auto simp: map_of_eq_None_iff)
  qed
qed

lemma dir_read_spec:
  "dir_read name d = (r, d') \<Longrightarrow> d' = d\<lparr>dir_plan := tl (dir_plan d)\<rparr> \<and> (\<forall>bs. r = Ok bs \<longrightarrow> entry d name = Some bs) \<and>
    (dir_calm d \<and> entry d name = Some bs' \<longrightarrow> r = Ok bs')"
  unfolding dir_read_def
  by (cases "dir_calm d") (auto simp: dir_call_calm split: option.splits elim!: dir_call_cases)

text \<open>
  C14: whatever calls of the operating system fail while a snapshot is saved, the other entries of
  the directory keep their content, a save that reports success leaves the complete frame under its
  generation name, and a save that reports an error leaves that generation as it was: the only
  other entry it may leave behind is a temporary file, which is never taken for a generation.
\<close>

theorem snapshot_save_atomic:
  assumes "fss_save encode st snapshot d = (r, d')" "snapshot_position snapshot = Some position"
    and "encode_frame encode st snapshot = Ok frame" "str_ok (fss_prefix st)"
  defines "final \<equiv> final_name (fss_prefix st) position"
  shows "\<exists>temporary. generation_of (fss_prefix st) temporary = None \<and>
    (\<forall>name. name \<noteq> temporary \<and> name \<noteq> final \<longrightarrow> entry d' name = entry d name) \<and>
    (r = Ok () \<longrightarrow> entry d' final = Some frame) \<and> ((\<exists>e. r = Err e) \<longrightarrow> entry d' final = entry d final)"
proof -
  let ?t = "temporary_name final (dir_pid d) (dir_next_temp d)"
  obtain b d1 where ex: "dir_exists final d = (b, d1)" by force
  note d1 = dir_exists_spec [OF ex]
  have not_gen: "generation_of (fss_prefix st) ?t = None" by (rule temporary_not_generation)
  have ne: "?t \<noteq> final" unfolding final_def using assms(4) by (rule temporary_not_final)
  show ?thesis
  proof (cases b)
    case True
    obtain w d2 where w: "dir_read final d1 = (w, d2)" by force
    note d2 = dir_read_spec [OF w]
    have e1: "dir_entries d1 = dir_entries d" using d1 by simp
    have "dir_entries d2 = dir_entries d1" using conjunct1 [OF d2] by simp
    then have same: "entry d2 = entry d" using e1 by simp
    have existing: "entry d final = Some bs" if "w = Ok bs" for bs
    proof -
      have "entry d1 final = Some bs" using d2 that by blast
      then show ?thesis using e1 by simp
    qed
    have "(r, d') = (case w of Ok existing \<Rightarrow> (if existing = frame then Ok () else Err snapshot_conflict, d2)
        | Err m \<Rightarrow> (Err (IoError ''read existing snapshot'' m), d2))"
      using assms(1) ex True w
      by (cases w) (auto simp: fss_save_def assms(2,3) final_def [symmetric] Let_def seq_op_def dir_op_eq lift_op_def)
    then show ?thesis
      using same not_gen existing by (cases w) (auto intro!: exI [of _ ?t] split: if_splits)
  next
    case False
    have "write_generation st frame final d1 = (r, d')"
      using assms(1) ex False by (simp add: fss_save_def assms(2,3) final_def [symmetric])
    from write_generation_spec [OF this refl] d1 ne not_gen show ?thesis
      by (intro exI [of _ ?t]) (auto simp: only_touches_def)
  qed
qed

definition sample_snapshot :: "nat projection_snapshot" where
  "sample_snapshot = \<lparr> ps_cursor = \<lparr> rc_global_position = Some 7, rc_stream_versions = [] \<rparr>, ps_projection = 0 \<rparr>"

definition sample_snapshots :: file_snapshot_store where
  "sample_snapshots = \<lparr> fss_prefix = ''memory'', fss_options = so_default, fss_mapped_reads = False \<rparr>"

definition sample_directory :: "io_outcome list \<Rightarrow> directory" where
  "sample_directory plan = \<lparr> dir_entries = [], dir_plan = plan, dir_pid = 1, dir_next_temp = 0 \<rparr>"

definition sample_snap_frame :: bytes where
  "sample_snap_frame = SNAPSHOT_HEADER @ u64_le_bytes 1 @ u32_le_bytes (crc32c [1]) @ [1]"

lemma sample_encode_snap_frame:
  "encode_frame (sample_encode sample_snapshot) sample_snapshots sample_snapshot = Ok sample_snap_frame"
  by (simp add: encode_frame_def sample_encode_def sample_snapshots_def so_default_def snap_encode_def u64_try_from_def
      sample_snap_frame_def)

lemma sample_prefix_ok: "str_ok (fss_prefix sample_snapshots)"
  by (simp add: sample_snapshots_def str_ok_def as_bytes_def byte_of_char_def)

text \<open>The second write of the frame fails after five bytes.\<close>

theorem snapshot_save_atomic_witness:
  "\<exists>r d'. fss_save (sample_encode sample_snapshot) sample_snapshots sample_snapshot
      (sample_directory [IoDone, IoDone, IoShort 5, IoFault ''disk full'']) = (r, d') \<and>
    (r = Ok () \<longrightarrow> entry d' (final_name ''memory'' 7) = Some sample_snap_frame) \<and>
    ((\<exists>e. r = Err e) \<longrightarrow> entry d' (final_name ''memory'' 7) = None)"
proof -
  let ?d = "sample_directory [IoDone, IoDone, IoShort 5, IoFault ''disk full'']"
  obtain r d' where s: "fss_save (sample_encode sample_snapshot) sample_snapshots sample_snapshot ?d = (r, d')" by force
  have "snapshot_position sample_snapshot = Some 7" by (simp add: sample_snapshot_def)
  from snapshot_save_atomic [OF s this sample_encode_snap_frame sample_prefix_ok] s show ?thesis
    by (auto simp: sample_snapshots_def sample_directory_def)
qed

section \<open>Damage is detected, also through a memory map\<close>

text \<open>
  Reading a snapshot through a buffer and through a memory map accepts the same files and yields
  the same payload.
\<close>

theorem mapped_and_buffered_reads_agree:
  assumes "no_faults h" "fh_pos h = 0"
  shows "fst (read_buffered max_bytes h) = Ok payload \<longleftrightarrow> read_mapped max_bytes (fh_bytes h) = Ok payload"
  using read_buffered_spec [of max_bytes h "fst (read_buffered max_bytes h)" "snd (read_buffered max_bytes h)"] assms by simp

theorem mapped_and_buffered_reads_agree_witness:
  "fst (read_buffered 16 \<lparr> fh_bytes = sample_snap_frame, fh_pos = 0, fh_plan = [IoShort 3, IoDone, IoDone] \<rparr>) = Ok [1]"
proof -
  have "no_faults \<lparr> fh_bytes = sample_snap_frame, fh_pos = 0, fh_plan = [IoShort 3, IoDone, IoDone] \<rparr>"
    by (simp add: no_faults_def io_fault_def)
  moreover have "read_mapped 16 sample_snap_frame = Ok [1]"
    by (rule read_mapped_encode) (simp_all add: snap_encode_def u64_try_from_def sample_snap_frame_def SNAPSHOT_HEADER_def usize_max_def)
  ultimately show ?thesis by (simp add: mapped_and_buffered_reads_agree)
qed

lemma snap_header:
  assumes "snap_encode bs = Ok frame" "length frame \<le> usize_max"
  obtains header where "frame = header @ bs" "length header = SNAPSHOT_HEADER_LEN" "SNAPSHOT_HEADER_LEN + length bs \<le> usize_max"
    "validate_header header max_bytes = (if length bs > max_bytes then Err (snap_corrupt ''snapshot exceeds configured size limit'')
       else Ok (length bs, crc32c bs))"
proof -
  let ?header = "SNAPSHOT_HEADER @ u64_le_bytes (of_nat (length bs)) @ u32_le_bytes (crc32c bs)"
  have f: "length bs < 2 ^ 64" "frame = ?header @ bs"
    using assms(1) by (auto simp: snap_encode_def result_simps u64_try_from_Some)
  have l: "length SNAPSHOT_HEADER = 8" by (simp add: SNAPSHOT_HEADER_def)
  have h: "length ?header = SNAPSHOT_HEADER_LEN" by (simp add: l SNAPSHOT_HEADER_LEN_def)
  have "SNAPSHOT_HEADER_LEN + length bs \<le> usize_max" using assms(2) f(2) h by simp
  then show thesis using f h l by (intro that [of ?header]) (simp_all add: validate_header_def)
qed

lemma damaged_payload:
  assumes "snap_encode (pre @ a # post) = Ok (header @ pre @ a # post)" "length (header @ pre @ a # post) \<le> usize_max" "a \<noteq> b"
  shows "\<exists>reason. read_mapped max_bytes (header @ pre @ b # post) = Err (CorruptLog 0 reason)"
proof -
  obtain h where h: "header @ pre @ a # post = h @ pre @ a # post" "length h = SNAPSHOT_HEADER_LEN"
    "SNAPSHOT_HEADER_LEN + length (pre @ a # post) \<le> usize_max"
    "validate_header h max_bytes = (if length (pre @ a # post) > max_bytes
       then Err (snap_corrupt ''snapshot exceeds configured size limit'') else Ok (length (pre @ a # post), crc32c (pre @ a # post)))"
    by (rule snap_header [OF assms(1,2), of max_bytes], rule that)
  have "header = h" using h(1) by simp
  moreover have "crc32c (pre @ b # post) \<noteq> crc32c (pre @ a # post)" using crc32c_byte_change assms(3) by metis
  ultimately show ?thesis
    using h(2-4) by (auto simp: read_mapped_def snap_corrupt_def usize_checked_add_def)
qed

lemma truncated_frame:
  assumes "snap_encode bs = Ok frame" "length frame \<le> usize_max" "n < length frame"
  shows "\<exists>reason. read_mapped max_bytes (take n frame) = Err (CorruptLog 0 reason)"
proof -
  obtain h where h: "frame = h @ bs" "length h = SNAPSHOT_HEADER_LEN" "SNAPSHOT_HEADER_LEN + length bs \<le> usize_max"
    "validate_header h max_bytes = (if length bs > max_bytes
       then Err (snap_corrupt ''snapshot exceeds configured size limit'') else Ok (length bs, crc32c bs))"
    by (rule snap_header [OF assms(1,2), of max_bytes], rule that)
  show ?thesis
  proof (cases "n < SNAPSHOT_HEADER_LEN")
    case True
    then show ?thesis using assms(3) by (simp add: read_mapped_def snap_corrupt_def)
  next
    case False
    then have "take SNAPSHOT_HEADER_LEN (take n frame) = h" using h(1,2) by (simp add: min_def)
    then show ?thesis using False h assms(3) by (auto simp: read_mapped_def snap_corrupt_def usize_checked_add_def)
  qed
qed

text \<open>
  A snapshot file in which any single byte of the payload was changed, or from which bytes were
  cut off, is rejected with a corruption error.
\<close>

theorem damaged_snapshot_rejected:
  assumes "snap_encode (pre @ a # post) = Ok (header @ pre @ a # post)" "length (header @ pre @ a # post) \<le> usize_max"
  shows "(a \<noteq> b \<longrightarrow> (\<exists>reason. read_mapped max_bytes (header @ pre @ b # post) = Err (CorruptLog 0 reason))) \<and>
    (n < length (header @ pre @ a # post) \<longrightarrow>
      (\<exists>reason. read_mapped max_bytes (take n (header @ pre @ a # post)) = Err (CorruptLog 0 reason)))"
  using damaged_payload [OF assms] truncated_frame [OF assms] by blast

theorem damaged_snapshot_rejected_witness:
  "\<exists>reason. read_mapped 16 (SNAPSHOT_HEADER @ u64_le_bytes 1 @ u32_le_bytes (crc32c [1]) @ [2]) = Err (CorruptLog 0 reason)"
  using damaged_snapshot_rejected [of "[]" 1 "[]" "SNAPSHOT_HEADER @ u64_le_bytes 1 @ u32_le_bytes (crc32c [1])" 2 16 0]
  by (simp add: snap_encode_def u64_try_from_def SNAPSHOT_HEADER_def usize_max_def)

section \<open>The store when no call fails\<close>

lemma calm_set: "dir_calm (d\<lparr>dir_entries := es\<rparr>) = dir_calm d" "dir_calm (d\<lparr>dir_next_temp := t\<rparr>) = dir_calm d"
  by (simp_all add: dir_calm_def)

lemma on_entry_calm:
  assumes "dir_calm d" "entry d name = Some bs"
    and "\<And>h. no_faults h \<Longrightarrow> fh_bytes h = bs \<Longrightarrow> fh_pos h = 0 \<Longrightarrow> \<exists>a h'. call h = (Ok a, h') \<and> no_faults h'"
  shows "\<exists>a d'. on_entry name call d = (Ok a, d') \<and> dir_calm d'"
proof -
  let ?h = "\<lparr> fh_bytes = bs, fh_pos = 0, fh_plan = dir_plan d \<rparr>"
  obtain a h' where "call ?h = (Ok a, h')" "no_faults h'"
    using assms(1) assms(3) [of ?h] by (auto simp: no_faults_def dir_calm_def)
  then show ?thesis using assms(2) by (auto simp: on_entry_def dir_calm_def no_faults_def)
qed

lemma write_temporary_calm:
  assumes "dir_calm d" "entry d temporary = None"
  shows "\<exists>d'. write_temporary st frame temporary final d = (Ok (), d') \<and> dir_calm d'"
proof -
  let ?d = "d\<lparr>dir_plan := tl (dir_plan d)\<rparr>"
  obtain d1 where c1: "dir_create_new temporary d = (Ok (), d1)" "dir_calm d1"
    using assms dir_calm_tl [OF assms(1)]
    by (auto simp: dir_create_new_def dir_call_calm map_of_eq_None_iff calm_set)
  have e1: "entry d1 temporary = Some []" using dir_create_spec [OF c1(1)] by simp
  have w: "\<exists>a h'. snap_call ''write snapshot'' (write_all frame) h = (Ok a, h') \<and> no_faults h'"
    if "no_faults h" "fh_bytes h = []" "fh_pos h = 0" for h
  proof -
    obtain r h' where r: "snap_call ''write snapshot'' (write_all frame) h = (r, h')" by force
    have "h = \<lparr> fh_bytes = [], fh_pos = 0, fh_plan = fh_plan h \<rparr>" using that by (cases h) simp
    with r that(1) snap_write_spec [of "''write snapshot''" frame "fh_plan h" r h'] show ?thesis
      by (auto simp: no_faults_def)
  qed
  obtain a2 d2 where c2: "on_entry temporary (snap_call ''write snapshot'' (write_all frame)) d1 = (Ok a2, d2)" "dir_calm d2"
    using on_entry_calm [OF c1(2) e1, of "snap_call ''write snapshot'' (write_all frame)"] w by blast
  obtain bs where e2: "entry d2 temporary = Some bs" using on_entry_spec [OF c2(1)] e1 by auto
  have y: "\<exists>a h'. snap_sync dur h = (Ok a, h') \<and> no_faults h'" if "no_faults h" for dur h
    using snap_sync_spec [of dur h "fst (snap_sync dur h)" "snd (snap_sync dur h)"] that by (metis prod.collapse)
  obtain a3 d3 where c3: "on_entry temporary (snap_sync (so_durability (fss_options st))) d2 = (Ok a3, d3)" "dir_calm d3"
    using on_entry_calm [OF c2(2) e2, of "snap_sync (so_durability (fss_options st))"] y by blast
  obtain bs3 where e3: "entry d3 temporary = Some bs3" using on_entry_spec [OF c3(1)] e2 by auto
  obtain d4 where c4: "dir_rename temporary final d3 = (Ok (), d4)" "dir_calm d4"
    using e3 dir_calm_tl [OF c3(2)] by (auto simp: dir_rename_def dir_call_calm [OF c3(2)] calm_set)
  show ?thesis using c1 c2 c3 c4 by (simp add: write_temporary_def seq_op_def dir_op_eq)
qed

lemma write_generation_calm:
  assumes "dir_calm d" "\<And>i. entry d (temporary_name final (dir_pid d) i) = None" "\<And>i. temporary_name final (dir_pid d) i \<noteq> final"
  shows "\<exists>d'. write_generation st frame final d = (Ok (), d') \<and> dir_calm d' \<and> entry d' = (entry d)(final \<mapsto> frame) \<and>
    dir_pid d' = dir_pid d \<and> (distinct (map fst (dir_entries d)) \<longrightarrow> distinct (map fst (dir_entries d')))"
proof -
  let ?d = "d\<lparr>dir_next_temp := dir_next_temp d + 1\<rparr>" and ?t = "temporary_name final (dir_pid d) (dir_next_temp d)"
  have "dir_calm ?d" using assms(1) by (simp add: calm_set)
  moreover have "entry ?d ?t = None" using assms(2) by simp
  ultimately obtain d' where d': "write_temporary st frame ?t final ?d = (Ok (), d')" "dir_calm d'"
    using write_temporary_calm by blast
  then have g: "write_generation st frame final d = (Ok (), d')"
    by (simp add: write_generation_def temporary_path_def)
  note spec = write_generation_spec [OF g refl assms(3)]
  have "entry d' x = ((entry d)(final \<mapsto> frame)) x" for x
    by (cases "x = ?t"; cases "x = final") (use spec assms(2,3) in \<open>simp_all add: only_touches_def\<close>)
  then have "entry d' = (entry d)(final \<mapsto> frame)" by (rule ext)
  then show ?thesis using g d' spec by (simp add: only_touches_def)
qed

text \<open>
  C15: saved generations are meant to be immutable, but the existence test reads a failing metadata
  call as absence: when that call fails, saving a different snapshot at the position of a stored
  generation reports success and replaces the stored one.
\<close>

theorem metadata_error_overwrites_generation:
  "\<exists>d'. fss_save (sample_encode sample_snapshot) sample_snapshots sample_snapshot
      ((sample_directory [IoFault ''stale handle''])\<lparr>dir_entries := [(final_name ''memory'' 7, old)]\<rparr>) = (Ok (), d') \<and>
    entry d' (final_name ''memory'' 7) = Some sample_snap_frame"
proof -
  let ?final = "final_name ''memory'' 7"
  let ?d = "(sample_directory [IoFault ''stale handle''])\<lparr>dir_entries := [(?final, old)]\<rparr>"
  let ?d1 = "(sample_directory [])\<lparr>dir_entries := [(?final, old)]\<rparr>"
  have "dir_exists ?final ?d = (False, ?d1)" by (simp add: dir_exists_def dir_call_def sample_directory_def)
  then have "fss_save (sample_encode sample_snapshot) sample_snapshots sample_snapshot ?d =
      write_generation sample_snapshots sample_snap_frame ?final ?d1"
    unfolding fss_save_def sample_encode_snap_frame Let_def by (simp add: sample_snapshot_def) (simp add: sample_snapshots_def)
  moreover have "temporary_name ?final pid i \<noteq> ?final" for pid i
    using temporary_not_final [OF sample_prefix_ok] by (simp add: sample_snapshots_def)
  ultimately show ?thesis
    using write_generation_calm [of ?d1 ?final sample_snapshots sample_snap_frame]
    by (auto simp: dir_calm_def sample_directory_def)
qed

text \<open>What the loop over the entries finds, starting from the best entry so far.\<close>

definition latest_found :: "string \<Rightarrow> string set \<Rightarrow> (u64 \<times> string) option \<Rightarrow> (u64 \<times> string) option \<Rightarrow> bool" where
  "latest_found pre names latest r \<longleftrightarrow>
    (r = latest \<or> (\<exists>p name. r = Some (p, name) \<and> name \<in> names \<and> generation_of pre name = Some p)) \<and>
    (\<forall>p name. latest = Some (p, name) \<longrightarrow> (\<exists>q name'. r = Some (q, name') \<and> p \<le> q)) \<and>
    (\<forall>name p. name \<in> names \<and> generation_of pre name = Some p \<longrightarrow> (\<exists>q name'. r = Some (q, name') \<and> p \<le> q))"

definition better :: "string \<Rightarrow> string \<Rightarrow> (u64 \<times> string) option \<Rightarrow> (u64 \<times> string) option" where
  "better pre name latest =
    (case generation_of pre name of None \<Rightarrow> latest
     | Some p \<Rightarrow> if (case latest of None \<Rightarrow> True | Some (q, _) \<Rightarrow> p > q) then Some (p, name) else latest)"

lemma latest_found_Cons:
  assumes "latest_found pre names (better pre name latest) r"
  shows "latest_found pre (insert name names) latest r"
proof -
  have keeps: "\<exists>q n. better pre name latest = Some (q, n) \<and> p \<le> q" if "latest = Some (p, n)" for p n
    using that by (auto simp: better_def split: option.splits)
  have covers: "\<exists>q n. better pre name latest = Some (q, n) \<and> p \<le> q" if "generation_of pre name = Some p" for p
    using that by (auto simp: better_def split: option.splits)
  have origin: "better pre name latest = latest \<or> (\<exists>p. better pre name latest = Some (p, name) \<and> generation_of pre name = Some p)"
    by (auto simp: better_def split: option.splits)
  have up: "\<exists>q n'. r = Some (q, n') \<and> p \<le> q" if "\<exists>q n. better pre name latest = Some (q, n) \<and> p \<le> q" for p
    using that assms unfolding latest_found_def by (meson order_trans)
  have "r = latest \<or> (\<exists>p n. r = Some (p, n) \<and> n \<in> insert name names \<and> generation_of pre n = Some p)"
    using assms origin unfolding latest_found_def by auto
  moreover have "\<forall>p n. latest = Some (p, n) \<longrightarrow> (\<exists>q n'. r = Some (q, n') \<and> p \<le> q)" using keeps up by blast
  moreover have "\<forall>n p. n \<in> insert name names \<and> generation_of pre n = Some p \<longrightarrow> (\<exists>q n'. r = Some (q, n') \<and> p \<le> q)"
    using covers up assms unfolding latest_found_def by (metis insert_iff)
  ultimately show ?thesis unfolding latest_found_def by blast
qed

lemma latest_loop_calm:
  assumes "dir_calm d"
  shows "\<exists>r d'. latest_loop pre names latest d = (Ok r, d') \<and> dir_calm d' \<and> dir_entries d' = dir_entries d \<and>
    latest_found pre (set names) latest r"
  using assms
proof (induction names arbitrary: latest d)
  case Nil
  then show ?case by (auto simp: lift_op_def latest_found_def)
next
  case (Cons name names)
  let ?d = "d\<lparr>dir_plan := tl (dir_plan d)\<rparr>"
  have "latest_loop pre (name # names) latest d = latest_loop pre names (better pre name latest) ?d"
    using Cons.prems
    by (auto simp: better_def seq_op_def dir_op_eq dir_entry_def dir_call_calm split: option.splits)
  moreover have "dir_calm ?d" using Cons.prems by simp
  ultimately show ?case using Cons.IH [of ?d "better pre name latest"] latest_found_Cons by fastforce
qed

lemma latest_path_calm:
  assumes "dir_calm d"
  shows "\<exists>r d'. latest_path st d = (Ok r, d') \<and> dir_calm d' \<and> dir_entries d' = dir_entries d \<and>
    latest_found (fss_prefix st) (dom (entry d)) None r"
proof -
  let ?d = "d\<lparr>dir_plan := tl (dir_plan d)\<rparr>" and ?names = "map fst (dir_entries d)"
  have "latest_path st d = latest_loop (fss_prefix st) ?names None ?d"
    using assms by (simp add: latest_path_def seq_op_def dir_op_eq dir_list_def dir_call_calm)
  moreover have "set ?names = dom (entry d)" by (simp add: dom_map_of_conv_image_fst)
  ultimately show ?thesis
    using latest_loop_calm [OF dir_calm_tl [OF assms], of "fss_prefix st" ?names None] by simp
qed

lemma frame_read_calm:
  assumes "dir_calm d" "entry d name = Some frame" "read_mapped (so_max_snapshot_bytes (fss_options st)) frame = Ok bs"
  shows "fst (frame_read st name d) = Ok bs"
proof (cases "fss_mapped_reads st")
  case True
  with assms show ?thesis by (simp add: frame_read_def seq_op_def dir_op_eq dir_read_def dir_call_calm lift_op_def)
next
  case False
  let ?h = "\<lparr> fh_bytes = frame, fh_pos = 0, fh_plan = tl (dir_plan d) \<rparr>"
  obtain r h' where h: "read_buffered (so_max_snapshot_bytes (fss_options st)) ?h = (r, h')" by force
  have "no_faults ?h" using dir_calm_tl [OF assms(1)] by (simp add: no_faults_def dir_calm_def)
  then have "r = Ok bs" using read_buffered_spec [OF h] assms(3) by simp
  then show ?thesis using False assms h
    by (simp add: frame_read_def seq_op_def dir_op_eq dir_call_calm on_entry_def)
qed

section \<open>The contract of a snapshot codec and the store over it\<close>

locale snapshot_codec =
  fixes encode :: "'p projection_snapshot \<Rightarrow> bytes memory_result"
    and decode :: "bytes \<Rightarrow> 'p projection_snapshot memory_result"
    and valid :: "'p projection_snapshot \<Rightarrow> bool"
    and canon :: "'p projection_snapshot \<Rightarrow> 'p projection_snapshot"
  assumes decode_canon: "valid x \<Longrightarrow> encode x = Ok bs \<Longrightarrow> decode bs = Ok (canon x)"
    and canon_position: "valid x \<Longrightarrow> snapshot_position (canon x) = snapshot_position x"
    and canon_encode: "valid x \<Longrightarrow> valid y \<Longrightarrow> canon x = canon y \<Longrightarrow> encode x = encode y"

definition frame_ok ::
  "('p projection_snapshot \<Rightarrow> bytes memory_result) \<Rightarrow> ('p projection_snapshot \<Rightarrow> bool) \<Rightarrow> file_snapshot_store \<Rightarrow>
   'p projection_snapshot \<Rightarrow> bool"
where
  "frame_ok encode valid st x \<longleftrightarrow> valid x \<and> (\<exists>frame. encode_frame encode st x = Ok frame \<and> length frame \<le> usize_max)"

definition generations ::
  "(bytes \<Rightarrow> 'p projection_snapshot memory_result) \<Rightarrow> file_snapshot_store \<Rightarrow> directory \<Rightarrow> u64 \<rightharpoonup> 'p projection_snapshot"
where
  "generations decode st d p =
    (case entry d (final_name (fss_prefix st) p) of
       None \<Rightarrow> None
     | Some frame \<Rightarrow> (case decode (drop SNAPSHOT_HEADER_LEN frame) of Ok x \<Rightarrow> Some x | Err _ \<Rightarrow> None))"

definition fss_inv ::
  "('p projection_snapshot \<Rightarrow> bytes memory_result) \<Rightarrow> ('p projection_snapshot \<Rightarrow> bool) \<Rightarrow> file_snapshot_store \<Rightarrow> directory \<Rightarrow> bool"
where
  "fss_inv encode valid st d \<longleftrightarrow> dir_calm d \<and> str_ok (fss_prefix st) \<and>
    (\<forall>p i. entry d (temporary_name (final_name (fss_prefix st) p) (dir_pid d) i) = None) \<and>
    (\<forall>name frame p. entry d name = Some frame \<and> generation_of (fss_prefix st) name = Some p \<longrightarrow>
       name = final_name (fss_prefix st) p \<and>
       (\<exists>x. frame_ok encode valid st x \<and> snapshot_position x = Some p \<and> encode_frame encode st x = Ok frame))"

lemma encode_frame_payload:
  assumes "encode_frame encode st x = Ok frame" "length frame \<le> usize_max"
  shows "encode x = Ok (drop SNAPSHOT_HEADER_LEN frame)"
    "read_mapped (so_max_snapshot_bytes (fss_options st)) frame = Ok (drop SNAPSHOT_HEADER_LEN frame)"
proof -
  obtain bs where bs: "encode x = Ok bs" "length bs \<le> so_max_snapshot_bytes (fss_options st)" "snap_encode bs = Ok frame"
    using assms(1) by (auto simp: encode_frame_def result_simps split: if_splits)
  have r: "read_mapped (so_max_snapshot_bytes (fss_options st)) frame = Ok bs"
    using read_mapped_encode [OF bs(3,2) assms(2)] .
  then have "bs = drop SNAPSHOT_HEADER_LEN frame" by (auto simp: read_mapped_Ok)
  with bs(1) r show "encode x = Ok (drop SNAPSHOT_HEADER_LEN frame)"
    "read_mapped (so_max_snapshot_bytes (fss_options st)) frame = Ok (drop SNAPSHOT_HEADER_LEN frame)" by simp_all
qed

context snapshot_codec
begin

lemma generation_content:
  assumes "fss_inv encode valid st d" "entry d (final_name (fss_prefix st) p) = Some frame"
  obtains x where "valid x" "snapshot_position x = Some p" "encode_frame encode st x = Ok frame" "length frame \<le> usize_max"
    "generations decode st d p = Some (canon x)"
proof -
  have "generation_of (fss_prefix st) (final_name (fss_prefix st) p) = Some p"
    using assms(1) by (simp add: fss_inv_def generation_of_final)
  then obtain x where x: "frame_ok encode valid st x" "snapshot_position x = Some p" "encode_frame encode st x = Ok frame"
    using assms unfolding fss_inv_def by blast
  then have v: "valid x" "length frame \<le> usize_max" by (auto simp: frame_ok_def)
  then have "generations decode st d p = Some (canon x)"
    using decode_canon [OF v(1) encode_frame_payload(1) [OF x(3) v(2)]] assms(2) by (simp add: generations_def)
  with x v show thesis by (intro that)
qed

lemma generations_None:
  "fss_inv encode valid st d \<Longrightarrow> generations decode st d p = None \<longleftrightarrow> entry d (final_name (fss_prefix st) p) = None"
  by (cases "entry d (final_name (fss_prefix st) p)") (auto simp: generations_def elim: generation_content)

lemma fss_save_new:
  assumes inv: "fss_inv encode valid st d" and x: "frame_ok encode valid st x" "snapshot_position x = Some p"
    and new: "generations decode st d p = None"
  shows "\<exists>d'. fss_save encode st x d = (Ok (), d') \<and> fss_inv encode valid st d' \<and>
    generations decode st d' = (generations decode st d)(p \<mapsto> canon x)"
proof -
  let ?final = "final_name (fss_prefix st) p" and ?d = "d\<lparr>dir_plan := tl (dir_plan d)\<rparr>"
  obtain frame where frame: "valid x" "encode_frame encode st x = Ok frame" "length frame \<le> usize_max"
    using x(1) by (auto simp: frame_ok_def)
  have d: "dir_calm d" "str_ok (fss_prefix st)" using inv by (auto simp: fss_inv_def)
  have absent: "entry d ?final = None" using generations_None [OF inv] new by simp
  have "dir_exists ?final d = (False, ?d)"
    using dir_exists_spec [of ?final d "fst (dir_exists ?final d)" "snd (dir_exists ?final d)"] d(1) absent
    by (metis prod.collapse)
  then have save: "fss_save encode st x d = write_generation st frame ?final ?d"
    by (simp add: fss_save_def x(2) frame(2))
  obtain d' where d': "write_generation st frame ?final ?d = (Ok (), d')" "dir_calm d'" "entry d' = (entry ?d)(?final \<mapsto> frame)"
    "dir_pid d' = dir_pid ?d"
    using write_generation_calm [of ?d ?final st frame] d inv temporary_not_final by (auto simp: fss_inv_def)
  have e: "entry d' = (entry d)(?final \<mapsto> frame)" using d'(3) by simp
  have "fss_inv encode valid st d'"
    unfolding fss_inv_def e using inv d'(2,4) x frame generation_of_final [OF d(2)] temporary_not_final [OF d(2)]
    by (auto simp: fss_inv_def)
  moreover have "generations decode st d' q = ((generations decode st d)(p \<mapsto> canon x)) q" for q
    unfolding generations_def e using decode_canon [OF frame(1) encode_frame_payload(1) [OF frame(2,3)]]
    by (simp add: final_name_inject)
  ultimately show ?thesis using save d'(1) by auto
qed

lemma fss_save_existing:
  assumes inv: "fss_inv encode valid st d" and x: "frame_ok encode valid st x" "snapshot_position x = Some p"
    and old: "generations decode st d p = Some y"
  shows "\<exists>d'. fss_save encode st x d = (if y = canon x then Ok () else Err snapshot_conflict, d') \<and>
    fss_inv encode valid st d' \<and> generations decode st d' = generations decode st d"
proof -
  let ?final = "final_name (fss_prefix st) p" and ?d = "d\<lparr>dir_plan := tl (dir_plan d)\<rparr>"
  let ?d2 = "?d\<lparr>dir_plan := tl (dir_plan ?d)\<rparr>"
  obtain frame where frame: "valid x" "encode_frame encode st x = Ok frame" "length frame \<le> usize_max"
    using x(1) by (auto simp: frame_ok_def)
  obtain existing where ex: "entry d ?final = Some existing" using generations_None [OF inv, of p] old by auto
  obtain z where z: "valid z" "encode_frame encode st z = Ok existing" "length existing \<le> usize_max"
    "generations decode st d p = Some (canon z)"
    by (rule generation_content [OF inv ex], rule that)
  then have y: "y = canon z" using old by simp
  have calm: "dir_calm d" using inv by (simp add: fss_inv_def)
  have "dir_exists ?final d = (True, ?d)"
    using dir_exists_spec [of ?final d "fst (dir_exists ?final d)" "snd (dir_exists ?final d)"] calm ex
    by (metis option.distinct(1) prod.collapse)
  then have save: "fss_save encode st x d = (if existing = frame then Ok () else Err snapshot_conflict, ?d2)"
    using dir_calm_tl [OF calm] ex
    by (simp add: fss_save_def x(2) frame(2) seq_op_def dir_op_eq dir_read_def dir_call_calm lift_op_def)
  have "existing = frame \<longleftrightarrow> y = canon x"
  proof
    assume "existing = frame"
    then have "decode (drop SNAPSHOT_HEADER_LEN frame) = Ok (canon z)"
      using decode_canon [OF z(1) encode_frame_payload(1) [OF z(2,3)]] by simp
    then show "y = canon x" using decode_canon [OF frame(1) encode_frame_payload(1) [OF frame(2,3)]] y by simp
  next
    assume "y = canon x"
    then have "encode z = encode x" using canon_encode [OF z(1) frame(1)] y by simp
    then show "existing = frame" using z(2) frame(2) by (simp add: encode_frame_def)
  qed
  moreover have "fss_inv encode valid st ?d2" using inv dir_calm_tl [OF dir_calm_tl [OF calm]] by (simp add: fss_inv_def)
  moreover have "generations decode st ?d2 = generations decode st d" by (simp add: generations_def [abs_def])
  ultimately show ?thesis using save by auto
qed

lemma fss_load_ok:
  assumes inv: "fss_inv encode valid st d"
  shows "\<exists>r. fst (fss_load_latest decode st d) = Ok r \<and> is_latest (generations decode st d) r"
proof -
  have calm: "dir_calm d" and pre: "str_ok (fss_prefix st)" using inv by (auto simp: fss_inv_def)
  obtain r d' where r: "latest_path st d = (Ok r, d')" "dir_calm d'" "dir_entries d' = dir_entries d"
    "latest_found (fss_prefix st) (dom (entry d)) None r"
    using latest_path_calm [OF calm, of st] by blast
  have above: "\<exists>p name. r = Some (p, name) \<and> q \<le> p" if "generations decode st d q \<noteq> None" for q
  proof -
    have "final_name (fss_prefix st) q \<in> dom (entry d)" using that by (auto simp: generations_def split: option.splits)
    then show ?thesis using r(4) generation_of_final [OF pre] unfolding latest_found_def by blast
  qed
  show ?thesis
  proof (cases r)
    case None
    then have "generations decode st d = Map.empty" using above by (intro ext) (metis option.distinct(1))
    then show ?thesis using None r(1) by (simp add: fss_load_latest_def seq_op_def lift_op_def is_latest_def)
  next
    case (Some pn)
    obtain p name where pn: "pn = (p, name)" by force
    then obtain frame where f: "entry d name = Some frame" "generation_of (fss_prefix st) name = Some p"
      using r(4) Some unfolding latest_found_def by auto
    then have name: "name = final_name (fss_prefix st) p" using inv by (auto simp: fss_inv_def)
    obtain x where x: "valid x" "snapshot_position x = Some p" "encode_frame encode st x = Ok frame" "length frame \<le> usize_max"
      "generations decode st d p = Some (canon x)"
      using generation_content [OF inv] f name by metis
    have "fst (frame_read st name d') = Ok (drop SNAPSHOT_HEADER_LEN frame)"
      using frame_read_calm [OF r(2), of name frame st] encode_frame_payload(2) [OF x(3,4)] f r(3) by simp
    then have "fst (read_path decode st name p d') = Ok (canon x)"
      using decode_canon [OF x(1) encode_frame_payload(1) [OF x(3,4)]] canon_position [OF x(1)] x(2)
      by (cases "frame_read st name d'") (simp add: read_path_def seq_op_def lift_op_def)
    then have "fst (fss_load_latest decode st d) = Ok (Some (canon x))"
      using r(1) Some pn by (cases "read_path decode st name p d'") (simp add: fss_load_latest_def seq_op_def lift_op_def)
    moreover have "is_latest (generations decode st d) (Some (canon x))"
      using x(5) above Some pn by (auto simp: is_latest_def intro!: exI [of _ p])
    ultimately show ?thesis by blast
  qed
qed

end

sublocale snapshot_codec \<subseteq> disk: snapshot_store "fss_save encode st" "\<lambda>d. fst (fss_load_latest decode st d)"
  "generations decode st" "fss_inv encode valid st" "frame_ok encode valid st" canon "\<lambda>y x. y = canon x" for st
proof
  show "\<And>x s. snapshot_position x = None \<Longrightarrow> fss_save encode st x s = (Err no_cursor_error, s)"
    by (simp add: fss_save_def)
qed (use fss_save_new fss_save_existing fss_load_ok in \<open>fastforce+\<close>)

end
