(* ===== verification/Compact_IO.thy ===== *)
theory Compact_IO
  imports Codec
begin

text \<open>
  The byte writer and reader of \<open>src/src/snapshot/compact/io.rs\<close>: variable-length integers,
  zigzag-encoded signed integers, tagged options and length-prefixed strings. A reader operation
  takes the reader and returns the value read and the advanced reader, or the error at which the
  decoder stops. The relation \<open>encodes\<close> between a writer and a reader is the round trip of one
  value in any context; the compact snapshot codec is assembled from it.
\<close>

section \<open>Writer\<close>

type_synonym writer = bytes
type_synonym write_op = "writer \<Rightarrow> writer memory_result"

function w_varint :: "u64 \<Rightarrow> writer \<Rightarrow> writer" where
  "w_varint value w =
    (if value \<ge> 0x80
     then w_varint (drop_bit 7 value) (w @ [(ucast value AND 0x7F) OR 0x80])
     else w @ [ucast value])"
  by auto
termination
proof (relation "measure (\<lambda>(v, w). unat v)")
  fix v :: u64 and w
  assume "v \<ge> 0x80"
  then have "0 < unat v" by (simp add: word_le_nat_alt)
  then show "((drop_bit 7 v, w @ [(ucast v AND 0x7F) OR 0x80]), v, w) \<in> measure (\<lambda>(v, w). unat v)"
    by (simp add: unat_drop_bit_eq drop_bit_eq_div [where 'a = nat])
qed simp

declare w_varint.simps [simp del]

definition wr_varint :: "u64 \<Rightarrow> write_op" where
  "wr_varint value w = Ok (w_varint value w)"

definition wr_usize :: "usize \<Rightarrow> write_op" where
  "wr_usize value w = and_then (ok_or (u64_try_from value) CapacityOverflow) (\<lambda>v. Ok (w_varint v w))"

definition zigzag :: "i64 \<Rightarrow> u64" where
  "zigzag value = push_bit 1 value XOR signed_drop_bit 63 value"

definition wr_signed :: "i64 \<Rightarrow> write_op" where
  "wr_signed value w = Ok (w_varint (zigzag value) w)"

definition wr_bool :: "bool \<Rightarrow> write_op" where
  "wr_bool value w = Ok (w @ [if value then 1 else 0])"

definition wr_optional :: "('a \<Rightarrow> write_op) \<Rightarrow> 'a option \<Rightarrow> write_op" where
  "wr_optional wr value w =
    and_then (wr_bool (value \<noteq> None) w) (\<lambda>w. case value of None \<Rightarrow> Ok w | Some v \<Rightarrow> wr v w)"

definition wr_optional_u64 :: "u64 option \<Rightarrow> write_op" where
  "wr_optional_u64 = wr_optional wr_varint"

definition wr_optional_signed :: "i64 option \<Rightarrow> write_op" where
  "wr_optional_signed = wr_optional wr_signed"

definition wr_string :: "string \<Rightarrow> write_op" where
  "wr_string value w = and_then (wr_usize (length value) w) (\<lambda>w. Ok (w @ as_bytes value))"

definition wr_optional_string :: "string option \<Rightarrow> write_op" where
  "wr_optional_string = wr_optional wr_string"

text \<open>Consecutive writes, stopping at the first error.\<close>

definition writes :: "write_op list \<Rightarrow> write_op" where
  "writes ws w = try_fold (\<lambda>w wr. wr w) w ws"

section \<open>Reader\<close>

record reader =
  rd_bytes :: bytes
  rd_position :: usize

type_synonym 'a read_op = "reader \<Rightarrow> ('a \<times> reader) memory_result"

definition codec_err :: "string \<Rightarrow> memory_error" where
  "codec_err message = CodecError message"

definition reader_new :: "bytes \<Rightarrow> bytes \<Rightarrow> reader memory_result" where
  "reader_new bs header =
    (if \<not> prefix header bs then Err (codec_err ''unsupported compact snapshot header'')
     else Ok \<lparr> rd_bytes = bs, rd_position = length header \<rparr>)"

definition reader_finish :: "reader \<Rightarrow> unit memory_result" where
  "reader_finish r =
    (if rd_position r = length (rd_bytes r) then Ok ()
     else Err (codec_err ''trailing bytes after compact snapshot''))"

definition read_bind :: "'a read_op \<Rightarrow> ('a \<Rightarrow> 'b read_op) \<Rightarrow> 'b read_op" where
  "read_bind m k r = and_then (m r) (\<lambda>(a, r'). k a r')"

definition read_lift :: "'a memory_result \<Rightarrow> 'a read_op" where
  "read_lift x r = map_ok (\<lambda>a. (a, r)) x"

definition rd_byte :: "u8 read_op" where
  "rd_byte r =
    (if rd_position r < length (rd_bytes r)
     then Ok (rd_bytes r ! rd_position r, r\<lparr>rd_position := rd_position r + 1\<rparr>)
     else Err (codec_err ''unexpected end of compact snapshot''))"

fun rd_varint_loop :: "nat list \<Rightarrow> u64 \<Rightarrow> u64 read_op" where
  "rd_varint_loop [] value = read_lift (Err (codec_err ''unterminated varint''))"
| "rd_varint_loop (shift # shifts) value =
    read_bind rd_byte (\<lambda>byte.
      if shift = 63 \<and> byte > 1 then read_lift (Err (codec_err ''varint overflows u64''))
      else let value = value OR push_bit shift (ucast (byte AND 0x7F)) in
        if byte AND 0x80 = 0 then read_lift (Ok value)
        else rd_varint_loop shifts value)"

definition rd_varint :: "u64 read_op" where
  "rd_varint = rd_varint_loop [0, 7, 14, 21, 28, 35, 42, 49, 56, 63] 0"

definition rd_usize :: "usize read_op" where
  "rd_usize =
    read_bind rd_varint (\<lambda>v. read_lift (ok_or (usize_try_from v) (codec_err ''length exceeds platform capacity'')))"

definition rd_remaining :: "reader \<Rightarrow> usize" where
  "rd_remaining r = length (rd_bytes r) - rd_position r"

definition rd_count :: "usize read_op" where
  "rd_count =
    read_bind rd_usize (\<lambda>count r.
      if count > rd_remaining r then Err (codec_err ''item count exceeds remaining snapshot bytes'')
      else Ok (count, r))"

definition unzigzag :: "u64 \<Rightarrow> i64" where
  "unzigzag value = drop_bit 1 value XOR - (value AND 1)"

definition rd_signed :: "i64 read_op" where
  "rd_signed = read_bind rd_varint (\<lambda>value. read_lift (Ok (unzigzag value)))"

definition rd_bool :: "bool read_op" where
  "rd_bool =
    read_bind rd_byte (\<lambda>b. read_lift
      (if b = 0 then Ok False else if b = 1 then Ok True else Err (codec_err ''invalid boolean tag'')))"

definition rd_optional :: "'a read_op \<Rightarrow> 'a option read_op" where
  "rd_optional rd =
    read_bind rd_bool (\<lambda>present.
      if present then read_bind rd (\<lambda>v. read_lift (Ok (Some v))) else read_lift (Ok None))"

definition rd_optional_u64 :: "u64 option read_op" where
  "rd_optional_u64 = rd_optional rd_varint"

definition rd_optional_signed :: "i64 option read_op" where
  "rd_optional_signed = rd_optional rd_signed"

definition rd_string :: "string read_op" where
  "rd_string =
    read_bind rd_usize (\<lambda>len r.
      and_then (ok_or (usize_checked_add (rd_position r) len) CapacityOverflow) (\<lambda>end.
      if end > length (rd_bytes r) then Err (codec_err ''string extends past snapshot'')
      else and_then (ok_or (from_utf8 (take len (drop (rd_position r) (rd_bytes r))))
          (codec_err ''snapshot string is not UTF-8'')) (\<lambda>s.
        Ok (s, r\<lparr>rd_position := end\<rparr>))))"

definition rd_optional_string :: "string option read_op" where
  "rd_optional_string = rd_optional rd_string"

text \<open>The loops \<open>for _ in 0..count\<close> that collect a vector and a map.\<close>

fun rd_repeat :: "nat \<Rightarrow> 'a read_op \<Rightarrow> 'a list read_op" where
  "rd_repeat 0 rd = read_lift (Ok [])"
| "rd_repeat (Suc n) rd = read_bind rd (\<lambda>x. read_bind (rd_repeat n rd) (\<lambda>xs. read_lift (Ok (x # xs))))"

fun rd_entries ::
  "nat \<Rightarrow> ('k::linorder \<times> 'v) read_op \<Rightarrow> string \<Rightarrow> ('k, 'v) btree_map \<Rightarrow> ('k, 'v) btree_map read_op" where
  "rd_entries 0 rd duplicate m = read_lift (Ok m)"
| "rd_entries (Suc n) rd duplicate m =
    read_bind rd (\<lambda>(k, v).
      case bt_put m k v of
        (_, Some _) \<Rightarrow> read_lift (Err (codec_err duplicate))
      | (m', None) \<Rightarrow> rd_entries n rd duplicate m')"

section \<open>Round trip in context\<close>

definition encodes :: "write_op \<Rightarrow> 'a read_op \<Rightarrow> 'a \<Rightarrow> bool" where
  "encodes wr rd v \<longleftrightarrow>
    (\<forall>w w'. wr w = Ok w' \<longrightarrow> (\<exists>bs. w' = w @ bs \<and>
      (\<forall>pre post. length (pre @ bs @ post) \<le> usize_max \<longrightarrow>
        rd \<lparr> rd_bytes = pre @ bs @ post, rd_position = length pre \<rparr> =
          Ok (v, \<lparr> rd_bytes = pre @ bs @ post, rd_position = length pre + length bs \<rparr>))))"

definition grows :: "write_op \<Rightarrow> bool" where
  "grows wr \<longleftrightarrow> (\<forall>w w'. wr w = Ok w' \<longrightarrow> length w < length w')"

lemma encodesI:
  assumes "\<And>w w'. wr w = Ok w' \<Longrightarrow> \<exists>bs. w' = w @ bs \<and>
      (\<forall>pre post. length (pre @ bs @ post) \<le> usize_max \<longrightarrow>
        rd \<lparr> rd_bytes = pre @ bs @ post, rd_position = length pre \<rparr> =
          Ok (v, \<lparr> rd_bytes = pre @ bs @ post, rd_position = length pre + length bs \<rparr>))"
  shows "encodes wr rd v"
  using assms by (auto simp: encodes_def)

lemma encodesE:
  assumes "encodes wr rd v" "wr w = Ok w'"
  obtains bs where "w' = w @ bs"
    "\<And>pre post. length (pre @ bs @ post) \<le> usize_max \<Longrightarrow>
       rd \<lparr> rd_bytes = pre @ bs @ post, rd_position = length pre \<rparr> =
         Ok (v, \<lparr> rd_bytes = pre @ bs @ post, rd_position = length pre + length bs \<rparr>)"
  using assms by (auto simp: encodes_def)

lemma writes_Nil: "writes [] = Ok"
  by (rule ext) (simp add: writes_def)

lemma writes_Cons: "writes (wr # ws) = (\<lambda>w. and_then (wr w) (writes ws))"
  by (rule ext) (simp add: writes_def [abs_def])

lemma read_bind_lift [simp]: "read_bind (read_lift (Ok a)) k = k a"
  by (auto simp: read_bind_def read_lift_def)

lemma encodes_seq:
  assumes "encodes wr rd a" "encodes wr2 (k a) v"
  shows "encodes (\<lambda>w. and_then (wr w) wr2) (read_bind rd k) v"
proof (rule encodesI)
  fix w w'
  assume "and_then (wr w) wr2 = Ok w'"
  then obtain w1 where w1: "wr w = Ok w1" "wr2 w1 = Ok w'" by (auto simp: result_simps)
  obtain b1 where b1: "w1 = w @ b1" "\<And>pre post. length (pre @ b1 @ post) \<le> usize_max \<Longrightarrow>
       rd \<lparr> rd_bytes = pre @ b1 @ post, rd_position = length pre \<rparr> =
         Ok (a, \<lparr> rd_bytes = pre @ b1 @ post, rd_position = length pre + length b1 \<rparr>)"
    using encodesE [OF assms(1) w1(1)] by blast
  obtain b2 where b2: "w' = w1 @ b2" "\<And>pre post. length (pre @ b2 @ post) \<le> usize_max \<Longrightarrow>
       k a \<lparr> rd_bytes = pre @ b2 @ post, rd_position = length pre \<rparr> =
         Ok (v, \<lparr> rd_bytes = pre @ b2 @ post, rd_position = length pre + length b2 \<rparr>)"
    using encodesE [OF assms(2) w1(2)] by blast
  show "\<exists>bs. w' = w @ bs \<and> (\<forall>pre post. length (pre @ bs @ post) \<le> usize_max \<longrightarrow>
      read_bind rd k \<lparr> rd_bytes = pre @ bs @ post, rd_position = length pre \<rparr> =
        Ok (v, \<lparr> rd_bytes = pre @ bs @ post, rd_position = length pre + length bs \<rparr>))"
    using b1(1) b2(1) b1(2) [of _ "b2 @ _"] b2(2) [of "_ @ b1"]
    by (intro exI [of _ "b1 @ b2"]) (auto simp: read_bind_def add.assoc)
qed

lemma encodes_Cons:
  "encodes wr rd a \<Longrightarrow> encodes (writes ws) (k a) v \<Longrightarrow> encodes (writes (wr # ws)) (read_bind rd k) v"
  unfolding writes_Cons by (rule encodes_seq)

lemma encodes_Nil: "encodes (writes []) (read_lift (Ok v)) v"
  by (auto simp: encodes_def read_lift_def writes_Nil)

lemma encodes_lift: "r = Ok a \<Longrightarrow> encodes wr (k a) v \<Longrightarrow> encodes wr (read_bind (read_lift r) k) v"
  by simp

lemma encodes_mono: "encodes wr rd v \<Longrightarrow> wr w = Ok w' \<Longrightarrow> length w \<le> length w'"
  by (elim encodesE) auto

section \<open>Variable-length integers\<close>

lemma bit_7F: "bit (0x7F :: int) n \<longleftrightarrow> n < 7"
proof -
  have "(0x7F :: int) = mask 7" by (simp add: mask_eq_exp_minus_1)
  then show ?thesis by (simp only: bit_mask_iff) simp
qed

lemma bit_80: "bit (0x80 :: int) n \<longleftrightarrow> n = 7"
proof -
  have "(0x80 :: int) = 2 ^ 7" by simp
  then show ?thesis by (simp only: bit_exp_iff) auto
qed

lemmas varint_bits = bit_7F bit_80 bit_simps

lemma varint_split:
  "push_bit s (v :: u64) = push_bit s (v AND 0x7F) OR push_bit (s + 7) (drop_bit 7 v)"
proof -
  have "v = (v AND 0x7F) OR push_bit 7 (drop_bit 7 v)"
    by (rule bit_word_eqI) (auto simp: varint_bits le_add_diff_inverse not_less intro: ccontr)
  then show ?thesis
    by (metis add.commute push_bit_or push_bit_push_bit)
qed

lemma varint_more:
  fixes v :: u64
  shows "ucast (((ucast v AND 0x7F) OR 0x80 :: u8) AND 0x7F) = v AND 0x7F"
    and "((ucast v AND 0x7F) OR 0x80 :: u8) AND 0x80 \<noteq> 0"
proof -
  show "ucast (((ucast v AND 0x7F) OR 0x80 :: u8) AND 0x7F) = v AND 0x7F"
    by (rule bit_word_eqI) (auto simp: varint_bits)
  have "bit (((ucast v AND 0x7F) OR 0x80 :: u8) AND 0x80) 7"
    by (simp add: varint_bits)
  then show "((ucast v AND 0x7F) OR 0x80 :: u8) AND 0x80 \<noteq> 0" by (metis bit_0_eq bot_apply bot_bool_def)
qed

lemma varint_last:
  fixes v :: u64
  assumes "v < 0x80"
  shows "ucast ((ucast v :: u8) AND 0x7F) = v" and "(ucast v :: u8) AND 0x80 = 0" and "unat (ucast v :: u8) = unat v"
proof -
  have "unat v < 2 ^ 7" using assms by (simp add: word_less_nat_alt)
  then have v: "take_bit 7 v = v"
    by (intro word_unat_eq_iff [THEN iffD2]) (simp add: unsigned_take_bit_eq take_bit_nat_eq_self)
  then have b: "bit v n \<Longrightarrow> n < 7" for n by (metis bit_take_bit_iff)
  show "ucast ((ucast v :: u8) AND 0x7F) = v"
    by (rule bit_word_eqI) (auto simp: varint_bits dest: b)
  show "(ucast v :: u8) AND 0x80 = 0"
    by (rule bit_word_eqI) (auto simp: varint_bits dest: b)
  show "unat (ucast v :: u8) = unat v"
    using assms by (simp add: word_less_nat_alt unsigned_ucast_eq take_bit_nat_eq_self)
qed

definition varint_bytes :: "u64 \<Rightarrow> bytes" where
  "varint_bytes v = w_varint v []"

lemma w_varint_append: "w_varint v w = w @ varint_bytes v"
proof -
  have "w_varint v (w @ w2) = w @ w_varint v w2" for w2
    by (induction v w2 rule: w_varint.induct) (subst (1 2) w_varint.simps, simp)
  from this [of "[]"] show ?thesis by (simp add: varint_bytes_def)
qed

lemma varint_bytes_unfold:
  "varint_bytes v = (if v \<ge> 0x80 then ((ucast v AND 0x7F) OR 0x80) # varint_bytes (drop_bit 7 v) else [ucast v])"
  using w_varint.simps [of v "[]"] w_varint_append [of "drop_bit 7 v" "[(ucast v AND 0x7F) OR 0x80]"]
  by (simp add: varint_bytes_def [of v])

lemma varint_bytes_nonempty [simp]: "varint_bytes v \<noteq> []"
  by (subst varint_bytes_unfold) simp

definition shifts_from :: "nat \<Rightarrow> nat list" where
  "shifts_from k = map (\<lambda>i. 7 * i) [k..<10]"

lemma shifts_from_Cons: "k < 10 \<Longrightarrow> shifts_from k = 7 * k # shifts_from (Suc k)"
  by (simp add: shifts_from_def upt_conv_Cons [of k])

lemma rd_byte_at [simp]:
  "rd_byte \<lparr> rd_bytes = pre @ b # post, rd_position = length pre \<rparr> =
    Ok (b, \<lparr> rd_bytes = pre @ b # post, rd_position = length pre + 1 \<rparr>)"
  by (simp add: rd_byte_def)

lemma rd_varint_loop_correct:
  assumes "k < 10" "unat v < 2 ^ (64 - 7 * k)"
  shows "rd_varint_loop (shifts_from k) acc \<lparr> rd_bytes = pre @ varint_bytes v @ post, rd_position = length pre \<rparr> =
    Ok (acc OR push_bit (7 * k) v,
      \<lparr> rd_bytes = pre @ varint_bytes v @ post, rd_position = length pre + length (varint_bytes v) \<rparr>)"
  using assms
proof (induction "10 - k" arbitrary: k v acc pre)
  case (Suc n)
  show ?case
  proof (cases "v \<ge> 0x80")
    case True
    have k: "Suc k < 10"
    proof (rule ccontr)
      assume "\<not> Suc k < 10"
      then have "k = 9" using Suc.prems by simp
      then show False using Suc.prems True by (simp add: word_le_nat_alt)
    qed
    let ?b = "(ucast v AND 0x7F) OR 0x80 :: u8" and ?v = "drop_bit 7 v"
    have bs: "varint_bytes v = ?b # varint_bytes ?v" using True by (simp add: varint_bytes_unfold [of v])
    have "64 - 7 * k = 7 + (64 - 7 * Suc k)" using k by simp
    then have "unat v < 2 ^ (64 - 7 * Suc k) * 2 ^ 7"
      using Suc.prems(2) by (metis mult.commute power_add)
    then have "unat ?v < 2 ^ (64 - 7 * Suc k)"
      by (simp add: unat_drop_bit_eq drop_bit_eq_div [where 'a = nat] less_mult_imp_div_less)
    moreover have "n = 10 - Suc k" using Suc.hyps(2) by simp
    ultimately have "rd_varint_loop (shifts_from (Suc k)) (acc OR push_bit (7 * k) (v AND 0x7F))
        \<lparr> rd_bytes = (pre @ [?b]) @ varint_bytes ?v @ post, rd_position = length (pre @ [?b]) \<rparr> =
      Ok ((acc OR push_bit (7 * k) (v AND 0x7F)) OR push_bit (7 * Suc k) ?v,
        \<lparr> rd_bytes = (pre @ [?b]) @ varint_bytes ?v @ post, rd_position = length (pre @ [?b]) + length (varint_bytes ?v) \<rparr>)"
      using k by (intro Suc.hyps(1)) auto
    moreover have "(acc OR push_bit (7 * k) (v AND 0x7F)) OR push_bit (7 * Suc k) ?v = acc OR push_bit (7 * k) v"
      unfolding varint_split [of "7 * k" v] by (simp add: or.assoc add.commute)
    ultimately have rest: "rd_varint_loop (shifts_from (Suc k)) (acc OR push_bit (7 * k) (v AND 0x7F))
        \<lparr> rd_bytes = pre @ ?b # varint_bytes ?v @ post, rd_position = length pre + 1 \<rparr> =
      Ok (acc OR push_bit (7 * k) v,
        \<lparr> rd_bytes = pre @ ?b # varint_bytes ?v @ post, rd_position = length pre + 1 + length (varint_bytes ?v) \<rparr>)"
      by simp
    have "rd_varint_loop (7 * k # shifts_from (Suc k)) acc
        \<lparr> rd_bytes = pre @ ?b # varint_bytes ?v @ post, rd_position = length pre \<rparr> =
      rd_varint_loop (shifts_from (Suc k)) (acc OR push_bit (7 * k) (v AND 0x7F))
        \<lparr> rd_bytes = pre @ ?b # varint_bytes ?v @ post, rd_position = length pre + 1 \<rparr>"
      using k by (simp only: rd_varint_loop.simps read_bind_def rd_byte_at and_then.simps case_prod_conv Let_def
          varint_more) simp
    with rest show ?thesis
      using k by (simp add: shifts_from_Cons [of k] bs del: rd_varint_loop.simps)
  next
    case False
    then have v: "v < 0x80" by simp
    have bs: "varint_bytes v = [ucast v]" using False by (simp add: varint_bytes_unfold [of v])
    have "\<not> (7 * k = 63 \<and> (ucast v :: u8) > 1)"
      using Suc.prems varint_last(3) [OF v] by (auto simp: word_less_nat_alt)
    then show ?thesis
      using Suc.prems varint_last [OF v] by (simp add: shifts_from_Cons [of k] bs read_bind_def read_lift_def Let_def)
  qed
qed simp

lemma rd_varint_bytes:
  "rd_varint \<lparr> rd_bytes = pre @ varint_bytes v @ post, rd_position = length pre \<rparr> =
    Ok (v, \<lparr> rd_bytes = pre @ varint_bytes v @ post, rd_position = length pre + length (varint_bytes v) \<rparr>)"
proof -
  have "rd_varint = rd_varint_loop (shifts_from 0) 0"
    by (simp add: rd_varint_def shifts_from_def upt_rec)
  moreover have "unat v < 2 ^ (64 - 7 * 0)" using unsigned_less [of v, where 'a = nat] by simp
  ultimately show ?thesis using rd_varint_loop_correct [of 0 v 0 pre post] by simp
qed

section \<open>The operations encode what they read\<close>

lemma encodes_varint: "encodes (wr_varint v) rd_varint v"
  by (auto simp: encodes_def wr_varint_def w_varint_append rd_varint_bytes)

lemma encodes_usize: "encodes (wr_usize n) rd_usize n"
  by (auto simp: encodes_def wr_usize_def w_varint_append rd_varint_bytes rd_usize_def read_bind_def read_lift_def
      result_simps u64_try_from_Some)

lemma bit_zigzag: "bit (zigzag v) n \<longleftrightarrow> n < 64 \<and> ((0 < n \<and> bit v (n - 1)) \<noteq> bit v 63)"
  unfolding zigzag_def bit_xor_iff bit_push_bit_iff bit_signed_drop_bit_iff
  by (cases n) (auto simp: bit_simps dest: bit_imp_le_length)

lemma zigzag_inverse [simp]: "unzigzag (zigzag v) = v"
proof -
  let ?u = "zigzag v"
  have "?u AND 1 = (if bit v 63 then 1 else 0)"
    using bit_zigzag [of v 0] by (auto simp: and_one_eq mod2_eq_if bit_0)
  then have "- (?u AND 1) = (if bit v 63 then - 1 else 0)"
    by (metis neg_0_equal_iff_equal)
  then have neg: "bit (- (?u AND 1)) n \<longleftrightarrow> n < 64 \<and> bit v 63" for n
    by (simp add: bit_minus_1_iff)
  have "bit (unzigzag ?u) n = bit v n" if "n < 64" for n
  proof -
    have "bit (unzigzag ?u) n \<longleftrightarrow> bit ?u (Suc n) \<noteq> bit v 63"
      unfolding unzigzag_def bit_xor_iff bit_drop_bit_eq neg using that by simp
    also have "\<dots> \<longleftrightarrow> bit v n"
      unfolding bit_zigzag using that by (cases "n = 63") auto
    finally show ?thesis .
  qed
  then show ?thesis by (intro bit_word_eqI) simp
qed

lemma encodes_signed: "encodes (wr_signed v) rd_signed v"
  by (auto simp: encodes_def wr_signed_def w_varint_append rd_varint_bytes rd_signed_def read_bind_def read_lift_def)

lemma encodes_bool: "encodes (wr_bool b) rd_bool b"
  by (auto simp: encodes_def wr_bool_def rd_bool_def read_bind_def read_lift_def)

lemma encodes_optional:
  assumes "\<And>x. v = Some x \<Longrightarrow> encodes (wr x) rd x"
  shows "encodes (wr_optional wr v) (rd_optional rd) v"
proof (cases v)
  case None
  have "encodes (writes [wr_bool False]) (rd_optional rd) None"
    unfolding rd_optional_def by (rule encodes_Cons [OF encodes_bool]) (simp add: encodes_Nil)
  then show ?thesis by (simp add: None wr_optional_def [abs_def] writes_Cons writes_Nil)
next
  case (Some x)
  have "encodes (writes [wr_bool True, wr x]) (rd_optional rd) (Some x)"
    unfolding rd_optional_def
    by (rule encodes_Cons [OF encodes_bool]) (simp add: encodes_Cons [OF assms [OF Some] encodes_Nil])
  then show ?thesis by (simp add: Some wr_optional_def [abs_def] writes_Cons writes_Nil)
qed

lemma encodes_optional_u64: "encodes (wr_optional_u64 v) rd_optional_u64 v"
  unfolding wr_optional_u64_def rd_optional_u64_def by (rule encodes_optional [OF encodes_varint])

lemma encodes_optional_signed: "encodes (wr_optional_signed v) rd_optional_signed v"
  unfolding wr_optional_signed_def rd_optional_signed_def by (rule encodes_optional [OF encodes_signed])

lemma encodes_string:
  assumes "str_ok s"
  shows "encodes (wr_string s) rd_string s"
  unfolding rd_string_def wr_string_def [abs_def]
proof (rule encodes_seq [OF encodes_usize], rule encodesI)
  fix w w'
  assume "Ok (w @ as_bytes s) = Ok w'"
  then show "\<exists>bs. w' = w @ bs \<and> (\<forall>pre post. length (pre @ bs @ post) \<le> usize_max \<longrightarrow>
      and_then (ok_or (usize_checked_add (rd_position \<lparr>rd_bytes = pre @ bs @ post, rd_position = length pre\<rparr>) (length s))
         CapacityOverflow)
       (\<lambda>end. if end > length (rd_bytes \<lparr>rd_bytes = pre @ bs @ post, rd_position = length pre\<rparr>)
          then Err (codec_err ''string extends past snapshot'')
          else and_then (ok_or (from_utf8 (take (length s) (drop
                (rd_position \<lparr>rd_bytes = pre @ bs @ post, rd_position = length pre\<rparr>)
                (rd_bytes \<lparr>rd_bytes = pre @ bs @ post, rd_position = length pre\<rparr>))))
              (codec_err ''snapshot string is not UTF-8''))
            (\<lambda>s. Ok (s, \<lparr>rd_bytes = pre @ bs @ post, rd_position = length pre\<rparr>\<lparr>rd_position := end\<rparr>))) =
      Ok (s, \<lparr>rd_bytes = pre @ bs @ post, rd_position = length pre + length bs\<rparr>))"
    using assms by (intro exI [of _ "as_bytes s"]) (auto simp: usize_checked_add_def)
qed

lemma encodes_optional_string:
  "(\<And>s. v = Some s \<Longrightarrow> str_ok s) \<Longrightarrow> encodes (wr_optional_string v) rd_optional_string v"
  unfolding wr_optional_string_def rd_optional_string_def by (rule encodes_optional [OF encodes_string])

lemmas encodes_ops = encodes_varint encodes_signed encodes_bool encodes_optional_u64
  encodes_optional_signed encodes_string encodes_optional_string

section \<open>Loops and counts\<close>

lemma encodes_repeat:
  "(\<And>x. x \<in> set xs \<Longrightarrow> encodes (wr x) rd x) \<Longrightarrow> encodes (writes (map wr xs)) (rd_repeat (length xs) rd) xs"
proof (induction xs)
  case (Cons x xs)
  then have "encodes (\<lambda>w. and_then (writes (map wr xs) w) (writes []))
      (read_bind (rd_repeat (length xs) rd) (\<lambda>xs. read_lift (Ok (x # xs)))) (x # xs)"
    by (intro encodes_seq [where a = xs] encodes_Nil) auto
  then have "encodes (writes (map wr xs)) (read_bind (rd_repeat (length xs) rd) (\<lambda>xs. read_lift (Ok (x # xs)))) (x # xs)"
    by (simp add: writes_Nil)
  then show ?case using Cons.prems by (auto intro: encodes_Cons)
qed (simp add: encodes_Nil)

lemma encodes_entries:
  assumes "\<And>k v. (k, v) \<in> set xs \<Longrightarrow> encodes (wr (k, v)) rd (k, v)" "bt_ok (m @ xs)"
  shows "encodes (writes (map wr xs)) (rd_entries (length xs) rd duplicate m) (m @ xs)"
  using assms
proof (induction xs arbitrary: m)
  case (Cons x xs)
  obtain k v where x: "x = (k, v)" by force
  have ok: "bt_ok ((m @ [(k, v)]) @ xs)" using Cons.prems(2) by (simp add: x)
  then have "bt_ok (m @ [(k, v)])" by (rule bt_ok_append_left)
  then have put: "bt_put m k v = (m @ [(k, v)], None)"
    by (simp add: bt_put_def bt_insert_last bt_get_fresh)
  have "encodes (writes (map wr xs)) (rd_entries (length xs) rd duplicate (m @ [(k, v)])) ((m @ [(k, v)]) @ xs)"
    using Cons.prems(1) ok by (intro Cons.IH) auto
  then show ?case
    using Cons.prems(1) by (auto simp: x put intro!: encodes_Cons)
qed (simp add: encodes_Nil)

definition extends :: "write_op \<Rightarrow> bool" where
  "extends wr \<longleftrightarrow> (\<forall>w w'. wr w = Ok w' \<longrightarrow> length w \<le> length w')"

lemma grows_extends: "grows wr \<Longrightarrow> extends wr"
  by (auto simp: grows_def extends_def intro: less_imp_le)

lemma extends_writes: "list_all extends ws \<Longrightarrow> extends (writes ws)"
proof (induction ws)
  case (Cons wr ws)
  then show ?case
    by (auto simp: extends_def writes_Cons result_simps) (meson le_trans)
qed (simp add: extends_def writes_Nil)

lemma grows_writes: "grows wr \<Longrightarrow> list_all extends ws \<Longrightarrow> grows (writes (wr # ws))"
  using extends_writes [of ws]
  by (auto simp: grows_def extends_def writes_Cons result_simps) (meson less_le_trans)

lemma extends_map: "(\<And>x. x \<in> set xs \<Longrightarrow> extends (wr x)) \<Longrightarrow> extends (writes (map wr xs))"
  by (rule extends_writes) (simp add: list_all_iff)

lemma grows_string: "grows (wr_string s)"
  by (auto simp: grows_def wr_string_def wr_usize_def w_varint_append result_simps)

lemma grows_usize: "grows (wr_usize n)"
  by (auto simp: grows_def wr_usize_def w_varint_append result_simps)

lemma extends_ops:
  "extends (wr_string s)" "extends (wr_usize n)" "extends (wr_varint v)" "extends (wr_signed i)" "extends (wr_bool b)"
  "extends (wr_optional_u64 vo)" "extends (wr_optional_signed io)" "extends (wr_optional_string so)"
proof -
  show ext: "extends (wr_string s)" for s by (rule grows_extends [OF grows_string])
  show "extends (wr_usize n)" by (rule grows_extends [OF grows_usize])
  show "extends (wr_optional_string so)"
    using ext by (cases so) (fastforce simp: extends_def wr_optional_string_def wr_optional_def wr_bool_def)+
qed (auto simp: extends_def intro: encodes_mono encodes_varint encodes_signed encodes_bool encodes_optional_u64
      encodes_optional_signed)

text \<open>A write that does not fail, which for strings and counts needs a length that fits \<open>u64\<close>.\<close>

definition succeeds :: "write_op \<Rightarrow> bool" where
  "succeeds wr \<longleftrightarrow> (\<forall>w. \<exists>w'. wr w = Ok w')"

lemma succeeds_writes: "list_all succeeds ws \<Longrightarrow> succeeds (writes ws)"
proof (induction ws)
  case (Cons wr ws)
  then show ?case by (auto simp: succeeds_def writes_Cons) (metis and_then.simps(1))
qed (simp add: succeeds_def writes_Nil)

lemma succeeds_map: "(\<And>x. x \<in> set xs \<Longrightarrow> succeeds (wr x)) \<Longrightarrow> succeeds (writes (map wr xs))"
  by (rule succeeds_writes) (simp add: list_all_iff)

lemma u64_try_from_usize: "n \<le> usize_max \<Longrightarrow> u64_try_from n = Some (of_nat n)"
  by (simp add: u64_try_from_def usize_max_def)

lemma succeeds_optional: "(\<And>x. v = Some x \<Longrightarrow> succeeds (wr x)) \<Longrightarrow> succeeds (wr_optional wr v)"
  by (cases v) (auto simp: succeeds_def wr_optional_def wr_bool_def)

lemma succeeds_ops:
  "length s \<le> usize_max \<Longrightarrow> succeeds (wr_string s)" "n \<le> usize_max \<Longrightarrow> succeeds (wr_usize n)"
  "succeeds (wr_varint v)" "succeeds (wr_signed i)" "succeeds (wr_bool b)"
  by (simp_all add: succeeds_def wr_string_def wr_usize_def wr_varint_def wr_signed_def wr_bool_def u64_try_from_usize)

lemma succeeds_optional_ops:
  "succeeds (wr_optional_u64 vo)" "succeeds (wr_optional_signed io)"
  "(\<And>s. so = Some s \<Longrightarrow> length s \<le> usize_max) \<Longrightarrow> succeeds (wr_optional_string so)"
  unfolding wr_optional_u64_def wr_optional_signed_def wr_optional_string_def
  by (auto intro!: succeeds_optional succeeds_ops)

lemma writes_map_length:
  assumes "\<And>x. x \<in> set xs \<Longrightarrow> grows (wr x)" "writes (map wr xs) w = Ok w'"
  shows "length w + length xs \<le> length w'"
  using assms
proof (induction xs arbitrary: w)
  case (Cons x xs)
  then obtain w1 where "wr x w = Ok w1" "writes (map wr xs) w1 = Ok w'"
    by (auto simp: writes_Cons result_simps)
  then have "length w < length w1" "length w1 + length xs \<le> length w'"
    using Cons by (auto simp: grows_def)
  then show ?case by simp
qed (simp add: writes_Nil)

text \<open>A count is accepted because every counted item occupies at least one byte.\<close>

lemma encodes_count:
  assumes "encodes (writes (writes (map wr xs) # ws)) (k (length xs)) v" "\<And>x. x \<in> set xs \<Longrightarrow> grows (wr x)"
    and ws: "encodes (writes ws) rd' v'"
  shows "encodes (writes (wr_usize (length xs) # writes (map wr xs) # ws)) (read_bind rd_count k) v"
proof -
  have "read_bind rd_count k = read_bind rd_usize (\<lambda>count r.
      and_then (if count > rd_remaining r then Err (codec_err ''item count exceeds remaining snapshot bytes'') else Ok (count, r))
        (\<lambda>(a, r). k a r))"
    by (rule ext) (auto simp: rd_count_def read_bind_def and_then_assoc intro!: and_then_cong)
  moreover have "encodes (writes (writes (map wr xs) # ws)) (\<lambda>r.
      and_then (if length xs > rd_remaining r then Err (codec_err ''item count exceeds remaining snapshot bytes'') else Ok (length xs, r))
        (\<lambda>(a, r). k a r)) v"
  proof (rule encodesI)
    fix w w'
    assume wr: "writes (writes (map wr xs) # ws) w = Ok w'"
    then obtain w1 where "writes (map wr xs) w = Ok w1" "writes ws w1 = Ok w'"
      by (auto simp: writes_Cons result_simps)
    then have len: "length w + length xs \<le> length w'"
      using writes_map_length [of xs wr w w1] assms(2) encodes_mono [OF ws, of w1 w'] by force
    obtain bs where bs: "w' = w @ bs" "\<And>pre post. length (pre @ bs @ post) \<le> usize_max \<Longrightarrow>
       k (length xs) \<lparr> rd_bytes = pre @ bs @ post, rd_position = length pre \<rparr> =
         Ok (v, \<lparr> rd_bytes = pre @ bs @ post, rd_position = length pre + length bs \<rparr>)"
      using encodesE [OF assms(1) wr] by blast
    with len show "\<exists>bs. w' = w @ bs \<and> (\<forall>pre post. length (pre @ bs @ post) \<le> usize_max \<longrightarrow>
        and_then (if length xs > rd_remaining \<lparr> rd_bytes = pre @ bs @ post, rd_position = length pre \<rparr>
            then Err (codec_err ''item count exceeds remaining snapshot bytes'')
            else Ok (length xs, \<lparr> rd_bytes = pre @ bs @ post, rd_position = length pre \<rparr>)) (\<lambda>(a, r). k a r) =
          Ok (v, \<lparr> rd_bytes = pre @ bs @ post, rd_position = length pre + length bs \<rparr>))"
      by (intro exI [of _ bs]) (auto simp: rd_remaining_def)
  qed
  ultimately show ?thesis by (simp add: encodes_Cons [OF encodes_usize])
qed

end
