(* ===== verification/Id_Index.thy ===== *)
theory Id_Index
  imports Memory_Types
begin

text \<open>
  The hashed identifier index of \<open>src/src/projection/memory/index.rs\<close>: one slot per 64-bit
  fingerprint and a list of collisions behind it. Whatever the seed and whatever the fingerprints,
  colliding ones included, it behaves as a map from identifiers to positions.
\<close>

section \<open>Fingerprint\<close>

definition word_of_chunk :: "bytes \<Rightarrow> u64" where
  "word_of_chunk chunk = from_le_bytes (chunk @ replicate (8 - length chunk) 0)"

function chunks8 :: "bytes \<Rightarrow> bytes list" where
  "chunks8 bs = (if bs = [] then [] else take 8 bs # chunks8 (drop 8 bs))"
  by pat_completeness auto
termination by (relation "measure length") (auto simp: length_greater_0_conv [symmetric] simp del: length_greater_0_conv)

declare chunks8.simps [simp del]

definition fingerprint_step :: "u64 \<Rightarrow> bytes \<Rightarrow> u64" where
  "fingerprint_step hash chunk =
    (let hash = hash XOR (word_of_chunk chunk * 0xe7037ed1a0b428db)
     in word_rotl 23 hash * 0x8ebc6af09c88c6e3)"

definition fingerprint :: "u64 \<Rightarrow> bytes \<Rightarrow> u64" where
  "fingerprint seed bs =
    (let hash = foldl fingerprint_step (seed XOR 0xa0761d6478bd642f) (chunks8 bs);
         hash = hash XOR of_nat (length bs);
         hash = hash XOR drop_bit 29 hash;
         hash = hash * 0x165667919e3779f9
     in hash XOR drop_bit 32 hash)"

section \<open>The index\<close>

record 'k id_index =
  ix_seed :: u64
  ix_entries :: "u64 \<rightharpoonup> 'k text_id \<times> usize"
  ix_collisions :: "u64 \<rightharpoonup> ('k text_id \<times> usize) list"

definition ix_new :: "u64 \<Rightarrow> 'k id_index" where
  "ix_new seed = \<lparr> ix_seed = seed, ix_entries = Map.empty, ix_collisions = Map.empty \<rparr>"

definition ix_hash :: "'k id_index \<Rightarrow> 'k text_id \<Rightarrow> u64" where
  "ix_hash ix i = fingerprint (ix_seed ix) (as_bytes (as_str i))"

definition ix_get_hashed :: "'k id_index \<Rightarrow> 'k text_id \<Rightarrow> u64 \<Rightarrow> usize option" where
  "ix_get_hashed ix i hash =
    (case Option.bind (ix_entries ix hash) (\<lambda>(candidate, index). if candidate = i then Some index else None) of
       Some index \<Rightarrow> Some index
     | None \<Rightarrow> Option.bind (ix_collisions ix hash) (\<lambda>bucket. map_option snd (find (\<lambda>(candidate, _). candidate = i) bucket)))"

definition ix_get :: "'k id_index \<Rightarrow> 'k text_id \<Rightarrow> usize option" where
  "ix_get ix i = ix_get_hashed ix i (ix_hash ix i)"

definition ix_contains_key :: "'k id_index \<Rightarrow> 'k text_id \<Rightarrow> bool" where
  "ix_contains_key ix i = (ix_get ix i \<noteq> None)"

fun replace_first :: "'k text_id \<Rightarrow> usize \<Rightarrow> ('k text_id \<times> usize) list \<Rightarrow> ('k text_id \<times> usize) list" where
  "replace_first i index [] = []"
| "replace_first i index ((candidate, prior) # bucket) =
    (if candidate = i then (candidate, index) # bucket else (candidate, prior) # replace_first i index bucket)"

definition ix_insert_hashed :: "'k id_index \<Rightarrow> 'k text_id \<Rightarrow> usize \<Rightarrow> u64 \<Rightarrow> 'k id_index \<times> usize option" where
  "ix_insert_hashed ix i index hash =
    (let bucket = (case ix_collisions ix hash of None \<Rightarrow> [] | Some b \<Rightarrow> b);
         found = find (\<lambda>(candidate, _). candidate = i) bucket
     in case ix_entries ix hash of
       Some (candidate, prior) \<Rightarrow>
         (if candidate = i then (ix\<lparr>ix_entries := (ix_entries ix)(hash \<mapsto> (candidate, index))\<rparr>, Some prior)
          else case found of
            Some (_, prior) \<Rightarrow>
              (ix\<lparr>ix_collisions := (ix_collisions ix)(hash \<mapsto> replace_first i index bucket)\<rparr>, Some prior)
          | None \<Rightarrow> (ix\<lparr>ix_collisions := (ix_collisions ix)(hash \<mapsto> bucket @ [(i, index)])\<rparr>, None))
     | None \<Rightarrow>
         (case found of
            Some (_, prior) \<Rightarrow>
              (ix\<lparr>ix_collisions := (ix_collisions ix)(hash \<mapsto> replace_first i index bucket)\<rparr>, Some prior)
          | None \<Rightarrow> (ix\<lparr>ix_entries := (ix_entries ix)(hash \<mapsto> (i, index))\<rparr>, None)))"

definition ix_insert :: "'k id_index \<Rightarrow> 'k text_id \<Rightarrow> usize \<Rightarrow> 'k id_index \<times> usize option" where
  "ix_insert ix i index = ix_insert_hashed ix i index (ix_hash ix i)"

section \<open>The index is a map\<close>

lemma find_replace_first:
  "find (\<lambda>(c, _). c = j) (replace_first i index b) =
    (if j = i then map_option (\<lambda>(c, _). (c, index)) (find (\<lambda>(c, _). c = i) b) else find (\<lambda>(c, _). c = j) b)"
  by (induction i index b rule: replace_first.induct) auto

lemma find_snoc: "find P (xs @ [x]) = (case find P xs of Some y \<Rightarrow> Some y | None \<Rightarrow> if P x then Some x else None)"
  by (induction xs) auto

lemma ix_insert_seed [simp]: "ix_seed (fst (ix_insert_hashed ix i index hash)) = ix_seed ix"
  by (auto simp: ix_insert_hashed_def Let_def split: option.splits prod.splits)

lemma ix_insert_hash [simp]: "ix_hash (fst (ix_insert_hashed ix i index hash)) = ix_hash ix"
  by (simp add: ix_hash_def fun_eq_iff)

lemma ix_get_hashed_insert:
  "ix_get_hashed (fst (ix_insert_hashed ix i index h)) j h' =
    (if h' = h \<and> j = i then Some index else ix_get_hashed ix j h')"
  by (auto simp: ix_get_hashed_def ix_insert_hashed_def Let_def find_replace_first find_snoc
      split: option.splits prod.splits)

lemma ix_insert_prior: "snd (ix_insert_hashed ix i index h) = ix_get_hashed ix i h"
  by (auto simp: ix_get_hashed_def ix_insert_hashed_def Let_def split: option.splits prod.splits)

interpretation ix: position_index "ix_new seed" ix_get ix_insert "\<lambda>_. True" for seed
  by unfold_locales
    (auto simp: ix_get_def ix_insert_def ix_get_hashed_insert ix_insert_prior,
     simp add: ix_get_hashed_def ix_new_def)

text \<open>
  The identifier index is exact under hash collisions: after inserting an identifier at any
  fingerprint, a lookup of that identifier at that fingerprint finds the new position, every other
  lookup (of another identifier with the very same fingerprint too) is what it was before, and the
  insertion returns the previous position.
\<close>

theorem id_index_exact_under_collisions:
  "ix_get_hashed (fst (ix_insert_hashed ix i index h)) j h' =
     (if h' = h \<and> j = i then Some index else ix_get_hashed ix j h') \<and>
   snd (ix_insert_hashed ix i index h) = ix_get_hashed ix i h \<and>
   ix_get (fst (ix_insert ix i index)) j = (if j = i then Some index else ix_get ix j) \<and>
   snd (ix_insert ix i index) = ix_get ix i \<and> ix_get (ix_new seed) j = None"
  by (simp add: ix_get_hashed_insert ix_insert_prior ix.look_put ix.put_prior ix.look_empty)

end
