(* ===== verification/Memory_Projection.thy ===== *)
theory Memory_Projection
  imports Replay Id_Index
begin

text \<open>
  The bitemporal memory projection of \<open>src/src/projection/memory\<close> (\<open>state.rs\<close>, \<open>mod.rs\<close>,
  \<open>apply.rs\<close>): node histories, facts, supersessions and retractions with their lookup indexes and
  the incidence index, the application of memory events, and temporal views. Operations that
  mutate the projection return their result and the projection they leave behind. The random seeds
  of the two identifier indexes are arguments of the constructor.
\<close>

section \<open>State (\<open>state.rs\<close>)\<close>

record node_revision =
  nr_node :: memory_node
  nr_recorded_at :: timestamp
  nr_position :: u64

record node_history =
  nh_first :: node_revision
  nh_later :: "node_revision list"

definition node_history_new :: "node_revision \<Rightarrow> node_history" where
  "node_history_new first = \<lparr> nh_first = first, nh_later = [] \<rparr>"

record supersession =
  sup_replacement :: fact_id
  sup_valid_from :: timestamp
  sup_recorded_at :: timestamp

record retraction =
  ret_valid_until :: timestamp
  ret_recorded_at :: timestamp

record memory_projection =
  mp_nodes :: "node_history list"
  mp_facts :: "memory_fact list"
  mp_node_lookup :: "entity_kind id_index"
  mp_fact_lookup :: "fact_kind id_index"
  mp_incident_offsets :: "usize list"
  mp_incident_facts :: "usize list"
  mp_incident_delta :: "usize \<rightharpoonup> usize list"
  mp_supersessions :: "(fact_id, supersession) btree_map"
  mp_retractions :: "(fact_id, retraction) btree_map"
  mp_last_global_position :: "u64 option"

definition with_capacity :: "u64 \<Rightarrow> u64 \<Rightarrow> memory_projection" where
  "with_capacity node_seed fact_seed =
    \<lparr> mp_nodes = [], mp_facts = [], mp_node_lookup = ix_new node_seed, mp_fact_lookup = ix_new fact_seed,
      mp_incident_offsets = [0], mp_incident_facts = [], mp_incident_delta = Map.empty,
      mp_supersessions = [], mp_retractions = [], mp_last_global_position = None \<rparr>"

text \<open>\<open>PartialEq\<close> compares the data and not the indexes.\<close>

definition projection_eq :: "memory_projection \<Rightarrow> memory_projection \<Rightarrow> bool" where
  "projection_eq p q \<longleftrightarrow> mp_nodes p = mp_nodes q \<and> mp_facts p = mp_facts q \<and>
    mp_supersessions p = mp_supersessions q \<and> mp_retractions p = mp_retractions q \<and>
    mp_last_global_position p = mp_last_global_position q"

section \<open>Queries (\<open>mod.rs\<close>)\<close>

record projection_clock =
  valid_at :: timestamp
  known_at :: timestamp

definition superseded_by :: "memory_projection \<Rightarrow> fact_id \<Rightarrow> fact_id option" where
  "superseded_by p f = map_option sup_replacement (bt_get (mp_supersessions p) f)"

definition revision_key_le :: "node_revision \<Rightarrow> node_revision \<Rightarrow> bool" where
  "revision_key_le a b \<longleftrightarrow> nr_recorded_at a < nr_recorded_at b \<or>
    (nr_recorded_at a = nr_recorded_at b \<and> nr_position a \<le> nr_position b)"

text \<open>\<open>Iterator::max_by_key\<close> returns the last of several maximal elements.\<close>

definition max_by_key :: "node_revision list \<Rightarrow> node_revision option" where
  "max_by_key revisions =
    foldl (\<lambda>best r. case best of None \<Rightarrow> Some r | Some b \<Rightarrow> if revision_key_le b r then Some r else Some b)
      None revisions"

definition nh_revisions :: "node_history \<Rightarrow> node_revision list" where
  "nh_revisions h = nh_first h # nh_later h"

definition visible_revision :: "node_history \<Rightarrow> timestamp \<Rightarrow> memory_node option" where
  "visible_revision h known =
    map_option nr_node (max_by_key (filter (\<lambda>r. nr_recorded_at r \<le> known) (nh_revisions h)))"

definition visible_node :: "memory_projection \<Rightarrow> entity_id \<Rightarrow> timestamp \<Rightarrow> memory_node option" where
  "visible_node p i known =
    Option.bind (ix_get (mp_node_lookup p) i) (\<lambda>index. visible_revision (mp_nodes p ! index) known)"

definition mp_fact :: "memory_projection \<Rightarrow> fact_id \<Rightarrow> memory_fact option" where
  "mp_fact p i = map_option (\<lambda>index. mp_facts p ! index) (ix_get (mp_fact_lookup p) i)"

definition incident_indexes :: "memory_projection \<Rightarrow> usize \<Rightarrow> usize list" where
  "incident_indexes p index =
    (let a = mp_incident_offsets p ! index; b = mp_incident_offsets p ! (index + 1)
     in take (b - a) (drop a (mp_incident_facts p)) @
        (case mp_incident_delta p index of None \<Rightarrow> [] | Some added \<Rightarrow> added))"

definition incident_fact_ids :: "memory_projection \<Rightarrow> entity_id \<Rightarrow> fact_id list" where
  "incident_fact_ids p i =
    (case ix_get (mp_node_lookup p) i of
       None \<Rightarrow> []
     | Some index \<Rightarrow> map (\<lambda>f. mf_id (mp_facts p ! f)) (incident_indexes p index))"

definition fact_is_active :: "memory_projection \<Rightarrow> memory_fact \<Rightarrow> projection_clock \<Rightarrow> bool" where
  "fact_is_active p f clock =
    (if mf_recorded_at f > known_at clock \<or> mf_valid_from f > valid_at clock then False
     else if (case mf_valid_until f of None \<Rightarrow> False | Some until \<Rightarrow> valid_at clock \<ge> until) then False
     else if (case bt_get (mp_supersessions p) (mf_id f) of
         None \<Rightarrow> False
       | Some change \<Rightarrow> sup_recorded_at change \<le> known_at clock \<and> sup_valid_from change \<le> valid_at clock) then False
     else \<not> (case bt_get (mp_retractions p) (mf_id f) of
         None \<Rightarrow> False
       | Some change \<Rightarrow> ret_recorded_at change \<le> known_at clock \<and> ret_valid_until change \<le> valid_at clock))"

definition view_ref :: "memory_projection \<Rightarrow> projection_clock \<Rightarrow> memory_view" where
  "view_ref p clock =
    (let nodes = List.map_filter (\<lambda>h. visible_revision h (known_at clock)) (mp_nodes p);
         visible_ids = (if length nodes \<noteq> length (mp_nodes p) then Some (set (map mn_id nodes)) else None);
         facts = filter (\<lambda>f.
           (case visible_ids of None \<Rightarrow> True | Some visible \<Rightarrow> mf_source f \<in> visible \<and> mf_target f \<in> visible) \<and>
           fact_is_active p f clock) (mp_facts p)
     in \<lparr> view_nodes = nodes, view_facts = facts \<rparr>)"

section \<open>Updates (\<open>mod.rs\<close>)\<close>

definition insert_node :: "node_revision \<Rightarrow> memory_projection \<Rightarrow> unit memory_result \<times> memory_projection" where
  "insert_node revision p =
    seq_op (lift_op (node_validate (nr_node revision))) (\<lambda>_ p.
      (case ix_get (mp_node_lookup p) (mn_id (nr_node revision)) of
         Some index \<Rightarrow>
           (let h = mp_nodes p ! index
            in (Ok (), p\<lparr>mp_nodes := (mp_nodes p)[index := h\<lparr>nh_later := nh_later h @ [revision]\<rparr>]\<rparr>))
       | None \<Rightarrow>
           (let index = length (mp_nodes p);
                offset = (case last_of (mp_incident_offsets p) of None \<Rightarrow> 0 | Some o' \<Rightarrow> o')
            in (Ok (), p\<lparr> mp_node_lookup := fst (ix_insert (mp_node_lookup p) (mn_id (nr_node revision)) index),
                          mp_nodes := mp_nodes p @ [node_history_new revision],
                          mp_incident_offsets := mp_incident_offsets p @ [offset] \<rparr>)))) p"

definition require_entity :: "memory_projection \<Rightarrow> entity_id \<Rightarrow> usize memory_result" where
  "require_entity p i = ok_or (ix_get (mp_node_lookup p) i) (MissingEntity (as_str i))"

definition apply_supersession ::
  "fact_id \<Rightarrow> memory_fact \<Rightarrow> memory_projection \<Rightarrow> unit memory_result \<times> memory_projection" where
  "apply_supersession prior f p =
    (if \<not> ix_contains_key (mp_fact_lookup p) prior then (Err (MissingFact (as_str prior)), p)
     else if bt_get (mp_supersessions p) prior \<noteq> None then (Err (ConflictingFact (as_str prior)), p)
     else (Ok (), p\<lparr> mp_supersessions := bt_insert (mp_supersessions p) prior
             \<lparr> sup_replacement = mf_id f, sup_valid_from = mf_valid_from f, sup_recorded_at = mf_recorded_at f \<rparr> \<rparr>))"

definition delta_push :: "(usize \<rightharpoonup> usize list) \<Rightarrow> usize \<Rightarrow> usize \<Rightarrow> (usize \<rightharpoonup> usize list)" where
  "delta_push delta node index = delta(node \<mapsto> (case delta node of None \<Rightarrow> [] | Some v \<Rightarrow> v) @ [index])"

definition insert_fact :: "memory_fact \<Rightarrow> memory_projection \<Rightarrow> unit memory_result \<times> memory_projection" where
  "insert_fact f p =
    seq_op (lift_op (fact_validate f)) (\<lambda>_.
    seq_op (lift_op (require_entity p (mf_source f))) (\<lambda>source.
    seq_op (lift_op (require_entity p (mf_target f))) (\<lambda>target.
    if ix_contains_key (mp_fact_lookup p) (mf_id f) then lift_op (Err (ConflictingFact (as_str (mf_id f))))
    else seq_op (case mf_supersedes f of None \<Rightarrow> lift_op (Ok ()) | Some prior \<Rightarrow> apply_supersession prior f) (\<lambda>_ p.
      (let index = length (mp_facts p);
           delta = delta_push (mp_incident_delta p) source index;
           delta = (if target \<noteq> source then delta_push delta target index else delta)
       in (Ok (), p\<lparr> mp_fact_lookup := fst (ix_insert (mp_fact_lookup p) (mf_id f) index),
                     mp_incident_delta := delta, mp_facts := mp_facts p @ [f] \<rparr>)))))) p"

definition apply_retraction ::
  "timestamp \<Rightarrow> fact_id \<Rightarrow> timestamp \<Rightarrow> evidence list \<Rightarrow> memory_projection \<Rightarrow> unit memory_result \<times> memory_projection"
where
  "apply_retraction recorded_at i valid_until evidence p =
    (case mp_fact p i of
       None \<Rightarrow> (Err (MissingFact (as_str i)), p)
     | Some f \<Rightarrow>
         if valid_until \<le> mf_valid_from f
         then (Err (InvalidValue ''retraction.valid_until'' ''must be later than the fact valid_from''), p)
         else if evidence = []
         then (Err (InvalidValue ''retraction.evidence'' ''at least one evidence item is required''), p)
         else case try_for_each evidence_validate evidence of
           Err e \<Rightarrow> (Err e, p)
         | Ok _ \<Rightarrow> (Ok (), p\<lparr> mp_retractions := bt_insert (mp_retractions p) i
               \<lparr> ret_valid_until = valid_until, ret_recorded_at = recorded_at \<rparr> \<rparr>))"

section \<open>Applying events (\<open>apply.rs\<close>)\<close>

definition prepare_replay :: "memory_projection \<Rightarrow> memory_event stored_event list \<Rightarrow> memory_projection" where
  "prepare_replay p events = p"

definition mp_apply ::
  "memory_projection \<Rightarrow> memory_event stored_event \<Rightarrow> unit memory_result \<times> memory_projection" where
  "mp_apply p event =
    (let metadata = se_metadata event in
     if em_event_type metadata \<noteq> event_type (se_payload event)
     then (Err (InvalidValue ''event_type'' ''must match the memory event payload''), p)
     else seq_op
       (case se_payload event of
          NodeUpserted node \<Rightarrow>
            insert_node \<lparr> nr_node = node, nr_recorded_at = em_recorded_at metadata,
              nr_position = em_global_position metadata \<rparr>
        | FactRecorded f \<Rightarrow>
            if mf_recorded_at f \<noteq> em_recorded_at metadata \<or> mf_agent_id f \<noteq> em_agent_id metadata \<or>
               mf_session_id f \<noteq> em_session_id metadata
            then lift_op (Err (InvalidValue ''fact.envelope'' ''fact provenance must match its event envelope''))
            else insert_fact f
        | FactRetracted i until evidence \<Rightarrow> apply_retraction (em_recorded_at metadata) i until evidence)
       (\<lambda>_ p. (Ok (), p\<lparr>mp_last_global_position := Some (em_global_position metadata)\<rparr>)) p)"

definition mp_apply_owned ::
  "memory_projection \<Rightarrow> memory_event stored_event \<Rightarrow> unit memory_result \<times> memory_projection" where
  "mp_apply_owned p event =
    (case (se_metadata event, se_payload event) of (metadata, payload) \<Rightarrow>
     if em_event_type metadata \<noteq> event_type payload
     then (Err (InvalidValue ''event_type'' ''must match the memory event payload''), p)
     else (case (case payload of
          NodeUpserted node \<Rightarrow>
            insert_node \<lparr> nr_node = node, nr_recorded_at = em_recorded_at metadata,
              nr_position = em_global_position metadata \<rparr> p
        | FactRecorded f \<Rightarrow>
            (if mf_recorded_at f \<noteq> em_recorded_at metadata \<or> mf_agent_id f \<noteq> em_agent_id metadata \<or>
               mf_session_id f \<noteq> em_session_id metadata
             then (Err (InvalidValue ''fact.envelope'' ''fact provenance must match its event envelope''), p)
             else insert_fact f p)
        | FactRetracted i until evidence \<Rightarrow> apply_retraction (em_recorded_at metadata) i until evidence p) of
        (Err e, p') \<Rightarrow> (Err e, p')
      | (Ok _, p') \<Rightarrow> (Ok (), p'\<lparr>mp_last_global_position := Some (em_global_position metadata)\<rparr>)))"

definition memory_ops :: "u64 \<Rightarrow> u64 \<Rightarrow> (memory_event, memory_projection) projection_ops" where
  "memory_ops node_seed fact_seed =
    \<lparr> pr_default = with_capacity node_seed fact_seed, pr_prepare_replay = prepare_replay,
      pr_apply = mp_apply, pr_apply_owned = mp_apply_owned \<rparr>"

lemma mp_apply_owned_eq: "mp_apply_owned p e = mp_apply p e"
  by (auto simp: mp_apply_owned_def mp_apply_def Let_def seq_op_def lift_op_def
      split: memory_event.splits prod.splits result.splits)

interpretation mem: projection "memory_ops node_seed fact_seed" for node_seed fact_seed
  by unfold_locales (simp_all add: memory_ops_def prepare_replay_def mp_apply_owned_eq)

section \<open>The projection invariant\<close>

definition history_id :: "node_history \<Rightarrow> entity_id" where
  "history_id h = mn_id (nr_node (nh_first h))"

definition node_ids :: "memory_projection \<Rightarrow> entity_id list" where
  "node_ids p = map history_id (mp_nodes p)"

definition fact_ids :: "memory_projection \<Rightarrow> fact_id list" where
  "fact_ids p = map mf_id (mp_facts p)"

definition touches :: "memory_fact \<Rightarrow> entity_id \<Rightarrow> bool" where
  "touches f i \<longleftrightarrow> mf_source f = i \<or> mf_target f = i"

definition incident_spec :: "memory_fact list \<Rightarrow> entity_id \<Rightarrow> usize list" where
  "incident_spec facts i = filter (\<lambda>j. touches (facts ! j) i) [0..<length facts]"

definition sup_of :: "memory_fact \<Rightarrow> supersession" where
  "sup_of f = \<lparr> sup_replacement = mf_id f, sup_valid_from = mf_valid_from f, sup_recorded_at = mf_recorded_at f \<rparr>"

definition history_ok :: "node_history \<Rightarrow> bool" where
  "history_ok h \<longleftrightarrow> (\<forall>r \<in> set (nh_revisions h). node_ok (nr_node r) \<and> mn_id (nr_node r) = history_id h)"

definition nodes_ok :: "memory_projection \<Rightarrow> bool" where
  "nodes_ok p \<longleftrightarrow> lists_keys ix_get (mp_node_lookup p) (node_ids p) \<and> (\<forall>h \<in> set (mp_nodes p). history_ok h)"

definition facts_ok :: "memory_projection \<Rightarrow> bool" where
  "facts_ok p \<longleftrightarrow> lists_keys ix_get (mp_fact_lookup p) (fact_ids p) \<and>
    (\<forall>f \<in> set (mp_facts p). fact_ok f \<and> mf_source f \<in> set (node_ids p) \<and> mf_target f \<in> set (node_ids p))"

definition sups_ok :: "memory_fact list \<Rightarrow> (fact_id, supersession) btree_map \<Rightarrow> bool" where
  "sups_ok facts sups \<longleftrightarrow> bt_ok sups \<and>
    (\<forall>prior change. bt_get sups prior = Some change \<longleftrightarrow>
       (\<exists>f \<in> set facts. mf_supersedes f = Some prior \<and> change = sup_of f)) \<and>
    (\<forall>f \<in> set facts. \<forall>prior. mf_supersedes f = Some prior \<longrightarrow> prior \<in> mf_id ` set facts)"

definition rets_ok :: "memory_fact list \<Rightarrow> (fact_id, retraction) btree_map \<Rightarrow> bool" where
  "rets_ok facts rets \<longleftrightarrow> bt_ok rets \<and>
    (\<forall>i change. bt_get rets i = Some change \<longrightarrow>
       (\<exists>f \<in> set facts. mf_id f = i \<and> mf_valid_from f < ret_valid_until change))"

definition incidents_ok :: "memory_projection \<Rightarrow> bool" where
  "incidents_ok p \<longleftrightarrow> length (mp_incident_offsets p) = Suc (length (mp_nodes p)) \<and>
    (\<forall>i < length (mp_nodes p). incident_indexes p i = incident_spec (mp_facts p) (node_ids p ! i)) \<and>
    (\<forall>i \<ge> length (mp_nodes p). mp_incident_delta p i = None)"

definition proj_inv :: "memory_projection \<Rightarrow> bool" where
  "proj_inv p \<longleftrightarrow> nodes_ok p \<and> facts_ok p \<and> sups_ok (mp_facts p) (mp_supersessions p) \<and>
    rets_ok (mp_facts p) (mp_retractions p) \<and> incidents_ok p"

lemma incident_spec_none: "(\<And>f. f \<in> set facts \<Longrightarrow> \<not> touches f i) \<Longrightarrow> incident_spec facts i = []"
  by (simp add: incident_spec_def filter_empty_conv)

lemma incident_spec_snoc:
  "incident_spec (facts @ [f]) i = incident_spec facts i @ (if touches f i then [length facts] else [])"
proof -
  have "filter (\<lambda>j. touches ((facts @ [f]) ! j) i) [0..<length facts] = incident_spec facts i"
    unfolding incident_spec_def by (rule filter_cong) (auto simp: nth_append)
  then show ?thesis by (simp add: incident_spec_def)
qed

lemma nth_incident_spec: "map ((!) facts) (incident_spec facts i) = filter (\<lambda>f. touches f i) facts"
proof (induction facts rule: rev_induct)
  case (snoc f facts)
  have "map ((!) (facts @ [f])) (incident_spec facts i) = map ((!) facts) (incident_spec facts i)"
    by (auto simp: incident_spec_def nth_append)
  with snoc show ?case by (simp add: incident_spec_snoc)
qed (simp add: incident_spec_def)

lemma proj_inv_default: "proj_inv (with_capacity ns fs)"
  by (auto simp: proj_inv_def with_capacity_def nodes_ok_def facts_ok_def sups_ok_def rets_ok_def
      incidents_ok_def node_ids_def fact_ids_def ix.lists_empty)

lemma node_ids_lookup: "nodes_ok p \<Longrightarrow> ix_get (mp_node_lookup p) i = None \<longleftrightarrow> i \<notin> set (node_ids p)"
  by (simp add: nodes_ok_def lists_keys_None)

lemma node_ids_index:
  "nodes_ok p \<Longrightarrow> ix_get (mp_node_lookup p) i = Some n \<Longrightarrow> n < length (mp_nodes p) \<and> node_ids p ! n = i"
  unfolding nodes_ok_def by (metis length_map lists_keys_Some node_ids_def)

lemma fact_ids_lookup: "facts_ok p \<Longrightarrow> ix_contains_key (mp_fact_lookup p) i \<longleftrightarrow> i \<in> set (fact_ids p)"
  using lists_keys_None [of ix_get "mp_fact_lookup p" "fact_ids p" i]
  by (auto simp: facts_ok_def ix_contains_key_def)

lemma mp_fact_Some:
  assumes "facts_ok p" "mp_fact p i = Some f"
  shows "f \<in> set (mp_facts p) \<and> mf_id f = i"
proof -
  from assms(2) obtain n where n: "ix_get (mp_fact_lookup p) i = Some n" "f = mp_facts p ! n"
    by (auto simp: mp_fact_def)
  with assms(1) have "n < length (fact_ids p)" "fact_ids p ! n = i"
    using lists_keys_Some [of ix_get "mp_fact_lookup p" "fact_ids p"] by (auto simp: facts_ok_def)
  with n show ?thesis by (simp add: fact_ids_def)
qed

lemma mp_fact_in:
  assumes "facts_ok p" "f \<in> set (mp_facts p)"
  shows "mp_fact p (mf_id f) = Some f"
proof -
  from assms(2) obtain n where n: "n < length (mp_facts p)" "mp_facts p ! n = f" by (auto simp: in_set_conv_nth)
  with assms(1) have "ix_get (mp_fact_lookup p) (mf_id f) = Some n"
    using lists_keys_get [of ix_get "mp_fact_lookup p" "fact_ids p" n] by (simp add: facts_ok_def fact_ids_def)
  with n show ?thesis by (simp add: mp_fact_def)
qed

lemma fact_ids_distinct: "facts_ok p \<Longrightarrow> distinct (fact_ids p)"
  by (auto simp: facts_ok_def dest: lists_keys_distinct)

lemma node_ids_distinct: "nodes_ok p \<Longrightarrow> distinct (node_ids p)"
  by (auto simp: nodes_ok_def dest: lists_keys_distinct)

subsection \<open>Nodes\<close>

lemma history_id_new [simp]: "history_id (node_history_new r) = mn_id (nr_node r)"
  by (simp add: history_id_def node_history_new_def)

lemma insert_node_err: "insert_node r p = (Err e, p') \<Longrightarrow> p' = p"
  by (auto simp: insert_node_def Let_def split: result.splits option.splits)

lemma insert_node_new:
  assumes "proj_inv p" "node_ok (nr_node r)" "ix_get (mp_node_lookup p) (mn_id (nr_node r)) = None"
    and "p' = p\<lparr> mp_node_lookup := fst (ix_insert (mp_node_lookup p) (mn_id (nr_node r)) (length (mp_nodes p))),
      mp_nodes := mp_nodes p @ [node_history_new r], mp_incident_offsets := mp_incident_offsets p @ [last (mp_incident_offsets p)] \<rparr>"
  shows "proj_inv p'"
proof -
  let ?i = "mn_id (nr_node r)"
  have inv: "nodes_ok p" "facts_ok p" "incidents_ok p" using assms(1) by (auto simp: proj_inv_def)
  have sel: "mp_nodes p' = mp_nodes p @ [node_history_new r]" "mp_facts p' = mp_facts p"
    "mp_fact_lookup p' = mp_fact_lookup p" "mp_incident_facts p' = mp_incident_facts p"
    "mp_incident_delta p' = mp_incident_delta p" "mp_supersessions p' = mp_supersessions p"
    "mp_retractions p' = mp_retractions p"
    "mp_incident_offsets p' = mp_incident_offsets p @ [last (mp_incident_offsets p)]"
    "mp_node_lookup p' = fst (ix_insert (mp_node_lookup p) ?i (length (mp_nodes p)))"
    by (simp_all add: assms(4))
  have new: "?i \<notin> set (node_ids p)" using node_ids_lookup [OF inv(1)] assms(3) by blast
  have ids: "node_ids p' = node_ids p @ [?i]"
    by (simp add: sel node_ids_def)
  have "lists_keys ix_get (mp_node_lookup p') (node_ids p')"
    using ix.lists_put [of "mp_node_lookup p" "node_ids p" ?i] inv(1) new
    by (simp add: ids sel nodes_ok_def) (simp add: node_ids_def)
  then have "nodes_ok p'"
    using inv(1) assms(2) by (auto simp: nodes_ok_def sel history_ok_def nh_revisions_def history_id_def node_history_new_def)
  moreover have "facts_ok p'"
    using inv(2) by (auto simp: facts_ok_def ids sel fact_ids_def)
  moreover have "incidents_ok p'"
  proof -
    have len: "length (mp_incident_offsets p) = Suc (length (mp_nodes p))" using inv(3) by (simp add: incidents_ok_def)
    then have lst: "last (mp_incident_offsets p) = mp_incident_offsets p ! length (mp_nodes p)"
      by (metis diff_Suc_1 last_conv_nth length_0_conv nat.distinct(1))
    have "incident_indexes p' i = incident_spec (mp_facts p') (node_ids p' ! i)" if i: "i < length (mp_nodes p')" for i
    proof (cases "i < length (mp_nodes p)")
      case True
      then have "incident_indexes p' i = incident_indexes p i"
        using len by (simp add: incident_indexes_def sel nth_append)
      then show ?thesis using True inv(3) by (simp add: incidents_ok_def sel ids nth_append node_ids_def)
    next
      case False
      then have i': "i = length (mp_nodes p)" using i by (simp add: sel)
      have "incident_spec (mp_facts p) ?i = []"
        using inv(2) new by (intro incident_spec_none) (auto simp: touches_def facts_ok_def)
      moreover have "incident_indexes p' i = []"
        using len lst inv(3) i' by (simp add: incident_indexes_def sel nth_append incidents_ok_def)
      ultimately show ?thesis using i' by (simp add: ids nth_append node_ids_def sel)
    qed
    then show ?thesis using inv(3) len by (auto simp: incidents_ok_def sel)
  qed
  ultimately show ?thesis using assms(1) by (simp add: proj_inv_def sel)
qed

lemma insert_node_revision:
  assumes "proj_inv p" "node_ok (nr_node r)" "ix_get (mp_node_lookup p) (mn_id (nr_node r)) = Some n"
    and "p' = p\<lparr>mp_nodes := (mp_nodes p)[n := (mp_nodes p ! n)\<lparr>nh_later := nh_later (mp_nodes p ! n) @ [r]\<rparr>]\<rparr>"
  shows "proj_inv p'"
proof -
  have inv: "nodes_ok p" "facts_ok p" "incidents_ok p" using assms(1) by (auto simp: proj_inv_def)
  have n: "n < length (mp_nodes p)" "node_ids p ! n = mn_id (nr_node r)"
    using node_ids_index [OF inv(1) assms(3)] by auto
  have sel: "mp_nodes p' = (mp_nodes p)[n := (mp_nodes p ! n)\<lparr>nh_later := nh_later (mp_nodes p ! n) @ [r]\<rparr>]"
    "mp_facts p' = mp_facts p" "mp_fact_lookup p' = mp_fact_lookup p" "mp_incident_facts p' = mp_incident_facts p"
    "mp_incident_delta p' = mp_incident_delta p" "mp_supersessions p' = mp_supersessions p"
    "mp_retractions p' = mp_retractions p" "mp_incident_offsets p' = mp_incident_offsets p"
    "mp_node_lookup p' = mp_node_lookup p"
    by (simp_all add: assms(4))
  let ?h = "(mp_nodes p ! n)\<lparr>nh_later := nh_later (mp_nodes p ! n) @ [r]\<rparr>"
  have hid: "history_id ?h = history_id (mp_nodes p ! n)" by (simp add: history_id_def)
  then have ids: "node_ids p' = node_ids p"
    using n by (simp add: node_ids_def sel map_update list_update_same_conv)
  have "history_ok (mp_nodes p ! n)" using inv(1) n(1) by (simp add: nodes_ok_def)
  then have "history_ok ?h"
    using n assms(2) hid by (auto simp: history_ok_def nh_revisions_def node_ids_def)
  then have "nodes_ok p'"
    using inv(1) ids by (auto simp: nodes_ok_def sel dest!: set_update_subset_insert [THEN subsetD])
  moreover have "facts_ok p'" using inv(2) ids by (auto simp: facts_ok_def sel fact_ids_def)
  moreover have "incidents_ok p'"
    using inv(3) ids by (auto simp: incidents_ok_def sel incident_indexes_def)
  ultimately show ?thesis using assms(1) by (simp add: proj_inv_def sel)
qed

lemma insert_node_inv:
  assumes "proj_inv p" "insert_node r p = (res, p')"
  shows "proj_inv p'"
proof (cases "node_validate (nr_node r)")
  case (Err e)
  with assms show ?thesis by (auto simp: insert_node_def)
next
  case (Ok u)
  then have ok: "node_ok (nr_node r)" using node_validate_Ok by simp
  have "mp_incident_offsets p \<noteq> []" using assms(1) by (auto simp: proj_inv_def incidents_ok_def)
  then have off: "(case last_of (mp_incident_offsets p) of None \<Rightarrow> 0 | Some o' \<Rightarrow> o') = last (mp_incident_offsets p)"
    by (simp add: last_of_eq)
  show ?thesis
  proof (cases "ix_get (mp_node_lookup p) (mn_id (nr_node r))")
    case None
    with assms(2) Ok off show ?thesis
      by (intro insert_node_new [OF assms(1) ok None]) (auto simp: insert_node_def Let_def)
  next
    case (Some n)
    with assms(2) Ok show ?thesis
      by (intro insert_node_revision [OF assms(1) ok Some]) (auto simp: insert_node_def Let_def)
  qed
qed

subsection \<open>Facts\<close>

text \<open>What a successful insertion does.\<close>

definition fact_inserted :: "memory_fact \<Rightarrow> usize \<Rightarrow> usize \<Rightarrow> memory_projection \<Rightarrow> memory_projection" where
  "fact_inserted f source target p =
    p\<lparr> mp_supersessions := (case mf_supersedes f of None \<Rightarrow> mp_supersessions p
         | Some prior \<Rightarrow> bt_insert (mp_supersessions p) prior (sup_of f)),
       mp_fact_lookup := fst (ix_insert (mp_fact_lookup p) (mf_id f) (length (mp_facts p))),
       mp_incident_delta := (if target \<noteq> source
         then delta_push (delta_push (mp_incident_delta p) source (length (mp_facts p))) target (length (mp_facts p))
         else delta_push (mp_incident_delta p) source (length (mp_facts p))),
       mp_facts := mp_facts p @ [f] \<rparr>"

definition fact_accepted :: "memory_fact \<Rightarrow> usize \<Rightarrow> usize \<Rightarrow> memory_projection \<Rightarrow> bool" where
  "fact_accepted f source target p \<longleftrightarrow> fact_ok f \<and> ix_get (mp_node_lookup p) (mf_source f) = Some source \<and>
    ix_get (mp_node_lookup p) (mf_target f) = Some target \<and> \<not> ix_contains_key (mp_fact_lookup p) (mf_id f) \<and>
    (\<forall>prior. mf_supersedes f = Some prior \<longrightarrow>
       ix_contains_key (mp_fact_lookup p) prior \<and> bt_get (mp_supersessions p) prior = None)"

lemma insert_fact_cases:
  assumes "insert_fact f p = (res, p')"
  obtains (rejected) e where "res = Err e" "p' = p"
  | (inserted) source target where "res = Ok ()" "fact_accepted f source target p" "p' = fact_inserted f source target p"
proof (cases "\<exists>source target. fact_ok f \<and> require_entity p (mf_source f) = Ok source \<and>
    require_entity p (mf_target f) = Ok target \<and> \<not> ix_contains_key (mp_fact_lookup p) (mf_id f)")
  case False
  have "\<exists>e. res = Err e \<and> p' = p"
  proof (cases "fact_validate f")
    case (Err e)
    with assms have "res = Err e \<and> p' = p" by (simp add: insert_fact_def)
    then show ?thesis by blast
  next
    case (Ok u)
    then have "fact_ok f" using fact_validate_Ok by simp
    with assms Ok False show ?thesis
      by (cases "require_entity p (mf_source f)"; cases "require_entity p (mf_target f)")
        (auto simp: insert_fact_def lift_op_def [of "Err _"])
  qed
  then show thesis using rejected by blast
next
  case True
  then obtain source target where ok: "fact_ok f" "require_entity p (mf_source f) = Ok source"
    "require_entity p (mf_target f) = Ok target" "\<not> ix_contains_key (mp_fact_lookup p) (mf_id f)" by blast
  then have "fact_validate f = Ok ()" using fact_validate_Ok by simp
  with ok assms have run: "seq_op (case mf_supersedes f of None \<Rightarrow> lift_op (Ok ()) | Some prior \<Rightarrow> apply_supersession prior f) (\<lambda>_ p.
      (let index = length (mp_facts p);
           delta = delta_push (mp_incident_delta p) source index;
           delta = (if target \<noteq> source then delta_push delta target index else delta)
       in (Ok (), p\<lparr> mp_fact_lookup := fst (ix_insert (mp_fact_lookup p) (mf_id f) index),
                     mp_incident_delta := delta, mp_facts := mp_facts p @ [f] \<rparr>))) p = (res, p')"
    by (simp add: insert_fact_def)
  have idx: "ix_get (mp_node_lookup p) (mf_source f) = Some source" "ix_get (mp_node_lookup p) (mf_target f) = Some target"
    using ok by (auto simp: require_entity_def result_simps)
  show thesis
  proof (cases "mf_supersedes f")
    case None
    with run ok idx show thesis
      by (intro inserted [of source target]) (auto simp: fact_accepted_def fact_inserted_def Let_def)
  next
    case (Some prior)
    show thesis
    proof (cases "ix_contains_key (mp_fact_lookup p) prior \<and> bt_get (mp_supersessions p) prior = None")
      case False
      with run Some show thesis
        by (auto simp: apply_supersession_def seq_op_def intro: rejected split: if_splits)
    next
      case True
      with run Some ok idx show thesis
        by (intro inserted [of source target])
          (auto simp: apply_supersession_def seq_op_def fact_accepted_def fact_inserted_def sup_of_def Let_def)
    qed
  qed
qed

lemma sups_ok_snoc:
  assumes "sups_ok facts sups" "mf_id f \<notin> mf_id ` set facts"
    and "\<And>prior. mf_supersedes f = Some prior \<Longrightarrow> prior \<in> mf_id ` set facts \<and> bt_get sups prior = None"
  shows "sups_ok (facts @ [f]) (case mf_supersedes f of None \<Rightarrow> sups | Some prior \<Rightarrow> bt_insert sups prior (sup_of f))"
proof (cases "mf_supersedes f")
  case None
  with assms(1) show ?thesis by (auto simp: sups_ok_def)
next
  case (Some prior)
  from assms(1) have ok: "bt_ok sups" and iff: "\<And>q c. bt_get sups q = Some c \<longleftrightarrow>
      (\<exists>g \<in> set facts. mf_supersedes g = Some q \<and> c = sup_of g)"
    and known: "\<And>g q. g \<in> set facts \<Longrightarrow> mf_supersedes g = Some q \<Longrightarrow> q \<in> mf_id ` set facts"
    by (auto simp: sups_ok_def)
  have none: "\<not> (\<exists>g \<in> set facts. mf_supersedes g = Some prior)" using assms(3) [OF Some] iff by (metis option.distinct(1))
  show ?thesis
    unfolding sups_ok_def Some option.case
  proof (intro conjI allI ballI impI)
    fix q c
    show "bt_get (bt_insert sups prior (sup_of f)) q = Some c \<longleftrightarrow>
        (\<exists>g \<in> set (facts @ [f]). mf_supersedes g = Some q \<and> c = sup_of g)"
      using none Some iff [of q c] by (cases "q = prior") auto
  qed (use ok known assms(3) Some in auto)
qed

lemma fact_inserted_inv:
  assumes "proj_inv p" "fact_accepted f source target p"
  shows "proj_inv (fact_inserted f source target p)" (is "proj_inv ?p")
proof -
  have inv: "nodes_ok p" "facts_ok p" "sups_ok (mp_facts p) (mp_supersessions p)"
    "rets_ok (mp_facts p) (mp_retractions p)" "incidents_ok p" using assms(1) by (auto simp: proj_inv_def)
  have sel: "mp_nodes ?p = mp_nodes p" "mp_facts ?p = mp_facts p @ [f]" "mp_node_lookup ?p = mp_node_lookup p"
    "mp_fact_lookup ?p = fst (ix_insert (mp_fact_lookup p) (mf_id f) (length (mp_facts p)))"
    "mp_retractions ?p = mp_retractions p" "mp_incident_offsets ?p = mp_incident_offsets p"
    "mp_incident_facts ?p = mp_incident_facts p"
    by (simp_all add: fact_inserted_def)
  have acc: "fact_ok f" "ix_get (mp_node_lookup p) (mf_source f) = Some source"
    "ix_get (mp_node_lookup p) (mf_target f) = Some target" "mf_id f \<notin> set (fact_ids p)"
    using assms(2) fact_ids_lookup [OF inv(2)] by (auto simp: fact_accepted_def)
  have src: "source < length (mp_nodes p)" "node_ids p ! source = mf_source f"
    and tgt: "target < length (mp_nodes p)" "node_ids p ! target = mf_target f"
    using node_ids_index [OF inv(1)] acc by auto
  have ids: "node_ids ?p = node_ids p" "fact_ids ?p = fact_ids p @ [mf_id f]"
    by (simp_all add: node_ids_def fact_ids_def sel)
  have in_ids: "mf_source f \<in> set (node_ids p)" "mf_target f \<in> set (node_ids p)"
    using src tgt by (metis length_map node_ids_def nth_mem)+
  have "nodes_ok ?p" using inv(1) ids by (simp add: nodes_ok_def sel)
  moreover have "facts_ok ?p"
  proof -
    have "lists_keys ix_get (mp_fact_lookup ?p) (fact_ids p @ [mf_id f])"
      using ix.lists_put [of "mp_fact_lookup p" "fact_ids p" "mf_id f"] inv(2) acc(4)
      by (simp add: sel facts_ok_def) (simp add: fact_ids_def)
    then show ?thesis using inv(2) acc(1) in_ids by (auto simp: facts_ok_def ids sel)
  qed
  moreover have "sups_ok (mp_facts ?p) (mp_supersessions ?p)"
    using sups_ok_snoc [OF inv(3), of f] acc(4) assms(2) fact_ids_lookup [OF inv(2)]
    by (auto simp: fact_inserted_def fact_accepted_def fact_ids_def)
  moreover have "rets_ok (mp_facts ?p) (mp_retractions ?p)"
    using inv(4) by (fastforce simp: rets_ok_def sel)
  moreover have "incidents_ok ?p"
  proof -
    have "incident_indexes ?p i = incident_spec (mp_facts ?p) (node_ids ?p ! i)" if i: "i < length (mp_nodes p)" for i
    proof -
      have "node_ids p ! i = node_ids p ! k \<longleftrightarrow> i = k" if "k < length (mp_nodes p)" for k
        using nth_eq_iff_index_eq [OF node_ids_distinct [OF inv(1)]] i that by (simp add: node_ids_def)
      then have "touches f (node_ids p ! i) \<longleftrightarrow> i = source \<or> i = target"
        using src tgt by (metis touches_def)
      moreover have "incident_indexes ?p i = incident_indexes p i @ (if i = source \<or> i = target then [length (mp_facts p)] else [])"
        by (auto simp: incident_indexes_def fact_inserted_def delta_push_def Let_def split: option.splits)
      moreover have "incident_indexes p i = incident_spec (mp_facts p) (node_ids p ! i)"
        using inv(5) i by (simp add: incidents_ok_def)
      ultimately show ?thesis by (simp add: sel ids incident_spec_snoc)
    qed
    moreover have "mp_incident_delta ?p i = None" if "i \<ge> length (mp_nodes p)" for i
      using inv(5) that src(1) tgt(1) by (auto simp: incidents_ok_def fact_inserted_def delta_push_def)
    ultimately show ?thesis using inv(5) by (simp add: incidents_ok_def sel)
  qed
  ultimately show ?thesis by (simp add: proj_inv_def)
qed

subsection \<open>Retractions and events\<close>

lemma apply_retraction_cases:
  assumes "apply_retraction t i until ev p = (res, p')"
  obtains (rejected) e where "res = Err e" "p' = p"
  | (retracted) f where "res = Ok ()" "mp_fact p i = Some f" "mf_valid_from f < until"
      "p' = p\<lparr> mp_retractions := bt_insert (mp_retractions p) i \<lparr> ret_valid_until = until, ret_recorded_at = t \<rparr> \<rparr>"
  using assms
  by (cases "try_for_each evidence_validate ev")
    (auto simp: apply_retraction_def not_le dest: sym [of "Err _"] split: option.splits if_splits)

lemma retraction_inv:
  assumes "proj_inv p" "mp_fact p i = Some f" "mf_valid_from f < until"
  shows "proj_inv (p\<lparr> mp_retractions := bt_insert (mp_retractions p) i \<lparr> ret_valid_until = until, ret_recorded_at = t \<rparr> \<rparr>)"
proof -
  have "f \<in> set (mp_facts p) \<and> mf_id f = i" using mp_fact_Some assms by (auto simp: proj_inv_def)
  with assms show ?thesis
    by (auto simp: proj_inv_def nodes_ok_def facts_ok_def rets_ok_def incidents_ok_def node_ids_def fact_ids_def
        incident_indexes_def)
qed

lemma last_position_inv: "proj_inv (p\<lparr>mp_last_global_position := x\<rparr>) = proj_inv p"
  by (simp add: proj_inv_def nodes_ok_def facts_ok_def rets_ok_def incidents_ok_def node_ids_def fact_ids_def
      incident_indexes_def)

text \<open>The three ways an event can change the projection.\<close>

lemma mp_apply_cases:
  assumes "mp_apply p e = (res, p')"
  obtains (rejected) x where "res = Err x" "p' = p"
  | (node) n q where "se_payload e = NodeUpserted n" "res = Ok ()"
      "insert_node \<lparr> nr_node = n, nr_recorded_at = em_recorded_at (se_metadata e), nr_position = position_of e \<rparr> p = (Ok (), q)"
      "p' = q\<lparr>mp_last_global_position := Some (position_of e)\<rparr>"
  | (recorded) f source target where "se_payload e = FactRecorded f" "res = Ok ()"
      "mf_recorded_at f = em_recorded_at (se_metadata e)" "fact_accepted f source target p"
      "p' = (fact_inserted f source target p)\<lparr>mp_last_global_position := Some (position_of e)\<rparr>"
  | (retracted) i until ev f where "se_payload e = FactRetracted i until ev" "res = Ok ()"
      "mp_fact p i = Some f" "mf_valid_from f < until"
      "p' = p\<lparr> mp_retractions := bt_insert (mp_retractions p) i
         \<lparr> ret_valid_until = until, ret_recorded_at = em_recorded_at (se_metadata e) \<rparr>,
         mp_last_global_position := Some (position_of e) \<rparr>"
proof (cases "em_event_type (se_metadata e) = event_type (se_payload e)")
  case False
  with assms show thesis by (auto simp: mp_apply_def Let_def intro: rejected)
next
  case ty: True
  show thesis
  proof (cases "se_payload e")
    case (NodeUpserted n)
    let ?r = "\<lparr> nr_node = n, nr_recorded_at = em_recorded_at (se_metadata e), nr_position = position_of e \<rparr>"
    obtain w q where w: "insert_node ?r p = (w, q)" by force
    show thesis
    proof (cases w)
      case (Err x)
      with w insert_node_err have "q = p" by blast
      with assms ty NodeUpserted w Err show thesis
        by (intro rejected) (auto simp: mp_apply_def Let_def seq_op_def)
    next
      case (Ok u)
      with assms ty NodeUpserted w show thesis
        by (intro node [of n q]) (auto simp: mp_apply_def Let_def seq_op_def)
    qed
  next
    case (FactRecorded f)
    show thesis
    proof (cases "mf_recorded_at f \<noteq> em_recorded_at (se_metadata e) \<or> mf_agent_id f \<noteq> em_agent_id (se_metadata e) \<or>
        mf_session_id f \<noteq> em_session_id (se_metadata e)")
      case True
      with assms ty FactRecorded show thesis
        by (intro rejected) (auto simp: mp_apply_def Let_def seq_op_def lift_op_def)
    next
      case False
      obtain w q where w: "insert_fact f p = (w, q)" by force
      have run: "(res, p') = (case w of Ok _ \<Rightarrow> (Ok (), q\<lparr>mp_last_global_position := Some (position_of e)\<rparr>) | Err x \<Rightarrow> (Err x, q))"
        using assms ty FactRecorded False w by (auto simp: mp_apply_def Let_def seq_op_def split: result.splits)
      from w show thesis
        by (cases rule: insert_fact_cases) (use run FactRecorded False in \<open>auto intro: rejected recorded\<close>)
    qed
  next
    case (FactRetracted i until ev)
    obtain w q where w: "apply_retraction (em_recorded_at (se_metadata e)) i until ev p = (w, q)" by force
    have run: "(res, p') = (case w of Ok _ \<Rightarrow> (Ok (), q\<lparr>mp_last_global_position := Some (position_of e)\<rparr>) | Err x \<Rightarrow> (Err x, q))"
      using assms ty FactRetracted w by (auto simp: mp_apply_def Let_def seq_op_def split: result.splits)
    from w show thesis
      by (cases rule: apply_retraction_cases) (use run FactRetracted in \<open>auto intro: rejected retracted\<close>)
  qed
qed

lemma mp_apply_inv:
  assumes "proj_inv p" "mp_apply p e = (res, p')"
  shows "proj_inv p'"
  using assms(2)
proof (cases rule: mp_apply_cases)
  case (rejected x)
  with assms(1) show ?thesis by simp
next
  case (node n q)
  then show ?thesis using insert_node_inv [OF assms(1)] last_position_inv by blast
next
  case (recorded f source target)
  then show ?thesis using fact_inserted_inv [OF assms(1)] last_position_inv by simp
next
  case (retracted i until ev f)
  then show ?thesis
    using retraction_inv [OF assms(1) retracted(3,4)]
      last_position_inv [where p = "p\<lparr> mp_retractions := bt_insert (mp_retractions p) i
         \<lparr> ret_valid_until = until, ret_recorded_at = em_recorded_at (se_metadata e) \<rparr> \<rparr>"] by simp
qed

lemma mp_apply_err: "mp_apply p e = (Err x, p') \<Longrightarrow> p' = p"
  by (erule mp_apply_cases) auto

section \<open>Views\<close>

lemma max_by_key_fold:
  "foldl (\<lambda>best r. case best of None \<Rightarrow> Some r | Some b \<Rightarrow> if revision_key_le b r then Some r else Some b) acc rs =
     Some m \<Longrightarrow> m \<in> set rs \<or> acc = Some m"
  by (induction rs arbitrary: acc) (fastforce split: option.splits if_splits)+

lemma max_by_key_in: "max_by_key rs = Some m \<Longrightarrow> m \<in> set rs"
  unfolding max_by_key_def by (drule max_by_key_fold) simp

lemma visible_revision_id: "history_ok h \<Longrightarrow> visible_revision h t = Some n \<Longrightarrow> mn_id n = history_id h"
  by (auto simp: visible_revision_def history_ok_def dest!: max_by_key_in)

definition visible_nodes :: "memory_projection \<Rightarrow> timestamp \<Rightarrow> memory_node list" where
  "visible_nodes p t = List.map_filter (\<lambda>h. visible_revision h t) (mp_nodes p)"

lemma visible_node_iff:
  assumes "nodes_ok p" "i \<in> set (node_ids p)"
  shows "visible_node p i t \<noteq> None \<longleftrightarrow> i \<in> mn_id ` set (visible_nodes p t)"
proof -
  from assms(2) obtain n where n: "n < length (mp_nodes p)" "history_id (mp_nodes p ! n) = i"
    by (auto simp: node_ids_def in_set_conv_nth)
  then have look: "ix_get (mp_node_lookup p) i = Some n"
    using lists_keys_get [of ix_get "mp_node_lookup p" "node_ids p" n] assms(1)
    by (simp add: nodes_ok_def node_ids_def)
  have same: "h = mp_nodes p ! n" if "h \<in> set (mp_nodes p)" "history_id h = i" for h
    using that n node_ids_distinct [OF assms(1)] by (metis distinct_map in_set_conv_nth inj_onD node_ids_def)
  have ok: "history_ok h" if "h \<in> set (mp_nodes p)" for h using assms(1) that by (simp add: nodes_ok_def)
  show ?thesis
  proof
    assume "visible_node p i t \<noteq> None"
    then obtain m where m: "visible_revision (mp_nodes p ! n) t = Some m" using look by (auto simp: visible_node_def)
    then have "m \<in> set (visible_nodes p t)" "mn_id m = i"
      using n ok visible_revision_id by (auto simp: visible_nodes_def map_filter_def intro!: image_eqI [of _ _ "mp_nodes p ! n"])
    then show "i \<in> mn_id ` set (visible_nodes p t)" by blast
  next
    assume "i \<in> mn_id ` set (visible_nodes p t)"
    then obtain h m where "h \<in> set (mp_nodes p)" "visible_revision h t = Some m" "mn_id m = i"
      by (auto simp: visible_nodes_def map_filter_def)
    with ok visible_revision_id same have "visible_revision (mp_nodes p ! n) t = Some m" by metis
    then show "visible_node p i t \<noteq> None" using look by (simp add: visible_node_def)
  qed
qed

lemma visible_all:
  assumes "length (visible_nodes p t) = length (mp_nodes p)" "h \<in> set (mp_nodes p)"
  shows "visible_revision h t \<noteq> None"
proof -
  have "length (filter (\<lambda>h. visible_revision h t \<noteq> None) (mp_nodes p)) = length (mp_nodes p)"
    using assms(1) by (simp add: visible_nodes_def map_filter_def comp_def)
  then show ?thesis using assms(2) by (metis (mono_tags, lifting) length_filter_less less_irrefl)
qed

text \<open>A fact is in the view exactly when both endpoints are visible and it is active.\<close>

lemma view_ref_spec:
  assumes "proj_inv p"
  shows "view_ref p clock =
    \<lparr> view_nodes = visible_nodes p (known_at clock),
      view_facts = filter (\<lambda>f. visible_node p (mf_source f) (known_at clock) \<noteq> None \<and>
        visible_node p (mf_target f) (known_at clock) \<noteq> None \<and> fact_is_active p f clock) (mp_facts p) \<rparr>"
proof -
  let ?t = "known_at clock"
  have inv: "nodes_ok p" "facts_ok p" using assms by (auto simp: proj_inv_def)
  have ends: "mf_source f \<in> set (node_ids p)" "mf_target f \<in> set (node_ids p)" if "f \<in> set (mp_facts p)" for f
    using inv(2) that by (auto simp: facts_ok_def)
  show ?thesis
  proof (cases "length (visible_nodes p ?t) = length (mp_nodes p)")
    case True
    have "visible_node p i ?t \<noteq> None" if i: "i \<in> set (node_ids p)" for i
    proof -
      from i obtain h where h: "h \<in> set (mp_nodes p)" "history_id h = i" by (auto simp: node_ids_def)
      then obtain m where m: "visible_revision h ?t = Some m" using visible_all [OF True] by blast
      then have "m \<in> set (visible_nodes p ?t)" using h by (auto simp: visible_nodes_def map_filter_def intro!: image_eqI [of _ _ h])
      moreover have "mn_id m = i" using visible_revision_id [OF _ m] h inv(1) by (simp add: nodes_ok_def)
      ultimately show ?thesis using visible_node_iff [OF inv(1) i] by blast
    qed
    then have "filter (\<lambda>f. visible_node p (mf_source f) ?t \<noteq> None \<and> visible_node p (mf_target f) ?t \<noteq> None \<and>
        fact_is_active p f clock) (mp_facts p) = filter (\<lambda>f. fact_is_active p f clock) (mp_facts p)"
      using ends by (intro filter_cong) auto
    then show ?thesis using True by (simp add: view_ref_def Let_def visible_nodes_def)
  next
    case False
    have "filter (\<lambda>f. (mf_source f \<in> mn_id ` set (visible_nodes p ?t) \<and> mf_target f \<in> mn_id ` set (visible_nodes p ?t)) \<and>
          fact_is_active p f clock) (mp_facts p) =
        filter (\<lambda>f. visible_node p (mf_source f) ?t \<noteq> None \<and> visible_node p (mf_target f) ?t \<noteq> None \<and>
          fact_is_active p f clock) (mp_facts p)"
      using ends visible_node_iff [OF inv(1)] by (intro filter_cong) auto
    then show ?thesis using False by (simp add: view_ref_def Let_def visible_nodes_def)
  qed
qed

section \<open>Views of the past\<close>

lemma visible_revision_later:
  "nr_recorded_at r > t \<Longrightarrow> visible_revision (h\<lparr>nh_later := nh_later h @ [r]\<rparr>) t = visible_revision h t"
  by (auto simp: visible_revision_def nh_revisions_def)

lemma visible_revision_new: "nr_recorded_at r > t \<Longrightarrow> visible_revision (node_history_new r) t = None"
  by (auto simp: visible_revision_def nh_revisions_def node_history_new_def max_by_key_def)

lemma insert_node_cases:
  assumes "insert_node r p = (Ok u, p')"
  obtains (fresh) x where "ix_get (mp_node_lookup p) (mn_id (nr_node r)) = None"
      "p' = p\<lparr> mp_node_lookup := fst (ix_insert (mp_node_lookup p) (mn_id (nr_node r)) (length (mp_nodes p))),
        mp_nodes := mp_nodes p @ [node_history_new r], mp_incident_offsets := mp_incident_offsets p @ [x] \<rparr>"
  | (later) n where "ix_get (mp_node_lookup p) (mn_id (nr_node r)) = Some n"
      "p' = p\<lparr>mp_nodes := (mp_nodes p)[n := (mp_nodes p ! n)\<lparr>nh_later := nh_later (mp_nodes p ! n) @ [r]\<rparr>]\<rparr>"
  using assms
  by (cases "node_validate (nr_node r)"; cases "ix_get (mp_node_lookup p) (mn_id (nr_node r))")
    (auto simp: insert_node_def Let_def)

lemma map_filter_update:
  "n < length xs \<Longrightarrow> g y = g (xs ! n) \<Longrightarrow> List.map_filter g (xs[n := y]) = List.map_filter g xs"
proof (induction xs arbitrary: n)
  case (Cons x xs)
  then show ?case by (cases n) (auto simp: List.map_filter_simps split: option.splits)
qed simp

lemma map_filter_snoc_None: "g y = None \<Longrightarrow> List.map_filter g (xs @ [y]) = List.map_filter g xs"
  by (simp add: map_filter_def)

lemma visible_after_node:
  assumes "nodes_ok p" "insert_node r p = (Ok u, q)" "nr_recorded_at r > t"
  shows "visible_nodes q t = visible_nodes p t \<and> (\<forall>i. visible_node q i t = visible_node p i t)"
  using assms(2)
proof (cases rule: insert_node_cases)
  case (fresh x)
  have old: "n < length (mp_nodes p)" if "ix_get (mp_node_lookup p) i = Some n" for i n
    using node_ids_index [OF assms(1) that] by simp
  have "visible_node q i t = visible_node p i t" for i
    using fresh old [of i] visible_revision_new [OF assms(3)]
    by (cases "ix_get (mp_node_lookup p) i")
      (auto simp: visible_node_def ix.look_put nth_append)
  then show ?thesis
    using fresh visible_revision_new [OF assms(3)] by (simp add: visible_nodes_def map_filter_snoc_None)
next
  case (later n)
  have n: "n < length (mp_nodes p)" using node_ids_index [OF assms(1) later(1)] by simp
  have "visible_revision ((mp_nodes p)[n := (mp_nodes p ! n)\<lparr>nh_later := nh_later (mp_nodes p ! n) @ [r]\<rparr>] ! m) t =
      visible_revision (mp_nodes p ! m) t" for m
    using n visible_revision_later [OF assms(3)] by (cases "m = n") simp_all
  then show ?thesis
    using later n visible_revision_later [OF assms(3)]
    by (simp add: visible_nodes_def map_filter_update visible_node_def)
qed

lemma active_after_fact:
  assumes "fact_accepted f source target p" "mf_recorded_at f > known_at clock"
  shows "fact_is_active (fact_inserted f source target p) g clock = fact_is_active p g clock"
proof -
  let ?P = "\<lambda>c. sup_recorded_at c \<le> known_at clock \<and> sup_valid_from c \<le> valid_at clock"
  have "(case bt_get (mp_supersessions (fact_inserted f source target p)) i of None \<Rightarrow> False | Some c \<Rightarrow> ?P c) =
      (case bt_get (mp_supersessions p) i of None \<Rightarrow> False | Some c \<Rightarrow> ?P c)" for i
    using assms by (auto simp: fact_inserted_def fact_accepted_def sup_of_def split: option.splits)
  moreover have "mp_retractions (fact_inserted f source target p) = mp_retractions p"
    by (simp add: fact_inserted_def)
  ultimately show ?thesis by (simp add: fact_is_active_def)
qed

lemma active_after_retraction:
  assumes "bt_get (mp_retractions p) i = None" "t > known_at clock"
  shows "fact_is_active (p\<lparr> mp_retractions := bt_insert (mp_retractions p) i \<lparr> ret_valid_until = u, ret_recorded_at = t \<rparr>,
      mp_last_global_position := x \<rparr>) g clock = fact_is_active p g clock"
proof -
  let ?P = "\<lambda>c. ret_recorded_at c \<le> known_at clock \<and> ret_valid_until c \<le> valid_at clock"
  have "(case bt_get (bt_insert (mp_retractions p) i \<lparr> ret_valid_until = u, ret_recorded_at = t \<rparr>) j of None \<Rightarrow> False | Some c \<Rightarrow> ?P c) =
      (case bt_get (mp_retractions p) j of None \<Rightarrow> False | Some c \<Rightarrow> ?P c)" for j
    using assms by auto
  then show ?thesis by (simp add: fact_is_active_def)
qed

lemma view_congs [simp]:
  "visible_node (p\<lparr>mp_last_global_position := x\<rparr>) = visible_node p"
  "visible_nodes (p\<lparr>mp_last_global_position := x\<rparr>) = visible_nodes p"
  "fact_is_active (p\<lparr>mp_last_global_position := x\<rparr>) = fact_is_active p"
  "visible_node (p\<lparr>mp_retractions := r\<rparr>) = visible_node p"
  "visible_nodes (p\<lparr>mp_retractions := r\<rparr>) = visible_nodes p"
  "visible_node (fact_inserted f s t p) = visible_node p"
  "visible_nodes (fact_inserted f s t p) = visible_nodes p"
  by (simp_all add: fun_eq_iff visible_node_def visible_nodes_def fact_is_active_def fact_inserted_def)

lemma insert_node_keeps:
  "insert_node r p = (Ok u, q) \<Longrightarrow> mp_facts q = mp_facts p \<and> mp_supersessions q = mp_supersessions p \<and>
     mp_retractions q = mp_retractions p"
  by (erule insert_node_cases) simp_all

lemma view_stable:
  assumes "proj_inv p" "mp_apply p e = (res, p')" "em_recorded_at (se_metadata e) > known_at clock"
    and "\<And>i u ev. se_payload e = FactRetracted i u ev \<Longrightarrow> bt_get (mp_retractions p) i = None"
  shows "view_ref p' clock = view_ref p clock"
proof -
  note inv' = mp_apply_inv [OF assms(1,2)]
  have inv: "nodes_ok p" using assms(1) by (simp add: proj_inv_def)
  from assms(2) show ?thesis
  proof (cases rule: mp_apply_cases)
    case (node n q)
    note v = visible_after_node [OF inv node(3), of "known_at clock"] and k = insert_node_keeps [OF node(3)]
    have "fact_is_active q = fact_is_active p" using k by (simp add: fun_eq_iff fact_is_active_def)
    then show ?thesis
      unfolding view_ref_spec [OF assms(1)] view_ref_spec [OF inv'] using v k assms(3) node(4) by simp
  next
    case (recorded f source target)
    have late: "mf_recorded_at f > known_at clock" using recorded(3) assms(3) by simp
    have "\<not> fact_is_active p f clock" using late by (simp add: fact_is_active_def)
    moreover have "mp_facts p' = mp_facts p @ [f]" using recorded(5) by (simp add: fact_inserted_def)
    ultimately show ?thesis
      unfolding view_ref_spec [OF assms(1)] view_ref_spec [OF inv']
      using recorded(5) active_after_fact [OF recorded(4) late] by simp
  next
    case (retracted i until ev f)
    then show ?thesis
      unfolding view_ref_spec [OF assms(1)] view_ref_spec [OF inv']
      using active_after_retraction [OF assms(4) [OF retracted(1)] assms(3)] by simp
  qed simp
qed

section \<open>Reachable projections\<close>

text \<open>A fact supersedes only facts recorded before it, so supersession has no cycles.\<close>

definition sup_ordered :: "memory_fact list \<Rightarrow> bool" where
  "sup_ordered facts \<longleftrightarrow> (\<forall>j < length facts. \<forall>prior. mf_supersedes (facts ! j) = Some prior \<longrightarrow>
     (\<exists>i < j. mf_id (facts ! i) = prior))"

lemma sup_ordered_snoc:
  "sup_ordered facts \<Longrightarrow> (\<And>prior. mf_supersedes f = Some prior \<Longrightarrow> prior \<in> mf_id ` set facts) \<Longrightarrow> sup_ordered (facts @ [f])"
  unfolding sup_ordered_def
  by (auto simp: nth_append less_Suc_eq in_set_conv_nth) (metis in_set_conv_nth imageE order_less_trans)+

definition proj_good :: "memory_projection \<Rightarrow> bool" where
  "proj_good p \<longleftrightarrow> proj_inv p \<and> sup_ordered (mp_facts p)"

lemma proj_good_default: "proj_good (with_capacity ns fs)"
  using proj_inv_default by (simp add: proj_good_def sup_ordered_def with_capacity_def)

lemma mp_apply_good:
  assumes "proj_good p" "mp_apply p e = (res, p')"
  shows "proj_good p'"
proof -
  have inv: "proj_inv p" "facts_ok p" "sup_ordered (mp_facts p)"
    using assms(1) by (auto simp: proj_good_def proj_inv_def)
  have "sup_ordered (mp_facts p')"
    using assms(2)
  proof (cases rule: mp_apply_cases)
    case (node n q)
    then show ?thesis using inv(3) insert_node_keeps [OF node(3)] by simp
  next
    case (recorded f source target)
    have "sup_ordered (mp_facts p @ [f])"
      using inv(3) recorded(4) fact_ids_lookup [OF inv(2)]
      by (intro sup_ordered_snoc) (auto simp: fact_accepted_def fact_ids_def)
    then show ?thesis using recorded(5) by (simp add: fact_inserted_def)
  qed (use inv(3) in simp_all)
  then show ?thesis using mp_apply_inv [OF inv(1) assms(2)] by (simp add: proj_good_def)
qed

lemma project_good: "proj_good p \<Longrightarrow> project mp_apply p events = Ok q \<Longrightarrow> proj_good q"
proof (induction events arbitrary: p)
  case (Cons e events)
  then obtain p' where p': "apply_step mp_apply p e = Ok p'" "project mp_apply p' events = Ok q"
    by (auto simp: result_simps)
  then have "proj_good p'"
    using mp_apply_good [OF Cons.prems(1)] by (auto simp: apply_step_def split: prod.splits result.splits)
  then show ?case using Cons.IH p'(2) by blast
qed simp

text \<open>
  C8: every projection that replaying a log produces is consistent: the lookup indexes list exactly
  the nodes and facts, every revision and fact is valid, endpoints exist, the supersession and
  retraction tables agree with the facts, the incidence index lists for each node exactly the facts
  that touch it, and facts supersede only earlier facts. The log it was built from was well formed
  and the cursor is the cursor of that log.
\<close>

theorem replay_builds_consistent_projection:
  assumes "replay_tracked (memory_ops ns fs) log = Ok (p, c)"
  shows "proj_good p \<and> log_ok log \<and> c = cursor_of log"
proof -
  have "project mp_apply (with_capacity ns fs) log = Ok p \<and> log_ok log \<and> c = cursor_of log"
    using assms mem.replay_tracked_Ok [of ns fs log p c] by (simp add: memory_ops_def)
  then show ?thesis using project_good [OF proj_good_default] by blast
qed

text \<open>
  An event that is rejected, for whatever reason and at whatever step, leaves the projection
  exactly as it was; the owned and the borrowing application agree on every event.
\<close>

theorem rejected_event_changes_nothing:
  "(mp_apply p e = (Err x, p') \<longrightarrow> p' = p) \<and> mp_apply_owned p e = mp_apply p e"
  using mp_apply_err mp_apply_owned_eq by blast

text \<open>
  C9: resuming from a snapshot gives what replaying the whole log gives, errors included, as long
  as the tail does not reuse an event identifier of the part already replayed; and consuming replay
  agrees with borrowing replay.
\<close>

theorem resume_equals_full_replay:
  assumes "replay_tracked (memory_ops ns fs) log = Ok (p, c)"
    and "set (map event_id_of log) \<inter> set (map event_id_of tail) = {}"
  shows "resume (memory_ops ns fs) \<lparr> ps_cursor = c, ps_projection = p \<rparr> tail =
      replay_tracked (memory_ops ns fs) (log @ tail) \<and>
    replay_owned (memory_ops ns fs) log = replay (memory_ops ns fs) log"
  using mem.resume_continues [OF assms] mem.replay_owned_agrees by blast

text \<open>
  The view with its shortcut for the case that all nodes are visible is the plain definition:
  the latest visible revision of every node, and the facts that are active at the clock and whose
  two endpoints are visible.
\<close>

theorem view_shortcut_correct:
  assumes "proj_inv p"
  shows "view_ref p clock =
    \<lparr> view_nodes = List.map_filter (\<lambda>h. visible_revision h (known_at clock)) (mp_nodes p),
      view_facts = filter (\<lambda>f. visible_node p (mf_source f) (known_at clock) \<noteq> None \<and>
        visible_node p (mf_target f) (known_at clock) \<noteq> None \<and> fact_is_active p f clock) (mp_facts p) \<rparr>"
  using view_ref_spec [OF assms] by (simp add: visible_nodes_def)

text \<open>
  C10: an event recorded after a knowledge time does not change what was known at that time: every
  view at an earlier \<open>known_at\<close> stays the same, provided the event does not retract a fact that
  already has a retraction.
\<close>

theorem past_views_are_stable:
  assumes "proj_inv p" "mp_apply p e = (res, p')" "known_at clock < em_recorded_at (se_metadata e)"
    and "\<forall>i u ev. se_payload e = FactRetracted i u ev \<longrightarrow> bt_get (mp_retractions p) i = None"
  shows "view_ref p' clock = view_ref p clock"
  using assms by (intro view_stable) auto

text \<open>The incidence lists of a consistent projection, as a filter of its facts.\<close>

lemma incident_fact_ids_spec:
  assumes "proj_inv p" "i \<in> set (node_ids p)"
  shows "incident_fact_ids p i = map mf_id (filter (\<lambda>f. touches f i) (mp_facts p))"
proof -
  have inv: "nodes_ok p" "facts_ok p" "incidents_ok p" using assms(1) by (auto simp: proj_inv_def)
  obtain n where n: "ix_get (mp_node_lookup p) i = Some n"
    using node_ids_lookup [OF inv(1)] assms(2) by fastforce
  have "incident_indexes p n = incident_spec (mp_facts p) i"
    using inv(3) node_ids_index [OF inv(1) n] by (auto simp: incidents_ok_def)
  then have "incident_fact_ids p i = map mf_id (map ((!) (mp_facts p)) (incident_spec (mp_facts p) i))"
    using n by (simp add: incident_fact_ids_def)
  then show ?thesis by (simp only: nth_incident_spec)
qed

text \<open>
  Incidence queries are exact: for a node of the projection the code returns the identifiers of
  exactly the facts whose source or target it is, in recording order and without repetition.
\<close>

theorem incident_facts_exact:
  assumes "proj_inv p" "i \<in> set (node_ids p)"
  shows "incident_fact_ids p i = map mf_id (filter (\<lambda>f. touches f i) (mp_facts p)) \<and>
    distinct (incident_fact_ids p i)"
proof -
  have "distinct (map mf_id (filter (\<lambda>f. touches f i) (mp_facts p)))"
    using fact_ids_distinct [of p] distinct_map_filter assms(1) unfolding fact_ids_def proj_inv_def by blast
  then show ?thesis using incident_fact_ids_spec [OF assms] by simp
qed

section \<open>A small history\<close>

definition demo_node :: "string \<Rightarrow> memory_node" where
  "demo_node i = \<lparr> mn_id = TextId i, mn_kind = ''module'', mn_label = ''label'', mn_repository = None,
     mn_branch = None, mn_attributes = [] \<rparr>"

definition demo_evidence :: evidence where
  "demo_evidence = \<lparr> ev_kind = ''test'', ev_source = ''suite'', ev_locator = None, ev_digest = None \<rparr>"

definition demo_fact :: memory_fact where
  "demo_fact = \<lparr> mf_id = TextId ''f'', mf_source = TextId ''a'', mf_relation = ''calls'', mf_target = TextId ''b'',
     mf_valid_from = Timestamp 1, mf_valid_until = None, mf_observed_at = Timestamp 2, mf_recorded_at = Timestamp 2,
     mf_agent_id = TextId ''agent'', mf_session_id = TextId ''session'', mf_confidence = certain,
     mf_evidence = [demo_evidence], mf_supersedes = None \<rparr>"

definition demo_event :: "string \<Rightarrow> u64 \<Rightarrow> i64 \<Rightarrow> memory_event \<Rightarrow> memory_event stored_event" where
  "demo_event i position recorded payload =
    stamp (TextId ''s'') position position
      \<lparr> ne_id = TextId i, ne_event_type = event_type payload, ne_occurred_at = Timestamp recorded,
        ne_recorded_at = Timestamp recorded, ne_agent_id = TextId ''agent'', ne_session_id = TextId ''session'',
        ne_correlation_id = None, ne_causation_id = None, ne_payload = payload \<rparr>"

definition demo_log :: "memory_event stored_event list" where
  "demo_log =
    [demo_event ''e0'' 0 1 (NodeUpserted (demo_node ''a'')), demo_event ''e1'' 1 1 (NodeUpserted (demo_node ''b'')),
     demo_event ''e2'' 2 2 (FactRecorded demo_fact),
     demo_event ''e3'' 3 4 (FactRetracted (TextId ''f'') (Timestamp 3) [demo_evidence])]"

definition demo_retraction :: "memory_event stored_event" where
  "demo_retraction = demo_event ''e4'' 4 8 (FactRetracted (TextId ''f'') (Timestamp 9) [demo_evidence])"


lemma demo_trimmed: "trimmed ''module''" "trimmed ''test''" "trimmed ''suite''" "trimmed ''calls''"
  by (simp_all add: trimmed_code white_space_def suffix_def prefix_def)

lemma demo_valid: "node_validate (demo_node i) = Ok ()" "fact_validate demo_fact = Ok ()"
  "evidence_validate demo_evidence = Ok ()"
  by (simp_all add: node_validate_Ok fact_validate_Ok evidence_validate_Ok node_ok_def fact_ok_def evidence_ok_def
      demo_node_def demo_evidence_def demo_fact_def demo_trimmed less_eq_timestamp_def)

definition demo_projection :: "(fact_id, retraction) btree_map \<Rightarrow> u64 \<Rightarrow> memory_projection" where
  "demo_projection rets position =
    \<lparr> mp_nodes = [node_history_new \<lparr> nr_node = demo_node ''a'', nr_recorded_at = Timestamp 1, nr_position = 0 \<rparr>,
        node_history_new \<lparr> nr_node = demo_node ''b'', nr_recorded_at = Timestamp 1, nr_position = 1 \<rparr>],
      mp_facts = [demo_fact],
      mp_node_lookup = fst (ix_insert (fst (ix_insert (ix_new 0) (TextId ''a'') 0)) (TextId ''b'') 1),
      mp_fact_lookup = fst (ix_insert (ix_new 0) (TextId ''f'') 0),
      mp_incident_offsets = [0, 0, 0], mp_incident_facts = [], mp_incident_delta = [0 \<mapsto> [0], 1 \<mapsto> [0]],
      mp_supersessions = [], mp_retractions = rets,
      mp_last_global_position = Some position \<rparr>"

lemma demo_sel [simp]: "mn_id (demo_node i) = TextId i" "mf_id demo_fact = TextId ''f''" "mf_source demo_fact = TextId ''a''"
  "mf_target demo_fact = TextId ''b''" "mf_valid_from demo_fact = Timestamp 1" "mf_recorded_at demo_fact = Timestamp 2"
  "mf_valid_until demo_fact = None"
  "mf_agent_id demo_fact = TextId ''agent''" "mf_session_id demo_fact = TextId ''session''" "mf_supersedes demo_fact = None"
  by (simp_all add: demo_node_def demo_fact_def)

lemmas demo_simps = apply_step_def mp_apply_def demo_event_def stamp_def insert_node_def insert_fact_def demo_valid
  Let_def seq_op_def lift_op_def apply_retraction_def with_capacity_def ix.look_put ix.look_empty require_entity_def
  ix_contains_key_def mp_fact_def delta_push_def demo_projection_def last_of_def less_eq_timestamp_def less_timestamp_def

definition demo_first :: retraction where
  "demo_first = \<lparr> ret_valid_until = Timestamp 3, ret_recorded_at = Timestamp 4 \<rparr>"

definition demo_second :: retraction where
  "demo_second = \<lparr> ret_valid_until = Timestamp 9, ret_recorded_at = Timestamp 8 \<rparr>"

lemma demo_project:
  "project mp_apply (with_capacity 0 0) demo_log = Ok (demo_projection [(TextId ''f'', demo_first)] 3)"
  by (simp add: demo_log_def demo_first_def demo_simps)

lemma demo_apply:
  "mp_apply (demo_projection [(TextId ''f'', demo_first)] 3) demo_retraction =
     (Ok (), demo_projection [(TextId ''f'', demo_second)] 4)"
  by (simp add: demo_retraction_def demo_second_def demo_simps)

lemma demo_log_ok: "log_ok (demo_log @ [demo_retraction])"
proof -
  let ?e = "\<lambda>i. (demo_log @ [demo_retraction]) ! i"
  have "log_ok ((((([] @ [?e 0]) @ [?e 1]) @ [?e 2]) @ [?e 3]) @ [?e 4])"
    unfolding log_ok_snoc by (simp add: demo_log_def demo_retraction_def demo_event_def)
  then show ?thesis by (simp add: demo_log_def)
qed

lemma demo_replay:
  "replay_tracked (memory_ops 0 0) demo_log = Ok (demo_projection [(TextId ''f'', demo_first)] 3, cursor_of demo_log)"
  using mem.replay_tracked_accepts [OF log_ok_append_left [OF demo_log_ok], of 0 0] demo_project
  by (simp add: memory_ops_def)

lemma demo_inv: "proj_inv (demo_projection [(TextId ''f'', demo_first)] 3)"
  using project_good [OF proj_good_default demo_project] by (simp add: proj_good_def)

theorem replay_builds_consistent_projection_witness:
  "proj_good (demo_projection [(TextId ''f'', demo_first)] 3) \<and> log_ok demo_log"
  using replay_builds_consistent_projection [OF demo_replay] by blast

theorem rejected_event_changes_nothing_witness:
  "mp_apply (with_capacity 0 0) (demo_event ''e0'' 0 2 (FactRecorded demo_fact)) =
     (Err (MissingEntity ''a''), with_capacity 0 0)"
proof -
  let ?e = "demo_event ''e0'' 0 2 (FactRecorded demo_fact)"
  obtain p' where a: "mp_apply (with_capacity 0 0) ?e = (Err (MissingEntity ''a''), p')"
    by (simp add: demo_simps)
  with rejected_event_changes_nothing [of "with_capacity 0 0" ?e "MissingEntity ''a''" p'] show ?thesis by simp
qed

theorem resume_equals_full_replay_witness:
  "resume (memory_ops 0 0) \<lparr> ps_cursor = cursor_of demo_log, ps_projection = demo_projection [(TextId ''f'', demo_first)] 3 \<rparr>
     [demo_retraction] = replay_tracked (memory_ops 0 0) (demo_log @ [demo_retraction])"
  by (rule resume_equals_full_replay [OF demo_replay, THEN conjunct1])
    (simp add: demo_log_def demo_retraction_def demo_event_def)

lemma demo_visible:
  "visible_revision (node_history_new \<lparr> nr_node = demo_node i, nr_recorded_at = Timestamp 1, nr_position = w \<rparr>) (Timestamp 6) =
     Some (demo_node i)"
  by (simp add: visible_revision_def node_history_new_def nh_revisions_def max_by_key_def less_eq_timestamp_def)

theorem view_shortcut_correct_witness:
  "view_facts (view_ref (demo_projection [(TextId ''f'', demo_first)] 3) \<lparr> valid_at = Timestamp 2, known_at = Timestamp 6 \<rparr>) =
     [demo_fact]"
  unfolding view_shortcut_correct [OF demo_inv]
  by (simp add: demo_projection_def visible_node_def ix.look_put ix.look_empty demo_visible fact_is_active_def
      bt_get_def demo_first_def less_eq_timestamp_def less_timestamp_def)

theorem incident_facts_exact_witness:
  "incident_fact_ids (demo_projection [(TextId ''f'', demo_first)] 3) (TextId ''b'') = [TextId ''f'']"
proof -
  have "TextId ''b'' \<in> set (node_ids (demo_projection [(TextId ''f'', demo_first)] 3))"
    by (simp add: node_ids_def demo_projection_def)
  from incident_facts_exact [OF demo_inv this] show ?thesis
    by (simp add: demo_projection_def touches_def)
qed

definition demo_upsert :: "memory_event stored_event" where
  "demo_upsert = demo_event ''e4'' 4 8 (NodeUpserted (demo_node ''a''))"

theorem past_views_are_stable_witness:
  "view_ref (snd (mp_apply (demo_projection [(TextId ''f'', demo_first)] 3) demo_upsert)) \<lparr> valid_at = Timestamp 2, known_at = Timestamp 6 \<rparr> =
   view_ref (demo_projection [(TextId ''f'', demo_first)] 3) \<lparr> valid_at = Timestamp 2, known_at = Timestamp 6 \<rparr>"
proof -
  obtain res p' where a: "mp_apply (demo_projection [(TextId ''f'', demo_first)] 3) demo_upsert = (res, p')" by force
  have "known_at \<lparr> valid_at = Timestamp 2, known_at = Timestamp 6 \<rparr> < em_recorded_at (se_metadata demo_upsert)"
    by (simp add: demo_upsert_def demo_event_def stamp_def less_timestamp_def)
  from past_views_are_stable [OF demo_inv a this] a show ?thesis
    by (simp add: demo_upsert_def demo_event_def stamp_def)
qed


end
