(* ===== verification/Projection_Index.thy ===== *)
theory Projection_Index
  imports Memory_Projection
begin

text \<open>
  Building the indexes of a projection in one go: the compressed incidence index (counting sort of
  \<open>set_incidents\<close>), \<open>rebuild_indexes\<close> and \<open>validate_changes\<close> of \<open>state.rs\<close>, which every decoded
  projection goes through, and the bulk constructor \<open>try_from_parts\<close> of \<open>parts.rs\<close> with its
  parallel preparation of facts. Here too the indexes end up as the event-by-event updates leave
  them.
\<close>

section \<open>The incidence index (\<open>state.rs\<close>)\<close>

definition bump :: "usize list \<Rightarrow> usize \<Rightarrow> usize list memory_result" where
  "bump offsets i =
    and_then (ok_or (usize_checked_add (offsets ! i) 1) CapacityOverflow) (\<lambda>x. Ok (offsets[i := x]))"

definition count_step :: "usize list \<Rightarrow> usize \<times> usize \<Rightarrow> usize list memory_result" where
  "count_step offsets endpoint =
    (case endpoint of (source, target) \<Rightarrow>
      and_then (bump offsets (source + 1)) (\<lambda>offsets.
        if target \<noteq> source then bump offsets (target + 1) else Ok offsets))"

definition prefix_step :: "usize list \<Rightarrow> usize \<Rightarrow> usize list memory_result" where
  "prefix_step offsets index =
    and_then (ok_or (usize_checked_add (offsets ! index) (offsets ! (index - 1))) CapacityOverflow)
      (\<lambda>x. Ok (offsets[index := x]))"

definition place :: "usize list \<times> usize list \<Rightarrow> usize \<Rightarrow> usize \<Rightarrow> usize list \<times> usize list" where
  "place state node value =
    (case state of (cursor, incidents) \<Rightarrow>
      (cursor[node := cursor ! node + 1], incidents[cursor ! node := value]))"

definition fill_step :: "usize list \<times> usize list \<Rightarrow> usize \<times> usize \<times> usize \<Rightarrow> usize list \<times> usize list" where
  "fill_step state entry =
    (case entry of (index, source, target) \<Rightarrow>
      (let state = place state source index
       in if target \<noteq> source then place state target index else state))"

definition set_incidents :: "(usize \<times> usize) list \<Rightarrow> memory_projection \<Rightarrow> memory_projection memory_result" where
  "set_incidents endpoints p =
    (let n = length (mp_nodes p) in
     and_then (try_fold count_step (replicate (n + 1) 0) endpoints) (\<lambda>offsets.
     and_then (try_fold prefix_step offsets [1..<length offsets]) (\<lambda>offsets.
       (let cursor = take n offsets;
            incidents = replicate (last offsets) 0;
            (cursor, incidents) = foldl fill_step (cursor, incidents) (enumerate 0 endpoints)
        in Ok (p\<lparr> mp_incident_offsets := offsets, mp_incident_facts := incidents,
                  mp_incident_delta := Map.empty \<rparr>)))))"

subsection \<open>Correctness of the counting sort\<close>

definition meets :: "usize \<times> usize \<Rightarrow> usize \<Rightarrow> bool" where
  "meets e i \<longleftrightarrow> fst e = i \<or> snd e = i"

definition degree :: "(usize \<times> usize) list \<Rightarrow> usize \<Rightarrow> nat" where
  "degree es i = length (filter (\<lambda>e. meets e i) es)"

definition incidence :: "(usize \<times> usize) list \<Rightarrow> usize \<Rightarrow> usize list" where
  "incidence es i = filter (\<lambda>j. meets (es ! j) i) [0..<length es]"

definition start_of :: "(usize \<times> usize) list \<Rightarrow> usize \<Rightarrow> nat" where
  "start_of es k = sum_list (map (degree es) [0..<k])"

definition within :: "nat \<Rightarrow> (usize \<times> usize) list \<Rightarrow> bool" where
  "within n es \<longleftrightarrow> (\<forall>e \<in> set es. fst e < n \<and> snd e < n)"

lemma degree_snoc: "degree (es @ [e]) i = degree es i + (if meets e i then 1 else 0)"
  by (simp add: degree_def)

lemma degree_le: "degree es i \<le> length es"
  by (simp add: degree_def)

lemma incidence_snoc: "incidence (es @ [e]) i = incidence es i @ (if meets e i then [length es] else [])"
proof -
  have "filter (\<lambda>j. meets ((es @ [e]) ! j) i) [0..<length es] = incidence es i"
    unfolding incidence_def by (rule filter_cong) (auto simp: nth_append)
  then show ?thesis by (simp add: incidence_def)
qed

lemma length_incidence: "length (incidence es i) = degree es i"
  by (induction es rule: rev_induct) (auto simp: incidence_snoc degree_snoc, simp_all add: incidence_def degree_def)

lemma start_Suc: "start_of es (Suc k) = start_of es k + degree es k"
  by (simp add: start_of_def)

lemma start_mono: "i \<le> j \<Longrightarrow> start_of es i \<le> start_of es j"
  by (induction rule: dec_induct) (auto simp: start_Suc)

lemma start_bound: "start_of es n \<le> 2 * length es"
proof (induction es rule: rev_induct)
  case (snoc e es)
  have "start_of (es @ [e]) n = start_of es n + length (filter (\<lambda>i. meets e i) [0..<n])"
    by (induction n) (auto simp: start_Suc degree_snoc, simp_all add: start_of_def)
  moreover have "length (filter (\<lambda>i. meets e i) [0..<n]) \<le> 2"
  proof -
    have "card (set (filter (\<lambda>i. meets e i) [0..<n])) \<le> card {fst e, snd e}"
      by (rule card_mono) (auto simp: meets_def)
    also have "\<dots> \<le> 2" by (simp add: card_insert_if)
    finally show ?thesis using distinct_card [of "filter (\<lambda>i. meets e i) [0..<n]"] by simp
  qed
  ultimately show ?case using snoc by simp
qed (simp add: start_of_def degree_def)

lemma counts_update: "s < n \<Longrightarrow> (map f [0..<n])[s := x] = map (f(s := x)) [0..<n]"
  by (auto intro!: nth_equalityI simp: nth_list_update)

lemma bump_counts:
  "s < n \<Longrightarrow> f s < usize_max \<Longrightarrow> bump (0 # map f [0..<n]) (s + 1) = Ok (0 # map (f(s := f s + 1)) [0..<n])"
  by (simp add: bump_def usize_checked_add_def counts_update)

lemma count_fold:
  assumes "within n es" "length es \<le> usize_max"
  shows "try_fold count_step (replicate (n + 1) 0) es = Ok (0 # map (degree es) [0..<n])"
  using assms
proof (induction es rule: rev_induct)
  case Nil
  have "map (degree []) [0..<n] = replicate n 0"
    by (auto intro!: nth_equalityI simp: degree_def)
  then show ?case by simp
next
  case (snoc e es)
  obtain s t where e: "e = (s, t)" by force
  then have st: "s < n" "t < n" using snoc.prems by (auto simp: within_def)
  have IH: "try_fold count_step (replicate (n + 1) 0) es = Ok (0 # map (degree es) [0..<n])"
    using snoc by (simp add: within_def)
  have small: "degree es i < usize_max" for i using degree_le [of es i] snoc.prems(2) by simp
  have "count_step (0 # map (degree es) [0..<n]) (s, t) = Ok (0 # map (degree (es @ [e])) [0..<n])"
  proof (cases "t = s")
    case True
    then have "(degree es)(s := degree es s + 1) = degree (es @ [e])"
      by (auto simp: degree_snoc e meets_def fun_eq_iff)
    then show ?thesis using True bump_counts [OF st(1) small] by (simp add: count_step_def)
  next
    case False
    have "((degree es)(s := degree es s + 1))(t := degree es t + 1) = degree (es @ [e])"
      using False by (auto simp: degree_snoc e meets_def fun_eq_iff)
    moreover have "bump (0 # map ((degree es)(s := degree es s + 1)) [0..<n]) (t + 1) =
        Ok (0 # map (((degree es)(s := degree es s + 1))(t := degree es t + 1)) [0..<n])"
      using bump_counts [OF st(2), of "(degree es)(s := degree es s + 1)"] small [of t] False by simp
    ultimately show ?thesis using False bump_counts [OF st(1) small] by (simp add: count_step_def)
  qed
  then show ?case using IH by (simp only: try_fold_append and_then.simps try_fold.simps e)
qed

lemma prefix_fold:
  assumes "start_of es n \<le> usize_max" "k \<le> n"
  shows "try_fold prefix_step (0 # map (degree es) [0..<n]) [1..<Suc k] =
    Ok (map (start_of es) [0..<Suc k] @ map (degree es) [k..<n])"
  using assms(2)
proof (induction k)
  case 0
  then show ?case by (simp add: start_of_def)
next
  case (Suc k)
  let ?l = "map (start_of es) [0..<Suc k] @ map (degree es) [k..<n]"
  have IH: "try_fold prefix_step (0 # map (degree es) [0..<n]) [1..<Suc k] = Ok ?l" using Suc by simp
  have "?l ! Suc k = degree es k" "?l ! k = start_of es k"
    using Suc.prems by (simp_all add: nth_append)
  moreover have "degree es k + start_of es k \<le> usize_max"
    using start_mono [of "Suc k" n es] Suc.prems assms(1) by (simp add: start_Suc)
  moreover have "?l[Suc k := start_of es (Suc k)] = map (start_of es) [0..<Suc (Suc k)] @ map (degree es) [Suc k..<n]"
  proof -
    have "[k..<n] = k # [Suc k..<n]" using Suc.prems by (simp add: upt_conv_Cons)
    then show ?thesis by (simp add: list_update_append)
  qed
  ultimately have "prefix_step ?l (Suc k) = Ok (map (start_of es) [0..<Suc (Suc k)] @ map (degree es) [Suc k..<n])"
    by (simp add: prefix_step_def usize_checked_add_def start_Suc add.commute)
  moreover have "[1..<Suc (Suc k)] = [1..<Suc k] @ [Suc k]" by simp
  ultimately show ?case using IH by (simp only: try_fold_append and_then.simps try_fold.simps)
qed

lemma offsets_computed:
  assumes "within n es" "2 * length es \<le> usize_max"
  shows "and_then (try_fold count_step (replicate (n + 1) 0) es) (\<lambda>offsets.
      try_fold prefix_step offsets [1..<length offsets]) = Ok (map (start_of es) [0..<Suc n])"
proof -
  have "start_of es n \<le> usize_max" using start_bound [of es n] assms(2) by simp
  from prefix_fold [OF this order_refl] count_fold [OF assms(1)] assms(2) show ?thesis
    by (simp del: upt_Suc)
qed

text \<open>Writing one entry into the range of a node extends that range and no other.\<close>

definition filled :: "nat \<Rightarrow> (usize \<times> usize) list \<Rightarrow> (usize \<Rightarrow> usize list) \<Rightarrow> usize list \<times> usize list \<Rightarrow> bool" where
  "filled n es inc state \<longleftrightarrow> fst state = map (\<lambda>i. start_of es i + length (inc i)) [0..<n] \<and>
    length (snd state) = start_of es n \<and>
    (\<forall>i < n. take (length (inc i)) (drop (start_of es i) (snd state)) = inc i)"

lemma filled_place:
  assumes "filled n es inc state" "s < n" "\<forall>i < n. length (inc i) \<le> degree es i" "length (inc s) < degree es s"
  shows "filled n es (inc(s := inc s @ [v])) (place state s v)"
proof -
  obtain cursor incidents where st: "state = (cursor, incidents)" by force
  let ?q = "start_of es s + length (inc s)"
  have cur: "cursor = map (\<lambda>i. start_of es i + length (inc i)) [0..<n]" and len: "length incidents = start_of es n"
    and sl: "\<And>i. i < n \<Longrightarrow> take (length (inc i)) (drop (start_of es i) incidents) = inc i"
    using assms(1) by (auto simp: filled_def st)
  have q: "cursor ! s = ?q" using assms(2) cur by simp
  have "start_of es (Suc s) \<le> start_of es n" using assms(2) by (intro start_mono) simp
  then have qlt: "?q < length incidents" using assms(4) len by (simp add: start_Suc)
  have other: "take (length (inc i)) (drop (start_of es i) (incidents[?q := v])) = inc i" if i: "i < n" "i \<noteq> s" for i
  proof (cases "i < s")
    case True
    have "start_of es (Suc i) \<le> start_of es s" using True by (intro start_mono) simp
    moreover have "length (inc i) \<le> degree es i" using assms(3) i by simp
    ultimately have "length (inc i) \<le> ?q - start_of es i" "start_of es i \<le> ?q" by (auto simp: start_Suc)
    then show ?thesis using sl [OF i(1)] by (simp add: drop_update_swap take_update_cancel)
  next
    case False
    then have "start_of es (Suc s) \<le> start_of es i" using i by (intro start_mono) simp
    then have "?q < start_of es i" using assms(4) by (simp add: start_Suc)
    then show ?thesis using sl [OF i(1)] by simp
  qed
  have this_one: "take (Suc (length (inc s))) (drop (start_of es s) (incidents[?q := v])) = inc s @ [v]"
  proof -
    have "take (Suc (length (inc s))) (drop (start_of es s) (incidents[?q := v])) =
        take (length (inc s)) (drop (start_of es s) (incidents[?q := v])) @ [incidents[?q := v] ! ?q]"
      using qlt by (subst take_Suc_conv_app_nth) simp_all
    then show ?thesis using sl [OF assms(2)] qlt by (simp add: drop_update_swap take_update_cancel)
  qed
  have "(map (\<lambda>i. start_of es i + length (inc i)) [0..<n])[s := ?q + 1] =
      map (\<lambda>i. start_of es i + length ((inc(s := inc s @ [v])) i)) [0..<n]"
    using assms(2) by (auto intro!: nth_equalityI simp: nth_list_update)
  then show ?thesis
    using len other this_one cur q by (auto simp: filled_def st place_def)
qed

lemma fill_fold:
  assumes "within n (es @ rest)"
  shows "filled n (es @ rest) (incidence es)
    (foldl fill_step (map (start_of (es @ rest)) [0..<n], replicate (start_of (es @ rest) n) 0) (enumerate 0 es))"
  using assms
proof (induction es arbitrary: rest rule: rev_induct)
  case Nil
  then show ?case by (simp add: filled_def incidence_def)
next
  case (snoc e es)
  obtain s t where e: "e = (s, t)" by force
  then have st: "s < n" "t < n" using snoc.prems by (auto simp: within_def)
  let ?all = "es @ [e] @ rest"
  let ?state = "foldl fill_step (map (start_of ?all) [0..<n], replicate (start_of ?all n) 0) (enumerate 0 es)"
  have IH: "filled n ?all (incidence es) ?state" using snoc.IH [of "[e] @ rest"] snoc.prems by simp
  have le: "\<forall>i < n. length (incidence es i) \<le> degree ?all i"
    by (simp add: length_incidence degree_def)
  have lt: "length (incidence es i) < degree ?all i" if "meets e i" for i
    using that by (simp add: length_incidence degree_def)
  have "filled n ?all (incidence (es @ [e])) (fill_step ?state (length es, s, t))"
  proof (cases "t = s")
    case True
    have "(incidence es)(s := incidence es s @ [length es]) = incidence (es @ [e])"
      using True by (auto simp: fun_eq_iff incidence_snoc e meets_def)
    then show ?thesis
      using filled_place [OF IH st(1) le lt, of "length es"] True by (simp add: fill_step_def Let_def e meets_def)
  next
    case False
    let ?inc = "(incidence es)(s := incidence es s @ [length es])"
    have one: "filled n ?all ?inc (place ?state s (length es))"
      using filled_place [OF IH st(1) le lt] by (simp add: e meets_def)
    have le2: "\<forall>i < n. length (?inc i) \<le> degree ?all i" using le lt [of s] by (auto simp: e meets_def)
    have lt2: "length (?inc t) < degree ?all t" using lt [of t] False by (simp add: e meets_def)
    have eq: "?inc(t := ?inc t @ [length es]) = incidence (es @ [e])"
      using False by (auto simp: fun_eq_iff incidence_snoc e meets_def)
    have "filled n ?all (incidence (es @ [e])) (place (place ?state s (length es)) t (length es))"
      using filled_place [OF one st(2) le2 lt2, of "length es"] unfolding eq .
    then show ?thesis using False by (simp add: fill_step_def Let_def)
  qed
  moreover have "enumerate 0 (es @ [e]) = enumerate 0 es @ [(length es, s, t)]"
    by (simp add: enumerate_append_eq e)
  ultimately show ?case by simp
qed

lemma set_incidents_correct:
  assumes "within (length (mp_nodes p)) es" "2 * length es \<le> usize_max"
  obtains p' where "set_incidents es p = Ok p'"
    "p' = p\<lparr> mp_incident_offsets := mp_incident_offsets p', mp_incident_facts := mp_incident_facts p', mp_incident_delta := Map.empty \<rparr>"
    "length (mp_incident_offsets p') = Suc (length (mp_nodes p))"
    "\<And>i. i < length (mp_nodes p) \<Longrightarrow> incident_indexes p' i = incidence es i"
proof -
  let ?n = "length (mp_nodes p)"
  let ?off = "map (start_of es) [0..<Suc ?n]"
  obtain cursor incidents where fill: "foldl fill_step (map (start_of es) [0..<?n], replicate (start_of es ?n) 0) (enumerate 0 es) =
      (cursor, incidents)" by force
  let ?p = "p\<lparr> mp_incident_offsets := ?off, mp_incident_facts := incidents, mp_incident_delta := Map.empty \<rparr>"
  have "filled ?n es (incidence es) (cursor, incidents)" using fill_fold [of ?n es "[]"] assms(1) fill by simp
  then have sl: "take (degree es i) (drop (start_of es i) incidents) = incidence es i" if "i < ?n" for i
    using that by (simp add: filled_def length_incidence)
  have off: "and_then (try_fold count_step (replicate (?n + 1) 0) es) (\<lambda>offsets.
      and_then (try_fold prefix_step offsets [1..<length offsets]) f) = f ?off" for f :: "usize list \<Rightarrow> memory_projection memory_result"
    using offsets_computed [OF assms] by (simp add: and_then_assoc [symmetric] del: upt_Suc)
  have tk: "take ?n ?off = map (start_of es) [0..<?n]" "last ?off = start_of es ?n" by (simp_all add: take_map)
  have ok: "set_incidents es p = Ok ?p"
    unfolding set_incidents_def Let_def off tk fill by simp
  have "incident_indexes ?p i = incidence es i" if "i < ?n" for i
  proof -
    have "?off ! i = start_of es i" "?off ! Suc i = start_of es (Suc i)" using that by (simp_all del: upt_Suc)
    then show ?thesis using sl [OF that] by (simp add: incident_indexes_def start_Suc del: upt_Suc)
  qed
  with ok show thesis by (intro that [of ?p]) simp_all
qed

section \<open>Rebuilding the indexes\<close>

definition check_revision :: "node_history \<Rightarrow> node_revision \<Rightarrow> unit memory_result" where
  "check_revision revisions revision =
    and_then (node_validate (nr_node revision)) (\<lambda>_.
      if mn_id (nr_node revision) \<noteq> mn_id (nr_node (nh_first revisions))
      then Err (InvalidValue ''projection.nodes'' ''revision identifiers must match'') else Ok ())"

definition index_node :: "entity_kind id_index \<Rightarrow> usize \<times> node_history \<Rightarrow> entity_kind id_index memory_result" where
  "index_node lookup entry =
    (case entry of (index, revisions) \<Rightarrow>
      and_then (try_for_each (check_revision revisions) (nh_revisions revisions)) (\<lambda>_.
        (case ix_insert lookup (mn_id (nr_node (nh_first revisions))) index of
           (_, Some _) \<Rightarrow> Err (InvalidValue ''projection.nodes'' ''node identifiers must be unique'')
         | (lookup', None) \<Rightarrow> Ok lookup')))"

definition entity_index :: "entity_kind id_index \<Rightarrow> entity_id \<Rightarrow> usize memory_result" where
  "entity_index lookup i = ok_or (ix_get lookup i) (MissingEntity (as_str i))"

definition index_fact ::
  "entity_kind id_index \<Rightarrow> fact_kind id_index \<times> (usize \<times> usize) list \<Rightarrow> usize \<times> memory_fact \<Rightarrow>
   (fact_kind id_index \<times> (usize \<times> usize) list) memory_result"
where
  "index_fact node_lookup state entry =
    (case (state, entry) of ((lookup, endpoints), (index, f)) \<Rightarrow>
      and_then (fact_validate f) (\<lambda>_.
      and_then (entity_index node_lookup (mf_source f)) (\<lambda>source.
      and_then (entity_index node_lookup (mf_target f)) (\<lambda>target.
      (case ix_insert lookup (mf_id f) index of
         (_, Some _) \<Rightarrow> Err (ConflictingFact (as_str (mf_id f)))
       | (lookup', None) \<Rightarrow> Ok (lookup', endpoints @ [(source, target)]))))))"

definition validate_supersession :: "memory_projection \<Rightarrow> fact_id \<times> supersession \<Rightarrow> unit memory_result" where
  "validate_supersession p entry =
    (case entry of (prior, change) \<Rightarrow>
      and_then (ok_or (mp_fact p prior) (MissingFact (as_str prior))) (\<lambda>prior_fact.
      and_then (ok_or (mp_fact p (sup_replacement change)) (MissingFact (as_str (sup_replacement change)))) (\<lambda>replacement.
        if mf_supersedes replacement \<noteq> Some (mf_id prior_fact) \<or> mf_valid_from replacement \<noteq> sup_valid_from change \<or>
           mf_recorded_at replacement \<noteq> sup_recorded_at change
        then Err (InvalidValue ''projection.supersessions'' ''supersession index disagrees with replacement fact'')
        else Ok ())))"

definition validate_retraction :: "memory_projection \<Rightarrow> fact_id \<times> retraction \<Rightarrow> unit memory_result" where
  "validate_retraction p entry =
    (case entry of (i, change) \<Rightarrow>
      and_then (ok_or (mp_fact p i) (MissingFact (as_str i))) (\<lambda>f.
        if ret_valid_until change \<le> mf_valid_from f
        then Err (InvalidValue ''projection.retractions'' ''retraction must follow fact validity'')
        else Ok ()))"

definition validate_changes :: "memory_projection \<Rightarrow> unit memory_result" where
  "validate_changes p =
    and_then (try_for_each (validate_supersession p) (mp_supersessions p)) (\<lambda>_.
      try_for_each (validate_retraction p) (mp_retractions p))"

definition rebuild_indexes :: "memory_projection \<Rightarrow> memory_projection memory_result" where
  "rebuild_indexes p =
    and_then (try_fold index_node (mp_node_lookup p) (enumerate 0 (mp_nodes p))) (\<lambda>node_lookup.
    and_then (try_fold (index_fact node_lookup) (mp_fact_lookup p, []) (enumerate 0 (mp_facts p))) (\<lambda>(fact_lookup, endpoints).
    and_then (set_incidents endpoints (p\<lparr> mp_node_lookup := node_lookup, mp_fact_lookup := fact_lookup \<rparr>)) (\<lambda>p.
    and_then (validate_changes p) (\<lambda>_. Ok p))))"

subsection \<open>Lookups built by the loops\<close>

lemma index_node_fold:
  assumes "try_fold index_node (ix_new seed) (enumerate 0 nodes) = Ok lookup"
  shows "lists_keys ix_get lookup (map history_id nodes) \<and> (\<forall>h \<in> set nodes. history_ok h)"
  using assms
proof (induction nodes arbitrary: lookup rule: rev_induct)
  case Nil
  then have "lookup = ix_new seed" by simp
  then show ?case by (simp add: ix.lists_empty)
next
  case (snoc h nodes)
  then obtain l where l: "try_fold index_node (ix_new seed) (enumerate 0 nodes) = Ok l"
    and step: "index_node l (length nodes, h) = Ok lookup"
    by (auto simp: enumerate_append_eq try_fold_append result_simps)
  note IH = snoc.IH [OF l]
  obtain l' prior where i: "ix_insert l (history_id h) (length nodes) = (l', prior)" by force
  from step i have chk: "try_for_each (check_revision h) (nh_revisions h) = Ok ()"
    and "prior = None \<and> l' = lookup"
    by (cases prior; simp add: index_node_def history_id_def and_then_Ok)+
  then have ins: "ix_insert l (history_id h) (length nodes) = (lookup, None)" using i by simp
  from chk have ok: "history_ok h"
    by (auto simp: check_revision_def result_simps history_ok_def history_id_def split: if_splits)
  have "ix_get l (history_id h) = None" using ix.put_prior [of l "history_id h" "length nodes"] ins by simp
  then have "history_id h \<notin> set (map history_id nodes)" using lists_keys_None [OF conjunct1 [OF IH]] by simp
  then have "lists_keys ix_get lookup (map history_id nodes @ [history_id h])"
    using ix.lists_put [of l "map history_id nodes" "history_id h"] IH ins by simp
  then show ?case using IH ok by simp
qed

lemma index_node_fold_ok:
  assumes "distinct (map history_id nodes)" "\<forall>h \<in> set nodes. history_ok h"
  shows "\<exists>lookup. try_fold index_node (ix_new seed) (enumerate 0 nodes) = Ok lookup"
  using assms
proof (induction nodes rule: rev_induct)
  case (snoc h nodes)
  then obtain l where l: "try_fold index_node (ix_new seed) (enumerate 0 nodes) = Ok l" by auto
  have "ix_get l (history_id h) = None"
    using index_node_fold [OF l] lists_keys_None snoc.prems(1) by fastforce
  then have "snd (ix_insert l (history_id h) (length nodes)) = None" by (simp add: ix.put_prior)
  moreover have "try_for_each (check_revision h) (nh_revisions h) = Ok ()"
    using snoc.prems(2) by (auto simp: result_simps check_revision_def history_ok_def history_id_def)
  ultimately have "\<exists>l'. index_node l (length nodes, h) = Ok l'"
    by (auto simp: index_node_def history_id_def split: prod.splits option.splits)
  then show ?case using l by (auto simp: enumerate_append_eq try_fold_append)
qed simp

definition endpoint_of :: "entity_id list \<Rightarrow> memory_fact \<Rightarrow> (usize \<times> usize) \<Rightarrow> bool" where
  "endpoint_of ids f e \<longleftrightarrow> fst e < length ids \<and> ids ! fst e = mf_source f \<and> snd e < length ids \<and> ids ! snd e = mf_target f"

lemma index_fact_fold:
  assumes "lists_keys ix_get nodes ids" "try_fold (index_fact nodes) (ix_new seed, []) (enumerate 0 facts) = Ok (lookup, es)"
  shows "lists_keys ix_get lookup (map mf_id facts) \<and> (\<forall>f \<in> set facts. fact_ok f) \<and> list_all2 (endpoint_of ids) facts es"
  using assms(2)
proof (induction facts arbitrary: lookup es rule: rev_induct)
  case Nil
  then have "lookup = ix_new seed" "es = []" by simp_all
  then show ?case by (simp add: ix.lists_empty)
next
  case (snoc f facts)
  then obtain l es0 where l: "try_fold (index_fact nodes) (ix_new seed, []) (enumerate 0 facts) = Ok (l, es0)"
    and step: "index_fact nodes (l, es0) (length facts, f) = Ok (lookup, es)"
    by (auto simp: enumerate_append_eq try_fold_append result_simps)
  note IH = snoc.IH [OF l]
  obtain l' prior where i: "ix_insert l (mf_id f) (length facts) = (l', prior)" by force
  from step i obtain s t where ok: "fact_validate f = Ok ()" "ix_get nodes (mf_source f) = Some s"
    "ix_get nodes (mf_target f) = Some t" and new: "prior = None" "l' = lookup" and es: "es = es0 @ [(s, t)]"
    by (cases prior) (auto simp: index_fact_def entity_index_def and_then_Ok ok_or_Ok)
  have ins: "ix_insert l (mf_id f) (length facts) = (lookup, None)" using i new by simp
  have fok: "fact_ok f" using ok(1) fact_validate_Ok by simp
  have "ix_get l (mf_id f) = None" using ix.put_prior [of l "mf_id f" "length facts"] ins by simp
  then have "mf_id f \<notin> set (map mf_id facts)" using lists_keys_None [OF conjunct1 [OF IH]] by simp
  then have "lists_keys ix_get lookup (map mf_id facts @ [mf_id f])"
    using ix.lists_put [of l "map mf_id facts" "mf_id f"] IH ins by simp
  moreover have "endpoint_of ids f (s, t)" using lists_keys_Some [OF assms(1)] ok by (auto simp: endpoint_of_def)
  ultimately show ?case using IH fok es by (auto intro: list_all2_appendI)
qed

lemma index_fact_fold_ok:
  assumes "lists_keys ix_get nodes ids" "distinct (map mf_id facts)"
    and "\<forall>f \<in> set facts. fact_ok f \<and> mf_source f \<in> set ids \<and> mf_target f \<in> set ids"
  shows "\<exists>r. try_fold (index_fact nodes) (ix_new seed, []) (enumerate 0 facts) = Ok r"
  using assms(2,3)
proof (induction facts rule: rev_induct)
  case (snoc f facts)
  then obtain l es where l: "try_fold (index_fact nodes) (ix_new seed, []) (enumerate 0 facts) = Ok (l, es)" by auto
  have "ix_get l (mf_id f) = None"
    using index_fact_fold [OF assms(1) l] lists_keys_None snoc.prems(1) by fastforce
  then have "snd (ix_insert l (mf_id f) (length facts)) = None" by (simp add: ix.put_prior)
  moreover have "\<exists>n. ix_get nodes i = Some n" if "i \<in> set ids" for i
    using lists_keys_None [OF assms(1)] that by fastforce
  then obtain s t where "ix_get nodes (mf_source f) = Some s" "ix_get nodes (mf_target f) = Some t"
    using snoc.prems(2) by fastforce
  moreover have "fact_validate f = Ok ()" using snoc.prems(2) by (simp add: result_simps)
  ultimately have "\<exists>r. index_fact nodes (l, es) (length facts, f) = Ok r"
    by (auto simp: index_fact_def entity_index_def split: prod.splits option.splits)
  then show ?case using l by (auto simp: enumerate_append_eq try_fold_append)
qed simp

subsection \<open>What a rebuilt projection satisfies\<close>

lemma endpoints_within: "list_all2 (endpoint_of ids) facts es \<Longrightarrow> within (length ids) es"
  by (induction rule: list_all2_induct) (auto simp: within_def endpoint_of_def)

lemma endpoints_incidence:
  assumes "list_all2 (endpoint_of ids) facts es" "distinct ids" "i < length ids"
  shows "incidence es i = incident_spec facts (ids ! i)"
proof -
  have len: "length es = length facts" using assms(1) by (simp add: list_all2_lengthD)
  have "meets (es ! j) i \<longleftrightarrow> touches (facts ! j) (ids ! i)" if j: "j < length facts" for j
  proof -
    have "endpoint_of ids (facts ! j) (es ! j)" using assms(1) j by (simp add: list_all2_nthD)
    then show ?thesis
      using nth_eq_iff_index_eq [OF assms(2)] assms(3) by (auto simp: endpoint_of_def meets_def touches_def)
  qed
  then show ?thesis unfolding incidence_def incident_spec_def len by (intro filter_cong) auto
qed

text \<open>The three indexes of a projection agree with its nodes and facts.\<close>

definition indexes_ok :: "memory_projection \<Rightarrow> bool" where
  "indexes_ok p \<longleftrightarrow> nodes_ok p \<and> facts_ok p \<and> incidents_ok p"

lemma indexed_projection:
  assumes "lists_keys ix_get node_lookup (map history_id (mp_nodes p))" "\<forall>h \<in> set (mp_nodes p). history_ok h"
    and "lists_keys ix_get fact_lookup (map mf_id (mp_facts p))" "\<forall>f \<in> set (mp_facts p). fact_ok f"
    and "list_all2 (endpoint_of (map history_id (mp_nodes p))) (mp_facts p) es" "2 * length (mp_facts p) \<le> usize_max"
  obtains p' where "set_incidents es (p\<lparr> mp_node_lookup := node_lookup, mp_fact_lookup := fact_lookup \<rparr>) = Ok p'"
    "projection_eq p' p" "indexes_ok p'" "mp_fact_lookup p' = fact_lookup"
proof -
  let ?q = "p\<lparr> mp_node_lookup := node_lookup, mp_fact_lookup := fact_lookup \<rparr>"
  let ?ids = "map history_id (mp_nodes p)"
  have len: "length es = length (mp_facts p)" using assms(5) by (simp add: list_all2_lengthD)
  have "within (length (mp_nodes ?q)) es" using endpoints_within [OF assms(5)] by simp
  moreover have "2 * length es \<le> usize_max" using assms(6) len by simp
  ultimately obtain p' where p': "set_incidents es ?q = Ok p'"
    "p' = ?q\<lparr> mp_incident_offsets := mp_incident_offsets p', mp_incident_facts := mp_incident_facts p', mp_incident_delta := Map.empty \<rparr>"
    "length (mp_incident_offsets p') = Suc (length (mp_nodes p))"
    "\<And>i. i < length (mp_nodes p) \<Longrightarrow> incident_indexes p' i = incidence es i"
    by (rule set_incidents_correct) simp_all
  have sel: "mp_nodes p' = mp_nodes p" "mp_facts p' = mp_facts p" "mp_node_lookup p' = node_lookup"
    "mp_fact_lookup p' = fact_lookup" "mp_supersessions p' = mp_supersessions p" "mp_retractions p' = mp_retractions p"
    "mp_last_global_position p' = mp_last_global_position p" "mp_incident_delta p' = Map.empty"
    by (subst p'(2), simp)+
  have ids: "node_ids p' = ?ids" "fact_ids p' = map mf_id (mp_facts p)" by (simp_all add: node_ids_def fact_ids_def sel)
  have ends: "mf_source f \<in> set ?ids \<and> mf_target f \<in> set ?ids" if "f \<in> set (mp_facts p)" for f
  proof -
    from that obtain j where "j < length (mp_facts p)" "mp_facts p ! j = f" by (auto simp: in_set_conv_nth)
    then have "endpoint_of ?ids f (es ! j)" using assms(5) by (auto simp: list_all2_conv_all_nth)
    then show ?thesis unfolding endpoint_of_def by (metis nth_mem)
  qed
  have "incident_indexes p' i = incident_spec (mp_facts p') (node_ids p' ! i)" if "i < length (mp_nodes p)" for i
    using p'(4) [OF that] endpoints_incidence [OF assms(5) lists_keys_distinct [OF assms(1)]] that
    by (simp add: sel ids)
  then have "incidents_ok p'" using p'(3) by (simp add: incidents_ok_def sel)
  moreover have "nodes_ok p'" using assms(1,2) by (simp add: nodes_ok_def ids sel)
  moreover have "facts_ok p'" using assms(3,4) ends by (simp add: facts_ok_def ids sel)
  ultimately have "indexes_ok p'" by (simp add: indexes_ok_def)
  then show thesis using p'(1) sel by (intro that) (simp_all add: projection_eq_def)
qed

lemma validate_changes_ok:
  assumes "facts_ok p" "sups_ok (mp_facts p) (mp_supersessions p)" "rets_ok (mp_facts p) (mp_retractions p)"
  shows "validate_changes p = Ok ()"
proof -
  have "validate_supersession p (prior, change) = Ok ()" if in_sups: "(prior, change) \<in> set (mp_supersessions p)" for prior change
  proof -
    have "bt_get (mp_supersessions p) prior = Some change"
      using in_sups assms(2) bt_get_in by (fastforce simp: sups_ok_def)
    then obtain f where f: "f \<in> set (mp_facts p)" "mf_supersedes f = Some prior" "change = sup_of f"
      using assms(2) by (auto simp: sups_ok_def)
    then obtain g where g: "g \<in> set (mp_facts p)" "mf_id g = prior"
      using assms(2) by (fastforce simp: sups_ok_def)
    show ?thesis
      using f g mp_fact_in [OF assms(1)] by (auto simp: validate_supersession_def sup_of_def)
  qed
  moreover have "validate_retraction p (i, change) = Ok ()" if in_rets: "(i, change) \<in> set (mp_retractions p)" for i change
  proof -
    have "bt_get (mp_retractions p) i = Some change"
      using in_rets assms(3) bt_get_in by (fastforce simp: rets_ok_def)
    then obtain f where "f \<in> set (mp_facts p)" "mf_id f = i" "mf_valid_from f < ret_valid_until change"
      using assms(3) by (auto simp: rets_ok_def)
    then show ?thesis using mp_fact_in [OF assms(1)] by (auto simp: validate_retraction_def)
  qed
  ultimately show ?thesis by (auto simp: validate_changes_def result_simps)
qed

text \<open>The data of a projection with empty indexes, as a decoder hands it over.\<close>

definition bare :: "u64 \<Rightarrow> u64 \<Rightarrow> memory_projection \<Rightarrow> memory_projection" where
  "bare ns fs p =
    p\<lparr> mp_node_lookup := ix_new ns, mp_fact_lookup := ix_new fs, mp_incident_offsets := [],
       mp_incident_facts := [], mp_incident_delta := Map.empty \<rparr>"

lemma rebuild_restores:
  assumes "proj_inv p" "2 * length (mp_facts p) \<le> usize_max"
  shows "\<exists>q. rebuild_indexes (bare ns fs p) = Ok q \<and> projection_eq q p \<and> proj_inv q"
proof -
  have inv: "nodes_ok p" "facts_ok p" using assms(1) by (auto simp: proj_inv_def)
  let ?b = "bare ns fs p" and ?ids = "map history_id (mp_nodes p)"
  have sel: "mp_nodes ?b = mp_nodes p" "mp_facts ?b = mp_facts p" "mp_node_lookup ?b = ix_new ns"
    "mp_fact_lookup ?b = ix_new fs" "mp_supersessions ?b = mp_supersessions p" "mp_retractions ?b = mp_retractions p"
    "mp_last_global_position ?b = mp_last_global_position p"
    by (simp_all add: bare_def)
  obtain nl where nl: "try_fold index_node (ix_new ns) (enumerate 0 (mp_nodes p)) = Ok nl"
    using index_node_fold_ok [of "mp_nodes p" ns] node_ids_distinct [OF inv(1)] inv(1)
    by (auto simp: node_ids_def nodes_ok_def)
  note nodes = index_node_fold [OF nl]
  obtain fl es where fl: "try_fold (index_fact nl) (ix_new fs, []) (enumerate 0 (mp_facts p)) = Ok (fl, es)"
    using index_fact_fold_ok [of nl ?ids "mp_facts p" fs] nodes fact_ids_distinct [OF inv(2)] inv(2)
    by (auto simp: fact_ids_def facts_ok_def node_ids_def)
  note facts = index_fact_fold [OF conjunct1 [OF nodes] fl]
  obtain q where q: "set_incidents es (?b\<lparr> mp_node_lookup := nl, mp_fact_lookup := fl \<rparr>) = Ok q"
    "projection_eq q ?b" "indexes_ok q"
    using indexed_projection [of nl ?b fl es] nodes facts assms(2) by (auto simp: sel)
  have eq: "projection_eq q p" using q(2) by (simp add: projection_eq_def sel)
  then have pq: "proj_inv q" using q(3) assms(1) by (simp add: proj_inv_def indexes_ok_def projection_eq_def)
  then have "validate_changes q = Ok ()" by (auto simp: proj_inv_def intro: validate_changes_ok)
  then have "rebuild_indexes ?b = Ok q" by (simp add: rebuild_indexes_def sel nl fl q(1))
  with eq pq show ?thesis by blast
qed

section \<open>Bulk construction (\<open>parts.rs\<close>)\<close>

record prepared_fact =
  pf_source :: usize
  pf_target :: usize
  pf_id_hash :: u64

definition prepare_fact :: "memory_projection \<Rightarrow> timestamp \<Rightarrow> memory_fact \<Rightarrow> prepared_fact memory_result" where
  "prepare_fact p known f =
    (if mf_recorded_at f > known
     then Err (InvalidValue ''facts'' ''fact recorded_at must not exceed known_at'')
     else and_then (fact_validate f) (\<lambda>_.
       and_then (require_entity p (mf_source f)) (\<lambda>source.
       and_then (require_entity p (mf_target f)) (\<lambda>target.
       Ok \<lparr> pf_source = source, pf_target = target, pf_id_hash = ix_hash (mp_fact_lookup p) (mf_id f) \<rparr>))))"

definition div_ceil :: "nat \<Rightarrow> nat \<Rightarrow> nat" where
  "div_ceil a b = (a + b - 1) div b"

function chunks :: "nat \<Rightarrow> 'a list \<Rightarrow> 'a list list" where
  "chunks n xs = (if xs = [] \<or> n = 0 then [] else take n xs # chunks n (drop n xs))"
  by pat_completeness auto
termination by (relation "measure (\<lambda>(n, xs). length xs)")
    (auto simp: length_greater_0_conv [symmetric] simp del: length_greater_0_conv)

declare chunks.simps [simp del]

text \<open>
  The workers only read the projection; each returns the result for its chunk, and the chunks are
  joined in order. \<open>parallelism\<close> is what the operating system reports.
\<close>

definition prepare_facts ::
  "nat \<Rightarrow> memory_projection \<Rightarrow> memory_fact list \<Rightarrow> timestamp \<Rightarrow> prepared_fact list memory_result" where
  "prepare_facts parallelism p facts known =
    (let workers = max 1 (min parallelism (div_ceil (length facts) 16384))
     in if workers = 1 then try_map (prepare_fact p known) facts
        else let chunk_size = div_ceil (length facts) workers;
                 handles = map (try_map (prepare_fact p known)) (chunks chunk_size facts)
          in try_fold (\<lambda>prepared handle. map_ok (\<lambda>chunk. prepared @ chunk) handle) [] handles)"

definition parts_node :: "timestamp \<Rightarrow> memory_projection \<Rightarrow> usize \<times> memory_node \<Rightarrow> memory_projection memory_result" where
  "parts_node known p entry =
    (case entry of (position, node) \<Rightarrow>
      and_then (node_validate node) (\<lambda>_.
        (case ix_insert (mp_node_lookup p) (mn_id node) (length (mp_nodes p)) of
           (_, Some _) \<Rightarrow> Err (InvalidValue ''nodes'' ''node identifiers must be unique'')
         | (lookup, None) \<Rightarrow>
             and_then (ok_or (u64_try_from position) CapacityOverflow) (\<lambda>position.
               Ok (p\<lparr> mp_node_lookup := lookup,
                      mp_nodes := mp_nodes p @ [node_history_new
                        \<lparr> nr_node = node, nr_recorded_at = known, nr_position = position \<rparr>] \<rparr>)))))"

definition parts_fact ::
  "fact_kind id_index \<Rightarrow> usize \<times> memory_fact \<times> prepared_fact \<Rightarrow> fact_kind id_index memory_result" where
  "parts_fact lookup entry =
    (case entry of (index, f, prepared) \<Rightarrow>
      (case ix_insert_hashed lookup (mf_id f) index (pf_id_hash prepared) of
         (_, Some _) \<Rightarrow> Err (ConflictingFact (as_str (mf_id f)))
       | (lookup', None) \<Rightarrow> Ok lookup'))"

definition parts_supersede :: "memory_projection \<Rightarrow> memory_fact \<Rightarrow> memory_projection memory_result" where
  "parts_supersede p f =
    (case mf_supersedes f of
       None \<Rightarrow> Ok p
     | Some prior \<Rightarrow>
         (case apply_supersession prior f p of (Ok _, p') \<Rightarrow> Ok p' | (Err e, _) \<Rightarrow> Err e))"

definition try_from_parts ::
  "u64 \<Rightarrow> u64 \<Rightarrow> nat \<Rightarrow> memory_node list \<Rightarrow> memory_fact list \<Rightarrow> timestamp \<Rightarrow> u64 option \<Rightarrow> memory_projection memory_result"
where
  "try_from_parts node_seed fact_seed parallelism nodes facts known source_position =
    and_then (try_fold (parts_node known) (with_capacity node_seed fact_seed) (enumerate 0 nodes)) (\<lambda>p.
    and_then (prepare_facts parallelism p facts known) (\<lambda>prepared.
    and_then (try_fold parts_fact (mp_fact_lookup p) (enumerate 0 (zip facts prepared))) (\<lambda>lookup.
    and_then (try_fold parts_supersede (p\<lparr> mp_fact_lookup := lookup \<rparr>) facts) (\<lambda>p.
    let endpoints = map (\<lambda>f. (pf_source f, pf_target f)) prepared
    in and_then (set_incidents endpoints (p\<lparr> mp_facts := facts \<rparr>)) (\<lambda>p.
         Ok (p\<lparr> mp_last_global_position := source_position \<rparr>))))))"

subsection \<open>Parallel preparation\<close>

lemma concat_chunks: "0 < n \<Longrightarrow> concat (chunks n xs) = xs"
  by (induction n xs rule: chunks.induct) (subst chunks.simps, auto)

lemma try_map_append:
  "try_map f (xs @ ys) = and_then (try_map f xs) (\<lambda>a. map_ok (\<lambda>b. a @ b) (try_map f ys))"
proof (induction xs)
  case Nil
  show ?case by (cases "try_map f ys") simp_all
next
  case (Cons x xs)
  then show ?case
    by (cases "f x"; cases "try_map f xs"; cases "try_map f ys") simp_all
qed

lemma join_handles:
  "try_fold (\<lambda>prepared handle. map_ok (\<lambda>chunk. prepared @ chunk) handle) acc (map (try_map f) xss) =
     map_ok (\<lambda>all. acc @ all) (try_map f (concat xss))"
proof (induction xss arbitrary: acc)
  case (Cons xs xss)
  then show ?case by (cases "try_map f xs"; cases "try_map f (concat xss)") (simp_all add: try_map_append)
qed simp

lemma prepare_facts_eq: "prepare_facts parallelism p facts known = try_map (prepare_fact p known) facts"
proof -
  let ?w = "max 1 (min parallelism (div_ceil (length facts) 16384))"
  have id: "map_ok (\<lambda>all. all) r = r" for r :: "prepared_fact list memory_result" by (cases r) simp_all
  show ?thesis
  proof (cases "facts = []")
    case True
    then show ?thesis by (simp add: prepare_facts_def Let_def div_ceil_def chunks.simps)
  next
    case False
    have "?w \<le> length facts + ?w - 1" using False by (cases facts) simp_all
    then have "0 < div_ceil (length facts) ?w"
      unfolding div_ceil_def by (intro div_greater_zero_iff [THEN iffD2]) simp
    then show ?thesis
      by (simp add: prepare_facts_def Let_def join_handles concat_chunks id)
  qed
qed

subsection \<open>What the constructor builds\<close>

lemma parts_node_fold:
  assumes "try_fold (parts_node known) (with_capacity ns fs) (enumerate 0 nodes) = Ok p"
  shows "map (\<lambda>h. nr_node (nh_first h)) (mp_nodes p) = nodes \<and> (\<forall>h \<in> set (mp_nodes p). history_ok h) \<and>
    lists_keys ix_get (mp_node_lookup p) (map history_id (mp_nodes p)) \<and> mp_fact_lookup p = ix_new fs \<and>
    mp_supersessions p = [] \<and> mp_retractions p = []"
  using assms
proof (induction nodes arbitrary: p rule: rev_induct)
  case Nil
  then have "p = with_capacity ns fs" by simp
  then show ?case by (simp add: with_capacity_def ix.lists_empty)
next
  case (snoc n nodes)
  then obtain q where q: "try_fold (parts_node known) (with_capacity ns fs) (enumerate 0 nodes) = Ok q"
    and step: "parts_node known q (length nodes, n) = Ok p"
    by (auto simp: enumerate_append_eq try_fold_append result_simps)
  note IH = snoc.IH [OF q]
  obtain l prior where i: "ix_insert (mp_node_lookup q) (mn_id n) (length (mp_nodes q)) = (l, prior)" by force
  from step i obtain w where ok: "node_validate n = Ok ()" and new: "prior = None"
    and p: "p = q\<lparr> mp_node_lookup := l, mp_nodes := mp_nodes q @ [node_history_new
        \<lparr> nr_node = n, nr_recorded_at = known, nr_position = w \<rparr>] \<rparr>"
    by (cases prior) (auto simp: parts_node_def and_then_Ok ok_or_Ok)
  have "node_ok n" using ok node_validate_Ok by simp
  have "ix_get (mp_node_lookup q) (mn_id n) = None"
    using ix.put_prior [of "mp_node_lookup q" "mn_id n" "length (mp_nodes q)"] i new by simp
  then have "mn_id n \<notin> set (map history_id (mp_nodes q))" using lists_keys_None IH by metis
  then have "lists_keys ix_get l (map history_id (mp_nodes q) @ [mn_id n])"
    using ix.lists_put [of "mp_node_lookup q" "map history_id (mp_nodes q)" "mn_id n"] IH i by simp
  moreover have "history_ok (node_history_new \<lparr> nr_node = n, nr_recorded_at = known, nr_position = w \<rparr>)"
    using \<open>node_ok n\<close> by (simp add: node_history_new_def history_ok_def nh_revisions_def history_id_def)
  moreover have "nr_node (nh_first (node_history_new r)) = nr_node r" for r by (simp add: node_history_new_def)
  ultimately show ?case using IH by (simp add: p)
qed

lemma parts_fact_fold:
  assumes "try_fold parts_fact (ix_new fs) (enumerate 0 (zip facts prepared)) = Ok lookup"
    and "list_all2 (\<lambda>f g. pf_id_hash g = fingerprint fs (as_bytes (as_str (mf_id f)))) facts prepared"
  shows "lists_keys ix_get lookup (map mf_id facts) \<and> ix_seed lookup = fs"
  using assms
proof (induction facts arbitrary: lookup prepared rule: rev_induct)
  case Nil
  then have "lookup = ix_new fs" by simp
  then show ?case by (simp add: ix.lists_empty) (simp add: ix_new_def)
next
  case (snoc f facts)
  from snoc.prems(2) obtain prepared0 g where pr: "prepared = prepared0 @ [g]" "length prepared0 = length facts"
    and hashes: "list_all2 (\<lambda>f g. pf_id_hash g = fingerprint fs (as_bytes (as_str (mf_id f)))) facts prepared0"
    and hash: "pf_id_hash g = fingerprint fs (as_bytes (as_str (mf_id f)))"
    by (auto simp: list_all2_append1 list_all2_Cons1 list_all2_lengthD)
  from snoc.prems(1) obtain l where l: "try_fold parts_fact (ix_new fs) (enumerate 0 (zip facts prepared0)) = Ok l"
    and step: "parts_fact l (length facts, f, g) = Ok lookup"
    using pr by (auto simp: enumerate_append_eq try_fold_append result_simps)
  note IH = snoc.IH [OF l hashes]
  have h: "pf_id_hash g = ix_hash l (mf_id f)" using hash IH by (simp add: ix_hash_def)
  obtain l' prior where i: "ix_insert l (mf_id f) (length facts) = (l', prior)" by force
  with step h have ins: "prior = None" "l' = lookup"
    by (cases prior; simp add: parts_fact_def ix_insert_def)+
  have "ix_get l (mf_id f) = None" using ix.put_prior [of l "mf_id f" "length facts"] i ins by simp
  then have "mf_id f \<notin> set (map mf_id facts)" using lists_keys_None IH by metis
  then have "lists_keys ix_get lookup (map mf_id facts @ [mf_id f])"
    using ix.lists_put [of l "map mf_id facts" "mf_id f"] IH i ins by simp
  moreover have "ix_seed lookup = fs" using IH i ins ix_insert_seed [of l "mf_id f" "length facts" "ix_hash l (mf_id f)"]
    by (simp add: ix_insert_def)
  ultimately show ?case by simp
qed

lemma parts_supersede_fold:
  assumes "try_fold parts_supersede p facts = Ok q" "mp_supersessions p = []"
  shows "(\<exists>sups. q = p\<lparr> mp_supersessions := sups \<rparr> \<and> bt_ok sups \<and>
      (\<forall>prior change. bt_get sups prior = Some change \<longleftrightarrow> (\<exists>f \<in> set facts. mf_supersedes f = Some prior \<and> change = sup_of f))) \<and>
    (\<forall>f \<in> set facts. \<forall>prior. mf_supersedes f = Some prior \<longrightarrow> ix_contains_key (mp_fact_lookup p) prior)"
  using assms(1)
proof (induction facts arbitrary: q rule: rev_induct)
  case Nil
  then have "q = p" by simp
  then show ?case using assms(2) by (auto intro!: exI [of _ "[]"])
next
  case (snoc f facts)
  then obtain r where r: "try_fold parts_supersede p facts = Ok r" and step: "parts_supersede r f = Ok q"
    by (auto simp: try_fold_append result_simps)
  from snoc.IH [OF r] obtain sups where IH: "r = p\<lparr> mp_supersessions := sups \<rparr>" "bt_ok sups"
    "\<And>prior change. bt_get sups prior = Some change \<longleftrightarrow> (\<exists>f \<in> set facts. mf_supersedes f = Some prior \<and> change = sup_of f)"
    and known: "\<forall>f \<in> set facts. \<forall>prior. mf_supersedes f = Some prior \<longrightarrow> ix_contains_key (mp_fact_lookup p) prior"
    by blast
  show ?case
  proof (cases "mf_supersedes f")
    case None
    then have "q = r" using step by (simp add: parts_supersede_def)
    then show ?thesis using IH known None by (auto intro!: exI [of _ sups])
  next
    case (Some prior)
    with step IH(1) have acc: "ix_contains_key (mp_fact_lookup p) prior" "bt_get sups prior = None"
      and q: "q = p\<lparr> mp_supersessions := bt_insert sups prior (sup_of f) \<rparr>"
      by (auto simp: parts_supersede_def apply_supersession_def sup_of_def split: if_splits)
    have none: "\<not> (\<exists>g \<in> set facts. mf_supersedes g = Some prior)" using acc(2) IH(3) by (metis option.distinct(1))
    have "bt_get (bt_insert sups prior (sup_of f)) i = Some change \<longleftrightarrow>
        (\<exists>g \<in> set (facts @ [f]). mf_supersedes g = Some i \<and> change = sup_of g)" for i change
      using none Some IH(3) [of i change] by (cases "i = prior") auto
    then show ?thesis
      using q IH(2) known Some acc(1) by (intro conjI exI [of _ "bt_insert sups prior (sup_of f)"]) auto
  qed
qed

lemma prepare_fact_Ok:
  "prepare_fact p known f = Ok g \<longleftrightarrow> mf_recorded_at f \<le> known \<and> fact_ok f \<and>
     ix_get (mp_node_lookup p) (mf_source f) = Some (pf_source g) \<and>
     ix_get (mp_node_lookup p) (mf_target f) = Some (pf_target g) \<and> pf_id_hash g = ix_hash (mp_fact_lookup p) (mf_id f)"
  by (cases g) (auto simp: prepare_fact_def result_simps require_entity_def not_less)

lemma try_from_parts_inv:
  assumes "try_from_parts ns fs parallelism nodes facts known source = Ok p" "2 * length facts \<le> usize_max"
  shows "proj_inv p \<and> mp_facts p = facts \<and> map (\<lambda>h. nr_node (nh_first h)) (mp_nodes p) = nodes \<and>
    mp_last_global_position p = source \<and> (\<forall>f \<in> set facts. mf_recorded_at f \<le> known)"
proof -
  from assms(1) obtain p1 prepared lookup p3 p4 where
    n: "try_fold (parts_node known) (with_capacity ns fs) (enumerate 0 nodes) = Ok p1"
    and pr: "list_all2 (\<lambda>f g. prepare_fact p1 known f = Ok g) facts prepared"
    and l: "try_fold parts_fact (mp_fact_lookup p1) (enumerate 0 (zip facts prepared)) = Ok lookup"
    and sp: "try_fold parts_supersede (p1\<lparr> mp_fact_lookup := lookup \<rparr>) facts = Ok p3"
    and inc: "set_incidents (map (\<lambda>f. (pf_source f, pf_target f)) prepared) (p3\<lparr> mp_facts := facts \<rparr>) = Ok p4"
    and p: "p = p4\<lparr> mp_last_global_position := source \<rparr>"
    by (auto simp: try_from_parts_def and_then_Ok prepare_facts_eq try_map_Ok Let_def)
  note nodes = parts_node_fold [OF n]
  let ?ids = "map history_id (mp_nodes p1)"
  have each: "list_all2 (\<lambda>f g. mf_recorded_at f \<le> known \<and> fact_ok f \<and> endpoint_of ?ids f (pf_source g, pf_target g) \<and>
      pf_id_hash g = fingerprint fs (as_bytes (as_str (mf_id f)))) facts prepared"
    using pr
  proof (rule list_all2_mono)
    fix f g assume "prepare_fact p1 known f = Ok g"
    then show "mf_recorded_at f \<le> known \<and> fact_ok f \<and> endpoint_of ?ids f (pf_source g, pf_target g) \<and>
        pf_id_hash g = fingerprint fs (as_bytes (as_str (mf_id f)))"
      using lists_keys_Some [of ix_get "mp_node_lookup p1" ?ids] nodes
      by (auto simp: prepare_fact_Ok endpoint_of_def ix_hash_def ix_new_def)
  qed
  have facts: "\<forall>f \<in> set facts. mf_recorded_at f \<le> known \<and> fact_ok f"
    using each by (auto simp: list_all2_conv_all_nth in_set_conv_nth)
  have ends: "list_all2 (endpoint_of ?ids) facts (map (\<lambda>f. (pf_source f, pf_target f)) prepared)"
    using each by (auto simp: list_all2_conv_all_nth)
  have "list_all2 (\<lambda>f g. pf_id_hash g = fingerprint fs (as_bytes (as_str (mf_id f)))) facts prepared"
    using each by (rule list_all2_mono) blast
  then have look: "lists_keys ix_get lookup (map mf_id facts)"
    using parts_fact_fold [of fs facts prepared lookup] l nodes by simp
  obtain sups where sups: "p3 = p1\<lparr> mp_fact_lookup := lookup, mp_supersessions := sups \<rparr>" "bt_ok sups"
    "\<And>prior change. bt_get sups prior = Some change \<longleftrightarrow> (\<exists>f \<in> set facts. mf_supersedes f = Some prior \<and> change = sup_of f)"
    and known: "\<forall>f \<in> set facts. \<forall>prior. mf_supersedes f = Some prior \<longrightarrow> ix_contains_key lookup prior"
    using parts_supersede_fold [OF sp] nodes by auto
  have "\<forall>f \<in> set facts. \<forall>prior. mf_supersedes f = Some prior \<longrightarrow> prior \<in> mf_id ` set facts"
    using known lists_keys_None [OF look] by (auto simp: ix_contains_key_def)
  then have sok: "sups_ok facts sups" using sups by (simp add: sups_ok_def)
  let ?q = "p3\<lparr> mp_facts := facts \<rparr>"
  have q: "mp_nodes ?q = mp_nodes p1" "mp_facts ?q = facts" "?q\<lparr> mp_node_lookup := mp_node_lookup p1, mp_fact_lookup := lookup \<rparr> = ?q"
    "mp_supersessions ?q = sups" "mp_retractions ?q = []"
    using sups(1) nodes by simp_all
  obtain p4' where p4: "set_incidents (map (\<lambda>f. (pf_source f, pf_target f)) prepared) ?q = Ok p4'"
    "projection_eq p4' ?q" "indexes_ok p4'"
    using indexed_projection [of "mp_node_lookup p1" ?q lookup "map (\<lambda>f. (pf_source f, pf_target f)) prepared"]
      nodes look facts ends assms(2) by (auto simp: q)
  then have "p4 = p4'" using inc by simp
  then have "proj_inv p4" using p4 sok q by (simp add: proj_inv_def indexes_ok_def projection_eq_def rets_ok_def)
  then show ?thesis
    using p4 \<open>p4 = p4'\<close> q nodes facts by (simp add: p last_position_inv projection_eq_def)
qed

section \<open>Properties\<close>

text \<open>
  The counting sort that builds the compressed incidence index is correct: for endpoints within
  the node range it succeeds, and the slice of every node lists exactly the facts that meet it, in
  ascending order.
\<close>

theorem incidence_index_correct:
  assumes "within (length (mp_nodes p)) es" "2 * length es \<le> usize_max"
  shows "\<exists>p'. set_incidents es p = Ok p' \<and> (\<forall>i < length (mp_nodes p).
    incident_indexes p' i = filter (\<lambda>j. fst (es ! j) = i \<or> snd (es ! j) = i) [0..<length es])"
proof -
  obtain p' where "set_incidents es p = Ok p'" "\<And>i. i < length (mp_nodes p) \<Longrightarrow> incident_indexes p' i = incidence es i"
    using set_incidents_correct [OF assms] by metis
  then show ?thesis by (simp add: incidence_def meets_def)
qed

theorem incidence_index_correct_witness:
  "\<exists>p'. set_incidents [(0, 1), (1, 1), (1, 0)] (demo_projection [] 0) = Ok p' \<and>
     incident_indexes p' 0 = [0, 2] \<and> incident_indexes p' 1 = [0, 1, 2]"
proof -
  let ?es = "[(0, 1), (1, 1), (1, 0)] :: (usize \<times> usize) list" and ?p = "demo_projection [] 0"
  have n: "length (mp_nodes ?p) = 2" by (simp add: demo_projection_def)
  have w: "within (length (mp_nodes ?p)) ?es" by (simp add: within_def n)
  have b: "2 * length ?es \<le> usize_max" by (simp add: usize_max_def)
  from incidence_index_correct [OF w b] obtain p' where p': "set_incidents ?es ?p = Ok p'"
    "\<forall>i < length (mp_nodes ?p). incident_indexes p' i = filter (\<lambda>j. fst (?es ! j) = i \<or> snd (?es ! j) = i) [0..<length ?es]"
    by blast
  have "incident_indexes p' 0 = [0, 2]" "incident_indexes p' 1 = [0, 1, 2]"
    using p'(2) by (simp_all add: n upt_rec)
  with p'(1) show ?thesis by blast
qed

text \<open>
  Rebuilding the indexes of decoded data undoes what encoding leaves out: for the data of any
  consistent projection it succeeds and gives a consistent projection that the code's equality
  cannot tell from the original.
\<close>

theorem rebuild_indexes_restores:
  assumes "proj_inv p" "2 * length (mp_facts p) \<le> usize_max"
  shows "\<exists>q. rebuild_indexes (bare ns fs p) = Ok q \<and> projection_eq q p \<and> proj_inv q"
  using assms by (rule rebuild_restores)

theorem rebuild_indexes_restores_witness:
  "\<exists>q. rebuild_indexes (bare 1 2 (demo_projection [(TextId ''f'', demo_first)] 3)) = Ok q \<and>
     projection_eq q (demo_projection [(TextId ''f'', demo_first)] 3)"
proof -
  have "2 * length (mp_facts (demo_projection [(TextId ''f'', demo_first)] 3)) \<le> usize_max"
    by (simp add: demo_projection_def usize_max_def)
  from rebuild_indexes_restores [OF demo_inv this] show ?thesis by blast
qed

text \<open>
  Preparing facts in parallel chunks gives the same result as the sequential loop, the same
  first error included, whatever parallelism the machine reports.
\<close>

theorem parallel_preparation_agrees:
  "prepare_facts parallelism p facts known = try_map (prepare_fact p known) facts"
  by (rule prepare_facts_eq)

text \<open>
  A projection built in bulk from nodes and facts is consistent, has exactly those nodes and
  facts, and no fact recorded after the given knowledge time.
\<close>

theorem bulk_projection_consistent:
  assumes "try_from_parts ns fs parallelism nodes facts known source = Ok p" "2 * length facts \<le> usize_max"
  shows "proj_inv p \<and> mp_facts p = facts \<and> map (\<lambda>h. nr_node (nh_first h)) (mp_nodes p) = nodes \<and>
    mp_last_global_position p = source \<and> (\<forall>f \<in> set facts. mf_recorded_at f \<le> known)"
  using assms by (rule try_from_parts_inv)

definition demo_parts :: "fact_id option \<Rightarrow> memory_projection memory_result" where
  "demo_parts prior = try_from_parts 0 0 1 [demo_node ''a'', demo_node ''b''] [demo_fact\<lparr>mf_supersedes := prior\<rparr>] (Timestamp 9) None"

lemma demo_fact_prior: "fact_validate (demo_fact\<lparr>mf_supersedes := prior\<rparr>) = Ok ()"
  using demo_valid(2) by (simp only: fact_validate_Ok fact_ok_def) simp

lemma demo_parts_ok:
  assumes "prior = None \<or> prior = Some (TextId ''f'')"
  shows "\<exists>p. demo_parts prior = Ok p \<and> mp_supersessions p =
    (case prior of None \<Rightarrow> [] | Some i \<Rightarrow> [(i, sup_of (demo_fact\<lparr>mf_supersedes := prior\<rparr>))])"
proof -
  let ?f = "demo_fact\<lparr>mf_supersedes := prior\<rparr>"
  let ?p = "(with_capacity 0 0)\<lparr> mp_nodes := [node_history_new \<lparr> nr_node = demo_node ''a'', nr_recorded_at = Timestamp 9, nr_position = 0 \<rparr>,
        node_history_new \<lparr> nr_node = demo_node ''b'', nr_recorded_at = Timestamp 9, nr_position = 1 \<rparr>],
      mp_node_lookup := fst (ix_insert (fst (ix_insert (ix_new 0) (TextId ''a'') 0)) (TextId ''b'') 1) \<rparr>"
  let ?l = "fst (ix_insert (ix_new 0) (TextId ''f'') 0) :: fact_kind id_index"
  let ?g = "\<lparr> pf_source = 0, pf_target = 1, pf_id_hash = ix_hash (ix_new 0 :: fact_kind id_index) (TextId ''f'') \<rparr>"
  let ?q = "?p\<lparr> mp_fact_lookup := ?l, mp_supersessions := (case prior of None \<Rightarrow> [] | Some i \<Rightarrow> [(i, sup_of ?f)]), mp_facts := [?f] \<rparr>"
  have nodes: "try_fold (parts_node (Timestamp 9)) (with_capacity 0 0) (enumerate 0 [demo_node ''a'', demo_node ''b'']) = Ok ?p"
    by (simp add: parts_node_def demo_valid with_capacity_def case_prod_beta ix.put_prior ix.look_put ix.look_empty
        u64_try_from_def)
  have prep: "prepare_facts 1 ?p [?f] (Timestamp 9) = Ok [?g]"
    by (simp add: prepare_facts_eq prepare_fact_def demo_fact_prior require_entity_def ix.look_put ix.look_empty
        less_timestamp_def with_capacity_def)
  have facts: "try_fold parts_fact (mp_fact_lookup ?p) (enumerate 0 (zip [?f] [?g])) = Ok ?l"
    using ix.put_prior [of "ix_new 0 :: fact_kind id_index" "TextId ''f''" 0]
    by (simp add: parts_fact_def with_capacity_def case_prod_beta ix_insert_def ix.look_empty)
  have sup: "try_fold parts_supersede (?p\<lparr> mp_fact_lookup := ?l \<rparr>) [?f] =
      Ok (?p\<lparr> mp_fact_lookup := ?l, mp_supersessions := (case prior of None \<Rightarrow> [] | Some i \<Rightarrow> [(i, sup_of ?f)]) \<rparr>)"
    using assms
    by (auto simp: parts_supersede_def apply_supersession_def ix_contains_key_def ix.look_put with_capacity_def sup_of_def)
  have "within (length (mp_nodes ?q)) [(0, 1)]" "2 * length [(0 :: usize, 1 :: usize)] \<le> usize_max"
    by (simp_all add: within_def usize_max_def)
  then obtain r where r: "set_incidents [(0, 1)] ?q = Ok r" "mp_supersessions r = mp_supersessions ?q"
    by (rule set_incidents_correct) (metis (no_types, lifting) memory_projection.select_convs(8) memory_projection.surjective
        memory_projection.update_convs(5,6,7))
  have "demo_parts prior = Ok (r\<lparr> mp_last_global_position := None \<rparr>)"
    unfolding demo_parts_def try_from_parts_def nodes and_then.simps prep facts sup Let_def
    using r(1) by simp
  then show ?thesis using r(2) by (intro exI [of _ "r\<lparr> mp_last_global_position := None \<rparr>"]) simp
qed

theorem bulk_projection_consistent_witness: "\<exists>p. demo_parts None = Ok p \<and> proj_inv p"
proof -
  obtain p where p: "demo_parts None = Ok p" using demo_parts_ok [of None] by blast
  have "2 * length [demo_fact\<lparr>mf_supersedes := None\<rparr>] \<le> usize_max" by (simp add: usize_max_def)
  from bulk_projection_consistent [OF p [unfolded demo_parts_def] this] p show ?thesis by blast
qed


end
