(* ===== verification/Compact_Codec.thy ===== *)
theory Compact_Codec
  imports Compact_IO Projection_Index
begin

text \<open>
  The compact snapshot codec, \<open>src/src/snapshot/compact/domain.rs\<close> and
  \<open>src/src/snapshot/compact/mod.rs\<close>: what is written for nodes, facts, the replay cursor and the
  projection, and the reader that rebuilds the indexes. A projection read back has the node, fact,
  supersession and retraction tables that were written and freshly built indexes; for a snapshot
  whose indexes are already the freshly built ones the codec is exact, which interprets the
  contract \<open>codec\<close>.
\<close>

section \<open>Domain values (\<open>domain.rs\<close>)\<close>

definition write_attribute :: "string \<times> string \<Rightarrow> write_op" where
  "write_attribute entry = writes [wr_string (fst entry), wr_string (snd entry)]"

definition read_attribute :: "(string \<times> string) read_op" where
  "read_attribute = read_bind rd_string (\<lambda>key. read_bind rd_string (\<lambda>v. read_lift (Ok (key, v))))"

definition write_node :: "memory_node \<Rightarrow> write_op" where
  "write_node node = writes
    [wr_string (as_str (mn_id node)),
     wr_string (mn_kind node),
     wr_string (mn_label node),
     wr_optional_string (mn_repository node),
     wr_optional_string (mn_branch node),
     wr_usize (length (mn_attributes node)),
     writes (map write_attribute (mn_attributes node))]"

definition read_node :: "memory_node read_op" where
  "read_node =
    read_bind rd_string (\<lambda>raw. read_bind (read_lift (text_id_new ''entity'' raw)) (\<lambda>i.
    read_bind rd_string (\<lambda>kind.
    read_bind rd_string (\<lambda>label.
    read_bind rd_optional_string (\<lambda>repository.
    read_bind rd_optional_string (\<lambda>branch.
    read_bind rd_count (\<lambda>count.
    read_bind (rd_entries count read_attribute ''duplicate node attribute'' []) (\<lambda>attributes.
    read_lift (Ok \<lparr> mn_id = i, mn_kind = kind, mn_label = label, mn_repository = repository,
      mn_branch = branch, mn_attributes = attributes \<rparr>)))))))))"

definition write_evidence :: "evidence \<Rightarrow> write_op" where
  "write_evidence e = writes
    [wr_string (ev_kind e), wr_string (ev_source e), wr_optional_string (ev_locator e),
     wr_optional_string (ev_digest e)]"

definition read_evidence :: "evidence read_op" where
  "read_evidence =
    read_bind rd_string (\<lambda>kind.
    read_bind rd_string (\<lambda>source.
    read_bind rd_optional_string (\<lambda>locator.
    read_bind rd_optional_string (\<lambda>digest.
    read_lift (Ok \<lparr> ev_kind = kind, ev_source = source, ev_locator = locator, ev_digest = digest \<rparr>)))))"

definition u16_try_from :: "u64 \<Rightarrow> u16 option" where
  "u16_try_from w = (if w < 0x10000 then Some (ucast w) else None)"

definition write_fact :: "memory_fact \<Rightarrow> write_op" where
  "write_fact f = writes
    [wr_string (as_str (mf_id f)),
     wr_string (as_str (mf_source f)),
     wr_string (mf_relation f),
     wr_string (as_str (mf_target f)),
     wr_signed (as_unix_micros (mf_valid_from f)),
     wr_optional_signed (map_option as_unix_micros (mf_valid_until f)),
     wr_signed (as_unix_micros (mf_observed_at f)),
     wr_signed (as_unix_micros (mf_recorded_at f)),
     wr_string (as_str (mf_agent_id f)),
     wr_string (as_str (mf_session_id f)),
     wr_varint (ucast (basis_points (mf_confidence f))),
     wr_usize (length (mf_evidence f)),
     writes (map write_evidence (mf_evidence f)),
     wr_optional_string (map_option as_str (mf_supersedes f))]"

definition read_fact_id :: "fact_id read_op" where
  "read_fact_id = read_bind rd_string (\<lambda>raw. read_lift (text_id_new ''fact'' raw))"

definition read_fact :: "memory_fact read_op" where
  "read_fact =
    read_bind rd_string (\<lambda>raw. read_bind (read_lift (text_id_new ''fact'' raw)) (\<lambda>i.
    read_bind rd_string (\<lambda>raw. read_bind (read_lift (text_id_new ''entity'' raw)) (\<lambda>source.
    read_bind rd_string (\<lambda>relation.
    read_bind rd_string (\<lambda>raw. read_bind (read_lift (text_id_new ''entity'' raw)) (\<lambda>target.
    read_bind rd_signed (\<lambda>valid_from.
    read_bind rd_optional_signed (\<lambda>valid_until.
    read_bind rd_signed (\<lambda>observed_at.
    read_bind rd_signed (\<lambda>recorded_at.
    read_bind rd_string (\<lambda>raw. read_bind (read_lift (text_id_new ''agent'' raw)) (\<lambda>agent.
    read_bind rd_string (\<lambda>raw. read_bind (read_lift (text_id_new ''session'' raw)) (\<lambda>session.
    read_bind rd_varint (\<lambda>raw. read_bind (read_lift (ok_or (u16_try_from raw) (codec_err ''confidence exceeds u16''))) (\<lambda>points.
    read_bind (read_lift (from_basis_points points)) (\<lambda>confidence.
    read_bind rd_count (\<lambda>count.
    read_bind (rd_repeat count read_evidence) (\<lambda>evidence.
    read_bind (rd_optional read_fact_id) (\<lambda>supersedes.
    read_lift (Ok \<lparr> mf_id = i, mf_source = source, mf_relation = relation, mf_target = target,
      mf_valid_from = Timestamp valid_from, mf_valid_until = map_option Timestamp valid_until,
      mf_observed_at = Timestamp observed_at, mf_recorded_at = Timestamp recorded_at, mf_agent_id = agent,
      mf_session_id = session, mf_confidence = confidence, mf_evidence = evidence,
      mf_supersedes = supersedes \<rparr>))))))))))))))))))))))"

section \<open>Cursor and projection (\<open>mod.rs\<close>)\<close>

definition COMPACT_HEADER :: bytes where
  "COMPACT_HEADER = as_bytes ''WMEMCB01''"

definition write_stream_version :: "stream_id \<times> u64 \<Rightarrow> write_op" where
  "write_stream_version entry = writes [wr_string (as_str (fst entry)), wr_varint (snd entry)]"

definition read_stream_version :: "(stream_id \<times> u64) read_op" where
  "read_stream_version =
    read_bind rd_string (\<lambda>raw. read_bind (read_lift (text_id_new ''stream'' raw)) (\<lambda>stream.
    read_bind rd_varint (\<lambda>version. read_lift (Ok (stream, version)))))"

definition write_cursor :: "replay_cursor \<Rightarrow> write_op" where
  "write_cursor cursor = writes
    [wr_optional_u64 (rc_global_position cursor),
     wr_usize (length (rc_stream_versions cursor)),
     writes (map write_stream_version (rc_stream_versions cursor))]"

definition read_cursor :: "replay_cursor read_op" where
  "read_cursor =
    read_bind rd_optional_u64 (\<lambda>global_position.
    read_bind rd_count (\<lambda>count.
    read_bind (rd_entries count read_stream_version ''duplicate stream in replay cursor'' []) (\<lambda>stream_versions.
    read_lift (Ok \<lparr> rc_global_position = global_position, rc_stream_versions = stream_versions \<rparr>))))"

definition write_revision :: "node_revision \<Rightarrow> write_op" where
  "write_revision revision = writes
    [write_node (nr_node revision), wr_signed (as_unix_micros (nr_recorded_at revision)), wr_varint (nr_position revision)]"

definition read_revision :: "node_revision read_op" where
  "read_revision =
    read_bind read_node (\<lambda>node.
    read_bind rd_signed (\<lambda>recorded_at.
    read_bind rd_varint (\<lambda>position.
    read_lift (Ok \<lparr> nr_node = node, nr_recorded_at = Timestamp recorded_at, nr_position = position \<rparr>))))"

definition write_history :: "node_history \<Rightarrow> write_op" where
  "write_history history = writes
    [wr_usize (length (nh_later history) + 1), write_revision (nh_first history),
     writes (map write_revision (nh_later history))]"

definition read_history :: "node_history read_op" where
  "read_history =
    read_bind rd_count (\<lambda>count.
    if count = 0 then read_lift (Err (codec_err ''node revision history must not be empty''))
    else read_bind read_revision (\<lambda>first.
      read_bind (rd_repeat (count - 1) read_revision) (\<lambda>later.
      read_lift (Ok \<lparr> nh_first = first, nh_later = later \<rparr>))))"

definition write_supersession :: "fact_id \<times> supersession \<Rightarrow> write_op" where
  "write_supersession entry = writes
    [wr_string (as_str (fst entry)), wr_string (as_str (sup_replacement (snd entry))),
     wr_signed (as_unix_micros (sup_valid_from (snd entry))), wr_signed (as_unix_micros (sup_recorded_at (snd entry)))]"

definition read_supersession :: "(fact_id \<times> supersession) read_op" where
  "read_supersession =
    read_bind rd_string (\<lambda>raw. read_bind (read_lift (text_id_new ''fact'' raw)) (\<lambda>prior.
    read_bind rd_string (\<lambda>raw. read_bind (read_lift (text_id_new ''fact'' raw)) (\<lambda>replacement.
    read_bind rd_signed (\<lambda>valid_from.
    read_bind rd_signed (\<lambda>recorded_at.
    read_lift (Ok (prior, \<lparr> sup_replacement = replacement, sup_valid_from = Timestamp valid_from,
      sup_recorded_at = Timestamp recorded_at \<rparr>))))))))"

definition read_supersessions :: "(fact_id, supersession) btree_map read_op" where
  "read_supersessions = read_bind rd_count (\<lambda>count. rd_entries count read_supersession ''duplicate supersession'' [])"

definition write_retraction :: "fact_id \<times> retraction \<Rightarrow> write_op" where
  "write_retraction entry = writes
    [wr_string (as_str (fst entry)), wr_signed (as_unix_micros (ret_valid_until (snd entry))),
     wr_signed (as_unix_micros (ret_recorded_at (snd entry)))]"

definition read_retraction :: "(fact_id \<times> retraction) read_op" where
  "read_retraction =
    read_bind rd_string (\<lambda>raw. read_bind (read_lift (text_id_new ''fact'' raw)) (\<lambda>i.
    read_bind rd_signed (\<lambda>valid_until.
    read_bind rd_signed (\<lambda>recorded_at.
    read_lift (Ok (i, \<lparr> ret_valid_until = Timestamp valid_until, ret_recorded_at = Timestamp recorded_at \<rparr>))))))"

definition read_retractions :: "(fact_id, retraction) btree_map read_op" where
  "read_retractions = read_bind rd_count (\<lambda>count. rd_entries count read_retraction ''duplicate retraction'' [])"

definition write_projection :: "memory_projection \<Rightarrow> write_op" where
  "write_projection p = writes
    [wr_usize (length (mp_nodes p)),
     writes (map write_history (mp_nodes p)),
     wr_usize (length (mp_facts p)),
     writes (map write_fact (mp_facts p)),
     wr_usize (length (mp_supersessions p)),
     writes (map write_supersession (mp_supersessions p)),
     wr_usize (length (mp_retractions p)),
     writes (map write_retraction (mp_retractions p)),
     wr_optional_u64 (mp_last_global_position p)]"

definition read_projection :: "u64 \<Rightarrow> u64 \<Rightarrow> memory_projection read_op" where
  "read_projection node_seed fact_seed =
    read_bind rd_count (\<lambda>node_count.
    read_bind (rd_repeat node_count read_history) (\<lambda>nodes.
    read_bind rd_count (\<lambda>fact_count.
    read_bind (rd_repeat fact_count read_fact) (\<lambda>facts.
    read_bind read_supersessions (\<lambda>supersessions.
    read_bind read_retractions (\<lambda>retractions.
    read_bind rd_optional_u64 (\<lambda>last_global_position.
    read_lift (rebuild_indexes \<lparr> mp_nodes = nodes, mp_facts = facts, mp_node_lookup = ix_new node_seed,
      mp_fact_lookup = ix_new fact_seed, mp_incident_offsets = [], mp_incident_facts = [],
      mp_incident_delta = Map.empty, mp_supersessions = supersessions, mp_retractions = retractions,
      mp_last_global_position = last_global_position \<rparr>))))))))"

definition compact_encode :: "memory_projection projection_snapshot \<Rightarrow> bytes memory_result" where
  "compact_encode snapshot =
    and_then (write_cursor (ps_cursor snapshot) COMPACT_HEADER) (\<lambda>w.
    write_projection (ps_projection snapshot) w)"

definition compact_decode :: "u64 \<Rightarrow> u64 \<Rightarrow> bytes \<Rightarrow> memory_projection projection_snapshot memory_result" where
  "compact_decode node_seed fact_seed bs =
    and_then (reader_new bs COMPACT_HEADER) (\<lambda>r.
    and_then (read_cursor r) (\<lambda>(cursor, r).
    and_then (read_projection node_seed fact_seed r) (\<lambda>(projection, r).
    and_then (reader_finish r) (\<lambda>_.
    if rc_global_position cursor \<noteq> mp_last_global_position projection
    then Err (codec_err ''cursor and projection positions disagree'')
    else Ok \<lparr> ps_cursor = cursor, ps_projection = projection \<rparr>))))"

section \<open>Values Rust's types admit\<close>

text \<open>
  Text is UTF-8, identifiers passed their constructor, confidences are in range, maps have their
  keys in order and lengths fit \<open>usize\<close>: what the types of the program guarantee of every value.
\<close>

definition str_typed :: "string \<Rightarrow> bool" where
  "str_typed s \<longleftrightarrow> str_ok s \<and> length s \<le> usize_max"

definition opt_str_typed :: "string option \<Rightarrow> bool" where
  "opt_str_typed m \<longleftrightarrow> (\<forall>s. m = Some s \<longrightarrow> str_typed s)"

definition id_typed :: "'k text_id \<Rightarrow> bool" where
  "id_typed i \<longleftrightarrow> text_id_ok i \<and> length (as_str i) \<le> usize_max"

definition node_typed :: "memory_node \<Rightarrow> bool" where
  "node_typed n \<longleftrightarrow> id_typed (mn_id n) \<and> str_typed (mn_kind n) \<and> str_typed (mn_label n) \<and>
    opt_str_typed (mn_repository n) \<and> opt_str_typed (mn_branch n) \<and> bt_ok (mn_attributes n) \<and>
    length (mn_attributes n) \<le> usize_max \<and> (\<forall>(k, v) \<in> set (mn_attributes n). str_typed k \<and> str_typed v)"

definition evidence_typed :: "evidence \<Rightarrow> bool" where
  "evidence_typed e \<longleftrightarrow> str_typed (ev_kind e) \<and> str_typed (ev_source e) \<and> opt_str_typed (ev_locator e) \<and>
    opt_str_typed (ev_digest e)"

definition fact_typed :: "memory_fact \<Rightarrow> bool" where
  "fact_typed f \<longleftrightarrow> id_typed (mf_id f) \<and> id_typed (mf_source f) \<and> id_typed (mf_target f) \<and>
    str_typed (mf_relation f) \<and> id_typed (mf_agent_id f) \<and> id_typed (mf_session_id f) \<and>
    confidence_ok (mf_confidence f) \<and> length (mf_evidence f) \<le> usize_max \<and>
    (\<forall>e \<in> set (mf_evidence f). evidence_typed e) \<and> (\<forall>i. mf_supersedes f = Some i \<longrightarrow> id_typed i)"

definition cursor_typed :: "replay_cursor \<Rightarrow> bool" where
  "cursor_typed c \<longleftrightarrow> bt_ok (rc_stream_versions c) \<and> length (rc_stream_versions c) \<le> usize_max \<and>
    (\<forall>(stream, version) \<in> set (rc_stream_versions c). id_typed stream)"

definition history_typed :: "node_history \<Rightarrow> bool" where
  "history_typed h \<longleftrightarrow> length (nh_later h) + 1 \<le> usize_max \<and> (\<forall>r \<in> set (nh_first h # nh_later h). node_typed (nr_node r))"

definition projection_typed :: "memory_projection \<Rightarrow> bool" where
  "projection_typed p \<longleftrightarrow>
    length (mp_nodes p) \<le> usize_max \<and> (\<forall>h \<in> set (mp_nodes p). history_typed h) \<and>
    2 * length (mp_facts p) \<le> usize_max \<and> (\<forall>f \<in> set (mp_facts p). fact_typed f) \<and>
    bt_ok (mp_supersessions p) \<and> length (mp_supersessions p) \<le> usize_max \<and>
    (\<forall>(i, c) \<in> set (mp_supersessions p). id_typed i \<and> id_typed (sup_replacement c)) \<and>
    bt_ok (mp_retractions p) \<and> length (mp_retractions p) \<le> usize_max \<and>
    (\<forall>(i, c) \<in> set (mp_retractions p). id_typed i)"

lemmas typed_defs = str_typed_def opt_str_typed_def id_typed_def

section \<open>Round trips\<close>

lemma str_of_id_ok: "id_typed i \<Longrightarrow> str_ok (as_str i)"
  by (simp add: id_typed_def text_id_ok_def)

lemma text_id_new_typed [simp]: "id_typed i \<Longrightarrow> text_id_new kind (as_str i) = Ok i"
  by (simp add: id_typed_def)

lemma encodes_id:
  assumes "id_typed i" "encodes (writes ws) (k i) v"
  shows "encodes (writes (wr_string (as_str i) # ws))
    (read_bind rd_string (\<lambda>raw. read_bind (read_lift (text_id_new kind raw)) k)) v"
  using assms by (intro encodes_Cons [OF encodes_string [OF str_of_id_ok]]) auto

lemma encodes_done: "x = v \<Longrightarrow> encodes (writes []) (read_lift (Ok x)) v"
  by (simp add: encodes_Nil)

lemmas encodes_intros = encodes_id encodes_done
  encodes_Cons [OF encodes_string] encodes_Cons [OF encodes_optional_string] encodes_Cons [OF encodes_signed]
  encodes_Cons [OF encodes_optional_signed] encodes_Cons [OF encodes_varint] encodes_Cons [OF encodes_optional_u64]

lemma encodes_attribute:
  assumes "str_typed k" "str_typed v"
  shows "encodes (write_attribute (k, v)) read_attribute (k, v)"
  unfolding write_attribute_def read_attribute_def fst_conv snd_conv
  using assms by (intro encodes_intros) (auto simp: typed_defs)

lemma grows_attribute: "grows (write_attribute x)"
  unfolding write_attribute_def by (rule grows_writes [OF grows_string]) (simp add: extends_ops)

lemma encodes_entries_count:
  assumes "\<And>k v. (k, v) \<in> set xs \<Longrightarrow> encodes (wr (k, v)) rd (k, v) \<and> grows (wr (k, v))" "bt_ok xs"
    and "encodes (writes ws) (g xs) v"
  shows "encodes (writes (wr_usize (length xs) # writes (map wr xs) # ws))
    (read_bind rd_count (\<lambda>count. read_bind (rd_entries count rd duplicate []) g)) v"
proof -
  have "encodes (writes (map wr xs)) (rd_entries (length xs) rd duplicate []) ([] @ xs)"
    using assms by (intro encodes_entries) auto
  then show ?thesis using assms by (intro encodes_count encodes_Cons [of "writes (map wr xs)" _ xs]) auto
qed

lemma encodes_repeat_count:
  assumes "\<And>x. x \<in> set xs \<Longrightarrow> encodes (wr x) rd x \<and> grows (wr x)" "encodes (writes ws) (g xs) v"
  shows "encodes (writes (wr_usize (length xs) # writes (map wr xs) # ws))
    (read_bind rd_count (\<lambda>count. read_bind (rd_repeat count rd) g)) v"
  using assms by (intro encodes_count encodes_Cons [of "writes (map wr xs)" _ xs] encodes_repeat) auto

lemma encodes_node:
  assumes "node_typed n"
  shows "encodes (write_node n) read_node n"
  using assms unfolding write_node_def read_node_def node_typed_def
  by (intro encodes_intros encodes_entries_count) (auto simp: encodes_attribute grows_attribute typed_defs(1,2))

lemma grows_node: "grows (write_node n)"
  unfolding write_node_def
  by (rule grows_writes [OF grows_string]) (simp add: extends_ops extends_map grows_extends grows_attribute)

lemma encodes_evidence: "evidence_typed e \<Longrightarrow> encodes (write_evidence e) read_evidence e"
  unfolding write_evidence_def read_evidence_def evidence_typed_def
  by (intro encodes_intros) (auto simp: typed_defs(1,2))

lemma grows_evidence: "grows (write_evidence e)"
  unfolding write_evidence_def by (rule grows_writes [OF grows_string]) (simp add: extends_ops)

lemma encodes_fact_id: "id_typed i \<Longrightarrow> encodes (wr_string (as_str i)) read_fact_id i"
  unfolding read_fact_id_def
  using encodes_Cons [OF encodes_string [OF str_of_id_ok], of i "[]" "\<lambda>raw. read_lift (text_id_new ''fact'' raw)" i]
  by (simp add: writes_Cons encodes_Nil [unfolded writes_Nil] writes_Nil)

lemma encodes_supersedes:
  assumes ids: "\<And>i. m = Some i \<Longrightarrow> id_typed i" and rest: "encodes (writes ws) (k m) v"
  shows "encodes (writes (wr_optional_string (map_option as_str m) # ws)) (read_bind (rd_optional read_fact_id) k) v"
proof (rule encodes_Cons [where a = m and k = k, OF _ rest])
  have "encodes (wr_optional (\<lambda>i. wr_string (as_str i)) m) (rd_optional read_fact_id) m"
    using ids by (intro encodes_optional encodes_fact_id) auto
  then show "encodes (wr_optional_string (map_option as_str m)) (rd_optional read_fact_id) m"
    by (cases m) (simp_all add: wr_optional_string_def wr_optional_def [abs_def])
qed

lemma u16_try_from_ucast [simp]: "u16_try_from (ucast (w :: u16)) = Some w"
proof -
  have "unat (ucast w :: u64) < 0x10000"
    using unsigned_less [of w, where 'a = nat] by (simp add: unsigned_ucast_eq take_bit_nat_eq_self)
  moreover have "ucast (ucast w :: u64) = w" by (rule bit_word_eqI) (auto simp: bit_simps)
  ultimately show ?thesis by (simp add: u16_try_from_def word_less_nat_alt)
qed

lemma Timestamp_opt [simp]: "map_option Timestamp (map_option as_unix_micros t) = t"
  by (cases t) auto

lemma encodes_confidence:
  assumes "confidence_ok c" "encodes (writes ws) (k c) v"
  shows "encodes (writes (wr_varint (ucast (basis_points c)) # ws)) (read_bind rd_varint (\<lambda>raw.
    read_bind (read_lift (ok_or (u16_try_from raw) e)) (\<lambda>points. read_bind (read_lift (from_basis_points points)) k))) v"
  using assms by (intro encodes_Cons [OF encodes_varint]) simp

lemma encodes_fact:
  assumes "fact_typed f"
  shows "encodes (write_fact f) read_fact f"
  using assms unfolding write_fact_def read_fact_def fact_typed_def
  by (intro encodes_intros encodes_confidence encodes_repeat_count encodes_supersedes)
    (auto simp: encodes_evidence grows_evidence str_typed_def)

lemma grows_fact: "grows (write_fact f)"
  unfolding write_fact_def
  by (rule grows_writes [OF grows_string]) (simp add: extends_ops extends_map grows_extends grows_evidence)

lemma encodes_stream_version:
  "id_typed stream \<Longrightarrow> encodes (write_stream_version (stream, version)) read_stream_version (stream, version)"
  unfolding write_stream_version_def read_stream_version_def fst_conv snd_conv
  by (intro encodes_intros) auto

lemma grows_stream_version: "grows (write_stream_version x)"
  unfolding write_stream_version_def by (rule grows_writes [OF grows_string]) (simp add: extends_ops)

lemma encodes_cursor: "cursor_typed c \<Longrightarrow> encodes (write_cursor c) read_cursor c"
  unfolding write_cursor_def read_cursor_def cursor_typed_def
  by (intro encodes_intros encodes_entries_count) (auto simp: encodes_stream_version grows_stream_version)

lemma encodes_revision: "node_typed (nr_node r) \<Longrightarrow> encodes (write_revision r) read_revision r"
  unfolding write_revision_def read_revision_def
  by (intro encodes_intros encodes_Cons [OF encodes_node]) auto

lemma grows_revision: "grows (write_revision r)"
  unfolding write_revision_def by (rule grows_writes [OF grows_node]) (simp add: extends_ops)

lemma encodes_history:
  assumes "history_typed h"
  shows "encodes (write_history h) read_history h"
proof -
  let ?rs = "nh_first h # nh_later h"
  let ?k = "\<lambda>count. if count = 0 then read_lift (Err (codec_err ''node revision history must not be empty''))
    else read_bind read_revision (\<lambda>first. read_bind (rd_repeat (count - 1) read_revision) (\<lambda>later.
      read_lift (Ok \<lparr> nh_first = first, nh_later = later \<rparr>)))"
  have "encodes (writes [write_revision (nh_first h), writes (map write_revision (nh_later h))])
      (read_bind read_revision (\<lambda>first. read_bind (rd_repeat (length (nh_later h)) read_revision) (\<lambda>later.
      read_lift (Ok \<lparr> nh_first = first, nh_later = later \<rparr>)))) h"
    using assms [unfolded history_typed_def]
    by (intro encodes_Cons [OF encodes_revision] encodes_Cons [OF encodes_repeat] encodes_done)
      (auto simp: encodes_revision)
  then have "encodes (writes [writes (map write_revision ?rs)]) (?k (length ?rs)) h"
    by (simp add: writes_Cons writes_Nil and_then_assoc)
  from encodes_count [where k = ?k and wr = write_revision and xs = ?rs and ws = "[]", OF this grows_revision encodes_Nil]
  have "encodes (writes [wr_usize (length ?rs), writes (map write_revision ?rs)]) (read_bind rd_count ?k) h"
    by blast
  then show ?thesis
    unfolding write_history_def read_history_def by (simp add: writes_Cons writes_Nil and_then_assoc)
qed

lemma grows_history: "grows (write_history h)"
  unfolding write_history_def
  by (rule grows_writes [OF grows_usize]) (simp add: extends_map grows_extends grows_revision)

lemma encodes_supersession:
  "id_typed i \<Longrightarrow> id_typed (sup_replacement c) \<Longrightarrow> encodes (write_supersession (i, c)) read_supersession (i, c)"
  unfolding write_supersession_def read_supersession_def fst_conv snd_conv
  by (intro encodes_intros) auto

lemma grows_supersession: "grows (write_supersession x)"
  unfolding write_supersession_def by (rule grows_writes [OF grows_string]) (simp add: extends_ops)

lemma encodes_retraction: "id_typed i \<Longrightarrow> encodes (write_retraction (i, c)) read_retraction (i, c)"
  unfolding write_retraction_def read_retraction_def fst_conv snd_conv
  by (intro encodes_intros) auto

lemma grows_retraction: "grows (write_retraction x)"
  unfolding write_retraction_def by (rule grows_writes [OF grows_string]) (simp add: extends_ops)

lemma read_bind_assoc: "read_bind (read_bind m f) g = read_bind m (\<lambda>x. read_bind (f x) g)"
  by (rule ext) (auto simp: read_bind_def and_then_assoc intro!: and_then_cong)

lemma encodes_projection:
  assumes "projection_typed p" "rebuild_indexes (bare ns fs p) = Ok q"
  shows "encodes (write_projection p) (read_projection ns fs) q"
proof -
  have bare: "\<lparr> mp_nodes = mp_nodes p, mp_facts = mp_facts p, mp_node_lookup = ix_new ns,
      mp_fact_lookup = ix_new fs, mp_incident_offsets = [], mp_incident_facts = [],
      mp_incident_delta = Map.empty, mp_supersessions = mp_supersessions p, mp_retractions = mp_retractions p,
      mp_last_global_position = mp_last_global_position p \<rparr> = bare ns fs p"
    by (simp add: bare_def)
  show ?thesis
    using assms unfolding write_projection_def read_projection_def read_supersessions_def read_retractions_def
      read_bind_assoc projection_typed_def
    by (intro encodes_intros encodes_repeat_count encodes_entries_count)
      (auto simp: encodes_history grows_history encodes_fact grows_fact encodes_supersession grows_supersession
        encodes_retraction grows_retraction bare encodes_Nil)
qed

section \<open>Encoding does not fail\<close>

lemma succeeds_typed:
  "str_typed s \<Longrightarrow> succeeds (wr_string s)" "id_typed i \<Longrightarrow> succeeds (wr_string (as_str i))"
  "opt_str_typed m \<Longrightarrow> succeeds (wr_optional_string m)"
  by (auto simp: typed_defs succeeds_ops intro!: succeeds_optional_ops)

lemmas succeeds_all = succeeds_typed succeeds_ops(2-5) succeeds_optional_ops(1,2)

lemma succeeds_attribute: "str_typed (fst x) \<Longrightarrow> str_typed (snd x) \<Longrightarrow> succeeds (write_attribute x)"
  unfolding write_attribute_def by (intro succeeds_writes) (simp add: succeeds_all)

lemma succeeds_node: "node_typed n \<Longrightarrow> succeeds (write_node n)"
  unfolding write_node_def node_typed_def
  by (intro succeeds_writes) (auto simp: succeeds_all intro!: succeeds_map succeeds_attribute)

lemma succeeds_evidence: "evidence_typed e \<Longrightarrow> succeeds (write_evidence e)"
  unfolding write_evidence_def evidence_typed_def by (intro succeeds_writes) (simp add: succeeds_all)

lemma succeeds_fact: "fact_typed f \<Longrightarrow> succeeds (write_fact f)"
  unfolding write_fact_def fact_typed_def
  by (intro succeeds_writes) (auto simp: succeeds_all succeeds_evidence id_typed_def intro!: succeeds_map succeeds_optional_ops)

lemma succeeds_revision: "node_typed (nr_node r) \<Longrightarrow> succeeds (write_revision r)"
  unfolding write_revision_def by (intro succeeds_writes) (simp add: succeeds_all succeeds_node)

lemma succeeds_history: "history_typed h \<Longrightarrow> succeeds (write_history h)"
  unfolding write_history_def history_typed_def
  by (intro succeeds_writes) (auto simp: succeeds_all intro!: succeeds_map succeeds_revision)

lemma succeeds_stream_version: "id_typed (fst x) \<Longrightarrow> succeeds (write_stream_version x)"
  unfolding write_stream_version_def by (intro succeeds_writes) (simp add: succeeds_all)

lemma succeeds_cursor: "cursor_typed c \<Longrightarrow> succeeds (write_cursor c)"
  unfolding write_cursor_def cursor_typed_def
  by (intro succeeds_writes) (auto simp: succeeds_all intro!: succeeds_map succeeds_stream_version)

lemma succeeds_change:
  "id_typed (fst x) \<Longrightarrow> id_typed (sup_replacement (snd x)) \<Longrightarrow> succeeds (write_supersession x)"
  "id_typed (fst y) \<Longrightarrow> succeeds (write_retraction y)"
  unfolding write_supersession_def write_retraction_def by (intro succeeds_writes; simp add: succeeds_all)+

lemma succeeds_projection: "projection_typed p \<Longrightarrow> succeeds (write_projection p)"
  unfolding write_projection_def projection_typed_def
  by (intro succeeds_writes)
    (auto simp: succeeds_all intro!: succeeds_map succeeds_history succeeds_fact succeeds_change)

section \<open>The codec\<close>

definition snapshot_typed :: "memory_projection projection_snapshot \<Rightarrow> bool" where
  "snapshot_typed s \<longleftrightarrow> cursor_typed (ps_cursor s) \<and> projection_typed (ps_projection s) \<and>
    rc_global_position (ps_cursor s) = mp_last_global_position (ps_projection s)"

lemma compact_encode_total: "snapshot_typed s \<Longrightarrow> \<exists>bs. compact_encode s = Ok bs"
  using succeeds_cursor [of "ps_cursor s"] succeeds_projection [of "ps_projection s"]
  unfolding snapshot_typed_def compact_encode_def succeeds_def by (metis and_then.simps(1))

lemma rebuild_keeps_position:
  "rebuild_indexes p = Ok q \<Longrightarrow> mp_last_global_position q = mp_last_global_position p"
  by (auto simp: rebuild_indexes_def set_incidents_def Let_def case_prod_beta result_simps)

lemma compact_decode_encode:
  assumes "snapshot_typed s" "rebuild_indexes (bare ns fs (ps_projection s)) = Ok q" "compact_encode s = Ok bs"
    "length bs \<le> usize_max"
  shows "compact_decode ns fs bs = Ok \<lparr> ps_cursor = ps_cursor s, ps_projection = q \<rparr>"
proof -
  let ?c = "ps_cursor s" and ?p = "ps_projection s"
  have typed: "cursor_typed ?c" "projection_typed ?p" "rc_global_position ?c = mp_last_global_position ?p"
    using assms(1) by (auto simp: snapshot_typed_def)
  obtain w where w: "write_cursor ?c COMPACT_HEADER = Ok w" "write_projection ?p w = Ok bs"
    using assms(3) by (auto simp: compact_encode_def result_simps)
  obtain b1 where b1: "w = COMPACT_HEADER @ b1" "\<And>pre post. length (pre @ b1 @ post) \<le> usize_max \<Longrightarrow>
      read_cursor \<lparr> rd_bytes = pre @ b1 @ post, rd_position = length pre \<rparr> =
        Ok (?c, \<lparr> rd_bytes = pre @ b1 @ post, rd_position = length pre + length b1 \<rparr>)"
    using encodesE [OF encodes_cursor [OF typed(1)] w(1)] by blast
  obtain b2 where b2: "bs = w @ b2" "\<And>pre post. length (pre @ b2 @ post) \<le> usize_max \<Longrightarrow>
      read_projection ns fs \<lparr> rd_bytes = pre @ b2 @ post, rd_position = length pre \<rparr> =
        Ok (q, \<lparr> rd_bytes = pre @ b2 @ post, rd_position = length pre + length b2 \<rparr>)"
    using encodesE [OF encodes_projection [OF typed(2) assms(2)] w(2)] by blast
  have bs: "bs = COMPACT_HEADER @ b1 @ b2" using b1(1) b2(1) by simp
  have "mp_last_global_position q = mp_last_global_position ?p"
    using rebuild_keeps_position [OF assms(2)] by (simp add: bare_def)
  then show ?thesis
    using b1(2) [of COMPACT_HEADER b2] b2(2) [of "COMPACT_HEADER @ b1" "[]"] assms(4) typed(3)
    by (simp add: compact_decode_def reader_new_def reader_finish_def bs add.assoc)
qed

text \<open>A snapshot whose indexes are the freshly built ones, as after a decode.\<close>

definition snapshot_fresh :: "u64 \<Rightarrow> u64 \<Rightarrow> memory_projection projection_snapshot \<Rightarrow> bool" where
  "snapshot_fresh ns fs s \<longleftrightarrow> snapshot_typed s \<and> rebuild_indexes (bare ns fs (ps_projection s)) = Ok (ps_projection s) \<and>
    (\<forall>bs. compact_encode s = Ok bs \<longrightarrow> length bs \<le> usize_max)"

interpretation compact: codec compact_encode "compact_decode ns fs" "snapshot_fresh ns fs" for ns fs
  by unfold_locales (auto simp: snapshot_fresh_def compact_decode_encode)

lemma compact_round_trip_ok:
  assumes "snapshot_typed s" "proj_inv (ps_projection s)"
  shows "\<exists>bs. compact_encode s = Ok bs \<and> (length bs \<le> usize_max \<longrightarrow>
    (\<exists>q. compact_decode ns fs bs = Ok \<lparr> ps_cursor = ps_cursor s, ps_projection = q \<rparr> \<and>
       projection_eq q (ps_projection s) \<and> proj_inv q))"
proof -
  obtain bs where bs: "compact_encode s = Ok bs" using compact_encode_total [OF assms(1)] by blast
  have "2 * length (mp_facts (ps_projection s)) \<le> usize_max"
    using assms(1) by (simp add: snapshot_typed_def projection_typed_def)
  then obtain q where "rebuild_indexes (bare ns fs (ps_projection s)) = Ok q" "projection_eq q (ps_projection s)" "proj_inv q"
    using rebuild_restores [OF assms(2)] by blast
  with bs compact_decode_encode [OF assms(1)] show ?thesis by blast
qed

text \<open>
  C13: every snapshot of a consistent projection is encoded by the compact codec without an error,
  and decoding the bytes returns the same cursor and a consistent projection that is equal in the
  sense of \<open>PartialEq\<close>, with rebuilt indexes.
\<close>

theorem compact_snapshot_round_trip:
  assumes "snapshot_typed s" "proj_inv (ps_projection s)"
  shows "\<exists>bs. compact_encode s = Ok bs \<and> (length bs \<le> usize_max \<longrightarrow>
    (\<exists>q. compact_decode ns fs bs = Ok \<lparr> ps_cursor = ps_cursor s, ps_projection = q \<rparr> \<and>
       projection_eq q (ps_projection s) \<and> proj_inv q))"
  using assms by (rule compact_round_trip_ok)

definition demo_snapshot :: "memory_projection projection_snapshot" where
  "demo_snapshot = \<lparr> ps_cursor = \<lparr> rc_global_position = Some 3, rc_stream_versions = [(TextId ''s'', 3)] \<rparr>,
     ps_projection = demo_projection [(TextId ''f'', demo_first)] 3 \<rparr>"

lemma demo_texts:
  "id_typed (TextId ''a'' :: entity_id)" "id_typed (TextId ''b'' :: entity_id)" "id_typed (TextId ''f'' :: fact_id)"
  "id_typed (TextId ''s'' :: stream_id)" "id_typed (TextId ''agent'' :: agent_id)" "id_typed (TextId ''session'' :: session_id)"
  "str_typed ''module''" "str_typed ''label''" "str_typed ''test''" "str_typed ''suite''" "str_typed ''calls''"
  by (simp_all add: id_typed_def str_typed_def text_id_ok_def trimmed_code white_space_def suffix_def prefix_def str_ok_def
      as_bytes_def byte_of_char_def usize_max_def)

lemma demo_node_typed: "id_typed (TextId i :: entity_id) \<Longrightarrow> node_typed (demo_node i)"
  by (simp add: node_typed_def demo_node_def demo_texts opt_str_typed_def)

lemma demo_fact_typed: "fact_typed demo_fact"
  by (simp add: fact_typed_def demo_texts confidence_ok_def certain_def evidence_typed_def opt_str_typed_def usize_max_def)
    (simp add: demo_fact_def demo_evidence_def demo_texts certain_def)

lemma demo_snapshot_typed: "snapshot_typed demo_snapshot"
  by (simp add: snapshot_typed_def demo_snapshot_def cursor_typed_def projection_typed_def demo_projection_def demo_texts
      history_typed_def node_history_new_def demo_node_typed demo_fact_typed usize_max_def bt_ok_def)

theorem compact_snapshot_round_trip_witness:
  "\<exists>bs. compact_encode demo_snapshot = Ok bs \<and> (length bs \<le> usize_max \<longrightarrow>
    (\<exists>q. compact_decode 1 2 bs = Ok \<lparr> ps_cursor = ps_cursor demo_snapshot, ps_projection = q \<rparr>))"
  using compact_snapshot_round_trip [OF demo_snapshot_typed, of 1 2] demo_inv
  by (auto simp: demo_snapshot_def)

end
