(* ===== verification/Compact_Types.thy ===== *)
theory Compact_Types
  imports Compact_Codec
begin

text \<open>
  What the compact decoder accepts, whatever the bytes: the strings it returns are UTF-8, its
  identifiers passed their constructor, its confidences are in range and its maps are in key order,
  and the indexes are the ones built from the tables read. The relation \<open>yields\<close> is the typing
  judgement of one reader operation; it is closed under the combinators the decoder is written in.
\<close>

section \<open>The typing judgement of a reader operation\<close>

definition yields :: "nat \<Rightarrow> ('a \<Rightarrow> bool) \<Rightarrow> 'a read_op \<Rightarrow> bool" where
  "yields n P rd \<longleftrightarrow>
    (\<forall>r v r'. length (rd_bytes r) \<le> n \<longrightarrow> rd r = Ok (v, r') \<longrightarrow> rd_bytes r' = rd_bytes r \<and> P v)"

lemma yieldsI:
  assumes "\<And>r v r'. length (rd_bytes r) \<le> n \<Longrightarrow> rd r = Ok (v, r') \<Longrightarrow> rd_bytes r' = rd_bytes r \<and> P v"
  shows "yields n P rd"
  using assms unfolding yields_def by blast

lemma yieldsD:
  assumes "yields n P rd" "length (rd_bytes r) \<le> n" "rd r = Ok (v, r')"
  shows "rd_bytes r' = rd_bytes r" "P v"
  using assms unfolding yields_def by blast+

lemma yields_mono: "yields n P rd \<Longrightarrow> (\<And>v. P v \<Longrightarrow> Q v) \<Longrightarrow> yields n Q rd"
  unfolding yields_def by blast

lemma yields_lift: "(\<And>v. x = Ok v \<Longrightarrow> P v) \<Longrightarrow> yields n P (read_lift x)"
  by (auto simp: yields_def read_lift_def result_simps)

lemma yields_bind:
  assumes "yields n P m" "\<And>a. P a \<Longrightarrow> yields n Q (k a)"
  shows "yields n Q (read_bind m k)"
proof (rule yieldsI)
  fix r v r'
  assume len: "length (rd_bytes r) \<le> n" and run: "read_bind m k r = Ok (v, r')"
  then obtain a r1 where m: "m r = Ok (a, r1)" and k: "k a r1 = Ok (v, r')"
    by (auto simp: read_bind_def result_simps)
  note first = yieldsD [OF assms(1) len m]
  then show "rd_bytes r' = rd_bytes r \<and> Q v"
    using yieldsD [OF assms(2) [OF first(2)] _ k] len by simp
qed

lemma yields_check:
  "(\<And>a. x = Ok a \<Longrightarrow> yields n Q (k a)) \<Longrightarrow> yields n Q (read_bind (read_lift x) k)"
  by (rule yields_bind [OF yields_lift [where P = "\<lambda>a. x = Ok a"]])

section \<open>Reader operations\<close>

lemma yields_byte: "yields n (\<lambda>_. True) rd_byte"
  by (auto simp: yields_def rd_byte_def split: if_splits)

lemma yields_varint_loop: "yields n (\<lambda>_. True) (rd_varint_loop shifts acc)"
proof (induction shifts arbitrary: acc)
  case (Cons shift shifts)
  have "yields n (\<lambda>_. True)
      (let value = acc OR push_bit shift (ucast (byte AND 0x7F))
       in if byte AND 0x80 = 0 then read_lift (Ok value) else rd_varint_loop shifts value)" for byte :: u8
    using Cons.IH by (simp add: Let_def yields_lift)
  then show ?case by (auto intro!: yields_bind [OF yields_byte] yields_lift)
qed (auto intro: yields_lift)

lemma yields_varint: "yields n (\<lambda>_. True) rd_varint"
  unfolding rd_varint_def by (rule yields_varint_loop)

lemma yields_usize: "yields n (\<lambda>_. True) rd_usize"
  unfolding rd_usize_def by (intro yields_bind [OF yields_varint] yields_lift) simp

lemma yields_count: "yields n (\<lambda>count. count \<le> n) rd_count"
  unfolding rd_count_def
  by (rule yields_bind [OF yields_usize]) (auto simp: yields_def rd_remaining_def split: if_splits)

lemma yields_signed: "yields n (\<lambda>_. True) rd_signed"
  unfolding rd_signed_def by (intro yields_bind [OF yields_varint] yields_lift) simp

lemma yields_bool: "yields n (\<lambda>_. True) rd_bool"
  unfolding rd_bool_def by (intro yields_bind [OF yields_byte] yields_lift) simp

lemma yields_optional:
  assumes "yields n P rd"
  shows "yields n (\<lambda>m. \<forall>v. m = Some v \<longrightarrow> P v) (rd_optional rd)"
proof -
  have "yields n (\<lambda>m. \<forall>v. m = Some v \<longrightarrow> P v) (read_bind rd (\<lambda>v. read_lift (Ok (Some v))))"
    by (rule yields_bind [OF assms yields_lift]) auto
  then show ?thesis
    unfolding rd_optional_def by (auto intro!: yields_bind [OF yields_bool] yields_lift)
qed

lemma yields_string:
  assumes "n \<le> usize_max"
  shows "yields n str_typed rd_string"
proof -
  have "str_typed (str_of_bytes (take len (drop i bs)))"
    if "length bs \<le> n" "utf8_valid (take len (drop i bs))" for len i :: nat and bs :: bytes
  proof -
    have "length (str_of_bytes (take len (drop i bs))) \<le> length bs" by (simp add: str_of_bytes_def)
    then show ?thesis using that assms by (simp add: str_typed_def str_ok_def)
  qed
  then show ?thesis
    unfolding rd_string_def
    by (intro yields_bind [OF yields_usize] yieldsI) (auto simp: result_simps from_utf8_Some split: if_splits)
qed

lemma yields_optional_string: "n \<le> usize_max \<Longrightarrow> yields n opt_str_typed rd_optional_string"
  unfolding rd_optional_string_def
  by (rule yields_mono [OF yields_optional [OF yields_string]]) (auto simp: opt_str_typed_def)

lemma yields_optional_others: "yields n (\<lambda>_. True) rd_optional_u64" "yields n (\<lambda>_. True) rd_optional_signed"
  unfolding rd_optional_u64_def rd_optional_signed_def
  by (rule yields_mono [OF yields_optional [OF yields_varint]], simp,
      rule yields_mono [OF yields_optional [OF yields_signed]], simp)

lemma yields_repeat: "yields n P rd \<Longrightarrow> yields n (\<lambda>xs. length xs = k \<and> (\<forall>x \<in> set xs. P x)) (rd_repeat k rd)"
proof (induction k)
  case (Suc k)
  show ?case
    unfolding rd_repeat.simps
    by (rule yields_bind [OF Suc.prems], rule yields_bind [OF Suc.IH [OF Suc.prems]], rule yields_lift) auto
qed (auto intro: yields_lift)

lemma set_bt_insert: "set (bt_insert m k v) \<subseteq> insert (k, v) (set m)"
  by (induction m k v rule: bt_insert.induct) auto

lemma length_bt_insert: "length (bt_insert m k v) \<le> Suc (length m)"
  by (induction m k v rule: bt_insert.induct) auto

lemma yields_entries:
  assumes "yields n P rd" "bt_ok m" "\<forall>x \<in> set m. P x"
  shows "yields n (\<lambda>m'. bt_ok m' \<and> length m' \<le> length m + k \<and> (\<forall>x \<in> set m'. P x)) (rd_entries k rd duplicate m)"
  using assms(2,3)
proof (induction k arbitrary: m)
  case (Suc k)
  have "yields n (\<lambda>m'. bt_ok m' \<and> length m' \<le> length m + Suc k \<and> (\<forall>x \<in> set m'. P x))
      (case x of (a, b) \<Rightarrow> case bt_put m a b of
        (_, Some _) \<Rightarrow> read_lift (Err (codec_err duplicate)) | (m', None) \<Rightarrow> rd_entries k rd duplicate m')"
    if x: "P x" for x
  proof -
    obtain a b where ab: "x = (a, b)" by force
    let ?m = "bt_insert m a b"
    have "bt_ok ?m" "\<forall>y \<in> set ?m. P y" using Suc.prems x set_bt_insert [of m a b] by (auto simp: ab)
    then have "yields n (\<lambda>m'. bt_ok m' \<and> length m' \<le> length ?m + k \<and> (\<forall>x \<in> set m'. P x)) (rd_entries k rd duplicate ?m)"
      by (rule Suc.IH)
    then have "yields n (\<lambda>m'. bt_ok m' \<and> length m' \<le> length m + Suc k \<and> (\<forall>x \<in> set m'. P x)) (rd_entries k rd duplicate ?m)"
      by (rule yields_mono) (use length_bt_insert [of m a b] in auto)
    then show ?thesis by (auto simp: ab bt_put_def intro: yields_lift split: option.split)
  qed
  then show ?case unfolding rd_entries.simps by (rule yields_bind [OF assms(1)])
qed (auto intro: yields_lift)

section \<open>Domain values, cursor and projection\<close>

lemma id_typed_new: "str_typed raw \<Longrightarrow> text_id_new kind raw = Ok i \<Longrightarrow> id_typed i"
  by (auto simp: result_simps id_typed_def text_id_ok_def str_typed_def)

lemma yields_id:
  assumes "n \<le> usize_max" "\<And>i :: 'k text_id. id_typed i \<Longrightarrow> yields n Q (k i)"
  shows "yields n Q (read_bind rd_string (\<lambda>raw. read_bind (read_lift (text_id_new kind raw)) k))"
  using assms(2) by (auto intro!: yields_bind [OF yields_string [OF assms(1)]] yields_check dest: id_typed_new)

lemmas yields_ops = yields_bind [OF yields_string] yields_bind [OF yields_optional_string]
  yields_bind [OF yields_signed] yields_bind [OF yields_varint] yields_bind [OF yields_count]
  yields_bind [OF yields_optional_others(1)] yields_bind [OF yields_optional_others(2)]

lemma yields_attribute: "n \<le> usize_max \<Longrightarrow> yields n (\<lambda>(k, v). str_typed k \<and> str_typed v) read_attribute"
  unfolding read_attribute_def by (intro yields_ops yields_lift) auto

lemma yields_node:
  assumes "n \<le> usize_max"
  shows "yields n node_typed read_node"
  unfolding read_node_def
  using assms
  by (intro yields_id yields_ops yields_bind [OF yields_entries [OF yields_attribute]] yields_lift)
    (auto simp: node_typed_def)

lemma yields_evidence: "n \<le> usize_max \<Longrightarrow> yields n evidence_typed read_evidence"
  unfolding read_evidence_def by (intro yields_ops yields_lift) (auto simp: evidence_typed_def)

lemma yields_fact_id: "n \<le> usize_max \<Longrightarrow> yields n id_typed read_fact_id"
  unfolding read_fact_id_def by (intro yields_ops yields_lift) (auto dest: id_typed_new)

lemma yields_fact:
  assumes "n \<le> usize_max"
  shows "yields n fact_typed read_fact"
  unfolding read_fact_def
  using assms
  by (intro yields_id yields_ops yields_check yields_bind [OF yields_repeat [OF yields_evidence]]
      yields_bind [OF yields_optional [OF yields_fact_id]] yields_lift)
    (auto simp: fact_typed_def result_simps confidence_ok_def)

lemma yields_stream_version: "n \<le> usize_max \<Longrightarrow> yields n (\<lambda>(stream, version). id_typed stream) read_stream_version"
  unfolding read_stream_version_def by (intro yields_id yields_ops yields_lift) auto

lemma yields_cursor:
  assumes "n \<le> usize_max"
  shows "yields n cursor_typed read_cursor"
  unfolding read_cursor_def
  using assms
  by (intro yields_ops yields_bind [OF yields_entries [OF yields_stream_version]] yields_lift) (auto simp: cursor_typed_def)

lemma yields_revision: "n \<le> usize_max \<Longrightarrow> yields n (\<lambda>r. node_typed (nr_node r)) read_revision"
  unfolding read_revision_def by (intro yields_bind [OF yields_node] yields_ops yields_lift) auto

lemma yields_history:
  assumes "n \<le> usize_max"
  shows "yields n history_typed read_history"
proof -
  have "yields n history_typed (read_bind read_revision (\<lambda>first. read_bind (rd_repeat (count - 1) read_revision)
      (\<lambda>later. read_lift (Ok \<lparr> nh_first = first, nh_later = later \<rparr>))))" if "count \<le> n" "count \<noteq> 0" for count
    using assms that
    by (intro yields_bind [OF yields_revision] yields_bind [OF yields_repeat [OF yields_revision]] yields_lift)
      (auto simp: history_typed_def)
  then show ?thesis unfolding read_history_def by (intro yields_ops) (auto intro: yields_lift)
qed

lemma yields_supersession:
  "n \<le> usize_max \<Longrightarrow> yields n (\<lambda>(i, c). id_typed i \<and> id_typed (sup_replacement c)) read_supersession"
  unfolding read_supersession_def by (intro yields_id yields_ops yields_lift) auto

lemma yields_retraction: "n \<le> usize_max \<Longrightarrow> yields n (\<lambda>(i, c). id_typed i) read_retraction"
  unfolding read_retraction_def by (intro yields_id yields_ops yields_lift) auto

lemma yields_changes:
  assumes "n \<le> usize_max"
  shows "yields n (\<lambda>m. bt_ok m \<and> length m \<le> n \<and> (\<forall>(i, c) \<in> set m. id_typed i \<and> id_typed (sup_replacement c))) read_supersessions"
    and "yields n (\<lambda>m. bt_ok m \<and> length m \<le> n \<and> (\<forall>(i, c) \<in> set m. id_typed i)) read_retractions"
  unfolding read_supersessions_def read_retractions_def
  using assms
  by (intro yields_ops; intro yields_mono [OF yields_entries [OF yields_supersession]]
      yields_mono [OF yields_entries [OF yields_retraction]]; auto)+

lemma rebuild_keeps_tables: "rebuild_indexes p = Ok q \<Longrightarrow> projection_eq q p"
  by (auto simp: rebuild_indexes_def set_incidents_def Let_def case_prod_beta result_simps projection_eq_def)

lemma projection_eq_typed: "projection_eq q p \<Longrightarrow> projection_typed q = projection_typed p"
  by (simp add: projection_eq_def projection_typed_def)

lemma projection_eq_bare: "projection_eq q p \<Longrightarrow> bare ns fs q = bare ns fs p"
  by (simp add: projection_eq_def bare_def)

text \<open>The indexes of a projection that was read are the ones its own tables give.\<close>

definition freshly_indexed :: "u64 \<Rightarrow> u64 \<Rightarrow> memory_projection \<Rightarrow> bool" where
  "freshly_indexed ns fs p \<longleftrightarrow> rebuild_indexes (bare ns fs p) = Ok p"

lemma rebuilt_typed:
  assumes "rebuild_indexes (bare ns fs p) = Ok q" "projection_typed p"
  shows "projection_typed q \<and> freshly_indexed ns fs q"
proof -
  have "projection_eq q p" using rebuild_keeps_tables [OF assms(1)] by (simp add: projection_eq_def bare_def)
  then show ?thesis
    using assms by (simp add: projection_eq_typed projection_eq_bare freshly_indexed_def)
qed

lemma yields_projection:
  assumes "2 * n \<le> usize_max"
  shows "yields n (\<lambda>p. projection_typed p \<and> freshly_indexed ns fs p) (read_projection ns fs)"
proof -
  have n: "n \<le> usize_max" using assms by simp
  have "yields n (\<lambda>p. projection_typed p \<and> freshly_indexed ns fs p)
      (read_lift (rebuild_indexes \<lparr> mp_nodes = nodes, mp_facts = facts, mp_node_lookup = ix_new ns,
        mp_fact_lookup = ix_new fs, mp_incident_offsets = [], mp_incident_facts = [], mp_incident_delta = Map.empty,
        mp_supersessions = sups, mp_retractions = rets, mp_last_global_position = pos \<rparr>))"
    if "length nodes \<le> n" "\<forall>h \<in> set nodes. history_typed h" "length facts \<le> n" "\<forall>f \<in> set facts. fact_typed f"
      "bt_ok sups \<and> length sups \<le> n \<and> (\<forall>(i, c) \<in> set sups. id_typed i \<and> id_typed (sup_replacement c))"
      "bt_ok rets \<and> length rets \<le> n \<and> (\<forall>(i, c) \<in> set rets. id_typed i)" for nodes facts sups rets pos
  proof (rule yields_lift)
    let ?p = "\<lparr> mp_nodes = nodes, mp_facts = facts, mp_node_lookup = ix_new ns,
        mp_fact_lookup = ix_new fs, mp_incident_offsets = [], mp_incident_facts = [], mp_incident_delta = Map.empty,
        mp_supersessions = sups, mp_retractions = rets, mp_last_global_position = pos \<rparr>"
    fix q
    assume "rebuild_indexes ?p = Ok q"
    moreover have "bare ns fs ?p = ?p" by (simp add: bare_def)
    moreover have "projection_typed ?p" using that assms by (simp add: projection_typed_def)
    ultimately show "projection_typed q \<and> freshly_indexed ns fs q" using rebuilt_typed [of ns fs ?p] by simp
  qed
  then show ?thesis
    unfolding read_projection_def
    by (intro yields_ops yields_bind [OF yields_repeat [OF yields_history [OF n]]]
        yields_bind [OF yields_repeat [OF yields_fact [OF n]]] yields_bind [OF yields_changes(1) [OF n]]
        yields_bind [OF yields_changes(2) [OF n]]) auto
qed

section \<open>Decoded snapshots\<close>

lemma decoded_typed:
  assumes "compact_decode ns fs bs = Ok s" "2 * length bs \<le> usize_max"
  shows "snapshot_typed s \<and> freshly_indexed ns fs (ps_projection s)"
proof -
  have len: "length bs \<le> usize_max" using assms(2) by simp
  obtain c r p r' where read: "read_cursor \<lparr> rd_bytes = bs, rd_position = length COMPACT_HEADER \<rparr> = Ok (c, r)"
    "read_projection ns fs r = Ok (p, r')" "rc_global_position c = mp_last_global_position p"
    "s = \<lparr> ps_cursor = c, ps_projection = p \<rparr>"
    using assms(1)
    by (auto simp: compact_decode_def reader_new_def result_simps split: if_splits)
  from yieldsD [OF yields_cursor [OF len] _ read(1)] have c: "rd_bytes r = bs" "cursor_typed c" by simp_all
  from yieldsD [OF yields_projection [OF assms(2)] _ read(2)] c(1)
  have "projection_typed p" "freshly_indexed ns fs p" by simp_all
  with c read(3,4) show ?thesis by (simp add: snapshot_typed_def)
qed

section \<open>What a decoded projection satisfies\<close>

text \<open>Every fact that supersedes another one is listed in the supersession table.\<close>

definition superseded_listed :: "memory_projection \<Rightarrow> bool" where
  "superseded_listed p \<longleftrightarrow>
    (\<forall>f \<in> set (mp_facts p). \<forall>prior. mf_supersedes f = Some prior \<longrightarrow> bt_get (mp_supersessions p) prior = Some (sup_of f))"

lemma rebuilt_indexes:
  assumes "rebuild_indexes (bare ns fs p) = Ok q" "2 * length (mp_facts p) \<le> usize_max"
  shows "indexes_ok q \<and> validate_changes q = Ok ()"
proof -
  let ?b = "bare ns fs p"
  have sel: "mp_nodes ?b = mp_nodes p" "mp_facts ?b = mp_facts p" "mp_node_lookup ?b = ix_new ns" "mp_fact_lookup ?b = ix_new fs"
    by (simp_all add: bare_def)
  obtain nl fl es where nl: "try_fold index_node (ix_new ns) (enumerate 0 (mp_nodes p)) = Ok nl"
    and fl: "try_fold (index_fact nl) (ix_new fs, []) (enumerate 0 (mp_facts p)) = Ok (fl, es)"
    and q: "set_incidents es (?b\<lparr> mp_node_lookup := nl, mp_fact_lookup := fl \<rparr>) = Ok q" "validate_changes q = Ok ()"
    using assms(1) by (auto simp: rebuild_indexes_def result_simps sel)
  note nodes = index_node_fold [OF nl]
  note facts = index_fact_fold [OF conjunct1 [OF nodes] fl]
  from nodes facts obtain q' where "set_incidents es (?b\<lparr> mp_node_lookup := nl, mp_fact_lookup := fl \<rparr>) = Ok q'" "indexes_ok q'"
    using indexed_projection [of nl ?b fl es] assms(2) by (auto simp: sel)
  with q show ?thesis by simp
qed

lemma validated_changes:
  assumes "facts_ok p" "validate_changes p = Ok ()"
  shows "bt_ok (mp_retractions p) \<Longrightarrow> rets_ok (mp_facts p) (mp_retractions p)"
    and "bt_ok (mp_supersessions p) \<Longrightarrow> sups_ok (mp_facts p) (mp_supersessions p) \<longleftrightarrow> superseded_listed p"
proof -
  have sup: "\<exists>f \<in> set (mp_facts p). mf_supersedes f = Some prior \<and> change = sup_of f \<and> prior \<in> mf_id ` set (mp_facts p)"
    if "(prior, change) \<in> set (mp_supersessions p)" for prior change
  proof -
    have "validate_supersession p (prior, change) = Ok ()" using assms(2) that by (auto simp: validate_changes_def result_simps)
    then obtain g f where gf: "mp_fact p prior = Some g" "mp_fact p (sup_replacement change) = Some f"
      "mf_supersedes f = Some (mf_id g)" "mf_valid_from f = sup_valid_from change" "mf_recorded_at f = sup_recorded_at change"
      by (auto simp: validate_supersession_def result_simps split: if_splits)
    have "g \<in> set (mp_facts p)" "mf_id g = prior" "f \<in> set (mp_facts p)" "mf_id f = sup_replacement change"
      using mp_fact_Some [OF assms(1) gf(1)] mp_fact_Some [OF assms(1) gf(2)] by simp_all
    moreover from this gf have "change = sup_of f" by (simp add: sup_of_def)
    ultimately show ?thesis using gf(3) by blast
  qed
  show "rets_ok (mp_facts p) (mp_retractions p)" if ok: "bt_ok (mp_retractions p)"
    unfolding rets_ok_def
  proof (intro conjI allI impI ok)
    fix i change
    assume "bt_get (mp_retractions p) i = Some change"
    then have "validate_retraction p (i, change) = Ok ()"
      using assms(2) bt_get_in [OF ok] by (auto simp: validate_changes_def result_simps)
    then obtain f where "mp_fact p i = Some f" "mf_valid_from f < ret_valid_until change"
      by (auto simp: validate_retraction_def result_simps not_le split: if_splits)
    then show "\<exists>f \<in> set (mp_facts p). mf_id f = i \<and> mf_valid_from f < ret_valid_until change"
      using mp_fact_Some [OF assms(1)] by blast
  qed
  show "sups_ok (mp_facts p) (mp_supersessions p) \<longleftrightarrow> superseded_listed p" if ok: "bt_ok (mp_supersessions p)"
  proof
    assume "superseded_listed p"
    then have listed: "bt_get (mp_supersessions p) prior = Some (sup_of f)"
      if "f \<in> set (mp_facts p)" "mf_supersedes f = Some prior" for f prior
      using that by (simp add: superseded_listed_def)
    have backed: "\<exists>f \<in> set (mp_facts p). mf_supersedes f = Some prior \<and> change = sup_of f \<and> prior \<in> mf_id ` set (mp_facts p)"
      if "bt_get (mp_supersessions p) prior = Some change" for prior change
      using that sup bt_get_in [OF ok] by blast
    show "sups_ok (mp_facts p) (mp_supersessions p)"
      unfolding sups_ok_def using ok listed backed by blast
  qed (auto simp: sups_ok_def superseded_listed_def)
qed

lemma freshly_indexed_inv:
  assumes "freshly_indexed ns fs p" "projection_typed p"
  shows "indexes_ok p \<and> (proj_inv p \<longleftrightarrow> superseded_listed p)"
proof -
  have p: "indexes_ok p" "validate_changes p = Ok ()" "bt_ok (mp_supersessions p)" "bt_ok (mp_retractions p)"
    using rebuilt_indexes [of ns fs p p] assms by (simp_all add: freshly_indexed_def projection_typed_def)
  then have "facts_ok p" by (simp add: indexes_ok_def)
  from validated_changes [OF this p(2)] p show ?thesis by (auto simp: proj_inv_def indexes_ok_def)
qed

lemma decoded_reencodes:
  assumes "snapshot_typed s" "freshly_indexed ns fs (ps_projection s)"
  shows "\<exists>out. compact_encode s = Ok out \<and> (length out \<le> usize_max \<longrightarrow> compact_decode ns fs out = Ok s)"
  using compact_encode_total [OF assms(1)] compact_decode_encode [OF assms(1), of ns fs "ps_projection s"] assms(2)
  by (auto simp: freshly_indexed_def)

section \<open>A bound on the encoded size of a small snapshot\<close>

definition bounded :: "nat \<Rightarrow> write_op \<Rightarrow> bool" where
  "bounded n wr \<longleftrightarrow> (\<forall>w w'. wr w = Ok w' \<longrightarrow> length w' \<le> length w + n)"

lemma bounded_mono: "bounded m wr \<Longrightarrow> m \<le> n \<Longrightarrow> bounded n wr"
  by (force simp: bounded_def)

lemma bounded_writes: "(\<And>wr. wr \<in> set ws \<Longrightarrow> bounded n wr) \<Longrightarrow> bounded (n * length ws) (writes ws)"
proof (induction ws)
  case (Cons wr ws)
  then have "bounded n wr" "bounded (n * length ws) (writes ws)" by auto
  then show ?case by (fastforce simp: bounded_def writes_Cons result_simps)
qed (simp add: bounded_def writes_Nil)

lemma varint_short: "length (varint_bytes v) \<le> 10"
proof -
  have "k \<le> 10 \<Longrightarrow> unat v < 2 ^ (7 * k) \<Longrightarrow> 0 < k \<Longrightarrow> length (varint_bytes v) \<le> k" for k v
  proof (induction k arbitrary: v)
    case (Suc k)
    show ?case
    proof (cases "v \<ge> 0x80")
      case True
      then have "0 < k" using Suc.prems(2) by (cases k) (auto simp: word_le_nat_alt)
      moreover have "unat v < 2 ^ (7 * k) * 2 ^ 7" using Suc.prems(2) by (simp add: power_add mult.commute)
      then have "unat (drop_bit 7 v) < 2 ^ (7 * k)"
        by (simp add: unat_drop_bit_eq drop_bit_eq_div [where 'a = nat] less_mult_imp_div_less)
      ultimately have "length (varint_bytes (drop_bit 7 v)) \<le> k" using Suc.IH Suc.prems(1) by simp
      with True show ?thesis by (simp add: varint_bytes_unfold [of v])
    qed (simp add: varint_bytes_unfold [of v])
  qed simp
  moreover have "unat v < 2 ^ (7 * 10)" using unsigned_less [of v, where 'a = nat] by simp
  ultimately show ?thesis by simp
qed

lemma bounded_ops:
  "bounded (10 + length s) (wr_string s)" "bounded 10 (wr_usize n)" "bounded 10 (wr_varint v)" "bounded 10 (wr_signed i)"
  using varint_short
  by (auto simp: bounded_def wr_string_def wr_usize_def wr_varint_def wr_signed_def w_varint_append result_simps)

lemma bounded_optional: "(\<And>x. m = Some x \<Longrightarrow> bounded n (wr x)) \<Longrightarrow> bounded (1 + n) (wr_optional wr m)"
  by (cases m) (fastforce simp: bounded_def wr_optional_def wr_bool_def)+

lemma small_ops:
  "length s \<le> 20 \<Longrightarrow> bounded 30 (wr_string s)" "bounded 30 (wr_usize n)" "bounded 30 (wr_varint v)" "bounded 30 (wr_signed i)"
  "bounded 30 (wr_optional_u64 vo)" "bounded 30 (wr_optional_signed io)" "bounded 30 (wr_optional_string None)"
  "bounded 30 (writes [])"
proof -
  show "length s \<le> 20 \<Longrightarrow> bounded 30 (wr_string s)" by (rule bounded_mono [OF bounded_ops(1)]) simp
  show "bounded 30 (wr_usize n)" "bounded 30 (wr_varint v)" "bounded 30 (wr_signed i)"
    by (rule bounded_mono [OF bounded_ops(2)] bounded_mono [OF bounded_ops(3)] bounded_mono [OF bounded_ops(4)], simp)+
  show "bounded 30 (wr_optional_u64 vo)" "bounded 30 (wr_optional_signed io)" "bounded 30 (wr_optional_string None)"
    unfolding wr_optional_u64_def wr_optional_signed_def wr_optional_string_def
    by (rule bounded_mono [OF bounded_optional [where n = 10]]; simp add: bounded_ops)+
  show "bounded 30 (writes [])" by (simp add: bounded_def writes_Nil)
qed

lemmas small = small_ops [THEN bounded_mono]

lemma bounded_writes_le: "\<forall>wr \<in> set ws. bounded n wr \<Longrightarrow> n * length ws \<le> m \<Longrightarrow> bounded m (writes ws)"
  using bounded_writes bounded_mono by blast

lemma demo_node_small: "length i \<le> 20 \<Longrightarrow> bounded 210 (write_node (demo_node i))"
  unfolding write_node_def by (rule bounded_writes_le [where n = 30]) (simp_all add: demo_node_def small_ops)

lemma demo_history_small:
  assumes "length i \<le> 20"
  shows "bounded 1890 (write_history (node_history_new \<lparr> nr_node = demo_node i, nr_recorded_at = t, nr_position = w \<rparr>))"
proof -
  have "bounded 630 (write_revision \<lparr> nr_node = demo_node i, nr_recorded_at = t, nr_position = w \<rparr>)"
    unfolding write_revision_def
    by (rule bounded_writes_le [where n = 210]) (simp_all add: small demo_node_small assms)
  then show ?thesis
    unfolding write_history_def
    by (intro bounded_writes_le [where n = 630]) (simp_all add: node_history_new_def small)
qed

lemma demo_fact_small:
  "bounded 1680 (write_fact demo_fact)"
proof -
  have "bounded 120 (write_evidence demo_evidence)"
    unfolding write_evidence_def by (rule bounded_writes_le [where n = 30]) (simp_all add: demo_evidence_def small_ops)
  then have "bounded 120 (writes [write_evidence demo_evidence])" using bounded_writes [of "[write_evidence demo_evidence]" 120] by simp
  then show ?thesis
    unfolding write_fact_def
    by (intro bounded_writes_le [where n = 120])
      (simp_all add: demo_fact_def small)
qed

lemma demo_cursor_small: "bounded 180 (write_cursor (ps_cursor demo_snapshot))"
proof -
  have "bounded 60 (writes (map write_stream_version (rc_stream_versions (ps_cursor demo_snapshot))))"
    using bounded_writes [of "[write_stream_version (TextId ''s'', 3)]" 60]
      bounded_writes_le [of "[wr_string ''s'', wr_varint 3]" 30 60]
    by (simp add: demo_snapshot_def write_stream_version_def small_ops)
  then show ?thesis
    unfolding write_cursor_def by (intro bounded_writes_le [where n = 60]) (simp_all add: small)
qed

lemma demo_retraction_small: "bounded 90 (write_retraction (TextId ''f'', change))"
  using bounded_writes_le [of "[wr_string ''f'', wr_signed x, wr_signed y]" 30 90 for x y]
  by (simp add: write_retraction_def small_ops)

lemma demo_projection_small:
  assumes "mp_nodes p = mp_nodes (demo_projection rets pos)" "\<forall>f \<in> set (mp_facts p). bounded 1680 (write_fact f)"
    "length (mp_facts p) \<le> 2" "mp_supersessions p = []" "mp_retractions p = [] \<or> mp_retractions p = [(TextId ''f'', change)]"
  shows "bounded 34020 (write_projection p)"
proof -
  have "bounded 3780 (writes (map write_history (mp_nodes p)))"
    unfolding assms(1) by (rule bounded_writes_le [where n = 1890]) (simp_all add: demo_projection_def demo_history_small)
  moreover have "bounded 3780 (writes (map write_fact (mp_facts p)))"
    using assms(2,3) by (intro bounded_writes_le [where n = 1680]) simp_all
  moreover have "bounded 3780 (writes (map write_supersession (mp_supersessions p)))"
    by (rule bounded_writes_le [where n = 30]) (simp_all add: assms(4))
  moreover have "bounded 3780 (writes (map write_retraction (mp_retractions p)))"
    using assms(5) demo_retraction_small by (intro bounded_writes_le [where n = 90]) auto
  ultimately show ?thesis
    unfolding write_projection_def by (intro bounded_writes_le [where n = 3780]) (simp_all add: small)
qed

lemma encoded_small:
  assumes "compact_encode s = Ok bs" "ps_cursor s = ps_cursor demo_snapshot" "bounded 34020 (write_projection (ps_projection s))"
  shows "length bs \<le> 40000"
  using assms demo_cursor_small by (fastforce simp: compact_encode_def bounded_def result_simps COMPACT_HEADER_def)

lemma demo_snapshot_small:
  assumes "compact_encode demo_snapshot = Ok bs"
  shows "length bs \<le> 40000"
proof (rule encoded_small [OF assms refl])
  show "bounded 34020 (write_projection (ps_projection demo_snapshot))"
    by (rule demo_projection_small [where change = demo_first])
      (simp_all add: demo_snapshot_def demo_projection_def demo_fact_small)
qed

section \<open>Properties\<close>

text \<open>
  C36: whatever the bytes, a snapshot the compact decoder returns is well typed (UTF-8 text, valid
  identifiers, confidences in range, maps in key order), its three indexes agree with its tables, it
  satisfies the invariant of replayed projections exactly if its supersession table lists every
  superseding fact, and it can be encoded again to bytes that decode to it. A slice has at most
  \<open>isize::MAX\<close> bytes.
\<close>

theorem decoded_snapshot_typed:
  assumes "compact_decode ns fs bs = Ok s" "2 * length bs \<le> usize_max"
  shows "snapshot_typed s \<and> indexes_ok (ps_projection s) \<and>
    (proj_inv (ps_projection s) \<longleftrightarrow> superseded_listed (ps_projection s)) \<and>
    (\<exists>out. compact_encode s = Ok out \<and> (length out \<le> usize_max \<longrightarrow> compact_decode ns fs out = Ok s))"
proof -
  have s: "snapshot_typed s" "freshly_indexed ns fs (ps_projection s)" using decoded_typed [OF assms] by simp_all
  then have "projection_typed (ps_projection s)" by (simp add: snapshot_typed_def)
  with s show ?thesis using freshly_indexed_inv decoded_reencodes by blast
qed

theorem decoded_snapshot_typed_witness:
  "\<exists>bs s. compact_decode 1 2 bs = Ok s \<and> 2 * length bs \<le> usize_max \<and> snapshot_typed s \<and> indexes_ok (ps_projection s)"
proof -
  obtain bs where bs: "compact_encode demo_snapshot = Ok bs" using compact_encode_total [OF demo_snapshot_typed] by blast
  have len: "2 * length bs \<le> usize_max" using demo_snapshot_small [OF bs] by (simp add: usize_max_def)
  have "2 * length (mp_facts (ps_projection demo_snapshot)) \<le> usize_max"
    by (simp add: demo_snapshot_def demo_projection_def usize_max_def)
  then obtain q where "rebuild_indexes (bare 1 2 (ps_projection demo_snapshot)) = Ok q"
    using rebuild_restores [of "ps_projection demo_snapshot" 1 2] demo_inv by (auto simp: demo_snapshot_def)
  then have "compact_decode 1 2 bs = Ok \<lparr> ps_cursor = ps_cursor demo_snapshot, ps_projection = q \<rparr>"
    using compact_decode_encode [OF demo_snapshot_typed _ bs] len by simp
  with decoded_snapshot_typed [OF this len] len show ?thesis by blast
qed

section \<open>A supersession the tables do not list\<close>

lemma rebuild_accepts:
  assumes nodes: "distinct (map history_id (mp_nodes p))" "\<forall>h \<in> set (mp_nodes p). history_ok h"
    and facts: "distinct (map mf_id (mp_facts p))" "2 * length (mp_facts p) \<le> usize_max"
      "\<forall>f \<in> set (mp_facts p). fact_ok f \<and> mf_source f \<in> set (node_ids p) \<and> mf_target f \<in> set (node_ids p)"
    and changes: "mp_supersessions p = []" "mp_retractions p = []"
  shows "\<exists>q. rebuild_indexes (bare ns fs p) = Ok q \<and> projection_eq q p \<and> indexes_ok q"
proof -
  let ?b = "bare ns fs p" and ?ids = "map history_id (mp_nodes p)"
  have sel: "mp_nodes ?b = mp_nodes p" "mp_facts ?b = mp_facts p" "mp_node_lookup ?b = ix_new ns"
    "mp_fact_lookup ?b = ix_new fs" "mp_supersessions ?b = mp_supersessions p" "mp_retractions ?b = mp_retractions p"
    "mp_last_global_position ?b = mp_last_global_position p"
    by (simp_all add: bare_def)
  obtain nl where nl: "try_fold index_node (ix_new ns) (enumerate 0 (mp_nodes p)) = Ok nl"
    using index_node_fold_ok [OF nodes] by blast
  note listed = index_node_fold [OF nl]
  obtain fl es where fl: "try_fold (index_fact nl) (ix_new fs, []) (enumerate 0 (mp_facts p)) = Ok (fl, es)"
    using index_fact_fold_ok [of nl ?ids "mp_facts p" fs] listed facts by (auto simp: node_ids_def)
  note ends = index_fact_fold [OF conjunct1 [OF listed] fl]
  obtain q where q: "set_incidents es (?b\<lparr> mp_node_lookup := nl, mp_fact_lookup := fl \<rparr>) = Ok q"
    "projection_eq q ?b" "indexes_ok q"
    using indexed_projection [of nl ?b fl es] listed ends facts(2) by (auto simp: sel)
  have eq: "projection_eq q p" using q(2) by (simp add: projection_eq_def sel)
  then have "validate_changes q = Ok ()" using changes by (simp add: validate_changes_def projection_eq_def)
  then have "rebuild_indexes ?b = Ok q" by (simp add: rebuild_indexes_def sel nl fl q(1))
  with eq q(3) show ?thesis by blast
qed

definition demo_newer :: memory_fact where
  "demo_newer = demo_fact\<lparr> mf_id := TextId ''g'', mf_supersedes := Some (TextId ''f'') \<rparr>"

definition unlisted_snapshot :: "memory_projection projection_snapshot" where
  "unlisted_snapshot = \<lparr> ps_cursor = ps_cursor demo_snapshot,
     ps_projection = (demo_projection [] 3)\<lparr> mp_facts := [demo_fact, demo_newer] \<rparr> \<rparr>"

lemma unlisted_typed: "snapshot_typed unlisted_snapshot"
proof -
  have "id_typed (TextId ''g'' :: fact_id)"
    by (simp add: id_typed_def text_id_ok_def trimmed_code white_space_def suffix_def prefix_def str_ok_def
        as_bytes_def byte_of_char_def usize_max_def)
  then have "fact_typed demo_newer" using demo_fact_typed by (simp add: fact_typed_def demo_newer_def demo_texts)
  then show ?thesis
    by (simp add: snapshot_typed_def unlisted_snapshot_def demo_snapshot_def cursor_typed_def projection_typed_def
        demo_projection_def demo_texts history_typed_def node_history_new_def demo_node_typed demo_fact_typed usize_max_def bt_ok_def)
qed

lemma unlisted_rebuilds:
  "\<exists>q. rebuild_indexes (bare ns fs (ps_projection unlisted_snapshot)) = Ok q \<and>
    projection_eq q (ps_projection unlisted_snapshot) \<and> indexes_ok q"
proof (rule rebuild_accepts)
  have "proj_inv (demo_projection [(TextId ''f'', demo_first)] 3)" by (rule demo_inv)
  then show "\<forall>h \<in> set (mp_nodes (ps_projection unlisted_snapshot)). history_ok h"
    by (simp add: unlisted_snapshot_def proj_inv_def nodes_ok_def demo_projection_def)
  have "fact_ok demo_fact" using demo_valid(2) by (simp add: fact_validate_Ok)
  moreover from this have "fact_ok demo_newer" by (simp add: fact_ok_def demo_newer_def)
  ultimately show "\<forall>f \<in> set (mp_facts (ps_projection unlisted_snapshot)). fact_ok f \<and>
      mf_source f \<in> set (node_ids (ps_projection unlisted_snapshot)) \<and> mf_target f \<in> set (node_ids (ps_projection unlisted_snapshot))"
    by (simp add: unlisted_snapshot_def demo_newer_def node_ids_def demo_projection_def history_id_def node_history_new_def)
qed (simp_all add: unlisted_snapshot_def demo_projection_def demo_newer_def history_id_def node_history_new_def usize_max_def)

lemma unlisted_small: "compact_encode unlisted_snapshot = Ok bs \<Longrightarrow> length bs \<le> 40000"
proof (erule encoded_small)
  have "bounded 120 (write_evidence demo_evidence)"
    unfolding write_evidence_def by (rule bounded_writes_le [where n = 30]) (simp_all add: demo_evidence_def small_ops)
  then have ev: "bounded 120 (writes [write_evidence demo_evidence])"
    using bounded_writes [of "[write_evidence demo_evidence]" 120] by simp
  have "bounded 120 (wr_optional_string (Some ''f''))"
    unfolding wr_optional_string_def by (rule bounded_mono [OF bounded_optional [where n = 30]]) (auto intro: small_ops)
  with ev have "bounded 1680 (write_fact demo_newer)"
    unfolding write_fact_def
    by (intro bounded_writes_le [where n = 120]) (simp_all add: demo_fact_def demo_newer_def small)
  then show "bounded 34020 (write_projection (ps_projection unlisted_snapshot))"
    by (intro demo_projection_small [where change = demo_first])
      (simp_all add: unlisted_snapshot_def demo_projection_def demo_fact_small)
qed (simp add: unlisted_snapshot_def)

text \<open>
  C39: the decoder checks that every entry of the supersession table has its fact, but not that every
  superseding fact has its entry: there are bytes it accepts in which fact \<open>g\<close> supersedes fact
  \<open>f\<close> and yet \<open>f\<close> has no replacement, so the projection is not one that replaying can build.
\<close>

theorem decoder_accepts_unlisted_supersession:
  "\<exists>bs p. compact_decode 1 2 bs = Ok \<lparr> ps_cursor = ps_cursor demo_snapshot, ps_projection = p \<rparr> \<and>
    mp_fact p (TextId ''g'') = Some demo_newer \<and> mf_supersedes demo_newer = Some (TextId ''f'') \<and>
    mp_fact p (TextId ''f'') = Some demo_fact \<and> superseded_by p (TextId ''f'') = None \<and> \<not> proj_inv p"
proof -
  obtain bs where bs: "compact_encode unlisted_snapshot = Ok bs" using compact_encode_total [OF unlisted_typed] by blast
  obtain p where p: "rebuild_indexes (bare 1 2 (ps_projection unlisted_snapshot)) = Ok p"
    "projection_eq p (ps_projection unlisted_snapshot)" "indexes_ok p"
    using unlisted_rebuilds by blast
  have "compact_decode 1 2 bs = Ok \<lparr> ps_cursor = ps_cursor demo_snapshot, ps_projection = p \<rparr>"
    using compact_decode_encode [OF unlisted_typed p(1) bs] unlisted_small [OF bs]
    by (simp add: usize_max_def unlisted_snapshot_def)
  moreover have tables: "mp_facts p = [demo_fact, demo_newer]" "mp_supersessions p = []"
    using p(2) by (simp_all add: projection_eq_def unlisted_snapshot_def demo_projection_def)
  moreover have "facts_ok p" using p(3) by (simp add: indexes_ok_def)
  then have "mp_fact p (TextId ''f'') = Some demo_fact" "mp_fact p (TextId ''g'') = Some demo_newer"
    using mp_fact_in [of p demo_fact] mp_fact_in [of p demo_newer] tables(1) by (simp_all add: demo_newer_def)
  moreover have "\<not> proj_inv p" using tables by (auto simp: proj_inv_def sups_ok_def demo_newer_def)
  moreover have "mf_supersedes demo_newer = Some (TextId ''f'')" "superseded_by p (TextId ''f'') = None"
    using tables(2) by (simp_all add: superseded_by_def demo_newer_def)
  ultimately show ?thesis by blast
qed

end
