(* ===== verification/Snapshot_Resume.thy ===== *)
theory Snapshot_Resume
  imports Snapshot_File Compact_Types
begin

text \<open>
  The snapshot path from end to end: the compact codec meets the contract the file store expects, so
  the file store over it is a snapshot store; and a projection that is saved, loaded and resumed
  agrees with the replay of the whole log. Loaded projections have rebuilt indexes, so the agreement
  is \<open>PartialEq\<close>, and the application of events is shown to respect it.
\<close>

section \<open>The compact codec as a snapshot codec\<close>

definition compact_valid :: "memory_projection projection_snapshot \<Rightarrow> bool" where
  "compact_valid s \<longleftrightarrow> snapshot_typed s \<and> proj_inv (ps_projection s) \<and>
    (\<forall>bs. compact_encode s = Ok bs \<longrightarrow> length bs \<le> usize_max)"

definition compact_canon ::
  "u64 \<Rightarrow> u64 \<Rightarrow> memory_projection projection_snapshot \<Rightarrow> memory_projection projection_snapshot" where
  "compact_canon ns fs s =
    (case compact_encode s of
       Ok bs \<Rightarrow> (case compact_decode ns fs bs of Ok x \<Rightarrow> x | Err _ \<Rightarrow> s)
     | Err _ \<Rightarrow> s)"

lemma compact_canon_ok:
  assumes "compact_valid s" "compact_encode s = Ok bs"
  shows "compact_decode ns fs bs = Ok (compact_canon ns fs s)"
    and "ps_cursor (compact_canon ns fs s) = ps_cursor s"
    and "projection_eq (ps_projection (compact_canon ns fs s)) (ps_projection s)"
    and "proj_inv (ps_projection (compact_canon ns fs s))"
proof -
  obtain q where q: "compact_decode ns fs bs = Ok \<lparr> ps_cursor = ps_cursor s, ps_projection = q \<rparr>"
    "projection_eq q (ps_projection s)" "proj_inv q"
    using compact_round_trip_ok [of s ns fs] assms by (auto simp: compact_valid_def)
  then have "compact_canon ns fs s = \<lparr> ps_cursor = ps_cursor s, ps_projection = q \<rparr>"
    by (simp add: compact_canon_def assms(2))
  with q show "compact_decode ns fs bs = Ok (compact_canon ns fs s)" "ps_cursor (compact_canon ns fs s) = ps_cursor s"
    "projection_eq (ps_projection (compact_canon ns fs s)) (ps_projection s)" "proj_inv (ps_projection (compact_canon ns fs s))"
    by simp_all
qed

lemma compact_encode_data:
  "ps_cursor s = ps_cursor t \<Longrightarrow> projection_eq (ps_projection s) (ps_projection t) \<Longrightarrow> compact_encode s = compact_encode t"
  by (simp add: compact_encode_def write_projection_def projection_eq_def)

lemma compact_encodes: "compact_valid s \<Longrightarrow> \<exists>bs. compact_encode s = Ok bs"
  using compact_encode_total by (simp add: compact_valid_def)

section \<open>Applying events respects equality of the data\<close>

lemma lists_keys_same: "lists_keys look m ks \<Longrightarrow> lists_keys look' m' ks \<Longrightarrow> look m k = look' m' k"
  unfolding lists_keys_def by (metis option.exhaust)

definition same_data :: "memory_projection \<Rightarrow> memory_projection \<Rightarrow> bool" where
  "same_data p q \<longleftrightarrow> projection_eq p q \<and> proj_inv p \<and> proj_inv q"

lemma same_lookups:
  assumes "same_data p q"
  shows "ix_get (mp_node_lookup p) i = ix_get (mp_node_lookup q) i" "ix_get (mp_fact_lookup p) j = ix_get (mp_fact_lookup q) j"
  using assms
  by (auto simp: same_data_def proj_inv_def nodes_ok_def facts_ok_def projection_eq_def node_ids_def fact_ids_def
      intro: lists_keys_same)

lemma same_tables:
  assumes "same_data p q"
  shows "mp_nodes p = mp_nodes q" "mp_facts p = mp_facts q" "mp_supersessions p = mp_supersessions q"
    "mp_retractions p = mp_retractions q" "mp_last_global_position p = mp_last_global_position q"
  using assms by (auto simp: same_data_def projection_eq_def)

definition same_result :: "unit memory_result \<times> memory_projection \<Rightarrow> unit memory_result \<times> memory_projection \<Rightarrow> bool" where
  "same_result x y \<longleftrightarrow> fst x = fst y \<and> projection_eq (snd x) (snd y)"

lemma same_insert_node:
  assumes "same_data p q"
  shows "same_result (insert_node r p) (insert_node r q)"
  by (cases "node_validate (nr_node r)"; cases "ix_get (mp_node_lookup q) (mn_id (nr_node r))")
    (simp_all add: same_result_def insert_node_def seq_op_def lift_op_def Let_def same_lookups [OF assms] same_tables [OF assms]
      projection_eq_def)

lemma same_supersession:
  assumes "same_data p q"
  shows "same_result (apply_supersession prior f p) (apply_supersession prior f q)"
  by (simp add: same_result_def apply_supersession_def ix_contains_key_def same_lookups [OF assms] same_tables [OF assms]
      projection_eq_def)

lemma same_insert_fact:
  assumes "same_data p q"
  shows "same_result (insert_fact f p) (insert_fact f q)"
proof -
  note same = same_lookups [OF assms] same_tables [OF assms]
  have sup: "same_result (apply_supersession prior f p) (apply_supersession prior f q)" for prior
    by (rule same_supersession [OF assms])
  show ?thesis
    by (cases "fact_validate f"; cases "ix_get (mp_node_lookup q) (mf_source f)"; cases "ix_get (mp_node_lookup q) (mf_target f)";
        cases "mf_supersedes f")
      (simp_all add: same_result_def insert_fact_def apply_supersession_def require_entity_def ix_contains_key_def seq_op_def
        lift_op_def Let_def same projection_eq_def)
qed

lemma same_retraction:
  assumes "same_data p q"
  shows "same_result (apply_retraction t i u ev p) (apply_retraction t i u ev q)"
  by (cases "ix_get (mp_fact_lookup q) i"; cases "try_for_each evidence_validate ev")
    (simp_all add: same_result_def apply_retraction_def mp_fact_def same_lookups [OF assms] same_tables [OF assms]
      projection_eq_def)

lemma same_apply:
  assumes "same_data p q"
  shows "same_result (mp_apply p e) (mp_apply q e)"
proof -
  have lift: "same_result (seq_op m k p) (seq_op m k q)"
    if "same_result (m p) (m q)" "k = (\<lambda>_ p. (Ok (), p\<lparr>mp_last_global_position := x\<rparr>))" for m k x
    using that by (auto simp: same_result_def seq_op_def projection_eq_def split: prod.splits result.splits)
  have "same_result (lift_op (Err x) p) (lift_op (Err x) q)" for x
    using assms by (simp add: same_result_def lift_op_def same_data_def)
  moreover have "same_result (Err x, p) (Err x, q)" for x using assms by (simp add: same_result_def same_data_def)
  ultimately show ?thesis
    unfolding mp_apply_def Let_def
    by (auto intro!: lift [OF _ refl] same_insert_node [OF assms] same_insert_fact [OF assms] same_retraction [OF assms]
        split: memory_event.splits)
qed

section \<open>Resumption respects equality of the data\<close>

fun result_rel :: "('a \<Rightarrow> 'b \<Rightarrow> bool) \<Rightarrow> 'a memory_result \<Rightarrow> 'b memory_result \<Rightarrow> bool" where
  "result_rel R (Ok a) (Ok b) = R a b"
| "result_rel R (Err x) (Err y) = (x = y)"
| "result_rel R _ _ = False"

lemma same_apply_step:
  assumes "same_data p q"
  shows "result_rel same_data (apply_step mp_apply p e) (apply_step mp_apply q e)"
proof -
  obtain r p' where p': "mp_apply p e = (r, p')" by force
  obtain q' where q': "mp_apply q e = (r, q')" "projection_eq p' q'"
    using same_apply [OF assms, of e] p' by (cases "mp_apply q e") (auto simp: same_result_def)
  have "proj_inv p" "proj_inv q" using assms by (auto simp: same_data_def)
  then show ?thesis
    using p' q' mp_apply_inv [of p e] mp_apply_inv [of q e]
    by (cases r) (auto simp: apply_step_def same_data_def)
qed

lemma same_apply_loop:
  "same_data p q \<Longrightarrow>
   result_rel (\<lambda>(p, c) (q, c'). same_data p q \<and> c = c') (apply_loop mp_apply zero p c ids es) (apply_loop mp_apply zero q c ids es)"
proof (induction es arbitrary: p q c ids)
  case (Cons e es)
  have step: "result_rel same_data (apply_step mp_apply p e) (apply_step mp_apply q e)"
    using Cons.prems by (rule same_apply_step)
  show ?case
  proof (cases "validate_next c ids e zero")
    case (Ok v)
    obtain pos ver ids' where v: "v = (pos, ver, ids')" by (cases v)
    show ?thesis
    proof (cases "apply_step mp_apply p e")
      case p: (Ok p')
      then obtain q' where "apply_step mp_apply q e = Ok q'" "same_data p' q'"
        using step by (cases "apply_step mp_apply q e") auto
      with Cons.IH Ok p v show ?thesis by (simp add: apply_loop_Cons)
    next
      case (Err x)
      then have "apply_step mp_apply q e = Err x" using step by (cases "apply_step mp_apply q e") auto
      with Ok Err v show ?thesis by (simp add: apply_loop_Cons)
    qed
  qed (simp add: apply_loop_Cons)
qed simp

lemma resume_canon:
  assumes "replay_tracked (memory_ops ns fs) log = Ok (p, c)"
    and "set (map event_id_of log) \<inter> set (map event_id_of tail) = {}"
    and "projection_eq q p" "proj_inv q"
  shows "result_rel (\<lambda>(p, c) (q, c'). projection_eq p q \<and> c = c')
    (resume (memory_ops ns fs) \<lparr> ps_cursor = c, ps_projection = q \<rparr> tail) (replay_tracked (memory_ops ns fs) (log @ tail))"
proof -
  have "project mp_apply (with_capacity ns fs) log = Ok p"
    using assms(1) mem.replay_tracked_Ok [of ns fs log p c] by (simp add: memory_ops_def)
  then have "proj_inv p" using project_good [OF proj_good_default] by (auto simp: proj_good_def)
  then have "same_data q p" using assms(3,4) by (simp add: same_data_def)
  from same_apply_loop [OF this, of False c "{}" tail]
  have "result_rel (\<lambda>(p, c) (q, c'). same_data p q \<and> c = c')
      (resume (memory_ops ns fs) \<lparr> ps_cursor = c, ps_projection = q \<rparr> tail)
      (resume (memory_ops ns fs) \<lparr> ps_cursor = c, ps_projection = p \<rparr> tail)"
    by (simp add: resume_def apply_sequence_def memory_ops_def prepare_replay_def)
  then show ?thesis
    unfolding mem.resume_continues [OF assms(1,2)]
    by (cases "resume (memory_ops ns fs) \<lparr> ps_cursor = c, ps_projection = q \<rparr> tail";
        cases "replay_tracked (memory_ops ns fs) (log @ tail)") (auto simp: same_data_def)
qed

section \<open>Snapshots of projections, from saving to resuming\<close>

text \<open>
  The contract of a codec for projection snapshots: every valid snapshot is encoded, and decoding
  gives a consistent projection with the same cursor and data.
\<close>

locale projection_codec = snapshot_codec encode decode valid canon
  for encode :: "memory_projection projection_snapshot \<Rightarrow> bytes memory_result" and decode valid canon +
  assumes encodes: "valid x \<Longrightarrow> \<exists>bs. encode x = Ok bs"
    and canon_cursor: "valid x \<Longrightarrow> ps_cursor (canon x) = ps_cursor x"
    and canon_data: "valid x \<Longrightarrow> projection_eq (ps_projection (canon x)) (ps_projection x) \<and> proj_inv (ps_projection (canon x))"
begin

lemma saved_snapshot:
  assumes replay: "replay_tracked (memory_ops ns fs) log = Ok (p, c)"
    and dir: "fss_inv encode valid st d"
    and snap: "frame_ok encode valid st \<lparr> ps_cursor = c, ps_projection = p \<rparr>"
    and latest: "rc_global_position c = Some pos" "\<And>q. generations decode st d q \<noteq> None \<Longrightarrow> q < pos"
  obtains d' s where "fss_save encode st \<lparr> ps_cursor = c, ps_projection = p \<rparr> d = (Ok (), d')"
    "fst (fss_load_latest decode st d') = Ok (Some s)" "ps_cursor s = c"
    "\<And>tail. set (map event_id_of log) \<inter> set (map event_id_of tail) = {} \<Longrightarrow>
      result_rel (\<lambda>(p, c) (q, c'). projection_eq p q \<and> c = c')
        (resume (memory_ops ns fs) s tail) (replay_tracked (memory_ops ns fs) (log @ tail))"
proof -
  let ?x = "\<lparr> ps_cursor = c, ps_projection = p \<rparr>" and ?s = "canon \<lparr> ps_cursor = c, ps_projection = p \<rparr>"
  obtain d' where d': "fss_save encode st ?x d = (Ok (), d')" "fst (fss_load_latest decode st d') = Ok (Some ?s)"
    using disk.save_then_load [OF dir snap, of pos] latest by auto
  have v: "valid ?x" using snap by (simp add: frame_ok_def)
  have s: "?s = \<lparr> ps_cursor = c, ps_projection = ps_projection ?s \<rparr>" using canon_cursor [OF v] by (cases ?s) simp
  moreover have "projection_eq (ps_projection ?s) p" "proj_inv (ps_projection ?s)" using canon_data [OF v] by auto
  ultimately have "result_rel (\<lambda>(p, c) (q, c'). projection_eq p q \<and> c = c')
      (resume (memory_ops ns fs) ?s tail) (replay_tracked (memory_ops ns fs) (log @ tail))"
    if "set (map event_id_of log) \<inter> set (map event_id_of tail) = {}" for tail
    using resume_canon [OF replay that, of "ps_projection ?s"] by metis
  with d' canon_cursor [OF v] that show thesis by simp
qed

lemma resume_saved:
  assumes replay: "replay_tracked (memory_ops ns fs) log = Ok (p, c)"
    and fresh: "set (map event_id_of log) \<inter> set (map event_id_of tail) = {}"
    and dir: "fss_inv encode valid st d"
    and snap: "frame_ok encode valid st \<lparr> ps_cursor = c, ps_projection = p \<rparr>"
    and latest: "rc_global_position c = Some pos" "\<And>q. generations decode st d q \<noteq> None \<Longrightarrow> q < pos"
  shows "\<exists>d' s. fss_save encode st \<lparr> ps_cursor = c, ps_projection = p \<rparr> d = (Ok (), d') \<and>
    fst (fss_load_latest decode st d') = Ok (Some s) \<and>
    result_rel (\<lambda>(p, c) (q, c'). projection_eq p q \<and> c = c')
      (resume (memory_ops ns fs) s tail) (replay_tracked (memory_ops ns fs) (log @ tail))"
  by (rule saved_snapshot [OF replay dir snap latest]) (use fresh in blast)+

end

interpretation csnap: projection_codec compact_encode "compact_decode ns fs" compact_valid "compact_canon ns fs" for ns fs
proof
  fix x y bs
  show "compact_valid x \<Longrightarrow> compact_encode x = Ok bs \<Longrightarrow> compact_decode ns fs bs = Ok (compact_canon ns fs x)"
    by (rule compact_canon_ok(1))
  show "compact_valid x \<Longrightarrow> snapshot_position (compact_canon ns fs x) = snapshot_position x"
    using compact_encodes compact_canon_ok(2) by metis
  show "compact_encode x = compact_encode y"
    if v: "compact_valid x" "compact_valid y" and eq: "compact_canon ns fs x = compact_canon ns fs y"
  proof -
    obtain bx cy where "compact_encode x = Ok bx" "compact_encode y = Ok cy" using v compact_encodes by blast
    with v compact_canon_ok(2,3) [of x bx ns fs] compact_canon_ok(2,3) [of y cy ns fs] eq
    have "ps_cursor x = ps_cursor y" "projection_eq (ps_projection x) (ps_projection y)"
      by (auto simp: projection_eq_def)
    then show ?thesis by (rule compact_encode_data)
  qed
  show "compact_valid x \<Longrightarrow> \<exists>bs. compact_encode x = Ok bs" by (rule compact_encodes)
  show "compact_valid x \<Longrightarrow> ps_cursor (compact_canon ns fs x) = ps_cursor x"
    using compact_encodes compact_canon_ok(2) by metis
  show "compact_valid x \<Longrightarrow> projection_eq (ps_projection (compact_canon ns fs x)) (ps_projection x) \<and>
      proj_inv (ps_projection (compact_canon ns fs x))"
    using compact_encodes compact_canon_ok(3,4) by metis
qed

text \<open>
  C12: saving a projection with its cursor in the file snapshot store, loading the latest snapshot
  and resuming with the events that follow gives, errors included, the cursor and the projection
  that replaying the whole log gives. The save is the newest one, the codec is the compact one, and
  no system call fails.
\<close>

theorem resume_from_stored_snapshot:
  assumes replay: "replay_tracked (memory_ops ns fs) log = Ok (p, c)"
    and fresh: "set (map event_id_of log) \<inter> set (map event_id_of tail) = {}"
    and dir: "fss_inv compact_encode compact_valid st d"
    and snap: "frame_ok compact_encode compact_valid st \<lparr> ps_cursor = c, ps_projection = p \<rparr>"
    and latest: "rc_global_position c = Some pos" "\<And>q. generations (compact_decode ns' fs') st d q \<noteq> None \<Longrightarrow> q < pos"
  shows "\<exists>d' s. fss_save compact_encode st \<lparr> ps_cursor = c, ps_projection = p \<rparr> d = (Ok (), d') \<and>
    fst (fss_load_latest (compact_decode ns' fs') st d') = Ok (Some s) \<and>
    result_rel (\<lambda>(p, c) (q, c'). projection_eq p q \<and> c = c')
      (resume (memory_ops ns fs) s tail) (replay_tracked (memory_ops ns fs) (log @ tail))"
  using assms by (rule csnap.resume_saved)

section \<open>The sample snapshot\<close>

lemma demo_snapshot_valid: "compact_valid demo_snapshot"
  using demo_snapshot_typed demo_inv demo_snapshot_small
  by (force simp: compact_valid_def demo_snapshot_def usize_max_def)

lemma demo_cursor: "cursor_of demo_log = ps_cursor demo_snapshot"
  by (simp add: cursor_of_def demo_log_def demo_event_def stamp_def cursor_step_def cursor_default_def demo_snapshot_def)

lemma demo_frame_ok: "frame_ok compact_encode compact_valid sample_snapshots demo_snapshot"
proof -
  obtain bs where bs: "compact_encode demo_snapshot = Ok bs" using compact_encodes [OF demo_snapshot_valid] by blast
  then have len: "length bs \<le> 40000" by (rule demo_snapshot_small)
  obtain frame where "snap_encode bs = Ok frame" "length frame = 20 + length bs"
    using len by (simp add: snap_encode_def u64_try_from_def SNAPSHOT_HEADER_def)
  then show ?thesis
    using bs len demo_snapshot_valid
    by (auto simp: frame_ok_def encode_frame_def sample_snapshots_def so_default_def usize_max_def)
qed

theorem resume_from_stored_snapshot_witness:
  "\<exists>d' s. fss_save compact_encode sample_snapshots demo_snapshot (sample_directory []) = (Ok (), d') \<and>
    fst (fss_load_latest (compact_decode 5 6) sample_snapshots d') = Ok (Some s) \<and>
    result_rel (\<lambda>(p, c) (q, c'). projection_eq p q \<and> c = c')
      (resume (memory_ops 0 0) s [demo_retraction]) (replay_tracked (memory_ops 0 0) (demo_log @ [demo_retraction]))"
proof -
  have x: "\<lparr> ps_cursor = cursor_of demo_log, ps_projection = demo_projection [(TextId ''f'', demo_first)] 3 \<rparr> = demo_snapshot"
    unfolding demo_cursor by (simp add: demo_snapshot_def)
  have "set (map event_id_of demo_log) \<inter> set (map event_id_of [demo_retraction]) = {}"
    by (simp add: demo_log_def demo_retraction_def demo_event_def)
  moreover have "fss_inv compact_encode compact_valid sample_snapshots (sample_directory [])"
    using sample_prefix_ok by (simp add: fss_inv_def sample_directory_def dir_calm_def)
  moreover have "rc_global_position (cursor_of demo_log) = Some 3" unfolding demo_cursor by (simp add: demo_snapshot_def)
  moreover have "generations (compact_decode 5 6) sample_snapshots (sample_directory []) q = None" for q
    by (simp add: generations_def sample_directory_def)
  ultimately show ?thesis
    using resume_from_stored_snapshot [OF demo_replay, of "[demo_retraction]" sample_snapshots "sample_directory []" 3 5 6]
      demo_frame_ok by (simp add: x)
qed

end
