(* ===== verification/Json_Snapshot.thy ===== *)
theory Json_Snapshot
  imports Snapshot_Resume
begin

text \<open>
  The JSON codec of \<open>src/src/codec/mod.rs\<close> and the serialization of projections in
  \<open>src/src/projection/memory/state.rs\<close>: what is written are the tables of a projection, and
  reading rebuilds and validates the indexes. The JSON library is outside the repository and stays
  an argument; a snapshot it writes and reads back is a snapshot the stores can resume from.
\<close>

section \<open>The codec (\<open>codec/mod.rs\<close>)\<close>

definition json_encode :: "('t \<Rightarrow> (bytes, string) result) \<Rightarrow> 't \<Rightarrow> bytes memory_result" where
  "json_encode to_vec v = (case to_vec v of Ok bs \<Rightarrow> Ok bs | Err m \<Rightarrow> Err (CodecError m))"

definition json_decode :: "(bytes \<Rightarrow> ('t, string) result) \<Rightarrow> bytes \<Rightarrow> 't memory_result" where
  "json_decode from_slice bs = (case from_slice bs of Ok v \<Rightarrow> Ok v | Err m \<Rightarrow> Err (CodecError m))"

lemma json_encode_Ok: "json_encode to_vec v = Ok bs \<longleftrightarrow> to_vec v = Ok bs"
  by (simp add: json_encode_def split: result.split)

lemma json_decode_Ok: "json_decode from_slice bs = Ok v \<longleftrightarrow> from_slice bs = Ok v"
  by (simp add: json_decode_def split: result.split)

text \<open>For the values the library reads back as they were written, it is a codec for the journal.\<close>

definition json_safe :: "('t \<Rightarrow> (bytes, string) result) \<Rightarrow> (bytes \<Rightarrow> ('t, string) result) \<Rightarrow> 't \<Rightarrow> bool" where
  "json_safe to_vec from_slice v \<longleftrightarrow> (\<forall>bs. to_vec v = Ok bs \<longrightarrow> from_slice bs = Ok v)"

interpretation json: codec "json_encode to_vec" "json_decode from_slice" "json_safe to_vec from_slice" for to_vec from_slice
  by unfold_locales (simp add: json_encode_Ok json_decode_Ok json_safe_def)

section \<open>Serialization of identifiers (\<open>id.rs\<close>)\<close>

text \<open>An identifier is written as its text, and the text goes through the constructor again when it is read.\<close>

definition serialize_text_id :: "'k text_id \<Rightarrow> string" where
  "serialize_text_id i = as_str i"

definition text_id_from_str :: "string \<Rightarrow> string \<Rightarrow> 'k text_id memory_result" where
  "text_id_from_str kind s = text_id_new kind s"

definition deserialize_text_id :: "(string \<Rightarrow> string) \<Rightarrow> string \<Rightarrow> string \<Rightarrow> ('k text_id, string) result" where
  "deserialize_text_id debug kind s = (case text_id_new kind s of Ok i \<Rightarrow> Ok i | Err e \<Rightarrow> Err (error_text debug e))"

lemma deserialize_text_id_cases:
  "deserialize_text_id debug kind s =
    (if trimmed s then Ok (TextId s) else Err (''invalid '' @ kind @ '' identifier: '' @ debug s))"
  by (auto simp: deserialize_text_id_def text_id_new_def trimmed_def)

lemma text_id_round_trip: "text_id_ok i \<Longrightarrow> deserialize_text_id debug kind (serialize_text_id i) = Ok i"
  by (simp add: deserialize_text_id_def serialize_text_id_def)

section \<open>Serialization of projections (\<open>state.rs\<close>)\<close>

record projection_data =
  pd_nodes :: "node_history list"
  pd_facts :: "memory_fact list"
  pd_supersessions :: "(fact_id, supersession) btree_map"
  pd_retractions :: "(fact_id, retraction) btree_map"
  pd_last_global_position :: "u64 option"

definition projection_ref :: "memory_projection \<Rightarrow> projection_data" where
  "projection_ref p =
    \<lparr> pd_nodes = mp_nodes p, pd_facts = mp_facts p, pd_supersessions = mp_supersessions p,
      pd_retractions = mp_retractions p, pd_last_global_position = mp_last_global_position p \<rparr>"

definition deserialize_projection ::
  "(string \<Rightarrow> string) \<Rightarrow> u64 \<Rightarrow> u64 \<Rightarrow> projection_data \<Rightarrow> (memory_projection, string) result"
where
  "deserialize_projection debug node_seed fact_seed data =
    (case rebuild_indexes
        \<lparr> mp_nodes = pd_nodes data, mp_facts = pd_facts data, mp_node_lookup = ix_new node_seed,
          mp_fact_lookup = ix_new fact_seed, mp_incident_offsets = [], mp_incident_facts = [],
          mp_incident_delta = Map.empty, mp_supersessions = pd_supersessions data,
          mp_retractions = pd_retractions data, mp_last_global_position = pd_last_global_position data \<rparr> of
       Ok p \<Rightarrow> Ok p
     | Err e \<Rightarrow> Err (error_text debug e))"

text \<open>
  The library calls the serializer of the projection while it writes a snapshot, and its
  deserializer while it reads one.
\<close>

record json_serde =
  jz_to_vec :: "(memory_projection \<Rightarrow> projection_data) \<Rightarrow> memory_projection projection_snapshot \<Rightarrow> (bytes, string) result"
  jz_from_slice :: "(projection_data \<Rightarrow> (memory_projection, string) result) \<Rightarrow> bytes \<Rightarrow>
    (memory_projection projection_snapshot, string) result"

definition json_snapshot_encode :: "json_serde \<Rightarrow> memory_projection projection_snapshot \<Rightarrow> bytes memory_result" where
  "json_snapshot_encode J = json_encode (jz_to_vec J projection_ref)"

definition json_snapshot_decode ::
  "json_serde \<Rightarrow> (string \<Rightarrow> string) \<Rightarrow> u64 \<Rightarrow> u64 \<Rightarrow> bytes \<Rightarrow> memory_projection projection_snapshot memory_result"
where
  "json_snapshot_decode J debug node_seed fact_seed =
    json_decode (jz_from_slice J (deserialize_projection debug node_seed fact_seed))"

lemma deserialize_projection_bare:
  "deserialize_projection debug ns fs (projection_ref p) =
    (case rebuild_indexes (bare ns fs p) of Ok q \<Rightarrow> Ok q | Err e \<Rightarrow> Err (error_text debug e))"
proof -
  have "bare ns fs p = \<lparr> mp_nodes = mp_nodes p, mp_facts = mp_facts p, mp_node_lookup = ix_new ns,
      mp_fact_lookup = ix_new fs, mp_incident_offsets = [], mp_incident_facts = [], mp_incident_delta = Map.empty,
      mp_supersessions = mp_supersessions p, mp_retractions = mp_retractions p,
      mp_last_global_position = mp_last_global_position p \<rparr>"
    by (simp add: bare_def)
  then show ?thesis by (simp add: deserialize_projection_def projection_ref_def)
qed

lemma deserialize_serialized:
  assumes "proj_inv p" "2 * length (mp_facts p) \<le> usize_max"
  shows "\<exists>q. deserialize_projection debug ns fs (projection_ref p) = Ok q \<and> projection_eq q p \<and> proj_inv q"
  using rebuild_restores [OF assms, of ns fs] by (auto simp: deserialize_projection_bare)

section \<open>JSON snapshots\<close>

text \<open>
  What the library promises of a snapshot it can write: reading the bytes hands the same tables to
  the deserializer of the projection and the same cursor to the caller.
\<close>

definition serde_law :: "json_serde \<Rightarrow> memory_projection projection_snapshot \<Rightarrow> bool" where
  "serde_law J s \<longleftrightarrow>
    (\<exists>bs. jz_to_vec J projection_ref s = Ok bs \<and>
      (\<forall>f q. f (projection_ref (ps_projection s)) = Ok q \<longrightarrow>
        jz_from_slice J f bs = Ok \<lparr> ps_cursor = ps_cursor s, ps_projection = q \<rparr>))"

text \<open>Snapshots with the same tables are written alike, since only the tables are passed on.\<close>

definition serde_data :: "json_serde \<Rightarrow> bool" where
  "serde_data J \<longleftrightarrow> (\<forall>s t. ps_cursor s = ps_cursor t \<longrightarrow> projection_ref (ps_projection s) = projection_ref (ps_projection t) \<longrightarrow>
    jz_to_vec J projection_ref s = jz_to_vec J projection_ref t)"

definition json_valid :: "json_serde \<Rightarrow> memory_projection projection_snapshot \<Rightarrow> bool" where
  "json_valid J s \<longleftrightarrow> serde_data J \<and> serde_law J s \<and> proj_inv (ps_projection s) \<and>
    2 * length (mp_facts (ps_projection s)) \<le> usize_max"

definition json_canon ::
  "json_serde \<Rightarrow> (string \<Rightarrow> string) \<Rightarrow> u64 \<Rightarrow> u64 \<Rightarrow> memory_projection projection_snapshot \<Rightarrow> memory_projection projection_snapshot"
where
  "json_canon J debug ns fs s =
    (case json_snapshot_encode J s of
       Ok bs \<Rightarrow> (case json_snapshot_decode J debug ns fs bs of Ok x \<Rightarrow> x | Err _ \<Rightarrow> s)
     | Err _ \<Rightarrow> s)"

lemma json_round_trip:
  assumes "json_valid J s"
  obtains bs q where "json_snapshot_encode J s = Ok bs"
    "json_snapshot_decode J debug ns fs bs = Ok \<lparr> ps_cursor = ps_cursor s, ps_projection = q \<rparr>"
    "projection_eq q (ps_projection s)" "proj_inv q"
    "json_canon J debug ns fs s = \<lparr> ps_cursor = ps_cursor s, ps_projection = q \<rparr>"
proof -
  obtain q where q: "deserialize_projection debug ns fs (projection_ref (ps_projection s)) = Ok q"
    "projection_eq q (ps_projection s)" "proj_inv q"
    using deserialize_serialized [of "ps_projection s" debug ns fs] assms by (auto simp: json_valid_def)
  obtain bs where bs: "jz_to_vec J projection_ref s = Ok bs"
    "jz_from_slice J (deserialize_projection debug ns fs) bs = Ok \<lparr> ps_cursor = ps_cursor s, ps_projection = q \<rparr>"
    using assms q(1) by (auto simp: json_valid_def serde_law_def)
  then have "json_snapshot_encode J s = Ok bs"
    "json_snapshot_decode J debug ns fs bs = Ok \<lparr> ps_cursor = ps_cursor s, ps_projection = q \<rparr>"
    by (simp_all add: json_snapshot_encode_def json_snapshot_decode_def json_encode_Ok json_decode_Ok)
  with q that show thesis by (simp add: json_canon_def)
qed

interpretation jsnap: projection_codec "json_snapshot_encode J" "json_snapshot_decode J debug ns fs" "json_valid J"
  "json_canon J debug ns fs" for J debug ns fs
proof
  fix x y bs
  show "json_valid J x \<Longrightarrow> json_snapshot_encode J x = Ok bs \<Longrightarrow> json_snapshot_decode J debug ns fs bs = Ok (json_canon J debug ns fs x)"
    by (erule json_round_trip [where debug = debug and ns = ns and fs = fs]) simp
  show "json_valid J x \<Longrightarrow> snapshot_position (json_canon J debug ns fs x) = snapshot_position x"
    by (erule json_round_trip [where debug = debug and ns = ns and fs = fs]) simp
  show "json_snapshot_encode J x = json_snapshot_encode J y"
    if v: "json_valid J x" "json_valid J y" and eq: "json_canon J debug ns fs x = json_canon J debug ns fs y"
  proof -
    obtain q where x: "projection_eq q (ps_projection x)"
      "json_canon J debug ns fs x = \<lparr> ps_cursor = ps_cursor x, ps_projection = q \<rparr>"
      by (rule json_round_trip [OF v(1), of debug ns fs])
    obtain q' where y: "projection_eq q' (ps_projection y)"
      "json_canon J debug ns fs y = \<lparr> ps_cursor = ps_cursor y, ps_projection = q' \<rparr>"
      by (rule json_round_trip [OF v(2), of debug ns fs])
    have "\<lparr> ps_cursor = ps_cursor x, ps_projection = q \<rparr> = \<lparr> ps_cursor = ps_cursor y, ps_projection = q' \<rparr>"
      by (rule trans [OF x(2) [symmetric] trans [OF eq y(2)]])
    then have c: "ps_cursor x = ps_cursor y" "q = q'" by simp_all
    have "projection_eq (ps_projection x) (ps_projection y)"
      using x(1) y(1) unfolding c(2) projection_eq_def by metis
    then have "projection_ref (ps_projection x) = projection_ref (ps_projection y)"
      by (simp add: projection_eq_def projection_ref_def)
    with c(1) have "jz_to_vec J projection_ref x = jz_to_vec J projection_ref y"
      using v(1) unfolding json_valid_def serde_data_def by blast
    then show ?thesis by (simp only: json_snapshot_encode_def json_encode_def)
  qed
  show "json_valid J x \<Longrightarrow> \<exists>bs. json_snapshot_encode J x = Ok bs" by (erule json_round_trip) blast
  show "json_valid J x \<Longrightarrow> ps_cursor (json_canon J debug ns fs x) = ps_cursor x"
    by (erule json_round_trip [where debug = debug and ns = ns and fs = fs]) simp
  show "json_valid J x \<Longrightarrow> projection_eq (ps_projection (json_canon J debug ns fs x)) (ps_projection x) \<and>
      proj_inv (ps_projection (json_canon J debug ns fs x))"
    by (erule json_round_trip [where debug = debug and ns = ns and fs = fs]) simp
qed

text \<open>
  C37: The same with the JSON codec: saving a projection with its cursor as JSON, loading the latest
  snapshot, which validates the tables and rebuilds the indexes, and resuming with the events that
  follow gives, errors included, the cursor and the projection that replaying the whole log gives.
  It is asked of the JSON library that it reads back the tables it wrote.
\<close>

theorem resume_from_json_snapshot:
  assumes replay: "replay_tracked (memory_ops ns fs) log = Ok (p, c)"
    and fresh: "set (map event_id_of log) \<inter> set (map event_id_of tail) = {}"
    and dir: "fss_inv (json_snapshot_encode J) (json_valid J) st d"
    and snap: "frame_ok (json_snapshot_encode J) (json_valid J) st \<lparr> ps_cursor = c, ps_projection = p \<rparr>"
    and latest: "rc_global_position c = Some pos"
      "\<And>q. generations (json_snapshot_decode J debug ns' fs') st d q \<noteq> None \<Longrightarrow> q < pos"
  shows "\<exists>d' s. fss_save (json_snapshot_encode J) st \<lparr> ps_cursor = c, ps_projection = p \<rparr> d = (Ok (), d') \<and>
    fst (fss_load_latest (json_snapshot_decode J debug ns' fs') st d') = Ok (Some s) \<and>
    result_rel (\<lambda>(p, c) (q, c'). projection_eq p q \<and> c = c')
      (resume (memory_ops ns fs) s tail) (replay_tracked (memory_ops ns fs) (log @ tail))"
  using assms by (rule jsnap.resume_saved)

text \<open>A library that writes the sample snapshot and reads it back.\<close>

definition demo_serde :: json_serde where
  "demo_serde =
    \<lparr> jz_to_vec = \<lambda>ser s. if ser (ps_projection s) = ser (ps_projection demo_snapshot) then Ok [123, 125] else Err ''refused'',
      jz_from_slice = \<lambda>f bs. case f (projection_ref (ps_projection demo_snapshot)) of
        Ok q \<Rightarrow> Ok \<lparr> ps_cursor = ps_cursor demo_snapshot, ps_projection = q \<rparr> | Err m \<Rightarrow> Err m \<rparr>"

lemma demo_json_valid: "json_valid demo_serde demo_snapshot"
  using demo_snapshot_valid
  by (auto simp: json_valid_def serde_data_def serde_law_def demo_serde_def compact_valid_def
      demo_snapshot_def demo_projection_def usize_max_def)

lemma demo_json_frame_ok: "frame_ok (json_snapshot_encode demo_serde) (json_valid demo_serde) sample_snapshots demo_snapshot"
  using demo_json_valid
  by (auto simp: frame_ok_def encode_frame_def sample_snapshots_def so_default_def usize_max_def snap_encode_def
      u64_try_from_def SNAPSHOT_HEADER_def json_snapshot_encode_def json_encode_def demo_serde_def)

theorem resume_from_json_snapshot_witness:
  "\<exists>d' s. fss_save (json_snapshot_encode demo_serde) sample_snapshots demo_snapshot (sample_directory []) = (Ok (), d') \<and>
    fst (fss_load_latest (json_snapshot_decode demo_serde id 5 6) sample_snapshots d') = Ok (Some s) \<and>
    result_rel (\<lambda>(p, c) (q, c'). projection_eq p q \<and> c = c')
      (resume (memory_ops 0 0) s [demo_retraction]) (replay_tracked (memory_ops 0 0) (demo_log @ [demo_retraction]))"
proof -
  have x: "\<lparr> ps_cursor = cursor_of demo_log, ps_projection = demo_projection [(TextId ''f'', demo_first)] 3 \<rparr> = demo_snapshot"
    unfolding demo_cursor by (simp add: demo_snapshot_def)
  have "set (map event_id_of demo_log) \<inter> set (map event_id_of [demo_retraction]) = {}"
    by (simp add: demo_log_def demo_retraction_def demo_event_def)
  moreover have "fss_inv (json_snapshot_encode demo_serde) (json_valid demo_serde) sample_snapshots (sample_directory [])"
    using sample_prefix_ok by (simp add: fss_inv_def sample_directory_def dir_calm_def)
  moreover have "rc_global_position (cursor_of demo_log) = Some 3" unfolding demo_cursor by (simp add: demo_snapshot_def)
  moreover have "generations (json_snapshot_decode demo_serde id 5 6) sample_snapshots (sample_directory []) q = None" for q
    by (simp add: generations_def sample_directory_def)
  ultimately show ?thesis
    using resume_from_json_snapshot [OF demo_replay, of "[demo_retraction]" demo_serde sample_snapshots "sample_directory []" 3 id 5 6]
      demo_json_frame_ok by (simp add: x)
qed

end
