(* ===== verification/Restart.thy ===== *)
theory Restart
  imports File_Store Snapshot_Resume Json_Snapshot
begin

text \<open>
  Restarting the memory after a crash, the composition of the durable store (\<open>src/src/store/file.rs\<close>),
  the snapshot store (\<open>src/src/snapshot/file\<close>), replay (\<open>src/src/projection/replay.rs\<close>) and the
  projection: the journal is reopened, the latest snapshot is loaded, and the projection is resumed
  with the events the recovered store holds after the cursor of the snapshot.
\<close>

section \<open>Reading the log from a cursor\<close>

lemma load_from_cursor:
  assumes "fes_inv encode t" "log_ok log" "fes_log t = log @ tail" "log \<noteq> []" "length (log @ tail) \<le> limit"
  shows "fes_load_all t (rc_global_position (cursor_of log)) limit = tail"
proof -
  have ok: "log_ok (log @ tail)" using fes.invar_log [OF assms(1)] assms(3) by simp
  have "length log - 1 < 2 ^ 64" using assms(2,4) by (cases log) (auto simp: log_ok_def)
  then have "resume_index (rc_global_position (cursor_of log)) = length log"
    using assms(4) by (simp add: cursor_position [OF assms(2)] resume_index_def unat_of_nat take_bit_nat_eq_self)
  then have "filter (\<lambda>e. after_ok (rc_global_position (cursor_of log)) (position_of e)) (log @ tail) = tail"
    by (subst filter_after_drop [OF ok]) simp
  moreover have "length tail \<le> limit" using assms(5) by simp
  ultimately show ?thesis by (simp only: fes.load_all_log [OF assms(1)] assms(3) take_all)
qed

lemma log_tail_fresh: "log_ok (log @ tail) \<Longrightarrow> set (map event_id_of log) \<inter> set (map event_id_of tail) = {}"
  by (simp add: log_ok_def)

section \<open>Restarting with any snapshot codec\<close>

context projection_codec
begin

lemma restart:
  assumes replay: "replay_tracked (memory_ops ns fs) (take n log) = Ok (p, c)" "0 < n" "n \<le> length log"
    and dir: "fss_inv encode valid st d" "frame_ok encode valid st \<lparr> ps_cursor = c, ps_projection = p \<rparr>"
      "\<And>q. generations decode st d q \<noteq> None \<Longrightarrow> q < of_nat (n - 1)"
    and store: "fes_inv ev_encode t" "fes_log t = log @ gained" "length (log @ gained) \<le> limit"
  shows "\<exists>d' s. fss_save encode st \<lparr> ps_cursor = c, ps_projection = p \<rparr> d = (Ok (), d') \<and>
    fst (fss_load_latest decode st d') = Ok (Some s) \<and>
    result_rel (\<lambda>(p, c) (q, c'). projection_eq p q \<and> c = c')
      (resume (memory_ops ns fs) s (fes_load_all t (rc_global_position (ps_cursor s)) limit))
      (replay_tracked (memory_ops ns fs) (fes_log t))"
proof -
  let ?log = "take n log" and ?tail = "drop n log @ gained"
  have split: "fes_log t = ?log @ ?tail" using store(2) by simp
  have ok: "log_ok (?log @ ?tail)" using fes.invar_log [OF store(1)] split by simp
  then have ok': "log_ok ?log" by (rule log_ok_append_left)
  have ne: "?log \<noteq> []" using replay(2,3) by auto
  have c: "c = cursor_of ?log"
    using replay(1) mem.replay_tracked_Ok [of ns fs ?log p c] by (simp add: memory_ops_def)
  have pos: "rc_global_position c = Some (of_nat (n - 1))"
    using replay(2,3) ne by (simp add: c cursor_position [OF ok'])
  have read: "fes_load_all t (rc_global_position c) limit = ?tail"
    unfolding c using store ne by (intro load_from_cursor [OF store(1) ok' split]) simp_all
  show ?thesis
  proof (rule saved_snapshot [OF replay(1) dir(1,2) pos dir(3)])
    fix d' s
    assume s: "fss_save encode st \<lparr> ps_cursor = c, ps_projection = p \<rparr> d = (Ok (), d')"
      "fst (fss_load_latest decode st d') = Ok (Some s)" "ps_cursor s = c"
      "\<And>tail. set (map event_id_of ?log) \<inter> set (map event_id_of tail) = {} \<Longrightarrow>
        result_rel (\<lambda>(p, c) (q, c'). projection_eq p q \<and> c = c')
          (resume (memory_ops ns fs) s tail) (replay_tracked (memory_ops ns fs) (?log @ tail))"
    from s(4) [OF log_tail_fresh [OF ok]] s(1-3) show ?thesis by (auto simp: read split [symmetric])
  qed
qed

end

section \<open>The memory survives a crash\<close>

text \<open>
  C4: restart after a crash. A snapshot of some prefix of the log is saved; the process dies while an
  append is writing its frame, so that the journal ends in the first \<open>k\<close> bytes of it. Reopening the
  journal, loading the latest snapshot and resuming it with the events the store holds after the
  cursor of the snapshot gives, errors included, what replaying the recovered log gives, and the
  recovered log is the old one, with the interrupted batch exactly if its whole frame was written.
\<close>

theorem restart_after_crash:
  assumes store: "codec encode decode valid" "fes_inv encode s" "fes_clean s"
      "spec_append (fes_log s) st x es = Ok batch" "list_all valid (fes_log s @ batch)"
    and crash: "encode_batch batch encode (fso_max_frame_bytes (fes_options s)) = Ok frame"
      "length (fh_bytes (fes_file s) @ frame) < 2 ^ 64" "k \<le> length frame"
      "no_faults h" "fh_bytes h = fh_bytes (fes_file s) @ take k frame"
    and snapshot: "replay_tracked (memory_ops ns fs) (take n (fes_log s)) = Ok (p, c)" "0 < n" "n \<le> length (fes_log s)"
      "fss_inv compact_encode compact_valid ss d" "frame_ok compact_encode compact_valid ss \<lparr> ps_cursor = c, ps_projection = p \<rparr>"
      "\<And>q. generations (compact_decode ns' fs') ss d q \<noteq> None \<Longrightarrow> q < of_nat (n - 1)"
    and limit: "length (fes_log s @ batch) \<le> limit"
  shows "\<exists>t h' d' snap. fes_open path decode ((fes_options s)\<lparr>fso_recovery := TruncatePartialTail\<rparr>) LockAcquired h = (Ok t, h') \<and>
    fes_log t = (if k = length frame then fes_log s @ batch else fes_log s) \<and>
    fss_save compact_encode ss \<lparr> ps_cursor = c, ps_projection = p \<rparr> d = (Ok (), d') \<and>
    fst (fss_load_latest (compact_decode ns' fs') ss d') = Ok (Some snap) \<and>
    result_rel (\<lambda>(p, c) (q, c'). projection_eq p q \<and> c = c')
      (resume (memory_ops ns fs) snap (fes_load_all t (rc_global_position (ps_cursor snap)) limit))
      (replay_tracked (memory_ops ns fs) (fes_log t))"
proof -
  obtain t h' where t: "fes_open path decode ((fes_options s)\<lparr>fso_recovery := TruncatePartialTail\<rparr>) LockAcquired h = (Ok t, h')"
    "fes_inv encode t" "fes_log t = fes_log s @ (if k = length frame then batch else [])"
    using reopen_after_crash [OF store crash, of path] by auto
  have "length (fes_log s @ (if k = length frame then batch else [])) \<le> limit" using limit by simp
  from csnap.restart [OF snapshot t(2,3) this] t(1,3) show ?thesis by auto
qed

section \<open>The sample memory, restarted\<close>

definition demo_journal :: "memory_event stored_event list" where
  "demo_journal = demo_log @ [demo_retraction]"

definition demo_encode :: "memory_event stored_event \<Rightarrow> bytes memory_result" where
  "demo_encode e = Ok (as_bytes (as_str (event_id_of e)))"

definition demo_decode :: "bytes \<Rightarrow> memory_event stored_event memory_result" where
  "demo_decode bs =
    ok_or (map_of (map (\<lambda>e. (as_bytes (as_str (event_id_of e)), e)) demo_journal) bs) (CodecError ''unknown bytes'')"

definition demo_request :: "memory_event new_event" where
  "demo_request =
    \<lparr> ne_id = TextId ''e4'', ne_event_type = ''fact_retracted'', ne_occurred_at = Timestamp 8, ne_recorded_at = Timestamp 8,
      ne_agent_id = TextId ''agent'', ne_session_id = TextId ''session'', ne_correlation_id = None, ne_causation_id = None,
      ne_payload = FactRetracted (TextId ''f'') (Timestamp 9) [demo_evidence] \<rparr>"

lemma demo_event_ids: "map event_id_of demo_journal = [TextId ''e0'', TextId ''e1'', TextId ''e2'', TextId ''e3'', TextId ''e4'']"
  by (simp add: demo_journal_def demo_log_def demo_retraction_def demo_event_def)

lemma demo_codec: "codec demo_encode demo_decode (\<lambda>e. e \<in> set demo_journal)"
proof
  fix e bs
  assume "e \<in> set demo_journal" "demo_encode e = Ok bs"
  moreover have "distinct (map fst (map (\<lambda>e. (as_bytes (as_str (event_id_of e)), e)) demo_journal))"
  proof -
    have "map fst (map (\<lambda>e. (as_bytes (as_str (event_id_of e)), e)) demo_journal) =
        map (\<lambda>i. as_bytes (as_str i)) (map event_id_of demo_journal)" by simp
    also have "distinct \<dots>" unfolding demo_event_ids by (simp add: as_bytes_def byte_of_char_def)
    finally show ?thesis .
  qed
  ultimately have "map_of (map (\<lambda>e. (as_bytes (as_str (event_id_of e)), e)) demo_journal) bs = Some e"
    by (intro map_of_is_SomeI) (auto simp: demo_encode_def)
  then show "demo_decode bs = Ok e" by (simp add: demo_decode_def)
qed

lemma demo_encodes: "demo_encode (demo_event i p r x) = Ok (as_bytes i)"
  by (simp add: demo_encode_def demo_event_def)

lemma demo_frames:
  obtains f g where "encode_batch demo_log demo_encode 1000 = Ok f" "length f \<le> 1000"
    "encode_batch [demo_retraction] demo_encode 1000 = Ok g" "20 \<le> length g" "length g \<le> 1000"
  by (simp add: encode_batch_def encode_event_def demo_log_def demo_retraction_def demo_encodes u32_try_from_def
      u64_try_from_def BATCH_MAGIC_def)

lemma demo_append: "spec_append demo_log (TextId ''s'') (Exact 3) [demo_request] = Ok [demo_retraction]"
proof -
  have "filter (in_stream (TextId ''s'')) demo_log = demo_log"
    by (simp add: demo_log_def demo_event_def in_stream_def)
  then have n: "stream_count demo_log (TextId ''s'') = 4" by (simp add: stream_count_def) (simp add: demo_log_def)
  have "spec_version demo_log (TextId ''s'') = Some 3" by (simp add: spec_version_def n)
  moreover have "first_duplicate (set (map event_id_of demo_log)) [demo_request] = None"
    by (simp add: demo_request_def demo_log_def demo_event_def)
  moreover have "length demo_log = 4" by (simp add: demo_log_def)
  ultimately show ?thesis
    by (simp add: spec_append_def version_matches_def stamped_def n demo_request_def demo_retraction_def demo_event_def)
qed

definition demo_store :: "bytes \<Rightarrow> memory_event file_event_store" where
  "demo_store f =
    \<lparr> fes_path = ''log'', fes_file = \<lparr> fh_bytes = FILE_HEADER @ f, fh_pos = 0, fh_plan = [] \<rparr>,
      fes_options = \<lparr> fso_recovery = Strict, fso_durability = Flush, fso_max_frame_bytes = 1000 \<rparr>,
      fes_inner = ims_of demo_log, fes_durable_len = of_nat (length (FILE_HEADER @ f)) \<rparr>"

lemma demo_store_ok:
  assumes "encode_batch demo_log demo_encode 1000 = Ok f" "length f \<le> 1000"
  shows "fes_inv demo_encode (demo_store f) \<and> fes_clean (demo_store f)"
proof -
  have header: "length FILE_HEADER = 8" by (simp add: FILE_HEADER_def)
  have "log_ok demo_log" by (rule log_ok_append_left [OF demo_log_ok])
  then have "ims_inv (ims_of demo_log)" by (simp add: ims_inv_def)
  moreover have "journal_image demo_encode 1000 demo_log (FILE_HEADER @ f)"
    using journal_image_snoc [OF journal_image_empty assms(1)] by simp
  moreover have "journal_at (demo_store f) (FILE_HEADER @ f) []"
    using assms(2) header by (simp add: journal_at_def demo_store_def)
  moreover have "unat (of_nat (length (FILE_HEADER @ f)) :: u64) = length (FILE_HEADER @ f)"
    using assms(2) header by (simp only: unat_of_nat) (simp add: take_bit_nat_eq_self)
  then have "fes_clean (demo_store f)" by (simp only: fes_clean_def demo_store_def file_event_store.simps file_handle.simps)
  ultimately show ?thesis
    unfolding fes_inv_def by (auto simp: demo_store_def)
qed

theorem restart_after_crash_witness:
  "\<exists>f g t h' d' snap. encode_batch demo_log demo_encode 1000 = Ok f \<and> encode_batch [demo_retraction] demo_encode 1000 = Ok g \<and>
    fes_open ''log'' demo_decode ((fes_options (demo_store f))\<lparr>fso_recovery := TruncatePartialTail\<rparr>) LockAcquired
      \<lparr> fh_bytes = FILE_HEADER @ f @ take 10 g, fh_pos = 0, fh_plan = [] \<rparr> = (Ok t, h') \<and>
    fes_log t = demo_log \<and>
    fss_save compact_encode sample_snapshots demo_snapshot (sample_directory []) = (Ok (), d') \<and>
    fst (fss_load_latest (compact_decode 5 6) sample_snapshots d') = Ok (Some snap) \<and>
    result_rel (\<lambda>(p, c) (q, c'). projection_eq p q \<and> c = c')
      (resume (memory_ops 0 0) snap (fes_load_all t (rc_global_position (ps_cursor snap)) 100))
      (replay_tracked (memory_ops 0 0) demo_log)"
proof -
  obtain f g where fg: "encode_batch demo_log demo_encode 1000 = Ok f" "length f \<le> 1000"
    "encode_batch [demo_retraction] demo_encode 1000 = Ok g" "20 \<le> length g" "length g \<le> 1000"
    by (rule demo_frames)
  let ?s = "demo_store f" and ?h = "\<lparr> fh_bytes = FILE_HEADER @ f @ take 10 g, fh_pos = 0, fh_plan = [] \<rparr>"
  have log: "fes_log ?s = demo_log" and bytes: "fh_bytes (fes_file ?s) = FILE_HEADER @ f"
    and max: "fso_max_frame_bytes (fes_options ?s) = 1000" by (simp_all add: demo_store_def fes_log_def)
  have len: "length demo_log = 4" "length FILE_HEADER = 8" by (simp_all add: demo_log_def FILE_HEADER_def)
  have x: "\<lparr> ps_cursor = cursor_of demo_log, ps_projection = demo_projection [(TextId ''f'', demo_first)] 3 \<rparr> = demo_snapshot"
    unfolding demo_cursor by (simp add: demo_snapshot_def)
  have "\<exists>t h' d' snap. fes_open ''log'' demo_decode ((fes_options ?s)\<lparr>fso_recovery := TruncatePartialTail\<rparr>) LockAcquired ?h = (Ok t, h') \<and>
    fes_log t = (if 10 = length g then fes_log ?s @ [demo_retraction] else fes_log ?s) \<and>
    fss_save compact_encode sample_snapshots \<lparr> ps_cursor = cursor_of demo_log, ps_projection = demo_projection [(TextId ''f'', demo_first)] 3 \<rparr>
      (sample_directory []) = (Ok (), d') \<and>
    fst (fss_load_latest (compact_decode 5 6) sample_snapshots d') = Ok (Some snap) \<and>
    result_rel (\<lambda>(p, c) (q, c'). projection_eq p q \<and> c = c')
      (resume (memory_ops 0 0) snap (fes_load_all t (rc_global_position (ps_cursor snap)) 100))
      (replay_tracked (memory_ops 0 0) (fes_log t))"
  proof (rule restart_after_crash [where n = 4, OF demo_codec])
    show "replay_tracked (memory_ops 0 0) (take 4 (fes_log ?s)) =
        Ok (demo_projection [(TextId ''f'', demo_first)] 3, cursor_of demo_log)"
      using demo_replay by (simp add: log len(1) [symmetric])
    show "fss_inv compact_encode compact_valid sample_snapshots (sample_directory [])"
      using sample_prefix_ok by (simp add: fss_inv_def sample_directory_def dir_calm_def)
    show "frame_ok compact_encode compact_valid sample_snapshots
        \<lparr> ps_cursor = cursor_of demo_log, ps_projection = demo_projection [(TextId ''f'', demo_first)] 3 \<rparr>"
      unfolding x by (rule demo_frame_ok)
    show "list_all (\<lambda>e. e \<in> set demo_journal) (fes_log ?s @ [demo_retraction])"
      by (simp add: log demo_journal_def list_all_iff)
    show "encode_batch [demo_retraction] demo_encode (fso_max_frame_bytes (fes_options ?s)) = Ok g" unfolding max by (rule fg(3))
    show "spec_append (fes_log ?s) (TextId ''s'') (Exact 3) [demo_request] = Ok [demo_retraction]" unfolding log by (rule demo_append)
    show "length (fh_bytes (fes_file ?s) @ g) < 2 ^ 64" using fg len by (simp add: bytes)
  qed (use demo_store_ok [OF fg(1,2)] fg in \<open>simp_all add: log len bytes no_faults_def generations_def sample_directory_def\<close>)
  moreover have "10 \<noteq> length g" using fg(4) by simp
  ultimately show ?thesis using fg by (auto simp: x log)
qed

end
