(* ===== verification/Containers.thy ===== *)
theory Containers
  imports Projection_Index "HOL-Library.Product_Lexorder"
begin

text \<open>
  What the query layers (context, analytics, extraction, evaluation) use of the standard library beside the
  maps of \<open>Ordered_Map\<close>: \<open>BTreeSet\<close> (a map to the unit, as in Rust), the reversing wrapper
  \<open>std::cmp::Reverse\<close>, stable sorting by a key, \<open>sort\<close> followed by \<open>dedup\<close>, grouping, and operations that may
  panic. Panics are values: \<open>Err (Panic why)\<close>, beside \<open>Err (Fault e)\<close> for a returned error.
\<close>

section \<open>Errors and panics\<close>

datatype failure = Fault memory_error | Panic string

type_synonym 'a fallible = "('a, failure) result"

fun returned :: "'a memory_result \<Rightarrow> 'a fallible" where
  "returned (Ok a) = Ok a"
| "returned (Err e) = Err (Fault e)"

definition expect :: "string \<Rightarrow> 'a option \<Rightarrow> 'a fallible" where
  "expect why x = ok_or x (Panic why)"

definition bt_index :: "('k, 'v) btree_map \<Rightarrow> 'k \<Rightarrow> 'v fallible" where
  "bt_index m k = expect ''no entry found for key'' (bt_get m k)"

lemma returned_Ok [result_simps]: "returned r = Ok a \<longleftrightarrow> r = Ok a"
  by (cases r) auto

lemma returned_Err [result_simps]: "returned r = Err e \<longleftrightarrow> (\<exists>x. r = Err x \<and> e = Fault x)"
  by (cases r) auto

lemma bt_index_Ok [result_simps]: "bt_index m k = Ok v \<longleftrightarrow> bt_get m k = Some v"
  by (auto simp: bt_index_def expect_def result_simps)

lemma bt_index_Some [simp]: "bt_get m k = Some v \<Longrightarrow> bt_index m k = Ok v"
  by (simp add: result_simps)

lemma expect_Some [simp]: "expect why (Some a) = Ok a"
  by (simp add: expect_def)

lemma try_map_const: "(\<And>x. x \<in> set xs \<Longrightarrow> f x = Ok (g x)) \<Longrightarrow> try_map f xs = Ok (map g xs)"
  by (induction xs) auto

lemma try_map_in: "try_map f xs = Ok ys \<Longrightarrow> x \<in> set xs \<Longrightarrow> \<exists>y. f x = Ok y"
  by (induction xs arbitrary: ys) (auto simp: and_then_Ok)

lemma try_map_Err: "try_map f xs = Err e \<Longrightarrow> \<exists>x \<in> set xs. f x = Err e"
  by (induction xs) (auto simp: result_simps)

lemma try_fold_Err: "try_fold f s xs = Err e \<Longrightarrow> \<exists>s' x. x \<in> set xs \<and> f s' x = Err e"
proof (induction xs arbitrary: s)
  case (Cons x xs)
  then consider "f s x = Err e" | s' where "f s x = Ok s'" "try_fold f s' xs = Err e" by (auto simp: and_then_Err)
  then show ?case
  proof cases
    case 2
    from Cons.IH [OF this(2)] show ?thesis by auto
  qed auto
qed simp

lemma subseq_set: "subseq xs ys \<Longrightarrow> set xs \<subseteq> set ys"
  by (induction rule: list_emb.induct) auto

lemma subseq_distinct: "subseq xs ys \<Longrightarrow> distinct ys \<Longrightarrow> distinct xs"
  by (induction rule: list_emb.induct) (auto dest: subseq_set)

lemma set_map_filter: "y \<in> set (List.map_filter f xs) \<longleftrightarrow> (\<exists>x \<in> set xs. f x = Some y)"
  by (induction xs) (auto simp: List.map_filter_def)

text \<open>Indexing a vector or a slice.\<close>

definition at_index :: "'a list \<Rightarrow> usize \<Rightarrow> 'a fallible" where
  "at_index xs i = expect ''index out of bounds'' (if i < length xs then Some (xs ! i) else None)"

lemma at_index_Ok [simp]: "i < length xs \<Longrightarrow> at_index xs i = Ok (xs ! i)"
  by (simp add: at_index_def)

section \<open>Basis points in a \<open>u16\<close>\<close>

definition u16_try_from :: "nat \<Rightarrow> u16 option" where
  "u16_try_from n = (if n < 2 ^ 16 then Some (of_nat n) else None)"

lemma unat_of_nat_u16 [simp]: "n < 65536 \<Longrightarrow> unat (of_nat n :: u16) = n"
  by (simp add: unat_of_nat)

lemma u16_try_from_bps: "n \<le> 10000 \<Longrightarrow> u16_try_from n = Some (of_nat n)"
  by (simp add: u16_try_from_def)

lemma u16_le_bps: "(w :: u16) \<le> 10000 \<longleftrightarrow> unat w \<le> 10000"
  by (simp add: word_le_nat_alt)

section \<open>Maps: removal of entries, iteration\<close>

definition bt_retain :: "('k \<Rightarrow> 'v \<Rightarrow> bool) \<Rightarrow> ('k, 'v) btree_map \<Rightarrow> ('k, 'v) btree_map" where
  "bt_retain keep m = filter (\<lambda>(k, v). keep k v) m"

definition bt_values :: "('k, 'v) btree_map \<Rightarrow> 'v list" where
  "bt_values m = map snd m"

definition bt_keys :: "('k, 'v) btree_map \<Rightarrow> 'k list" where
  "bt_keys m = map fst m"

lemma bt_ok_retain [simp]: "bt_ok m \<Longrightarrow> bt_ok (bt_retain keep m)"
  unfolding bt_ok_def bt_retain_def sorted_wrt_map by (rule sorted_wrt_filter)

lemma bt_get_retain:
  "bt_ok m \<Longrightarrow> bt_get (bt_retain keep m) k = Some v \<longleftrightarrow> bt_get m k = Some v \<and> keep k v"
  using bt_get_in [OF bt_ok_retain [of m keep]] by (auto simp: bt_get_in bt_retain_def)

lemma bt_get_None: "bt_get m k = None \<longleftrightarrow> k \<notin> set (bt_keys m)"
  by (simp add: bt_get_def bt_keys_def map_of_eq_None_iff)

lemma bt_get_keys: "(\<exists>v. bt_get m k = Some v) \<longleftrightarrow> k \<in> set (bt_keys m)"
  using bt_get_None [of m k] by (cases "bt_get m k") auto

lemma bt_keys_insert [simp]: "set (bt_keys (bt_insert m k v)) = insert k (set (bt_keys m))"
  by (simp add: bt_keys_def set_keys_bt_insert)

lemma bt_keys_Nil [simp]: "bt_keys [] = []"
  by (simp add: bt_keys_def)

lemma bt_values_in: "bt_ok m \<Longrightarrow> v \<in> set (bt_values m) \<longleftrightarrow> (\<exists>k. bt_get m k = Some v)"
  by (auto simp: bt_values_def bt_get_in image_iff) force

lemma bt_keys_sorted: "bt_ok m \<Longrightarrow> sorted_wrt (<) (bt_keys m)"
  by (simp add: bt_ok_def bt_keys_def)

lemma bt_keys_distinct: "bt_ok m \<Longrightarrow> distinct (bt_keys m)"
  by (simp add: bt_ok_distinct bt_keys_def)

section \<open>Sets\<close>

type_synonym 'a btree_set = "('a, unit) btree_map"

abbreviation bs_insert :: "('a::linorder) btree_set \<Rightarrow> 'a \<Rightarrow> 'a btree_set" where
  "bs_insert s a \<equiv> bt_insert s a ()"

definition bs_contains :: "'a btree_set \<Rightarrow> 'a \<Rightarrow> bool" where
  "bs_contains s a \<longleftrightarrow> bt_get s a \<noteq> None"

abbreviation bs_items :: "'a btree_set \<Rightarrow> 'a list" where
  "bs_items s \<equiv> bt_keys s"

lemma bs_contains_items: "bs_contains s a \<longleftrightarrow> a \<in> set (bs_items s)"
  by (simp add: bs_contains_def bt_get_None)

lemma bs_contains_insert [simp]: "bs_contains (bs_insert s a) b \<longleftrightarrow> b = a \<or> bs_contains s b"
  by (simp add: bs_contains_def)

lemma bs_contains_Nil [simp]: "\<not> bs_contains [] a"
  by (simp add: bs_contains_def)

lemma bs_length: "bt_ok s \<Longrightarrow> length s = card (set (bs_items s))"
  using distinct_card [OF bt_keys_distinct [of s]] by (simp add: bt_keys_def)

lemma fold_insert_items: "set (bs_items (foldl bs_insert s xs)) = set (bs_items s) \<union> set xs"
  by (induction xs arbitrary: s) auto

text \<open>Inserting into a set changes the sum of a cost over its items by the cost of a new item.\<close>

lemma sum_items_insert:
  fixes c :: "'a::linorder \<Rightarrow> nat"
  assumes "bt_ok s" "\<not> bs_contains s a"
  shows "sum_list (map c (bs_items (bs_insert s a))) = c a + sum_list (map c (bs_items s))"
proof -
  have "sum_list (map c (bs_items (bs_insert s a))) = sum c (set (bs_items (bs_insert s a)))"
    using assms(1) by (intro sum_list_distinct_conv_sum_set bt_keys_distinct) simp
  also have "\<dots> = c a + sum c (set (bs_items s))"
    using assms(2) by (simp add: bs_contains_items)
  also have "sum c (set (bs_items s)) = sum_list (map c (bs_items s))"
    using assms(1) by (intro sum_list_distinct_conv_sum_set [symmetric] bt_keys_distinct)
  finally show ?thesis .
qed

section \<open>Sorting\<close>

datatype 'a reverse = Reverse (unreverse: 'a)

instantiation reverse :: (linorder) linorder
begin

definition less_eq_reverse :: "'a reverse \<Rightarrow> 'a reverse \<Rightarrow> bool" where
  "less_eq_reverse a b \<longleftrightarrow> unreverse b \<le> unreverse a"

definition less_reverse :: "'a reverse \<Rightarrow> 'a reverse \<Rightarrow> bool" where
  "less_reverse a b \<longleftrightarrow> unreverse b < unreverse a"

instance
  by standard (auto simp: less_eq_reverse_def less_reverse_def intro: reverse.expand)

end

lemma reverse_le_simps [simp]:
  "Reverse a \<le> Reverse b \<longleftrightarrow> b \<le> a" "Reverse a < Reverse b \<longleftrightarrow> b < a"
  by (auto simp: less_eq_reverse_def less_reverse_def)

text \<open>\<open>v.sort(); v.dedup()\<close>.\<close>

definition sort_dedup :: "'a::linorder list \<Rightarrow> 'a list" where
  "sort_dedup xs = remdups_adj (sort xs)"

lemma set_sort_dedup [simp]: "set (sort_dedup xs) = set xs"
  by (simp add: sort_dedup_def)

lemma sort_dedup_Nil [simp]: "sort_dedup xs = [] \<longleftrightarrow> xs = []"
  by (metis set_sort_dedup set_empty)

lemma sort_dedup_strict: "sorted_wrt (<) (sort_dedup xs)"
proof -
  have "sorted xs \<Longrightarrow> distinct (remdups_adj xs)" for xs :: "'a list"
    by (induction xs rule: remdups_adj.induct) (auto simp: order_class.antisym_conv)
  then show ?thesis
    by (simp add: sort_dedup_def strict_sorted_iff sorted_remdups_adj)
qed

lemma sort_dedup_distinct [simp]: "distinct (sort_dedup xs)"
  using sort_dedup_strict strict_sorted_iff by blast

lemma sort_dedup_unique:
  "set xs = set ys \<Longrightarrow> sort_dedup xs = sort_dedup ys"
  using sort_dedup_strict [of xs] sort_dedup_strict [of ys]
  by (simp add: strict_sorted_equal)

text \<open>What \<open>truncate\<close> cuts off a sorted list sorts after what it keeps.\<close>

lemma sorted_take_rest:
  assumes "sorted_wrt R xs" "x \<in> set xs" "x \<notin> set (take n xs)"
  shows "length (take n xs) = n \<and> (\<forall>y \<in> set (take n xs). R y x)"
proof -
  have "x \<in> set (drop n xs)" using assms(2,3) by (metis Un_iff append_take_drop_id set_append)
  moreover have "sorted_wrt R (take n xs @ drop n xs)" using assms(1) by simp
  moreover from calculation(1) have "n \<le> length xs" by (cases "n \<le> length xs") auto
  ultimately show ?thesis unfolding sorted_wrt_append by auto
qed

lemma sorted_sort_key: "sorted_wrt (\<lambda>a b. f a \<le> f b) (sort_key f xs)"
  by (simp flip: sorted_wrt_map)

section \<open>Grouping\<close>

text \<open>\<open>groups.entry(key).or_default().push(fact)\<close> for every fact.\<close>

definition push_group :: "('a \<Rightarrow> 'k::linorder) \<Rightarrow> ('k, 'a list) btree_map \<Rightarrow> 'a \<Rightarrow> ('k, 'a list) btree_map" where
  "push_group key m x = bt_insert m (key x) ((case bt_get m (key x) of Some xs \<Rightarrow> xs | None \<Rightarrow> []) @ [x])"

definition group_by :: "('a \<Rightarrow> 'k::linorder) \<Rightarrow> 'a list \<Rightarrow> ('k, 'a list) btree_map" where
  "group_by key xs = foldl (push_group key) [] xs"

lemma group_by_ok: "bt_ok (group_by key xs)"
proof -
  have "bt_ok m \<Longrightarrow> bt_ok (foldl (push_group key) m xs)" for m
    by (induction xs arbitrary: m) (auto simp: push_group_def)
  then show ?thesis by (simp add: group_by_def)
qed

lemma group_by_get:
  "bt_get (group_by key xs) k = (let ys = filter (\<lambda>x. key x = k) xs in if ys = [] then None else Some ys)"
proof (induction xs rule: rev_induct)
  case (snoc x xs)
  then show ?case by (auto simp: group_by_def push_group_def Let_def)
qed (simp add: group_by_def)

lemma group_by_in:
  "(k, ys) \<in> set (group_by key xs) \<longleftrightarrow> ys = filter (\<lambda>x. key x = k) xs \<and> ys \<noteq> []"
  using group_by_get [of key xs k] by (auto simp: bt_get_in [OF group_by_ok, symmetric] Let_def)

text \<open>The size of a grouping: every element is in exactly one group.\<close>

lemma sum_filter_lengths:
  "finite A \<Longrightarrow> key ` set xs \<subseteq> A \<Longrightarrow> (\<Sum>k \<in> A. length (filter (\<lambda>x. key x = k) xs)) = length xs"
proof (induction xs)
  case (Cons x xs)
  have "(\<Sum>k \<in> A. length (filter (\<lambda>y. key y = k) (x # xs))) =
      (\<Sum>k \<in> A. (if key x = k then 1 else 0) + length (filter (\<lambda>y. key y = k) xs))"
    by (rule sum.cong) auto
  also have "\<dots> = 1 + length xs" using Cons by (simp add: sum.distrib)
  finally show ?case by simp
qed simp

lemma group_by_keys: "set (bt_keys (group_by key xs)) = key ` set xs"
proof -
  have "k \<in> set (bt_keys (group_by key xs)) \<longleftrightarrow> k \<in> key ` set xs" for k
    unfolding bt_get_keys [symmetric] group_by_get by (auto simp: Let_def filter_empty_conv)
  then show ?thesis by blast
qed

lemma group_by_sum:
  "sum_list (map (\<lambda>(k, ys). h k ys) (group_by key xs)) = (\<Sum>k \<in> key ` set xs. h k (filter (\<lambda>x. key x = k) xs))"
proof -
  have "map (\<lambda>(k, ys). h k ys) (group_by key xs) =
      map (\<lambda>k. h k (filter (\<lambda>x. key x = k) xs)) (bt_keys (group_by key xs))"
    unfolding bt_keys_def map_map by (rule map_cong [OF refl]) (auto simp: group_by_in)
  then show ?thesis
    using sum_list_distinct_conv_sum_set [OF bt_keys_distinct [OF group_by_ok]] by (simp add: group_by_keys)
qed

lemma group_by_sizes:
  "sum_list (map (\<lambda>(k, ys). length ys - 1) (group_by key xs)) + card (key ` set xs) = length xs"
proof -
  let ?n = "\<lambda>k. length (filter (\<lambda>x. key x = k) xs)"
  have "(\<Sum>k \<in> key ` set xs. ?n k) = (\<Sum>k \<in> key ` set xs. (?n k - 1) + 1)"
  proof (rule sum.cong [OF refl])
    fix k assume "k \<in> key ` set xs"
    then have "filter (\<lambda>x. key x = k) xs \<noteq> []" by (auto simp: filter_empty_conv)
    then show "?n k = (?n k - 1) + 1" by (cases "filter (\<lambda>x. key x = k) xs") auto
  qed
  also have "\<dots> = (\<Sum>k \<in> key ` set xs. ?n k - 1) + card (key ` set xs)"
    unfolding sum.distrib by simp
  finally show ?thesis using sum_filter_lengths [of "key ` set xs" key xs] by (simp add: group_by_sum)
qed

end
