(* ===== verification/Graph_Projection.thy ===== *)
theory Graph_Projection
  imports Containers
begin

text \<open>
  The conversion of a temporal view into a graph, \<open>src/src/graph_projection.rs\<close>. The graph library
  \<open>weavatrix_graph\<close> is outside the repository: the functions of it that the code calls are the
  fields of a \<open>graph_api\<close>, an argument of every definition, and nothing is assumed about them.
\<close>

section \<open>The interface of the graph library\<close>

datatype graph_level = ExactConfidence | HighConfidence | MediumConfidence | LowConfidence

text \<open>The values the code passes to \<open>with_attribute\<close>.\<close>

datatype attribute_value =
    StringValue string
  | I64Value i64
  | U64Value u64
  | ListValue "attribute_value list"

record ('kind, 'node, 'node_id, 'ev, 'prov, 'ekind, 'edge, 'graph) graph_api =
  ga_node_kind :: "string \<Rightarrow> ('kind, string) result"
  ga_node_new :: "string \<Rightarrow> string \<Rightarrow> 'kind \<Rightarrow> ('node, string) result"
  ga_node_attribute :: "'node \<Rightarrow> string \<Rightarrow> attribute_value \<Rightarrow> 'node"
  ga_node_id :: "'node \<Rightarrow> 'node_id"
  ga_evidence_kind :: "string \<Rightarrow> ('ev, string) result"
  ga_provenance_new :: "string \<Rightarrow> 'ev \<Rightarrow> graph_level \<Rightarrow> ('prov, string) result"
  ga_provenance_detail :: "'prov \<Rightarrow> string \<Rightarrow> 'prov"
  ga_edge_kind :: "string \<Rightarrow> ('ekind, string) result"
  ga_edge_new :: "'node_id \<Rightarrow> 'node_id \<Rightarrow> 'ekind \<Rightarrow> 'prov \<Rightarrow> 'edge"
  ga_edge_attribute :: "'edge \<Rightarrow> string \<Rightarrow> attribute_value \<Rightarrow> 'edge"
  ga_try_from_sorted_nodes :: "'node list \<Rightarrow> 'edge list \<Rightarrow> ('graph, string) result"

text \<open>\<open>From<GraphError> for MemoryError\<close>, applied by the question-mark operator.\<close>

fun from_graph_error :: "('a, string) result \<Rightarrow> 'a fallible" where
  "from_graph_error (Ok a) = Ok a"
| "from_graph_error (Err message) = Err (Fault (GraphError message))"

lemma from_graph_error_Ok [result_simps]: "from_graph_error r = Ok a \<longleftrightarrow> r = Ok a"
  by (cases r) auto

section \<open>Nodes\<close>

definition graph_node ::
  "('kind, 'node, 'node_id, 'ev, 'prov, 'ekind, 'edge, 'graph) graph_api \<Rightarrow> memory_node \<Rightarrow> 'node fallible"
where
  "graph_node api n =
    and_then (from_graph_error (ga_node_kind api (mn_kind n))) (\<lambda>kind.
    and_then (from_graph_error (ga_node_new api (as_str (mn_id n)) (mn_label n) kind)) (\<lambda>node.
    let node = (case mn_repository n of None \<Rightarrow> node
                | Some r \<Rightarrow> ga_node_attribute api node ''memory.repository'' (StringValue r));
        node = (case mn_branch n of None \<Rightarrow> node
                | Some b \<Rightarrow> ga_node_attribute api node ''memory.branch'' (StringValue b))
    in Ok (foldl (\<lambda>node (key, v). ga_node_attribute api node (''memory.'' @ key) (StringValue v))
             node (mn_attributes n))))"

definition push_node ::
  "('kind, 'node, 'node_id, 'ev, 'prov, 'ekind, 'edge, 'graph) graph_api \<Rightarrow>
   (entity_id, 'node_id) btree_map \<times> 'node list \<Rightarrow> memory_node \<Rightarrow>
   ((entity_id, 'node_id) btree_map \<times> 'node list) fallible"
where
  "push_node api acc n =
    and_then (graph_node api n) (\<lambda>node.
      Ok (bt_insert (fst acc) (mn_id n) (ga_node_id api node), snd acc @ [node]))"

section \<open>Edges\<close>

definition endpoint :: "(entity_id, 'node_id) btree_map \<Rightarrow> entity_id \<Rightarrow> 'node_id fallible" where
  "endpoint ids i = ok_or (bt_get ids i) (Fault (MissingEntity (as_str i)))"

definition graph_confidence :: "confidence \<Rightarrow> graph_level" where
  "graph_confidence c =
    (let v = basis_points c
     in if 9500 \<le> v \<and> v \<le> 10000 then ExactConfidence
        else if 8000 \<le> v \<and> v \<le> 9499 then HighConfidence
        else if 5000 \<le> v \<and> v \<le> 7999 then MediumConfidence
        else LowConfidence)"

definition evidence_text :: "evidence \<Rightarrow> attribute_value" where
  "evidence_text e = StringValue (ev_kind e @ '':'' @ ev_source e @ '':'' @
     (case ev_locator e of None \<Rightarrow> [] | Some l \<Rightarrow> l))"

definition first_evidence :: "memory_fact \<Rightarrow> evidence fallible" where
  "first_evidence f = expect ''index out of bounds'' (first_of (mf_evidence f))"

definition graph_edge ::
  "('kind, 'node, 'node_id, 'ev, 'prov, 'ekind, 'edge, 'graph) graph_api \<Rightarrow>
   (entity_id, 'node_id) btree_map \<Rightarrow> memory_fact \<Rightarrow> 'edge fallible"
where
  "graph_edge api ids f =
    and_then (endpoint ids (mf_source f)) (\<lambda>source.
    and_then (endpoint ids (mf_target f)) (\<lambda>target.
    and_then (first_evidence f) (\<lambda>primary.
    and_then (from_graph_error (ga_evidence_kind api (ev_kind primary))) (\<lambda>ek.
    and_then (from_graph_error (ga_provenance_new api (ev_source primary) ek (graph_confidence (mf_confidence f)))) (\<lambda>prov.
    let prov = ga_provenance_detail api prov
                 (case ev_locator primary of Some l \<Rightarrow> l | None \<Rightarrow> as_str (mf_id f));
        evidence = map evidence_text (mf_evidence f)
    in and_then (from_graph_error (ga_edge_kind api (mf_relation f))) (\<lambda>kind.
    let edge = ga_edge_new api source target kind prov;
        edge = ga_edge_attribute api edge ''memory.fact_id'' (StringValue (as_str (mf_id f)));
        edge = ga_edge_attribute api edge ''memory.valid_from'' (I64Value (as_unix_micros (mf_valid_from f)));
        edge = ga_edge_attribute api edge ''memory.recorded_at'' (I64Value (as_unix_micros (mf_recorded_at f)));
        edge = ga_edge_attribute api edge ''memory.confidence_bps'' (U64Value (ucast (basis_points (mf_confidence f))));
        edge = ga_edge_attribute api edge ''memory.evidence'' (ListValue evidence);
        edge = (case mf_valid_until f of None \<Rightarrow> edge
                | Some until \<Rightarrow> ga_edge_attribute api edge ''memory.valid_until'' (I64Value (as_unix_micros until)));
        edge = (case mf_supersedes f of None \<Rightarrow> edge
                | Some prior \<Rightarrow> ga_edge_attribute api edge ''memory.supersedes'' (StringValue (as_str prior)))
    in Ok edge))))))"

definition project_graph ::
  "('kind, 'node, 'node_id, 'ev, 'prov, 'ekind, 'edge, 'graph) graph_api \<Rightarrow> memory_view \<Rightarrow> 'graph fallible"
where
  "project_graph api view =
    and_then (try_fold (push_node api) ([], []) (view_nodes view)) (\<lambda>(ids, nodes).
    and_then (try_map (graph_edge api ids) (view_facts view)) (\<lambda>edges.
      from_graph_error (ga_try_from_sorted_nodes api nodes edges)))"

section \<open>When the conversion succeeds\<close>

lemma push_node_Ok: "push_node api acc n = Ok acc' \<longleftrightarrow>
    (\<exists>node. graph_node api n = Ok node \<and> acc' = (bt_insert (fst acc) (mn_id n) (ga_node_id api node), snd acc @ [node]))"
  by (auto simp: push_node_def result_simps)

lemma push_node_fold:
  "try_fold (push_node api) (ids, nodes) ns = Ok (ids', nodes') \<Longrightarrow>
    (\<exists>added. nodes' = nodes @ added \<and> try_map (graph_node api) ns = Ok added) \<and>
    set (bt_keys ids') = set (bt_keys ids) \<union> mn_id ` set ns"
proof (induction ns arbitrary: ids nodes)
  case (Cons n ns)
  then obtain node where node: "graph_node api n = Ok node"
    and rest: "try_fold (push_node api) (bt_insert ids (mn_id n) (ga_node_id api node), nodes @ [node]) ns = Ok (ids', nodes')"
    by (auto simp: push_node_Ok and_then_Ok)
  from Cons.IH [OF rest] node show ?case by auto
qed simp

lemma push_node_fold_Err:
  "try_fold (push_node api) acc ns = Err e \<Longrightarrow> \<exists>n \<in> set ns. graph_node api n = Err e"
  by (induction ns arbitrary: acc) (auto simp: push_node_def result_simps)

definition graph_failure :: "failure \<Rightarrow> bool" where
  "graph_failure e \<longleftrightarrow> (\<exists>message. e = Fault (GraphError message))"

lemma from_graph_error_Err: "from_graph_error r = Err e \<Longrightarrow> graph_failure e"
  by (cases r) (auto simp: graph_failure_def)

lemma graph_node_Err: "graph_node api n = Err e \<Longrightarrow> graph_failure e"
  by (auto simp: graph_node_def result_simps Let_def dest: from_graph_error_Err)

lemma graph_edge_Err:
  assumes "graph_edge api ids f = Err e"
    and "mf_source f \<in> set (bt_keys ids)" "mf_target f \<in> set (bt_keys ids)" "mf_evidence f \<noteq> []"
  shows "graph_failure e"
proof -
  obtain s t where "bt_get ids (mf_source f) = Some s" "bt_get ids (mf_target f) = Some t"
    using assms(2,3) bt_get_keys by metis
  moreover obtain primary where "first_evidence f = Ok primary"
    using assms(4) by (cases "mf_evidence f") (auto simp: first_evidence_def first_of_def)
  ultimately show ?thesis
    using assms(1) by (auto simp: graph_edge_def endpoint_def Let_def result_simps dest: from_graph_error_Err)
qed

text \<open>A view is closed when every fact has evidence and both its endpoints are nodes of the view.\<close>

definition view_closed :: "memory_view \<Rightarrow> bool" where
  "view_closed view \<longleftrightarrow> (\<forall>f \<in> set (view_facts view). mf_evidence f \<noteq> [] \<and>
     mf_source f \<in> mn_id ` set (view_nodes view) \<and> mf_target f \<in> mn_id ` set (view_nodes view))"

lemma project_graph_Err:
  assumes "view_closed view" "project_graph api view = Err e"
  shows "graph_failure e"
proof (cases "try_fold (push_node api) ([], []) (view_nodes view)")
  case (Err x)
  then have "e = x" using assms(2) by (simp add: project_graph_def)
  with push_node_fold_Err [OF Err] show ?thesis by (auto dest: graph_node_Err)
next
  case (Ok acc)
  obtain ids nodes where acc: "acc = (ids, nodes)" by force
  have keys: "set (bt_keys ids) = mn_id ` set (view_nodes view)"
    using push_node_fold [OF Ok [unfolded acc]] by simp
  have edge: "graph_failure x" if "try_map (graph_edge api ids) (view_facts view) = Err x" for x
  proof -
    obtain f where "f \<in> set (view_facts view)" "graph_edge api ids f = Err x"
      using try_map_Err \<open>try_map (graph_edge api ids) (view_facts view) = Err x\<close> by metis
    with assms(1) show ?thesis by (auto simp: view_closed_def keys intro: graph_edge_Err)
  qed
  show ?thesis
    using assms(2) unfolding project_graph_def Ok acc
    by (auto simp: result_simps dest: edge from_graph_error_Err)
qed

lemma project_graph_Ok:
  assumes "project_graph api view = Ok g"
  shows "\<exists>ids nodes edges. try_map (graph_node api) (view_nodes view) = Ok nodes \<and>
    set (bt_keys ids) = mn_id ` set (view_nodes view) \<and>
    try_map (graph_edge api ids) (view_facts view) = Ok edges \<and>
    ga_try_from_sorted_nodes api nodes edges = Ok g"
proof -
  from assms obtain ids nodes edges where
    *: "try_fold (push_node api) ([], []) (view_nodes view) = Ok (ids, nodes)"
      "try_map (graph_edge api ids) (view_facts view) = Ok edges" "ga_try_from_sorted_nodes api nodes edges = Ok g"
    by (auto simp: project_graph_def result_simps)
  with push_node_fold [OF *(1)] show ?thesis by auto
qed

lemma graph_edge_Ok_endpoints:
  assumes "graph_edge api ids f = Ok e"
  shows "mf_source f \<in> set (bt_keys ids) \<and> mf_target f \<in> set (bt_keys ids) \<and> mf_evidence f \<noteq> []"
proof -
  from assms obtain s t primary where "bt_get ids (mf_source f) = Some s" "bt_get ids (mf_target f) = Some t"
    "first_evidence f = Ok primary"
    by (auto simp: graph_edge_def endpoint_def result_simps Let_def)
  then show ?thesis using bt_get_keys
    by (fastforce simp: first_evidence_def expect_def first_of_def result_simps)
qed

lemma project_graph_closed:
  assumes "project_graph api view = Ok g"
  shows "view_closed view"
proof -
  obtain ids nodes edges where keys: "set (bt_keys ids) = mn_id ` set (view_nodes view)"
    and edges: "try_map (graph_edge api ids) (view_facts view) = Ok edges"
    using project_graph_Ok [OF assms] by blast
  have "mf_evidence f \<noteq> [] \<and> mf_source f \<in> set (bt_keys ids) \<and> mf_target f \<in> set (bt_keys ids)"
    if f: "f \<in> set (view_facts view)" for f
  proof -
    obtain e where e: "graph_edge api ids f = Ok e"
      using try_map_in [OF edges f] by blast
    from graph_edge_Ok_endpoints [OF e] show ?thesis by simp
  qed
  then show ?thesis by (simp add: view_closed_def keys)
qed

text \<open>
  C23: a graph is only built from a closed view, with one graph node per memory node and one edge per
  fact, in the view's order; and for a closed view the conversion never panics and never reports a
  missing entity: it can only fail with an error of the graph library.
\<close>

theorem graph_needs_closed_view:
  "(\<forall>g. project_graph api view = Ok g \<longrightarrow> view_closed view \<and>
      (\<exists>nodes edges. try_map (graph_node api) (view_nodes view) = Ok nodes \<and>
         length nodes = length (view_nodes view) \<and> length edges = length (view_facts view) \<and>
         ga_try_from_sorted_nodes api nodes edges = Ok g)) \<and>
   (view_closed view \<longrightarrow>
      (\<exists>g. project_graph api view = Ok g) \<or> (\<exists>message. project_graph api view = Err (Fault (GraphError message))))"
proof -
  have ok: "\<exists>nodes edges. try_map (graph_node api) (view_nodes view) = Ok nodes \<and>
      length nodes = length (view_nodes view) \<and> length edges = length (view_facts view) \<and>
      ga_try_from_sorted_nodes api nodes edges = Ok g"
    if g: "project_graph api view = Ok g" for g
    using project_graph_Ok [OF g] try_map_length by metis
  have err: "(\<exists>g. project_graph api view = Ok g) \<or>
      (\<exists>message. project_graph api view = Err (Fault (GraphError message)))" if "view_closed view"
  proof (cases "project_graph api view")
    case (Err e)
    with project_graph_Err [OF that Err] show ?thesis by (auto simp: graph_failure_def)
  qed simp
  from ok err project_graph_closed [of api view] show ?thesis by blast
qed

text \<open>The temporal views of a consistent projection are closed, so that their graphs exist.\<close>

lemma view_ref_closed:
  assumes "proj_inv p"
  shows "view_closed (view_ref p clock)"
proof -
  have inv: "nodes_ok p" "facts_ok p" using assms by (auto simp: proj_inv_def)
  have "i \<in> mn_id ` set (visible_nodes p (known_at clock))"
    if "i \<in> set (node_ids p)" "visible_node p i (known_at clock) \<noteq> None" for i
    using that visible_node_iff [OF inv(1)] by blast
  moreover have "mf_evidence f \<noteq> [] \<and> mf_source f \<in> set (node_ids p) \<and> mf_target f \<in> set (node_ids p)"
    if "f \<in> set (mp_facts p)" for f
    using that inv(2) unfolding facts_ok_def fact_ok_def by blast
  ultimately show ?thesis
    unfolding view_closed_def view_ref_spec [OF assms] by simp
qed

lemma view_nodes_distinct:
  assumes "proj_inv p"
  shows "distinct (map mn_id (view_nodes (view_ref p clock)))"
proof -
  have nodes: "nodes_ok p" using assms by (simp add: proj_inv_def)
  have *: "distinct (map mn_id (List.map_filter (\<lambda>h. visible_revision h t) hs)) \<and>
      set (map mn_id (List.map_filter (\<lambda>h. visible_revision h t) hs)) \<subseteq> history_id ` set hs"
    if "distinct (map history_id hs)" "\<forall>h \<in> set hs. history_ok h" for hs t
    using that
  proof (induction hs)
    case (Cons h hs)
    have rec: "List.map_filter f (h # hs) = (case f h of None \<Rightarrow> List.map_filter f hs | Some n \<Rightarrow> n # List.map_filter f hs)"
      for f :: "node_history \<Rightarrow> memory_node option" by (simp add: List.map_filter_def split: option.split)
    show ?case
    proof (cases "visible_revision h t")
      case None
      with Cons show ?thesis by (simp add: rec) blast
    next
      case (Some n)
      then have "mn_id n = history_id h" using visible_revision_id [of h t n] Cons.prems by simp
      with Some Cons show ?thesis by (simp add: rec) blast
    qed
  qed (simp add: List.map_filter_def)
  have "distinct (map history_id (mp_nodes p))" using node_ids_distinct [OF nodes] by (simp add: node_ids_def)
  then show ?thesis using * nodes by (simp add: view_ref_spec [OF assms] visible_nodes_def nodes_ok_def)
qed

lemma view_facts_distinct:
  assumes "proj_inv p"
  shows "distinct (map mf_id (view_facts (view_ref p clock)))"
  using fact_ids_distinct [of p] assms distinct_map_filter [of mf_id "mp_facts p"]
  by (simp add: view_ref_spec [OF assms] proj_inv_def fact_ids_def)

section \<open>A small graph\<close>

abbreviation demo_memory :: memory_projection where
  "demo_memory \<equiv> demo_projection [(TextId ''f'', demo_first)] 3"

definition demo_api :: "(string, string, string, string, string, string, string, string list \<times> string list) graph_api" where
  "demo_api = \<lparr> ga_node_kind = Ok, ga_node_new = \<lambda>i label kind. Ok i, ga_node_attribute = \<lambda>n k v. n, ga_node_id = \<lambda>n. n,
     ga_evidence_kind = Ok, ga_provenance_new = \<lambda>source ek c. Ok source, ga_provenance_detail = \<lambda>p d. p,
     ga_edge_kind = Ok, ga_edge_new = \<lambda>a b k p. k, ga_edge_attribute = \<lambda>e k v. e,
     ga_try_from_sorted_nodes = \<lambda>ns es. Ok (ns, es) \<rparr>"

lemma demo_graph:
  "project_graph demo_api \<lparr> view_nodes = [demo_node ''a'', demo_node ''b''], view_facts = [demo_fact] \<rparr> =
    Ok ([''a'', ''b''], [''calls''])"
  by (simp add: project_graph_def push_node_def graph_node_def graph_edge_def endpoint_def first_evidence_def expect_def
      first_of_def demo_api_def bt_get_def Let_def demo_node_def demo_fact_def demo_evidence_def)

theorem graph_needs_closed_view_witness:
  "view_closed \<lparr> view_nodes = [demo_node ''a'', demo_node ''b''], view_facts = [demo_fact] \<rparr> \<and>
   \<not> view_closed \<lparr> view_nodes = [demo_node ''a''], view_facts = [demo_fact] \<rparr>"
proof -
  have "view_closed \<lparr> view_nodes = [demo_node ''a'', demo_node ''b''], view_facts = [demo_fact] \<rparr>"
    using graph_needs_closed_view [of demo_api "\<lparr> view_nodes = [demo_node ''a'', demo_node ''b''], view_facts = [demo_fact] \<rparr>"]
      demo_graph by blast
  moreover have "\<not> view_closed \<lparr> view_nodes = [demo_node ''a''], view_facts = [demo_fact] \<rparr>"
    by (simp add: view_closed_def demo_node_def demo_fact_def)
  ultimately show ?thesis by blast
qed

lemma demo_view:
  "view_ref demo_memory \<lparr> valid_at = Timestamp 2, known_at = Timestamp 6 \<rparr> =
    \<lparr> view_nodes = [demo_node ''a'', demo_node ''b''], view_facts = [demo_fact] \<rparr>"
  by (simp add: view_ref_def demo_projection_def demo_visible fact_is_active_def bt_get_def demo_first_def
      less_eq_timestamp_def less_timestamp_def List.map_filter_def Let_def)

end
