(* ===== verification/Context.thy ===== *)
theory Context
  imports Graph_Projection
begin

text \<open>
  Context compilation, \<open>src/src/context\<close>: requests and receipts (\<open>model.rs\<close>), scope filters
  (\<open>scope.rs\<close>), token estimation (\<open>token.rs\<close>) and the compiler (\<open>compiler.rs\<close>): a breadth-first
  search over the active facts around the seed nodes, followed by a greedy selection of facts under
  a token budget. A panic of the code is a value (\<open>Containers\<close>). Token counts are natural numbers:
  the source adds \<open>usize\<close> values without a check, which is exact as long as no sum reaches
  \<open>2 ^ 64\<close>; the one addition that saturates is written out.
\<close>

section \<open>Requests and receipts (\<open>model.rs\<close>)\<close>

record context_request =
  cr_seeds :: "entity_id list"
  cr_valid_at :: timestamp
  cr_known_at :: timestamp
  cr_token_budget :: usize
  cr_max_depth :: usize
  cr_relations :: "string btree_set"
  cr_repositories :: "string btree_set"
  cr_branches :: "string btree_set"

definition context_request_new ::
  "entity_id list \<Rightarrow> timestamp \<Rightarrow> timestamp \<Rightarrow> usize \<Rightarrow> context_request memory_result" where
  "context_request_new seeds valid known budget =
    (if seeds = [] then Err (InvalidValue ''context.seeds'' ''at least one seed is required'')
     else if budget = 0 then Err (InvalidValue ''context.token_budget'' ''must be greater than zero'')
     else Ok \<lparr> cr_seeds = seeds, cr_valid_at = valid, cr_known_at = known, cr_token_budget = budget,
               cr_max_depth = 2, cr_relations = [], cr_repositories = [], cr_branches = [] \<rparr>)"

definition for_retrieval :: "timestamp \<Rightarrow> timestamp \<Rightarrow> usize \<Rightarrow> context_request memory_result" where
  "for_retrieval valid known budget =
    (if budget = 0 then Err (InvalidValue ''context.token_budget'' ''must be greater than zero'')
     else Ok \<lparr> cr_seeds = [], cr_valid_at = valid, cr_known_at = known, cr_token_budget = budget,
               cr_max_depth = 2, cr_relations = [], cr_repositories = [], cr_branches = [] \<rparr>)"

definition with_max_depth :: "context_request \<Rightarrow> usize \<Rightarrow> context_request" where
  "with_max_depth r depth = r\<lparr>cr_max_depth := depth\<rparr>"

definition include_relation :: "context_request \<Rightarrow> string \<Rightarrow> context_request" where
  "include_relation r relation = r\<lparr>cr_relations := bs_insert (cr_relations r) relation\<rparr>"

definition request_in_repository :: "context_request \<Rightarrow> string \<Rightarrow> context_request" where
  "request_in_repository r repository = r\<lparr>cr_repositories := bs_insert (cr_repositories r) repository\<rparr>"

definition request_on_branch :: "context_request \<Rightarrow> string \<Rightarrow> context_request" where
  "request_on_branch r branch = r\<lparr>cr_branches := bs_insert (cr_branches r) branch\<rparr>"

record context_receipt =
  rc_valid_at :: timestamp
  rc_known_at :: timestamp
  rc_source_position :: "u64 option"
  rc_estimator :: string
  rc_token_budget :: usize
  rc_estimated_tokens :: usize
  rc_examined_facts :: usize
  rc_selected_facts :: usize
  rc_omitted_by_budget :: usize
  rc_excluded_by_scope :: usize

record 'graph context_bundle =
  cb_view :: memory_view
  cb_graph :: 'graph
  cb_receipt :: context_receipt

section \<open>Scope (\<open>scope.rs\<close>)\<close>

definition node_allowed :: "context_request \<Rightarrow> memory_node \<Rightarrow> bool" where
  "node_allowed r n \<longleftrightarrow>
    (cr_repositories r = [] \<or> (case mn_repository n of None \<Rightarrow> False | Some v \<Rightarrow> bs_contains (cr_repositories r) v)) \<and>
    (cr_branches r = [] \<or> (case mn_branch n of None \<Rightarrow> False | Some v \<Rightarrow> bs_contains (cr_branches r) v))"

definition relation_allowed :: "context_request \<Rightarrow> string \<Rightarrow> bool" where
  "relation_allowed r relation \<longleftrightarrow> cr_relations r = [] \<or> bs_contains (cr_relations r) relation"

section \<open>Token estimation (\<open>token.rs\<close>)\<close>

record token_estimator =
  te_estimate :: "string \<Rightarrow> usize"
  te_name :: string

record bytes_token_estimator =
  bytes_per_token :: usize

definition bytes_token_estimator_new :: "usize \<Rightarrow> bytes_token_estimator memory_result" where
  "bytes_token_estimator_new n =
    (if n = 0 then Err (InvalidValue ''bytes_per_token'' ''must be greater than zero'')
     else Ok \<lparr> bytes_per_token = n \<rparr>)"

definition bytes_token_estimator_default :: bytes_token_estimator where
  "bytes_token_estimator_default = \<lparr> bytes_per_token = 4 \<rparr>"

definition bytes_estimator :: "bytes_token_estimator \<Rightarrow> token_estimator" where
  "bytes_estimator b =
    \<lparr> te_estimate = \<lambda>s. max (div_ceil (length s) (bytes_per_token b)) 1, te_name = ''utf8_bytes'' \<rparr>"

definition option_list :: "'a option \<Rightarrow> 'a list" where
  "option_list x = (case x of None \<Rightarrow> [] | Some a \<Rightarrow> [a])"

definition node_tokens :: "token_estimator \<Rightarrow> memory_node \<Rightarrow> usize" where
  "node_tokens est n =
    te_estimate est (as_str (mn_id n)) + te_estimate est (mn_kind n) + te_estimate est (mn_label n)
    + sum_list (map (te_estimate est) (option_list (mn_repository n) @ option_list (mn_branch n)))
    + sum_list (map (\<lambda>(key, v). te_estimate est key + te_estimate est v) (mn_attributes n))
    + 6"

definition fact_tokens :: "token_estimator \<Rightarrow> memory_fact \<Rightarrow> usize" where
  "fact_tokens est f =
    te_estimate est (as_str (mf_id f)) + te_estimate est (as_str (mf_source f))
    + te_estimate est (mf_relation f) + te_estimate est (as_str (mf_target f))
    + sum_list (map (\<lambda>item. te_estimate est (ev_kind item) + te_estimate est (ev_source item)
        + sum_list (map (te_estimate est) (option_list (ev_locator item) @ option_list (ev_digest item))))
        (mf_evidence f))
    + 16"

section \<open>Neighbourhood search (\<open>compiler.rs\<close>)\<close>

text \<open>The local variables of \<open>neighborhood\<close>.\<close>

record search =
  sr_nodes :: "(entity_id, memory_node) btree_map"
  sr_facts :: "(fact_id, memory_fact) btree_map"
  sr_distances :: "(entity_id, usize) btree_map"
  sr_queue :: "entity_id list"
  sr_excluded :: "fact_id btree_set"

definition scoped_node :: "memory_projection \<Rightarrow> context_request \<Rightarrow> entity_id \<Rightarrow> memory_node fallible" where
  "scoped_node p r i =
    ok_or (case visible_node p i (cr_known_at r) of
             None \<Rightarrow> None
           | Some n \<Rightarrow> if node_allowed r n then Some n else None)
      (Fault (MissingEntity (as_str i)))"

definition seed_step :: "memory_projection \<Rightarrow> context_request \<Rightarrow> search \<Rightarrow> entity_id \<Rightarrow> search fallible" where
  "seed_step p r s seed =
    and_then (scoped_node p r seed) (\<lambda>n.
      Ok (s\<lparr> sr_nodes := bt_insert (sr_nodes s) seed n,
             sr_distances := bt_insert (sr_distances s) seed 0,
             sr_queue := sr_queue s @ [seed] \<rparr>))"

definition clock_of :: "context_request \<Rightarrow> projection_clock" where
  "clock_of r = \<lparr> valid_at = cr_valid_at r, known_at = cr_known_at r \<rparr>"

definition other_end :: "memory_fact \<Rightarrow> entity_id \<Rightarrow> entity_id" where
  "other_end f current = (if mf_source f = current then mf_target f else mf_source f)"

text \<open>One iteration of the loop over the incident facts of \<open>current\<close>.\<close>

definition visit_fact ::
  "memory_projection \<Rightarrow> context_request \<Rightarrow> entity_id \<Rightarrow> usize \<Rightarrow> search \<Rightarrow> fact_id \<Rightarrow> search fallible" where
  "visit_fact p r current depth s fact_id =
    and_then (expect ''projection index is valid'' (mp_fact p fact_id)) (\<lambda>f.
      if \<not> fact_is_active p f (clock_of r) \<or> \<not> relation_allowed r (mf_relation f) then Ok s
      else let other = other_end f current in
        case visible_node p other (cr_known_at r) of
          None \<Rightarrow> Ok s
        | Some other_node \<Rightarrow>
            if \<not> node_allowed r other_node
            then Ok (s\<lparr> sr_excluded := bs_insert (sr_excluded s) (mf_id f) \<rparr>)
            else if bt_get (sr_distances s) other = None then
              if depth \<ge> cr_max_depth r then Ok s
              else Ok (s\<lparr> sr_distances := bt_insert (sr_distances s) other (depth + 1),
                          sr_nodes := bt_insert (sr_nodes s) other other_node,
                          sr_queue := sr_queue s @ [other],
                          sr_facts := bt_insert (sr_facts s) (mf_id f) f \<rparr>)
            else Ok (s\<lparr> sr_facts := bt_insert (sr_facts s) (mf_id f) f \<rparr>))"

text \<open>The body of the \<open>while let\<close> loop, for a queue whose front has been popped.\<close>

definition expand :: "memory_projection \<Rightarrow> context_request \<Rightarrow> entity_id \<Rightarrow> search \<Rightarrow> search fallible" where
  "expand p r current s =
    and_then (bt_index (sr_distances s) current) (\<lambda>depth.
      try_fold (visit_fact p r current depth) s (incident_fact_ids p current))"

text \<open>
  The loop ends: an iteration removes one identifier from the queue, and an identifier enters the
  queue only together with its distance, which it did not have, for a node the index knows.
\<close>

definition unexplored :: "memory_projection \<Rightarrow> search \<Rightarrow> entity_id set" where
  "unexplored p s = {i. ix_get (mp_node_lookup p) i \<noteq> None \<and> bt_get (sr_distances s) i = None}"

definition remaining :: "memory_projection \<Rightarrow> search \<Rightarrow> nat" where
  "remaining p s = card (unexplored p s) + length (sr_queue s)"

lemma finite_indexed: "finite {i. ix_get ix i \<noteq> None}"
proof -
  let ?E = "\<Union>h. case ix_entries ix h of None \<Rightarrow> {} | Some (c, _) \<Rightarrow> {c}"
  let ?C = "\<Union>h. case ix_collisions ix h of None \<Rightarrow> {} | Some b \<Rightarrow> fst ` set b"
  have "finite ?E" "finite ?C" by (auto split: option.splits)
  moreover have "{i. ix_get ix i \<noteq> None} \<subseteq> ?E \<union> ?C"
  proof
    fix i assume "i \<in> {i. ix_get ix i \<noteq> None}"
    then have look: "ix_get_hashed ix i (ix_hash ix i) \<noteq> None" by (simp add: ix_get_def)
    show "i \<in> ?E \<union> ?C"
    proof (cases "\<exists>n. ix_entries ix (ix_hash ix i) = Some (i, n)")
      case True
      then show ?thesis by (intro UnI1 UN_I [of "ix_hash ix i"]) auto
    next
      case False
      with look obtain b where b: "ix_collisions ix (ix_hash ix i) = Some b"
        and found: "find (\<lambda>(c, _). c = i) b \<noteq> None"
        by (auto simp: ix_get_hashed_def bind_eq_Some_conv split: option.splits prod.splits if_splits)
      from found obtain c n where "find (\<lambda>(c, _). c = i) b = Some (c, n)" by auto
      then have "(c, n) \<in> set b" "c = i" using find_in_set [of "\<lambda>(c, _). c = i" b "(c, n)"] by auto
      then have "i \<in> fst ` set b" by force
      with b show ?thesis by (intro UnI2 UN_I [of "ix_hash ix i"]) auto
    qed
  qed
  ultimately show ?thesis using finite_subset by blast
qed

lemma finite_unexplored [simp]: "finite (unexplored p s)"
  by (rule finite_subset [OF _ finite_indexed [of "mp_node_lookup p"]]) (auto simp: unexplored_def)

definition usable :: "memory_projection \<Rightarrow> context_request \<Rightarrow> memory_fact \<Rightarrow> bool" where
  "usable p r f \<longleftrightarrow> fact_is_active p f (clock_of r) \<and> relation_allowed r (mf_relation f)"

definition in_scope :: "memory_projection \<Rightarrow> context_request \<Rightarrow> entity_id \<Rightarrow> memory_node \<Rightarrow> bool" where
  "in_scope p r i n \<longleftrightarrow> visible_node p i (cr_known_at r) = Some n \<and> node_allowed r n"

definition barred :: "memory_projection \<Rightarrow> context_request \<Rightarrow> entity_id \<Rightarrow> bool" where
  "barred p r i \<longleftrightarrow> (\<exists>n. visible_node p i (cr_known_at r) = Some n \<and> \<not> node_allowed r n)"

text \<open>The branches of one iteration, by what happens to the fact.\<close>

lemma visit_fact_cases:
  assumes "visit_fact p r current depth s i = Ok s'"
  obtains (skip) f where "mp_fact p i = Some f" "s' = s"
      "usable p r f \<Longrightarrow> \<not> barred p r (other_end f current)"
      "\<And>n. usable p r f \<Longrightarrow> in_scope p r (other_end f current) n \<Longrightarrow>
        bt_get (sr_distances s) (other_end f current) = None \<and> cr_max_depth r \<le> depth"
  | (exclude) f where "mp_fact p i = Some f" "usable p r f" "barred p r (other_end f current)"
      "s' = s\<lparr> sr_excluded := bs_insert (sr_excluded s) (mf_id f) \<rparr>"
  | (discover) f n where "mp_fact p i = Some f" "usable p r f" "in_scope p r (other_end f current) n"
      "bt_get (sr_distances s) (other_end f current) = None" "depth < cr_max_depth r"
      "s' = s\<lparr> sr_distances := bt_insert (sr_distances s) (other_end f current) (depth + 1),
               sr_nodes := bt_insert (sr_nodes s) (other_end f current) n,
               sr_queue := sr_queue s @ [other_end f current],
               sr_facts := bt_insert (sr_facts s) (mf_id f) f \<rparr>"
  | (again) f n where "mp_fact p i = Some f" "usable p r f" "in_scope p r (other_end f current) n"
      "bt_get (sr_distances s) (other_end f current) \<noteq> None"
      "s' = s\<lparr> sr_facts := bt_insert (sr_facts s) (mf_id f) f \<rparr>"
proof -
  from assms obtain f where f: "mp_fact p i = Some f"
    by (auto simp: visit_fact_def and_then_Ok expect_def ok_or_Ok)
  show thesis
  proof (cases "usable p r f")
    case False
    then have "s' = s" using assms f by (auto simp: visit_fact_def usable_def)
    with False f show thesis by (intro skip) auto
  next
    case True
    show thesis
    proof (cases "visible_node p (other_end f current) (cr_known_at r)")
      case None
      then have "s' = s" using assms f by (auto simp: visit_fact_def Let_def split: if_splits)
      with None f show thesis by (intro skip) (auto simp: barred_def in_scope_def)
    next
      case (Some n)
      show thesis
      proof (cases "node_allowed r n")
        case False
        then show thesis using assms f True Some
          by (intro exclude [OF f True]) (auto simp: barred_def visit_fact_def usable_def Let_def)
      next
        case allowed: True
        then have scope: "in_scope p r (other_end f current) n" using Some by (simp add: in_scope_def)
        show thesis
        proof (cases "bt_get (sr_distances s) (other_end f current) = None")
          case new: True
          show thesis
          proof (cases "cr_max_depth r \<le> depth")
            case True
            then have "s' = s" using assms f \<open>usable p r f\<close> Some allowed new
              by (auto simp: visit_fact_def usable_def Let_def)
            with True new scope f Some allowed show thesis
              by (intro skip) (auto simp: barred_def in_scope_def)
          next
            case False
            then show thesis using assms f \<open>usable p r f\<close> Some allowed new
              by (intro discover [OF f \<open>usable p r f\<close> scope new]) (auto simp: visit_fact_def usable_def Let_def)
          qed
        next
          case False
          then show thesis using assms f \<open>usable p r f\<close> Some allowed
            by (intro again [OF f \<open>usable p r f\<close> scope]) (auto simp: visit_fact_def usable_def Let_def)
        qed
      qed
    qed
  qed
qed

lemma visit_fact_remaining:
  assumes "visit_fact p r current depth s i = Ok s'"
  shows "remaining p s' \<le> remaining p s"
  using assms
proof (cases rule: visit_fact_cases)
  case (discover f n)
  let ?o = "other_end f current"
  have "?o \<in> unexplored p s"
    using discover(3,4) by (auto simp: unexplored_def in_scope_def visible_node_def bind_eq_Some_conv)
  moreover have "unexplored p s' = unexplored p s - {?o}"
    using discover(6) by (auto simp: unexplored_def)
  ultimately have "Suc (card (unexplored p s')) = card (unexplored p s)"
    by (metis card_Suc_Diff1 finite_unexplored)
  then show ?thesis using discover(6) by (simp add: remaining_def)
qed (auto simp: remaining_def unexplored_def)

lemma visit_facts_remaining:
  "try_fold (visit_fact p r current depth) s is = Ok s' \<Longrightarrow> remaining p s' \<le> remaining p s"
  by (induction "is" arbitrary: s) (auto simp: result_simps dest: visit_fact_remaining le_trans)

lemma expand_remaining:
  "expand p r current s = Ok s' \<Longrightarrow> remaining p s' \<le> remaining p s"
  by (auto simp: expand_def result_simps dest: visit_facts_remaining)

function search_loop :: "memory_projection \<Rightarrow> context_request \<Rightarrow> search \<Rightarrow> search fallible" where
  "search_loop p r s =
    (case sr_queue s of
       [] \<Rightarrow> Ok s
     | current # rest \<Rightarrow> and_then (expand p r current (s\<lparr>sr_queue := rest\<rparr>)) (search_loop p r))"
  by pat_completeness auto

termination
proof (relation "measure (\<lambda>(p, r, s). remaining p s)")
  fix p r s current rest s'
  assume "sr_queue s = current # rest" "expand p r current (s\<lparr>sr_queue := rest\<rparr>) = Ok s'"
  then show "((p, r, s'), p, r, s) \<in> measure (\<lambda>(p, r, s). remaining p s)"
    using expand_remaining by (fastforce simp: remaining_def unexplored_def)
qed simp

declare search_loop.simps [simp del]

record neighborhood_data =
  nb_nodes :: "(entity_id, memory_node) btree_map"
  nb_facts :: "(fact_id, memory_fact) btree_map"
  nb_distances :: "(entity_id, usize) btree_map"
  nb_excluded :: usize

definition empty_search :: search where
  "empty_search = \<lparr> sr_nodes = [], sr_facts = [], sr_distances = [], sr_queue = [], sr_excluded = [] \<rparr>"

definition neighborhood :: "memory_projection \<Rightarrow> context_request \<Rightarrow> neighborhood_data fallible" where
  "neighborhood p r =
    and_then (try_fold (seed_step p r) empty_search (sort_dedup (cr_seeds r))) (\<lambda>s.
    and_then (search_loop p r s) (\<lambda>s.
      Ok \<lparr> nb_nodes = sr_nodes s,
           nb_facts = bt_retain (\<lambda>_ f. bt_get (sr_distances s) (mf_source f) \<noteq> None \<and>
                                        bt_get (sr_distances s) (mf_target f) \<noteq> None) (sr_facts s),
           nb_distances = sr_distances s,
           nb_excluded = length (sr_excluded s) \<rparr>))"

section \<open>Selection (\<open>compiler.rs\<close>)\<close>

definition seed_cost ::
  "token_estimator \<Rightarrow> (entity_id, memory_node) btree_map \<Rightarrow> entity_id btree_set \<times> usize \<Rightarrow> entity_id \<Rightarrow>
   (entity_id btree_set \<times> usize) fallible" where
  "seed_cost est nodes acc seed =
    and_then (ok_or (bt_get nodes seed) (Fault (MissingEntity (as_str seed)))) (\<lambda>n.
      Ok (bs_insert (fst acc) seed, snd acc + node_tokens est n))"

definition select_seeds ::
  "token_estimator \<Rightarrow> context_request \<Rightarrow> (entity_id, memory_node) btree_map \<Rightarrow>
   (entity_id btree_set \<times> usize) fallible" where
  "select_seeds est r nodes =
    and_then (try_fold (seed_cost est nodes) ([], 0) (sort_dedup (cr_seeds r))) (\<lambda>(selected, used).
      if used > cr_token_budget r then Err (Fault (BudgetTooSmall used (cr_token_budget r)))
      else Ok (selected, used))"

text \<open>The sort key of a candidate; a missing distance would panic.\<close>

definition candidate_key ::
  "(entity_id, usize) btree_map \<Rightarrow> memory_fact \<Rightarrow>
   ((usize \<times> confidence reverse \<times> timestamp reverse \<times> fact_id) \<times> memory_fact) fallible" where
  "candidate_key distances f =
    and_then (bt_index distances (mf_source f)) (\<lambda>a.
    and_then (bt_index distances (mf_target f)) (\<lambda>b.
      Ok ((min a b, Reverse (mf_confidence f), Reverse (mf_recorded_at f), mf_id f), f)))"

definition sorted_candidates :: "neighborhood_data \<Rightarrow> memory_fact list fallible" where
  "sorted_candidates nb =
    map_ok (\<lambda>keyed. map snd (sort_key fst keyed)) (try_map (candidate_key (nb_distances nb)) (bt_values (nb_facts nb)))"

text \<open>The local variables of the selection loop.\<close>

record selection =
  sl_selected :: "entity_id btree_set"
  sl_used :: usize
  sl_facts :: "memory_fact list"
  sl_omitted :: usize

definition saturating_add_usize :: "usize \<Rightarrow> usize \<Rightarrow> usize" where
  "saturating_add_usize a b = min (a + b) usize_max"

definition missing_nodes :: "entity_id btree_set \<Rightarrow> memory_fact \<Rightarrow> entity_id list" where
  "missing_nodes selected f = filter (\<lambda>i. \<not> bs_contains selected i) [mf_source f, mf_target f]"

definition select_fact ::
  "token_estimator \<Rightarrow> context_request \<Rightarrow> (entity_id, memory_node) btree_map \<Rightarrow> selection \<Rightarrow> memory_fact \<Rightarrow>
   selection fallible" where
  "select_fact est r nodes s f =
    (let missing = missing_nodes (sl_selected s) f
     in and_then (try_map (bt_index nodes) missing) (\<lambda>ns.
       let node_cost = sum_list (map (node_tokens est) ns);
           cost = fact_tokens est f + node_cost
       in if saturating_add_usize (sl_used s) cost > cr_token_budget r
          then Ok (s\<lparr> sl_omitted := sl_omitted s + 1 \<rparr>)
          else Ok (s\<lparr> sl_used := sl_used s + cost,
                      sl_selected := foldl bs_insert (sl_selected s) missing,
                      sl_facts := sl_facts s @ [f] \<rparr>)))"

definition compile ::
  "('kind, 'node, 'node_id, 'ev, 'prov, 'ekind, 'edge, 'graph) graph_api \<Rightarrow> token_estimator \<Rightarrow>
   memory_projection \<Rightarrow> context_request \<Rightarrow> 'graph context_bundle fallible"
where
  "compile api est p r =
    (if cr_seeds r = []
     then Err (Fault (InvalidValue ''context.seeds'' ''at least one seed is required''))
     else
       and_then (neighborhood p r) (\<lambda>nb.
       and_then (select_seeds est r (nb_nodes nb)) (\<lambda>(selected, used).
       and_then (sorted_candidates nb) (\<lambda>candidates.
       and_then (try_fold (select_fact est r (nb_nodes nb))
           \<lparr> sl_selected = selected, sl_used = used, sl_facts = [], sl_omitted = 0 \<rparr> candidates) (\<lambda>s.
       and_then (try_map (bt_index (nb_nodes nb)) (bs_items (sl_selected s))) (\<lambda>nodes.
       let view = \<lparr> view_nodes = nodes, view_facts = sort_key mf_id (sl_facts s) \<rparr>
       in and_then (project_graph api view) (\<lambda>graph.
         Ok \<lparr> cb_view = view, cb_graph = graph,
              cb_receipt = \<lparr> rc_valid_at = cr_valid_at r, rc_known_at = cr_known_at r,
                rc_source_position = mp_last_global_position p, rc_estimator = te_name est,
                rc_token_budget = cr_token_budget r, rc_estimated_tokens = sl_used s,
                rc_examined_facts = length candidates, rc_selected_facts = length (view_facts view),
                rc_omitted_by_budget = sl_omitted s, rc_excluded_by_scope = nb_excluded nb \<rparr> \<rparr>)))))))"

end
