(* ===== verification/Context_Search.thy ===== *)
theory Context_Search
  imports Context
begin

text \<open>
  The neighbourhood search of the context compiler is breadth-first search: its specification is
  the inductive relation \<open>hops\<close> (a node is reached from a seed over so many usable facts between
  nodes in scope), and the search computes, for every node, the least number of hops up to the
  depth limit, together with exactly the usable facts among the reached nodes. The proof keeps
  three invariants of the loop: \<open>sound\<close> (what is recorded is true), \<open>levels\<close> (the queue holds two
  consecutive distances) and \<open>explored\<close> (what has been taken from the queue is complete).
\<close>

section \<open>The specification\<close>

definition scoped_edge :: "memory_projection \<Rightarrow> context_request \<Rightarrow> entity_id \<Rightarrow> entity_id \<Rightarrow> bool" where
  "scoped_edge p r i j \<longleftrightarrow>
    (\<exists>f \<in> set (mp_facts p). usable p r f \<and> touches f i \<and> other_end f i = j) \<and> (\<exists>n. in_scope p r j n)"

inductive hops :: "memory_projection \<Rightarrow> context_request \<Rightarrow> nat \<Rightarrow> entity_id \<Rightarrow> bool"
  for p r where
  hops_seed: "i \<in> set (cr_seeds r) \<Longrightarrow> hops p r 0 i"
| hops_step: "hops p r n i \<Longrightarrow> scoped_edge p r i j \<Longrightarrow> hops p r (Suc n) j"

inductive_cases hops_zeroE: "hops p r 0 i"
inductive_cases hops_SucE: "hops p r (Suc n) i"

text \<open>The distance the search should report, if any.\<close>

definition at_distance :: "memory_projection \<Rightarrow> context_request \<Rightarrow> nat \<Rightarrow> entity_id \<Rightarrow> bool" where
  "at_distance p r d i \<longleftrightarrow> d \<le> cr_max_depth r \<and> hops p r d i \<and> (\<forall>m < d. \<not> hops p r m i)"

definition within_reach :: "memory_projection \<Rightarrow> context_request \<Rightarrow> entity_id \<Rightarrow> bool" where
  "within_reach p r i \<longleftrightarrow> (\<exists>d \<le> cr_max_depth r. hops p r d i)"

lemma within_reach_distance: "within_reach p r i \<longleftrightarrow> (\<exists>d. at_distance p r d i)"
proof
  assume "within_reach p r i"
  then obtain d where d: "d \<le> cr_max_depth r" "hops p r d i" by (auto simp: within_reach_def)
  then obtain e where e: "hops p r e i" "\<forall>m < e. \<not> hops p r m i"
    using exists_least_iff [of "\<lambda>n. hops p r n i"] by blast
  then have "e \<le> d" using d(2) not_le by blast
  with d(1) e have "at_distance p r e i" unfolding at_distance_def by (blast intro: order_trans)
  then show "\<exists>d. at_distance p r d i" by blast
qed (auto simp: within_reach_def at_distance_def)

section \<open>The invariants\<close>

abbreviation dist :: "search \<Rightarrow> entity_id \<Rightarrow> usize option" where
  "dist s i \<equiv> bt_get (sr_distances s) i"

definition maps_ok :: "search \<Rightarrow> bool" where
  "maps_ok s \<longleftrightarrow> bt_ok (sr_nodes s) \<and> bt_ok (sr_facts s) \<and> bt_ok (sr_distances s) \<and> bt_ok (sr_excluded s)"

definition sound :: "memory_projection \<Rightarrow> context_request \<Rightarrow> search \<Rightarrow> bool" where
  "sound p r s \<longleftrightarrow> maps_ok s \<and>
    (\<forall>i d. dist s i = Some d \<longrightarrow> hops p r d i \<and> d \<le> cr_max_depth r \<and> (\<exists>n. in_scope p r i n)) \<and>
    (\<forall>i n. bt_get (sr_nodes s) i = Some n \<longleftrightarrow> dist s i \<noteq> None \<and> in_scope p r i n) \<and>
    (\<forall>i \<in> set (sr_queue s). dist s i \<noteq> None) \<and>
    (\<forall>i f. bt_get (sr_facts s) i = Some f \<longrightarrow> f \<in> set (mp_facts p) \<and> mf_id f = i \<and> usable p r f \<and>
       dist s (mf_source f) \<noteq> None \<and> dist s (mf_target f) \<noteq> None) \<and>
    (\<forall>i. bs_contains (sr_excluded s) i \<longrightarrow> (\<exists>f \<in> set (mp_facts p). mf_id f = i \<and> usable p r f \<and>
       (\<exists>e. touches f e \<and> dist s e \<noteq> None \<and> barred p r (other_end f e))))"

definition levels :: "nat \<Rightarrow> search \<Rightarrow> bool" where
  "levels d s \<longleftrightarrow> (\<forall>i e. dist s i = Some e \<longrightarrow> e \<le> d + 1) \<and>
    (\<exists>xs ys. sr_queue s = xs @ ys \<and> (\<forall>i \<in> set xs. dist s i = Some d) \<and> (\<forall>i \<in> set ys. dist s i = Some (d + 1)))"

lemma levelsI:
  assumes "\<And>i e. dist s i = Some e \<Longrightarrow> e \<le> d + 1" "sr_queue s = xs @ ys"
    and "\<And>i. i \<in> set xs \<Longrightarrow> dist s i = Some d" "\<And>i. i \<in> set ys \<Longrightarrow> dist s i = Some (d + 1)"
  shows "levels d s"
  using assms unfolding levels_def by blast

text \<open>\<open>todo\<close> holds the incident facts of the current node that are still to be visited.\<close>

definition settled :: "(entity_id \<times> fact_id) set \<Rightarrow> search \<Rightarrow> entity_id \<Rightarrow> memory_fact \<Rightarrow> bool" where
  "settled todo s i f \<longleftrightarrow> dist s i \<noteq> None \<and> i \<notin> set (sr_queue s) \<and> (i, mf_id f) \<notin> todo"

definition explored ::
  "memory_projection \<Rightarrow> context_request \<Rightarrow> (entity_id \<times> fact_id) set \<Rightarrow> search \<Rightarrow> bool" where
  "explored p r todo s \<longleftrightarrow>
    (\<forall>f \<in> set (mp_facts p). \<forall>i. usable p r f \<and> touches f i \<and> settled todo s i f \<longrightarrow>
      (barred p r (other_end f i) \<longrightarrow> bs_contains (sr_excluded s) (mf_id f)) \<and>
      (\<forall>d n. dist s i = Some d \<and> d < cr_max_depth r \<and> in_scope p r (other_end f i) n \<longrightarrow>
         (\<exists>e \<le> d + 1. dist s (other_end f i) = Some e)) \<and>
      (settled todo s (other_end f i) f \<longrightarrow> bt_get (sr_facts s) (mf_id f) = Some f))"

lemma other_end_ends: "touches f i \<Longrightarrow> {i, other_end f i} = {mf_source f, mf_target f}"
  by (auto simp: touches_def other_end_def)

lemma other_end_twice: "touches f i \<Longrightarrow> other_end f (other_end f i) = i \<and> touches f (other_end f i)"
  by (auto simp: touches_def other_end_def)

lemma soundI:
  assumes "maps_ok s"
    and "\<And>i d. dist s i = Some d \<Longrightarrow> hops p r d i \<and> d \<le> cr_max_depth r \<and> (\<exists>n. in_scope p r i n)"
    and "\<And>i n. bt_get (sr_nodes s) i = Some n \<longleftrightarrow> dist s i \<noteq> None \<and> in_scope p r i n"
    and "\<And>i. i \<in> set (sr_queue s) \<Longrightarrow> dist s i \<noteq> None"
    and "\<And>i f. bt_get (sr_facts s) i = Some f \<Longrightarrow> f \<in> set (mp_facts p) \<and> mf_id f = i \<and> usable p r f \<and>
       dist s (mf_source f) \<noteq> None \<and> dist s (mf_target f) \<noteq> None"
    and "\<And>i. bs_contains (sr_excluded s) i \<Longrightarrow> \<exists>f \<in> set (mp_facts p). mf_id f = i \<and> usable p r f \<and>
       (\<exists>e. touches f e \<and> dist s e \<noteq> None \<and> barred p r (other_end f e))"
  shows "sound p r s"
  using assms unfolding sound_def by blast

lemma soundD:
  assumes "sound p r s"
  shows "maps_ok s"
    and "dist s i = Some d \<Longrightarrow> hops p r d i \<and> d \<le> cr_max_depth r \<and> (\<exists>n. in_scope p r i n)"
    and "bt_get (sr_nodes s) i = Some n \<longleftrightarrow> dist s i \<noteq> None \<and> in_scope p r i n"
    and "i \<in> set (sr_queue s) \<Longrightarrow> dist s i \<noteq> None"
    and "bt_get (sr_facts s) j = Some f \<Longrightarrow> f \<in> set (mp_facts p) \<and> mf_id f = j \<and> usable p r f \<and>
       dist s (mf_source f) \<noteq> None \<and> dist s (mf_target f) \<noteq> None"
    and "bs_contains (sr_excluded s) j \<Longrightarrow> \<exists>f \<in> set (mp_facts p). mf_id f = j \<and> usable p r f \<and>
       (\<exists>e. touches f e \<and> dist s e \<noteq> None \<and> barred p r (other_end f e))"
  using assms unfolding sound_def by blast+

lemma in_scope_unique: "in_scope p r i n \<Longrightarrow> in_scope p r i m \<Longrightarrow> n = m"
  by (simp add: in_scope_def)

lemma maps_ok_simps [simp]:
  "maps_ok s \<Longrightarrow> maps_ok (s\<lparr>sr_excluded := bs_insert (sr_excluded s) k\<rparr>)"
  "maps_ok s \<Longrightarrow> maps_ok (s\<lparr>sr_facts := bt_insert (sr_facts s) k f\<rparr>)"
  "maps_ok s \<Longrightarrow> maps_ok (s\<lparr>sr_distances := bt_insert (sr_distances s) j d, sr_nodes := bt_insert (sr_nodes s) j n,
      sr_queue := q, sr_facts := bt_insert (sr_facts s) k f\<rparr>)"
  by (auto simp: maps_ok_def)

section \<open>One fact\<close>

lemma sound_visit:
  assumes sound: "sound p r s" and cur: "dist s c = Some d"
    and f: "f \<in> set (mp_facts p)" "touches f c" "mp_fact p i = Some f"
    and step: "visit_fact p r c d s i = Ok s'"
  shows "sound p r s' \<and> dist s' c = Some d"
  using step
proof (cases rule: visit_fact_cases)
  case (skip g)
  then show ?thesis using sound cur by simp
next
  case (exclude g)
  then have "g = f" using f(3) by simp
  then have "sound p r s'"
    using soundD [OF sound] exclude f cur by (intro soundI) auto
  then show ?thesis using cur exclude by simp
next
  case (discover g n)
  then have g: "g = f" using f(3) by simp
  have "scoped_edge p r c (other_end f c)"
    using discover f g by (auto simp: scoped_edge_def)
  then have hop: "hops p r (Suc d) (other_end f c)"
    using soundD(2) [OF sound cur] hops_step by blast
  have ends: "dist s' (mf_source f) \<noteq> None" "dist s' (mf_target f) \<noteq> None"
    using other_end_ends [OF f(2)] cur discover(6) g by (auto simp: doubleton_eq_iff)
  have mono: "dist s' e \<noteq> None" if "dist s e \<noteq> None" for e using that discover(6) by simp
  have "sound p r s'"
  proof (rule soundI)
    show "maps_ok s'" using soundD(1) [OF sound] discover(6) by simp
    show "hops p r e j \<and> e \<le> cr_max_depth r \<and> (\<exists>n. in_scope p r j n)" if "dist s' j = Some e" for j e
      using that soundD(2) [OF sound, of j e] discover g hop by (auto split: if_splits)
    show "bt_get (sr_nodes s') j = Some m \<longleftrightarrow> dist s' j \<noteq> None \<and> in_scope p r j m" for j m
      using soundD(3) [OF sound, of j m] discover g in_scope_unique by auto
    show "dist s' j \<noteq> None" if "j \<in> set (sr_queue s')" for j
      using that soundD(4) [OF sound, of j] discover(6) g by auto
    show "h \<in> set (mp_facts p) \<and> mf_id h = j \<and> usable p r h \<and> dist s' (mf_source h) \<noteq> None \<and> dist s' (mf_target h) \<noteq> None"
      if "bt_get (sr_facts s') j = Some h" for j h
      using that soundD(5) [OF sound, of j h] mono discover(2,6) g f ends by (auto split: if_splits)
    show "\<exists>h \<in> set (mp_facts p). mf_id h = j \<and> usable p r h \<and> (\<exists>e. touches h e \<and> dist s' e \<noteq> None \<and> barred p r (other_end h e))"
      if "bs_contains (sr_excluded s') j" for j
      using that soundD(6) [OF sound, of j] mono discover(6) by fastforce
  qed
  moreover have "c \<noteq> other_end f c" using discover(4) cur g by auto
  ultimately show ?thesis using cur discover(6) g by simp
next
  case (again g n)
  then have g: "g = f" using f(3) by simp
  have "dist s (mf_source f) \<noteq> None" "dist s (mf_target f) \<noteq> None"
    using other_end_ends [OF f(2)] cur again(4) g by (auto simp: doubleton_eq_iff)
  then have "sound p r s'"
    using soundD [OF sound] again f g by (intro soundI) (auto split: if_splits)
  then show ?thesis using cur again(5) by simp
qed

lemma visit_monotone:
  assumes "visit_fact p r c d s i = Ok s'"
  shows "dist s j = Some e \<Longrightarrow> dist s' j = Some e"
    and "j \<in> set (sr_queue s) \<Longrightarrow> j \<in> set (sr_queue s')"
    and "bs_contains (sr_excluded s) k \<Longrightarrow> bs_contains (sr_excluded s') k"
    and "dist s' j \<noteq> None \<Longrightarrow> j \<notin> set (sr_queue s') \<Longrightarrow> dist s j = dist s' j"
  using assms by (cases rule: visit_fact_cases, auto)+

lemma levels_visit:
  assumes "levels d s" "visit_fact p r c d s i = Ok s'"
  shows "levels d s'"
  using assms(2)
proof (cases rule: visit_fact_cases)
  case (discover f n)
  from assms(1) obtain xs ys where q: "sr_queue s = xs @ ys"
    "\<forall>i \<in> set xs. dist s i = Some d" "\<forall>i \<in> set ys. dist s i = Some (d + 1)"
    by (auto simp: levels_def)
  let ?o = "other_end f c"
  have "sr_queue s' = xs @ (ys @ [?o])" "\<forall>i \<in> set xs. dist s' i = Some d"
    "\<forall>i \<in> set (ys @ [?o]). dist s' i = Some (d + 1)"
    using q discover(4,6) by auto
  moreover have "\<forall>i e. dist s' i = Some e \<longrightarrow> e \<le> d + 1"
    using assms(1) discover(6) by (auto simp: levels_def)
  ultimately show ?thesis unfolding levels_def by blast
qed (use assms(1) in \<open>auto simp: levels_def\<close>)

text \<open>What visiting a fact from the current node guarantees.\<close>

lemma visit_current:
  assumes sound: "sound p r s" and lev: "levels d s" and f: "usable p r f" "mp_fact p i = Some f"
    and step: "visit_fact p r c d s i = Ok s'"
  shows "barred p r (other_end f c) \<Longrightarrow> bs_contains (sr_excluded s') (mf_id f)"
    and "d < cr_max_depth r \<Longrightarrow> in_scope p r (other_end f c) n \<Longrightarrow> \<exists>e \<le> d + 1. dist s' (other_end f c) = Some e"
    and "dist s (other_end f c) \<noteq> None \<Longrightarrow> bt_get (sr_facts s') (mf_id f) = Some f"
proof -
  have scope: "\<exists>n. in_scope p r j n" if "dist s j \<noteq> None" for j using soundD(2) [OF sound] that by blast
  have apart: "\<not> (barred p r j \<and> in_scope p r j n)" for j n by (auto simp: barred_def in_scope_def)
  show "bs_contains (sr_excluded s') (mf_id f)" if "barred p r (other_end f c)"
    using step that apart f by (cases rule: visit_fact_cases) auto
  show "\<exists>e \<le> d + 1. dist s' (other_end f c) = Some e" if "d < cr_max_depth r" "in_scope p r (other_end f c) n"
    using step
  proof (cases rule: visit_fact_cases)
    case (skip g)
    with that f skip(4) [of n] show ?thesis by simp
  next
    case (exclude g)
    with that f apart show ?thesis by auto
  next
    case (discover g m)
    with f show ?thesis by simp
  next
    case (again g m)
    with f lev show ?thesis by (auto simp: levels_def)
  qed
  show "bt_get (sr_facts s') (mf_id f) = Some f" if "dist s (other_end f c) \<noteq> None"
    using step
  proof (cases rule: visit_fact_cases)
    case (skip g)
    from scope [OF that] obtain n where "in_scope p r (other_end f c) n" by blast
    with skip(1) skip(4) [of n] f that show ?thesis by simp
  next
    case (exclude g)
    with that f scope [OF that] apart show ?thesis by auto
  next
    case (discover g m)
    with f that show ?thesis by simp
  next
    case (again g m)
    with f show ?thesis by simp
  qed
qed

lemma exploredI:
  assumes "\<And>f i. f \<in> set (mp_facts p) \<Longrightarrow> usable p r f \<Longrightarrow> touches f i \<Longrightarrow> settled todo s i f \<Longrightarrow>
      barred p r (other_end f i) \<Longrightarrow> bs_contains (sr_excluded s) (mf_id f)"
    and "\<And>f i d n. f \<in> set (mp_facts p) \<Longrightarrow> usable p r f \<Longrightarrow> touches f i \<Longrightarrow> settled todo s i f \<Longrightarrow>
      dist s i = Some d \<Longrightarrow> d < cr_max_depth r \<Longrightarrow> in_scope p r (other_end f i) n \<Longrightarrow>
      \<exists>e \<le> d + 1. dist s (other_end f i) = Some e"
    and "\<And>f i. f \<in> set (mp_facts p) \<Longrightarrow> usable p r f \<Longrightarrow> touches f i \<Longrightarrow> settled todo s i f \<Longrightarrow>
      settled todo s (other_end f i) f \<Longrightarrow> bt_get (sr_facts s) (mf_id f) = Some f"
  shows "explored p r todo s"
  using assms unfolding explored_def by blast

lemma exploredD:
  assumes "explored p r todo s" "f \<in> set (mp_facts p)" "usable p r f" "touches f i" "settled todo s i f"
  shows "barred p r (other_end f i) \<Longrightarrow> bs_contains (sr_excluded s) (mf_id f)"
    and "dist s i = Some d \<Longrightarrow> d < cr_max_depth r \<Longrightarrow> in_scope p r (other_end f i) n \<Longrightarrow>
      \<exists>e \<le> d + 1. dist s (other_end f i) = Some e"
    and "settled todo s (other_end f i) f \<Longrightarrow> bt_get (sr_facts s) (mf_id f) = Some f"
  using assms unfolding explored_def by blast+

lemma settled_before:
  assumes "visit_fact p r c d s i = Ok s'" "settled todo s' j g"
  shows "settled (insert (c, mf_id f) todo) s j g \<or> (j = c \<and> mf_id g = mf_id f)"
  using assms(2) visit_monotone(2,4) [OF assms(1), of j] by (auto simp: settled_def)

lemma explored_visit:
  assumes inv: "proj_inv p" and sound: "sound p r s" and lev: "levels d s" and cur: "dist s c = Some d"
    and f: "f \<in> set (mp_facts p)" "touches f c" "mp_fact p (mf_id f) = Some f"
    and old: "explored p r (insert (c, mf_id f) todo) s"
    and step: "visit_fact p r c d s (mf_id f) = Ok s'"
  shows "explored p r todo s'"
proof -
  have same: "g = f" if "g \<in> set (mp_facts p)" "mf_id g = mf_id f" for g
    using that inv f(3) mp_fact_in [of p g] by (simp add: proj_inv_def)
  have kept: "bt_get (sr_facts s') (mf_id g) = Some g"
    if "bt_get (sr_facts s) (mf_id g) = Some g" "g \<in> set (mp_facts p)" for g
    using step that same f by (cases rule: visit_fact_cases) auto
  have known: "dist s j \<noteq> None" if "settled todo s' j g" for j g
    using that visit_monotone(4) [OF step, of j] by (auto simp: settled_def)
  let ?old = "insert (c, mf_id f) todo"
  show ?thesis
  proof (rule exploredI)
    fix g j assume g: "g \<in> set (mp_facts p)" "usable p r g" "touches g j" "settled todo s' j g"
    note before = settled_before [OF step g(4), of f]
    show "bs_contains (sr_excluded s') (mf_id g)" if "barred p r (other_end g j)"
      using before that exploredD(1) [OF old g(1-3)] visit_monotone(3) [OF step]
        visit_current(1) [OF sound lev _ f(3) step] same [OF g(1)] g(2) by auto
    show "\<exists>e \<le> b + 1. dist s' (other_end g j) = Some e"
      if "dist s' j = Some b" "b < cr_max_depth r" "in_scope p r (other_end g j) n" for b n
    proof -
      have "dist s j = Some b" using known [OF g(4)] visit_monotone(1) [OF step] that(1) by fastforce
      note b = this
      from before show ?thesis
      proof
        assume "settled ?old s j g"
        from exploredD(2) [OF old g(1-3) this b that(2,3)] show ?thesis using visit_monotone(1) [OF step] by blast
      next
        assume "j = c \<and> mf_id g = mf_id f"
        then show ?thesis using visit_current(2) [OF sound lev _ f(3) step] same [OF g(1)] g(2) cur b that by auto
      qed
    qed
    show "bt_get (sr_facts s') (mf_id g) = Some g" if other: "settled todo s' (other_end g j) g"
    proof (cases "settled ?old s j g \<and> settled ?old s (other_end g j) g")
      case True
      then show ?thesis using exploredD(3) [OF old g(1-3)] kept g(1) by blast
    next
      case False
      then have "g = f \<and> (j = c \<or> other_end f j = c)"
        using before settled_before [OF step other, of f] same [OF g(1)] by auto
      moreover from this have "dist s (other_end f c) \<noteq> None"
        using known [OF g(4)] known [OF other] other_end_twice [OF g(3)] by auto
      ultimately show ?thesis using visit_current(3) [OF sound lev _ f(3) step] g(2) by auto
    qed
  qed
qed

section \<open>The loops\<close>

lemma visit_fact_total: "mp_fact p i = Some f \<Longrightarrow> \<exists>s'. visit_fact p r c d s i = Ok s'"
  by (auto simp: visit_fact_def Let_def split: option.split)

lemma visit_facts_loop:
  assumes inv: "proj_inv p"
    and facts: "\<forall>f \<in> set fs. f \<in> set (mp_facts p) \<and> touches f c"
    and "sound p r s" "levels d s" "dist s c = Some d"
    and "explored p r ({c} \<times> mf_id ` set fs) s"
  shows "\<exists>s'. try_fold (visit_fact p r c d) s (map mf_id fs) = Ok s' \<and> sound p r s' \<and> levels d s' \<and>
    explored p r {} s' \<and> (\<forall>j e. dist s j = Some e \<longrightarrow> dist s' j = Some e)"
  using facts assms(3-6)
proof (induction fs arbitrary: s)
  case (Cons f fs)
  have f: "f \<in> set (mp_facts p)" "touches f c" "mp_fact p (mf_id f) = Some f"
    using Cons.prems(1) inv mp_fact_in by (auto simp: proj_inv_def)
  obtain s1 where s1: "visit_fact p r c d s (mf_id f) = Ok s1"
    using visit_fact_total [OF f(3)] by blast
  note sound1 = sound_visit [OF Cons.prems(2,4) f s1]
  have "explored p r (insert (c, mf_id f) ({c} \<times> mf_id ` set fs)) s"
    using Cons.prems(5) by (simp add: insert_Times_insert)
  note explored1 = explored_visit [OF inv Cons.prems(2-4) f this s1]
  have "\<exists>s'. try_fold (visit_fact p r c d) s1 (map mf_id fs) = Ok s' \<and> sound p r s' \<and> levels d s' \<and>
      explored p r {} s' \<and> (\<forall>j e. dist s1 j = Some e \<longrightarrow> dist s' j = Some e)"
    using Cons.prems(1) sound1 explored1 levels_visit [OF Cons.prems(3) s1] by (intro Cons.IH) auto
  then show ?case using s1 visit_monotone(1) [OF s1] by auto
qed auto

lemma in_scope_node: "proj_inv p \<Longrightarrow> in_scope p r i n \<Longrightarrow> i \<in> set (node_ids p)"
  using node_ids_lookup [of p i]
  by (auto simp: in_scope_def visible_node_def bind_eq_Some_conv proj_inv_def)

lemma expand_ok:
  assumes inv: "proj_inv p" and "sound p r s" "levels d s" "dist s c = Some d"
    and "explored p r {} (s\<lparr>sr_queue := c # sr_queue s\<rparr>)"
  shows "\<exists>s'. expand p r c s = Ok s' \<and> sound p r s' \<and> levels d s' \<and> explored p r {} s' \<and>
    (\<forall>j e. dist s j = Some e \<longrightarrow> dist s' j = Some e)"
proof -
  let ?fs = "filter (\<lambda>f. touches f c) (mp_facts p)"
  have "c \<in> set (node_ids p)" using soundD(2) [OF assms(2,4)] in_scope_node [OF inv] by blast
  then have ids: "incident_fact_ids p c = map mf_id ?fs" by (rule incident_fact_ids_spec [OF inv])
  have ex: "explored p r ({c} \<times> mf_id ` set ?fs) s"
  proof -
    have "settled {} (s\<lparr>sr_queue := c # sr_queue s\<rparr>) i f"
      if "f \<in> set (mp_facts p)" "touches f i" "settled ({c} \<times> mf_id ` set ?fs) s i f" for i f
      using that by (auto simp: settled_def)
    then show ?thesis
      using assms(5) other_end_twice unfolding explored_def by simp blast
  qed
  then show ?thesis
    using visit_facts_loop [OF inv _ assms(2-4) ex] assms(4) by (simp add: expand_def ids)
qed

text \<open>The state at the head of the loop.\<close>

definition search_inv :: "memory_projection \<Rightarrow> context_request \<Rightarrow> search \<Rightarrow> bool" where
  "search_inv p r s \<longleftrightarrow> sound p r s \<and> (\<exists>d. levels d s) \<and> explored p r {} s \<and>
    (\<forall>i \<in> set (cr_seeds r). dist s i = Some 0)"

lemma levels_pop:
  assumes "levels d s" "sr_queue s = c # rest"
  shows "\<exists>e. levels e (s\<lparr>sr_queue := rest\<rparr>) \<and> dist s c = Some e"
proof -
  from assms obtain xs ys where q: "c # rest = xs @ ys" "\<forall>i \<in> set xs. dist s i = Some d"
    "\<forall>i \<in> set ys. dist s i = Some (d + 1)" and le: "\<forall>i e. dist s i = Some e \<longrightarrow> e \<le> d + 1"
    by (auto simp: levels_def)
  show ?thesis
  proof (cases xs)
    case Nil
    then have "levels (d + 1) (s\<lparr>sr_queue := rest\<rparr>)"
      using q le by (intro levelsI [of _ _ rest "[]"]) force+
    moreover have "dist s c = Some (d + 1)" using q Nil by auto
    ultimately show ?thesis by blast
  next
    case (Cons x xs')
    then have "levels d (s\<lparr>sr_queue := rest\<rparr>)"
      using q le by (intro levelsI [of _ _ xs' ys]) auto
    moreover have "dist s c = Some d" using q Cons by auto
    ultimately show ?thesis by blast
  qed
qed

lemma sound_queue: "sound p r s \<Longrightarrow> set q \<subseteq> set (sr_queue s) \<Longrightarrow> sound p r (s\<lparr>sr_queue := q\<rparr>)"
  unfolding sound_def maps_ok_def by auto

lemma search_step_ok:
  assumes inv: "proj_inv p" and s: "search_inv p r s" "sr_queue s = c # rest"
  shows "\<exists>s'. expand p r c (s\<lparr>sr_queue := rest\<rparr>) = Ok s' \<and> search_inv p r s'"
proof -
  let ?s = "s\<lparr>sr_queue := rest\<rparr>"
  have *: "sound p r s" "explored p r {} s" "\<forall>i \<in> set (cr_seeds r). dist s i = Some 0"
    using s(1) by (auto simp: search_inv_def)
  from s(1) obtain e where "levels e s" by (auto simp: search_inv_def)
  from levels_pop [OF this s(2)] obtain d where d: "levels d ?s" "dist s c = Some d" by blast
  have "sound p r ?s" using sound_queue [OF *(1), of rest] s(2) by auto
  moreover have "explored p r {} (?s\<lparr>sr_queue := c # sr_queue ?s\<rparr>)" using *(2) s(2) by (simp flip: s(2))
  moreover have "dist ?s c = Some d" using d(2) by simp
  ultimately show ?thesis
    using expand_ok [OF inv _ d(1)] *(3) unfolding search_inv_def by fastforce
qed

lemma search_loop_ok:
  assumes "proj_inv p" "search_inv p r s"
  shows "\<exists>s'. search_loop p r s = Ok s' \<and> search_inv p r s' \<and> sr_queue s' = []"
  using assms
proof (induction p r s rule: search_loop.induct)
  case (1 p r s)
  show ?case
  proof (cases "sr_queue s")
    case Nil
    with 1(3) show ?thesis by (simp add: search_loop.simps)
  next
    case (Cons c rest)
    from search_step_ok [OF 1(2,3) Cons] obtain s1 where
      s1: "expand p r c (s\<lparr>sr_queue := rest\<rparr>) = Ok s1" "search_inv p r s1" by blast
    from 1(1) [OF Cons s1(1) 1(2) s1(2)] show ?thesis using Cons s1(1) by (simp add: search_loop.simps [of p r s])
  qed
qed

section \<open>Seeds\<close>

definition seeded :: "memory_projection \<Rightarrow> context_request \<Rightarrow> search \<Rightarrow> bool" where
  "seeded p r s \<longleftrightarrow> sound p r s \<and> sr_facts s = [] \<and> sr_excluded s = [] \<and>
    (\<forall>i d. dist s i = Some d \<longrightarrow> d = 0 \<and> i \<in> set (sr_queue s))"

lemma scoped_node_Ok [result_simps]: "scoped_node p r i = Ok n \<longleftrightarrow> in_scope p r i n"
  by (auto simp: scoped_node_def in_scope_def result_simps split: option.splits if_splits)

lemma scoped_node_Err: "scoped_node p r i = Err e \<Longrightarrow> e = Fault (MissingEntity (as_str i)) \<and> (\<forall>n. \<not> in_scope p r i n)"
  using scoped_node_Ok [of p r i] by (auto simp: scoped_node_def result_simps)

lemma seeded_empty: "seeded p r empty_search"
  by (auto simp: seeded_def sound_def maps_ok_def empty_search_def)

lemma seeded_step:
  assumes "seeded p r s" "i \<in> set (cr_seeds r)" "in_scope p r i n"
  shows "\<exists>s'. seed_step p r s i = Ok s' \<and> seeded p r s' \<and> dist s' i = Some 0 \<and>
    (\<forall>j. dist s j \<noteq> None \<longrightarrow> dist s' j \<noteq> None)"
proof -
  let ?s' = "s\<lparr>sr_nodes := bt_insert (sr_nodes s) i n, sr_distances := bt_insert (sr_distances s) i 0,
    sr_queue := sr_queue s @ [i]\<rparr>"
  have "scoped_node p r i = Ok n" using assms(3) by (simp add: scoped_node_Ok)
  then have "seed_step p r s i = Ok ?s'" by (simp add: seed_step_def)
  moreover have "seeded p r ?s'"
    using assms in_scope_unique hops_seed [OF assms(2)] unfolding seeded_def sound_def maps_ok_def by auto
  ultimately show ?thesis by auto
qed

lemma seeds_loop:
  assumes "set seeds \<subseteq> set (cr_seeds r)" "seeded p r s" "\<forall>i \<in> set seeds. \<exists>n. in_scope p r i n"
  shows "\<exists>s'. try_fold (seed_step p r) s seeds = Ok s' \<and> seeded p r s' \<and> (\<forall>i \<in> set seeds. dist s' i = Some 0) \<and>
    (\<forall>j. dist s j \<noteq> None \<longrightarrow> dist s' j \<noteq> None)"
  using assms
proof (induction seeds arbitrary: s)
  case (Cons i seeds)
  from Cons.prems obtain n where n: "i \<in> set (cr_seeds r)" "in_scope p r i n" by auto
  from seeded_step [OF Cons.prems(2) n] obtain s1 where s1: "seed_step p r s i = Ok s1" "seeded p r s1"
    "dist s1 i = Some 0" "\<forall>j. dist s j \<noteq> None \<longrightarrow> dist s1 j \<noteq> None" by blast
  from Cons.IH [of s1] Cons.prems s1(2) obtain s' where
    s': "try_fold (seed_step p r) s1 seeds = Ok s'" "seeded p r s'" "\<forall>i \<in> set seeds. dist s' i = Some 0"
    "\<forall>j. dist s1 j \<noteq> None \<longrightarrow> dist s' j \<noteq> None" by auto
  have "dist s' i \<noteq> None" using s'(4) s1(3) by auto
  then have "dist s' i = Some 0" using s'(2) by (auto simp: seeded_def)
  with s1 s' show ?case by auto
qed auto

lemma seeds_missing:
  "try_fold (seed_step p r) s seeds = Err e \<Longrightarrow>
    \<exists>i \<in> set seeds. e = Fault (MissingEntity (as_str i)) \<and> (\<forall>n. \<not> in_scope p r i n)"
  by (induction seeds arbitrary: s) (auto simp: seed_step_def and_then_Ok and_then_Err dest: scoped_node_Err)

lemma seeded_search_inv:
  "seeded p r s \<Longrightarrow> \<forall>i \<in> set (cr_seeds r). dist s i = Some 0 \<Longrightarrow> search_inv p r s"
  unfolding search_inv_def
proof (intro conjI exI [of _ 0])
  assume s: "seeded p r s"
  have "dist s i = Some 0" if "i \<in> set (sr_queue s)" for i
    using s soundD(4) [of p r s i] that by (auto simp: seeded_def)
  then show "levels 0 s" using s by (intro levelsI [of _ _ "sr_queue s" "[]"]) (auto simp: seeded_def)
  show "explored p r {} s" using s by (auto simp: seeded_def explored_def settled_def)
qed (auto simp: seeded_def)

section \<open>The result\<close>

lemma complete_distance:
  assumes "search_inv p r s" "sr_queue s = []" "hops p r n i" "n \<le> cr_max_depth r"
  shows "\<exists>d \<le> n. dist s i = Some d"
  using assms(3,4)
proof (induction rule: hops.induct)
  case (hops_seed i)
  then show ?case using assms(1) by (auto simp: search_inv_def)
next
  case (hops_step n i j)
  then obtain d where d: "d \<le> n" "dist s i = Some d" by auto
  from hops_step(2) obtain f m where f: "f \<in> set (mp_facts p)" "usable p r f" "touches f i" "other_end f i = j"
    "in_scope p r j m" by (auto simp: scoped_edge_def)
  have "explored p r {} s" "settled {} s i f" using assms(1,2) d by (auto simp: search_inv_def settled_def)
  from exploredD(2) [OF this(1) f(1-3) this(2) d(2)] obtain e where "e \<le> d + 1" "dist s j = Some e"
    using f(4,5) d(1) hops_step(4) by auto
  with d(1) show ?case by (intro exI [of _ e]) auto
qed

lemma final_distance:
  assumes "search_inv p r s" "sr_queue s = []"
  shows "dist s i = Some d \<longleftrightarrow> at_distance p r d i"
proof
  have sound: "sound p r s" using assms(1) by (simp add: search_inv_def)
  assume d: "dist s i = Some d"
  have "\<not> hops p r m i" if "m < d" for m
  proof
    assume "hops p r m i"
    moreover have "m \<le> cr_max_depth r" using soundD(2) [OF sound d] that by simp
    ultimately obtain e where "e \<le> m" "dist s i = Some e" using complete_distance [OF assms] by blast
    then show False using d that by simp
  qed
  then show "at_distance p r d i" using soundD(2) [OF sound d] by (simp add: at_distance_def)
next
  assume at: "at_distance p r d i"
  then obtain e where e: "e \<le> d" "dist s i = Some e"
    using complete_distance [OF assms, of d i] by (auto simp: at_distance_def)
  have "hops p r e i" using e(2) assms(1) soundD(2) by (auto simp: search_inv_def)
  then have "e = d" using at e(1) by (auto simp: at_distance_def le_less)
  then show "dist s i = Some d" using e(2) by simp
qed

lemma final_reach:
  assumes "search_inv p r s" "sr_queue s = []"
  shows "dist s i \<noteq> None \<longleftrightarrow> within_reach p r i"
  using final_distance [OF assms] within_reach_distance by auto

lemma reach_settled: "sr_queue s = [] \<Longrightarrow> settled {} s i f \<longleftrightarrow> dist s i \<noteq> None"
  by (simp add: settled_def)

lemma final_facts:
  assumes inv: "proj_inv p" and s: "search_inv p r s" "sr_queue s = []"
  shows "bt_get (sr_facts s) i = Some f \<longleftrightarrow> f \<in> set (mp_facts p) \<and> mf_id f = i \<and> usable p r f \<and>
    within_reach p r (mf_source f) \<and> within_reach p r (mf_target f)"
proof
  assume "bt_get (sr_facts s) i = Some f"
  then show "f \<in> set (mp_facts p) \<and> mf_id f = i \<and> usable p r f \<and>
      within_reach p r (mf_source f) \<and> within_reach p r (mf_target f)"
    using soundD(5) [of p r s i f] final_reach [OF s] s(1) unfolding search_inv_def by blast
next
  assume f: "f \<in> set (mp_facts p) \<and> mf_id f = i \<and> usable p r f \<and>
      within_reach p r (mf_source f) \<and> within_reach p r (mf_target f)"
  then have "settled {} s (mf_source f) f" "settled {} s (mf_target f) f"
    using final_reach [OF s] by (auto simp: reach_settled [OF s(2)])
  moreover have "touches f (mf_source f)" "other_end f (mf_source f) = mf_target f"
    by (auto simp: touches_def other_end_def)
  ultimately show "bt_get (sr_facts s) i = Some f"
    using exploredD(3) [of p r "{}" s f "mf_source f"] s(1) f by (auto simp: search_inv_def)
qed

definition scope_boundary :: "memory_projection \<Rightarrow> context_request \<Rightarrow> memory_fact set" where
  "scope_boundary p r = {f \<in> set (mp_facts p). usable p r f \<and>
     (\<exists>e. touches f e \<and> within_reach p r e \<and> barred p r (other_end f e))}"

lemma final_excluded:
  assumes inv: "proj_inv p" and s: "search_inv p r s" "sr_queue s = []"
  shows "length (sr_excluded s) = card (scope_boundary p r)"
proof -
  have sound: "sound p r s" and ex: "explored p r {} s" using s(1) by (auto simp: search_inv_def)
  have "set (bs_items (sr_excluded s)) = mf_id ` scope_boundary p r"
  proof -
    have boundary: "f \<in> scope_boundary p r \<longleftrightarrow> f \<in> set (mp_facts p) \<and> usable p r f \<and>
        (\<exists>e. touches f e \<and> settled {} s e f \<and> barred p r (other_end f e))" for f
      using final_reach [OF s] reach_settled [OF s(2)] unfolding scope_boundary_def by blast
    have "i \<in> mf_id ` scope_boundary p r" if "bs_contains (sr_excluded s) i" for i
      using soundD(6) [OF sound that] boundary reach_settled [OF s(2)] by blast
    moreover have "bs_contains (sr_excluded s) (mf_id f)" if "f \<in> scope_boundary p r" for f
      using that boundary exploredD(1) [OF ex] by blast
    ultimately show ?thesis by (auto simp: bs_contains_items)
  qed
  moreover have "inj_on mf_id (scope_boundary p r)"
    using fact_ids_distinct [of p] inv by (auto simp: proj_inv_def fact_ids_def distinct_map scope_boundary_def inj_on_def)
  ultimately show ?thesis
    using bs_length [of "sr_excluded s"] soundD(1) [OF sound] by (simp add: maps_ok_def card_image)
qed

text \<open>What the search promises to the selection.\<close>

definition neighborhood_ok :: "memory_projection \<Rightarrow> context_request \<Rightarrow> neighborhood_data \<Rightarrow> bool" where
  "neighborhood_ok p r nb \<longleftrightarrow> bt_ok (nb_nodes nb) \<and> bt_ok (nb_facts nb) \<and> bt_ok (nb_distances nb) \<and>
    (\<forall>i d. bt_get (nb_distances nb) i = Some d \<longleftrightarrow> at_distance p r d i) \<and>
    (\<forall>i n. bt_get (nb_nodes nb) i = Some n \<longleftrightarrow> within_reach p r i \<and> visible_node p i (cr_known_at r) = Some n) \<and>
    (\<forall>i f. bt_get (nb_facts nb) i = Some f \<longleftrightarrow> f \<in> set (mp_facts p) \<and> mf_id f = i \<and> usable p r f \<and>
       within_reach p r (mf_source f) \<and> within_reach p r (mf_target f)) \<and>
    nb_excluded nb = card (scope_boundary p r)"

definition seeds_in_scope :: "memory_projection \<Rightarrow> context_request \<Rightarrow> bool" where
  "seeds_in_scope p r \<longleftrightarrow> (\<forall>i \<in> set (cr_seeds r). \<exists>n. in_scope p r i n)"

lemma neighborhood_Ok:
  assumes inv: "proj_inv p" and seeds: "seeds_in_scope p r"
  shows "\<exists>nb. neighborhood p r = Ok nb \<and> neighborhood_ok p r nb"
proof -
  from seeds_loop [of "sort_dedup (cr_seeds r)" r p empty_search] seeds obtain s0 where
    s0: "try_fold (seed_step p r) empty_search (sort_dedup (cr_seeds r)) = Ok s0" "seeded p r s0"
      "\<forall>i \<in> set (cr_seeds r). dist s0 i = Some 0"
    by (auto simp: seeded_empty seeds_in_scope_def)
  from search_loop_ok [OF inv seeded_search_inv [OF s0(2,3)]] obtain s where
    s: "search_loop p r s0 = Ok s" "search_inv p r s" "sr_queue s = []" by blast
  let ?keep = "\<lambda>_ f. dist s (mf_source f) \<noteq> None \<and> dist s (mf_target f) \<noteq> None"
  let ?nb = "\<lparr> nb_nodes = sr_nodes s, nb_facts = bt_retain ?keep (sr_facts s), nb_distances = sr_distances s,
    nb_excluded = length (sr_excluded s) \<rparr>"
  have maps: "maps_ok s" and sound: "sound p r s" using s(2) soundD(1) by (auto simp: search_inv_def)
  have scope: "in_scope p r i n \<longleftrightarrow> visible_node p i (cr_known_at r) = Some n" if "within_reach p r i" for i n
  proof -
    from that obtain d where "dist s i = Some d" using final_reach [OF s(2,3), of i] by blast
    from soundD(2) [OF sound this] show ?thesis by (auto simp: in_scope_def)
  qed
  have "neighborhood_ok p r ?nb"
    unfolding neighborhood_ok_def
    using maps final_distance [OF s(2,3)] final_facts [OF inv s(2,3)] final_excluded [OF inv s(2,3)]
      soundD(3) [OF sound] final_reach [OF s(2,3)] scope
    by (auto simp: maps_ok_def bt_get_retain)
  moreover have "neighborhood p r = Ok ?nb" using s0(1) s(1) by (simp add: neighborhood_def)
  ultimately show ?thesis by blast
qed

lemma neighborhood_Err:
  assumes inv: "proj_inv p" and "\<not> seeds_in_scope p r"
  shows "\<exists>i \<in> set (cr_seeds r). neighborhood p r = Err (Fault (MissingEntity (as_str i))) \<and> (\<forall>n. \<not> in_scope p r i n)"
proof (cases "try_fold (seed_step p r) empty_search (sort_dedup (cr_seeds r))")
  case (Err e)
  from seeds_missing [OF this] Err show ?thesis by (auto simp: neighborhood_def)
next
  case (Ok s)
  have "\<exists>n. in_scope p r i n" if "try_fold (seed_step p r) s0 is = Ok s" "i \<in> set is" for s0 "is" i
    using that by (induction "is" arbitrary: s0) (auto simp: and_then_Ok seed_step_def scoped_node_Ok)
  from this [OF Ok] assms(2) show ?thesis by (auto simp: seeds_in_scope_def)
qed

text \<open>
  The neighbourhood search is a bounded breadth-first search: on a consistent projection with all
  seeds in scope it ends without a panic and returns, for every node, its least number of hops
  from a seed when that is within the depth limit, the revisions of exactly these nodes known at
  the requested time, exactly the usable facts among them, and the number of usable facts that lead
  out of scope; with a seed out of scope it reports such a seed as missing.
\<close>

theorem neighborhood_is_bounded_search:
  assumes "proj_inv p"
  shows "if seeds_in_scope p r then \<exists>nb. neighborhood p r = Ok nb \<and> neighborhood_ok p r nb
    else \<exists>i. i \<in> set (cr_seeds r) \<and> neighborhood p r = Err (Fault (MissingEntity (as_str i))) \<and> (\<forall>n. \<not> in_scope p r i n)"
  using neighborhood_Ok [OF assms] neighborhood_Err [OF assms] by (simp add: Bex_def)

section \<open>A small search\<close>

definition demo_request :: context_request where
  "demo_request = \<lparr> cr_seeds = [TextId ''a''], cr_valid_at = Timestamp 2, cr_known_at = Timestamp 6,
     cr_token_budget = 100, cr_max_depth = 2, cr_relations = [], cr_repositories = [], cr_branches = [] \<rparr>"

lemma demo_context_visible:
  "visible_node demo_memory (TextId ''a'') (Timestamp 6) = Some (demo_node ''a'')"
  "visible_node demo_memory (TextId ''b'') (Timestamp 6) = Some (demo_node ''b'')"
  by (simp_all add: demo_projection_def visible_node_def ix.look_put ix.look_empty demo_visible)

lemma demo_context_incident:
  "incident_fact_ids demo_memory (TextId ''a'') = [TextId ''f'']"
  "incident_fact_ids demo_memory (TextId ''b'') = [TextId ''f'']"
  "mp_fact demo_memory (TextId ''f'') = Some demo_fact"
  by (simp_all add: demo_projection_def incident_fact_ids_def incident_indexes_def mp_fact_def ix.look_put ix.look_empty)

lemma demo_context_active: "fact_is_active demo_memory demo_fact (clock_of demo_request)"
  by (simp add: demo_projection_def fact_is_active_def clock_of_def demo_request_def bt_get_def demo_first_def
      less_eq_timestamp_def less_timestamp_def)

definition demo_neighborhood :: neighborhood_data where
  "demo_neighborhood = \<lparr> nb_nodes = [(TextId ''a'', demo_node ''a''), (TextId ''b'', demo_node ''b'')],
     nb_facts = [(TextId ''f'', demo_fact)], nb_distances = [(TextId ''a'', 0), (TextId ''b'', 1)], nb_excluded = 0 \<rparr>"

lemma demo_ids_less [simp]: "(TextId ''a'' :: 'k text_id) < TextId ''b''" "\<not> (TextId ''b'' :: 'k text_id) < TextId ''a''"
  by (simp_all add: less_text_id_def)

lemma demo_request_sel [simp]:
  "cr_seeds demo_request = [TextId ''a'']" "cr_known_at demo_request = Timestamp 6" "cr_token_budget demo_request = 100"
  "cr_max_depth demo_request = 2" "cr_relations demo_request = []" "cr_repositories demo_request = []"
  "cr_branches demo_request = []"
  by (simp_all add: demo_request_def)

lemma demo_neighborhood: "neighborhood demo_memory demo_request = Ok demo_neighborhood"
  by (simp add: neighborhood_def sort_dedup_def seed_step_def scoped_node_def empty_search_def
      demo_context_visible demo_context_incident demo_context_active node_allowed_def relation_allowed_def
      search_loop.simps expand_def bt_index_def expect_def bt_get_def visit_fact_def other_end_def Let_def
      bt_retain_def demo_neighborhood_def)

theorem neighborhood_is_bounded_search_witness:
  "neighborhood_ok demo_memory demo_request demo_neighborhood \<and> at_distance demo_memory demo_request 1 (TextId ''b'')"
proof -
  have "seeds_in_scope demo_memory demo_request"
    by (simp add: seeds_in_scope_def in_scope_def demo_context_visible node_allowed_def)
  with neighborhood_is_bounded_search [OF demo_inv, of demo_request] demo_neighborhood
  have ok: "neighborhood_ok demo_memory demo_request demo_neighborhood" by simp
  have "bt_get (nb_distances demo_neighborhood) (TextId ''b'') = Some 1"
    by (simp add: demo_neighborhood_def bt_get_def)
  with ok have "at_distance demo_memory demo_request 1 (TextId ''b'')" by (simp add: neighborhood_ok_def)
  with ok show ?thesis by blast
qed

section \<open>Termination\<close>

text \<open>The loop with a counter of the iterations it may still make.\<close>

fun search_fuel :: "nat \<Rightarrow> memory_projection \<Rightarrow> context_request \<Rightarrow> search \<Rightarrow> search fallible option" where
  "search_fuel n p r s =
    (case sr_queue s of
       [] \<Rightarrow> Some (Ok s)
     | current # rest \<Rightarrow>
         (case n of
            0 \<Rightarrow> None
          | Suc n \<Rightarrow>
              (case expand p r current (s\<lparr>sr_queue := rest\<rparr>) of
                 Err e \<Rightarrow> Some (Err e)
               | Ok s' \<Rightarrow> search_fuel n p r s')))"

declare search_fuel.simps [simp del]

lemma search_fuel_enough: "remaining p s \<le> n \<Longrightarrow> search_fuel n p r s = Some (search_loop p r s)"
proof (induction n arbitrary: s)
  case 0
  then show ?case by (simp add: remaining_def search_fuel.simps search_loop.simps)
next
  case (Suc n)
  show ?case
  proof (cases "sr_queue s")
    case Nil
    then show ?thesis by (simp add: search_fuel.simps search_loop.simps)
  next
    case (Cons c rest)
    let ?s = "s\<lparr>sr_queue := rest\<rparr>"
    show ?thesis
    proof (cases "expand p r c ?s")
      case (Ok s')
      have "remaining p s' \<le> remaining p ?s" using Ok by (rule expand_remaining)
      also have "remaining p ?s \<le> n" using Suc.prems Cons by (simp add: remaining_def unexplored_def)
      finally have "search_fuel n p r s' = Some (search_loop p r s')" by (rule Suc.IH)
      then show ?thesis using Cons Ok by (simp add: search_fuel.simps [of "Suc n"] search_loop.simps [of p r s])
    qed (use Cons in \<open>simp add: search_fuel.simps search_loop.simps\<close>)
  qed
qed

text \<open>
the search loop ends for every projection, consistent or not, and every request: started in any
  state it makes at most as many iterations as there are queued entities and indexed nodes without
  a distance, and these many iterations yield its result.
\<close>

theorem search_loop_terminates:
  "search_fuel (card (unexplored p s) + length (sr_queue s)) p r s = Some (search_loop p r s)"
  by (rule search_fuel_enough) (simp add: remaining_def)

end
