(* ===== verification/Context_Compile.thy ===== *)
theory Context_Compile
  imports Context_Search
begin

text \<open>
  The selection phase of the context compiler over the neighbourhood the search returns: the token
  budget, the contents of the compiled view, and the errors a compilation can end with.
\<close>

section \<open>Costs\<close>

definition view_tokens :: "token_estimator \<Rightarrow> memory_view \<Rightarrow> nat" where
  "view_tokens est view = sum_list (map (node_tokens est) (view_nodes view)) + sum_list (map (fact_tokens est) (view_facts view))"

definition node_cost :: "token_estimator \<Rightarrow> (entity_id, memory_node) btree_map \<Rightarrow> entity_id \<Rightarrow> nat" where
  "node_cost est nodes i = (case bt_get nodes i of None \<Rightarrow> 0 | Some n \<Rightarrow> node_tokens est n)"

definition set_cost :: "token_estimator \<Rightarrow> (entity_id, memory_node) btree_map \<Rightarrow> entity_id btree_set \<Rightarrow> nat" where
  "set_cost est nodes s = sum_list (map (node_cost est nodes) (bs_items s))"

lemma set_cost_insert_le:
  "bt_ok s \<Longrightarrow> set_cost est nodes (bs_insert s i) \<le> set_cost est nodes s + node_cost est nodes i"
proof (cases "bs_contains s i")
  case True
  assume ok: "bt_ok s"
  have "set (bs_items (bs_insert s i)) = set (bs_items s)" using True by (auto simp: bs_contains_items)
  then have "bs_items (bs_insert s i) = bs_items s"
    using bt_keys_sorted [OF ok] bt_keys_sorted [OF bt_ok_insert [OF ok, of i "()"]] by (simp add: strict_sorted_equal)
  then show ?thesis by (simp add: set_cost_def)
qed (simp add: set_cost_def sum_items_insert)

lemma try_map_index:
  assumes "try_map (bt_index nodes) is = Ok ns"
  shows "sum_list (map (node_tokens est) ns) = sum_list (map (node_cost est nodes) is)"
    and "set is \<subseteq> set (bt_keys nodes)"
  using assms
  by (induction "is" arbitrary: ns)
     (auto simp: and_then_Ok bt_index_Ok node_cost_def bt_get_keys [symmetric])

lemma try_map_index_total: "set is \<subseteq> set (bt_keys nodes) \<Longrightarrow> \<exists>ns. try_map (bt_index nodes) is = Ok ns"
proof (induction "is")
  case (Cons i "is")
  then obtain n ns where "bt_get nodes i = Some n" "try_map (bt_index nodes) is = Ok ns"
    using bt_get_keys [of nodes i] by auto
  then show ?case by simp
qed simp

section \<open>Seeds\<close>

lemma seed_cost_Ok: "seed_cost est nodes acc i = Ok acc' \<longleftrightarrow>
    (\<exists>n. bt_get nodes i = Some n \<and> acc' = (bs_insert (fst acc) i, snd acc + node_tokens est n))"
  by (auto simp: seed_cost_def result_simps)

lemma seed_cost_loop:
  assumes "try_fold (seed_cost est nodes) (sel, used) seeds = Ok (sel', used')" "bt_ok sel"
    "set_cost est nodes sel \<le> used"
  shows "bt_ok sel' \<and> set (bs_items sel') = set (bs_items sel) \<union> set seeds \<and> set_cost est nodes sel' \<le> used'"
  using assms
proof (induction seeds arbitrary: sel used)
  case (Cons i seeds)
  from Cons.prems(1) obtain n where n: "bt_get nodes i = Some n"
    and rest: "try_fold (seed_cost est nodes) (bs_insert sel i, used + node_tokens est n) seeds = Ok (sel', used')"
    by (auto simp: and_then_Ok seed_cost_Ok)
  have "set_cost est nodes (bs_insert sel i) \<le> used + node_tokens est n"
    using set_cost_insert_le [OF Cons.prems(2), of est nodes i] Cons.prems(3) n by (simp add: node_cost_def)
  from Cons.IH [OF rest _ this] Cons.prems(2) show ?case by auto
qed simp

lemma seed_cost_total:
  "set seeds \<subseteq> set (bt_keys nodes) \<Longrightarrow>
    try_fold (seed_cost est nodes) (sel, used) seeds =
      Ok (foldl bs_insert sel seeds, used + sum_list (map (node_cost est nodes) seeds))"
proof (induction seeds arbitrary: sel used)
  case (Cons i seeds)
  then obtain n where "bt_get nodes i = Some n" using bt_get_keys [of nodes i] by auto
  with Cons show ?case by (simp add: seed_cost_def node_cost_def add.assoc)
qed simp

section \<open>Facts\<close>

definition selection_ok ::
  "token_estimator \<Rightarrow> context_request \<Rightarrow> (entity_id, memory_node) btree_map \<Rightarrow> selection \<Rightarrow> bool" where
  "selection_ok est r nodes s \<longleftrightarrow> bt_ok (sl_selected s) \<and>
    set_cost est nodes (sl_selected s) + sum_list (map (fact_tokens est) (sl_facts s)) \<le> sl_used s \<and>
    sl_used s \<le> cr_token_budget r \<and> set (bs_items (sl_selected s)) \<subseteq> set (bt_keys nodes) \<and>
    (\<forall>f \<in> set (sl_facts s). bs_contains (sl_selected s) (mf_source f) \<and> bs_contains (sl_selected s) (mf_target f))"

lemma fold_insert_ok: "bt_ok s \<Longrightarrow> bt_ok (foldl bs_insert s is)"
  by (induction "is" arbitrary: s) auto

lemma fold_insert_contains: "bs_contains (foldl bs_insert s is) i \<longleftrightarrow> bs_contains s i \<or> i \<in> set is"
  by (induction "is" arbitrary: s) auto

lemma fold_insert_cost:
  "bt_ok s \<Longrightarrow> set_cost est nodes (foldl bs_insert s is) \<le> set_cost est nodes s + sum_list (map (node_cost est nodes) is)"
proof (induction "is" arbitrary: s)
  case (Cons i "is")
  show ?case using Cons.IH [OF bt_ok_insert [OF Cons.prems, of i "()"]] set_cost_insert_le [OF Cons.prems, of est nodes i]
    by simp
qed simp

lemma saturating_within: "b < usize_max \<Longrightarrow> saturating_add_usize a c > b \<longleftrightarrow> a + c > b"
  by (auto simp: saturating_add_usize_def)

text \<open>The two outcomes of one iteration.\<close>

lemma select_fact_cases:
  assumes "select_fact est r nodes s f = Ok s'" "cr_token_budget r < usize_max"
  obtains (omit) "s' = s\<lparr> sl_omitted := sl_omitted s + 1 \<rparr>"
  | (take) cost where "cost = fact_tokens est f + sum_list (map (node_cost est nodes) (missing_nodes (sl_selected s) f))"
      "sl_used s + cost \<le> cr_token_budget r" "set (missing_nodes (sl_selected s) f) \<subseteq> set (bt_keys nodes)"
      "s' = s\<lparr> sl_used := sl_used s + cost, sl_selected := foldl bs_insert (sl_selected s) (missing_nodes (sl_selected s) f),
               sl_facts := sl_facts s @ [f] \<rparr>"
proof -
  let ?m = "missing_nodes (sl_selected s) f"
  from assms(1) obtain ns where ns: "try_map (bt_index nodes) ?m = Ok ns"
    by (auto simp: select_fact_def Let_def and_then_Ok)
  let ?cost = "fact_tokens est f + sum_list (map (node_cost est nodes) ?m)"
  have cost: "fact_tokens est f + sum_list (map (node_tokens est) ns) = ?cost"
    using try_map_index(1) [OF ns] by simp
  show thesis
  proof (cases "sl_used s + ?cost > cr_token_budget r")
    case True
    then show thesis using assms ns cost by (intro omit) (simp add: select_fact_def Let_def saturating_within)
  next
    case False
    then show thesis using assms ns cost try_map_index(2) [OF ns]
      by (intro take [OF refl]) (simp_all add: select_fact_def Let_def saturating_within)
  qed
qed

lemma missing_both: "bs_contains s i \<or> i \<in> set (missing_nodes s f) \<longleftrightarrow> bs_contains s i \<or> i = mf_source f \<or> i = mf_target f"
  by (auto simp: missing_nodes_def)

lemma select_fact_ok:
  assumes step: "select_fact est r nodes s f = Ok s'" and budget: "cr_token_budget r < usize_max"
    and ok: "selection_ok est r nodes s"
  shows "selection_ok est r nodes s'"
  using step budget
proof (cases rule: select_fact_cases)
  case omit
  then show ?thesis using ok by (simp add: selection_ok_def)
next
  case (take cost)
  let ?sel = "foldl bs_insert (sl_selected s) (missing_nodes (sl_selected s) f)"
  have sel: "bt_ok (sl_selected s)" using ok by (simp add: selection_ok_def)
  have "set_cost est nodes ?sel + fact_tokens est f \<le> set_cost est nodes (sl_selected s) + cost"
    using fold_insert_cost [OF sel] take(1) by simp
  moreover have "bs_contains ?sel i \<longleftrightarrow> bs_contains (sl_selected s) i \<or> i = mf_source f \<or> i = mf_target f" for i
    by (simp add: fold_insert_contains missing_both)
  moreover have "set (bs_items ?sel) \<subseteq> set (bt_keys nodes)"
    using take(3) ok by (auto simp: fold_insert_items selection_ok_def)
  ultimately show ?thesis
    using take(2,4) ok fold_insert_ok [OF sel] by (auto simp: selection_ok_def)
qed

lemma select_facts_ok:
  assumes "try_fold (select_fact est r nodes) s fs = Ok s'" "cr_token_budget r < usize_max" "selection_ok est r nodes s"
  shows "selection_ok est r nodes s' \<and> (\<exists>gs. sl_facts s' = sl_facts s @ gs \<and> subseq gs fs \<and>
      length gs + (sl_omitted s' - sl_omitted s) = length fs \<and> sl_omitted s \<le> sl_omitted s') \<and>
    (\<forall>i. bs_contains (sl_selected s) i \<longrightarrow> bs_contains (sl_selected s') i)"
  using assms
proof (induction fs arbitrary: s)
  case (Cons f fs)
  from Cons.prems(1) obtain s1 where s1: "select_fact est r nodes s f = Ok s1"
    and rest: "try_fold (select_fact est r nodes) s1 fs = Ok s'" by (auto simp: and_then_Ok)
  note IH = Cons.IH [OF rest Cons.prems(2) select_fact_ok [OF s1 Cons.prems(2,3)]]
  from s1 Cons.prems(2) show ?case
  proof (cases rule: select_fact_cases)
    case omit
    with IH show ?thesis by auto
  next
    case (take cost)
    from IH obtain gs where gs: "sl_facts s' = sl_facts s1 @ gs" "subseq gs fs"
      "length gs + (sl_omitted s' - sl_omitted s1) = length fs" "sl_omitted s1 \<le> sl_omitted s'" by blast
    have "sl_facts s' = sl_facts s @ (f # gs)" "subseq (f # gs) (f # fs)" using gs take(4) by auto
    moreover have "bs_contains (sl_selected s') i" if "bs_contains (sl_selected s) i" for i
      using IH that take(4) by (simp add: fold_insert_contains)
    ultimately show ?thesis using IH gs take(4) by (auto intro!: exI [of _ "f # gs"])
  qed
qed simp

lemma select_fact_total:
  assumes "mf_source f \<in> set (bt_keys nodes)" "mf_target f \<in> set (bt_keys nodes)"
  shows "\<exists>s'. select_fact est r nodes s f = Ok s'"
proof -
  have "set (missing_nodes (sl_selected s) f) \<subseteq> set (bt_keys nodes)"
    using assms by (auto simp: missing_nodes_def)
  from try_map_index_total [OF this] obtain ns where "try_map (bt_index nodes) (missing_nodes (sl_selected s) f) = Ok ns"
    by blast
  then show ?thesis by (simp add: select_fact_def Let_def)
qed

lemma select_facts_total:
  "\<forall>f \<in> set fs. mf_source f \<in> set (bt_keys nodes) \<and> mf_target f \<in> set (bt_keys nodes) \<Longrightarrow>
    \<exists>s'. try_fold (select_fact est r nodes) s fs = Ok s'"
proof (induction fs arbitrary: s)
  case (Cons f fs)
  then obtain s1 where "select_fact est r nodes s f = Ok s1" using select_fact_total [of f nodes est r s] by auto
  with Cons show ?case by auto
qed simp

section \<open>Candidates\<close>

lemma candidate_key_Ok:
  "mf_source f \<in> set (bt_keys ds) \<Longrightarrow> mf_target f \<in> set (bt_keys ds) \<Longrightarrow> \<exists>k. candidate_key ds f = Ok (k, f)"
proof -
  assume "mf_source f \<in> set (bt_keys ds)" "mf_target f \<in> set (bt_keys ds)"
  then obtain a b where "bt_get ds (mf_source f) = Some a" "bt_get ds (mf_target f) = Some b"
    using bt_get_keys by metis
  then show ?thesis by (simp add: candidate_key_def)
qed

lemma candidate_keys:
  "\<forall>f \<in> set fs. mf_source f \<in> set (bt_keys ds) \<and> mf_target f \<in> set (bt_keys ds) \<Longrightarrow>
    \<exists>keyed. try_map (candidate_key ds) fs = Ok keyed \<and> map snd keyed = fs"
proof (induction fs)
  case (Cons f fs)
  then obtain k keyed where "candidate_key ds f = Ok (k, f)" "try_map (candidate_key ds) fs = Ok keyed" "map snd keyed = fs"
    using candidate_key_Ok [of f ds] by auto
  then show ?case by simp
qed simp

lemma reach_in_scope:
  assumes "seeds_in_scope p r" "within_reach p r i"
  shows "\<exists>n. in_scope p r i n"
proof -
  from assms(2) obtain d where "hops p r d i" by (auto simp: within_reach_def)
  then show ?thesis by (cases rule: hops.cases) (use assms(1) in \<open>auto simp: seeds_in_scope_def scoped_edge_def\<close>)
qed

lemma neighborhood_keys:
  assumes "neighborhood_ok p r nb"
  shows "i \<in> set (bt_keys (nb_distances nb)) \<longleftrightarrow> within_reach p r i"
    and "proj_inv p \<Longrightarrow> seeds_in_scope p r \<Longrightarrow> i \<in> set (bt_keys (nb_nodes nb)) \<longleftrightarrow> within_reach p r i"
proof -
  show "i \<in> set (bt_keys (nb_distances nb)) \<longleftrightarrow> within_reach p r i"
    using assms by (simp add: neighborhood_ok_def within_reach_distance flip: bt_get_keys)
  assume p: "proj_inv p" "seeds_in_scope p r"
  then show "i \<in> set (bt_keys (nb_nodes nb)) \<longleftrightarrow> within_reach p r i"
    using assms reach_in_scope [OF p(2), of i] by (auto simp: neighborhood_ok_def in_scope_def simp flip: bt_get_keys)
qed

definition candidates_of :: "memory_projection \<Rightarrow> context_request \<Rightarrow> memory_fact set" where
  "candidates_of p r = {f \<in> set (mp_facts p). usable p r f \<and> within_reach p r (mf_source f) \<and> within_reach p r (mf_target f)}"

lemma neighborhood_facts:
  assumes "neighborhood_ok p r nb"
  shows "set (bt_values (nb_facts nb)) = candidates_of p r" and "distinct (map mf_id (bt_values (nb_facts nb)))"
proof -
  have ok: "bt_ok (nb_facts nb)" and get: "bt_get (nb_facts nb) i = Some f \<longleftrightarrow> f \<in> candidates_of p r \<and> mf_id f = i" for i f
    using assms by (auto simp: neighborhood_ok_def candidates_of_def)
  show "set (bt_values (nb_facts nb)) = candidates_of p r"
    using bt_values_in [OF ok] get by auto
  have "map mf_id (bt_values (nb_facts nb)) = bt_keys (nb_facts nb)"
    unfolding bt_values_def bt_keys_def map_map by (rule map_cong [OF refl]) (use get bt_get_in [OF ok] in auto)
  then show "distinct (map mf_id (bt_values (nb_facts nb)))" using bt_keys_distinct [OF ok] by simp
qed

lemma sorted_candidates_Ok:
  assumes "neighborhood_ok p r nb"
  shows "\<exists>cs. sorted_candidates nb = Ok cs \<and> set cs = candidates_of p r \<and> distinct (map mf_id cs) \<and> distinct cs"
proof -
  let ?fs = "bt_values (nb_facts nb)"
  have "\<forall>f \<in> set ?fs. mf_source f \<in> set (bt_keys (nb_distances nb)) \<and> mf_target f \<in> set (bt_keys (nb_distances nb))"
    using neighborhood_facts(1) [OF assms] neighborhood_keys(1) [OF assms] by (auto simp: candidates_of_def)
  from candidate_keys [OF this] obtain keyed where
    k: "try_map (candidate_key (nb_distances nb)) ?fs = Ok keyed" "map snd keyed = ?fs" by blast
  let ?cs = "map snd (sort_key fst keyed)"
  have "distinct (map (mf_id \<circ> snd) keyed)" using neighborhood_facts(2) [OF assms] k(2) by (simp flip: map_map)
  then have "distinct (map (mf_id \<circ> snd) (sort_key fst keyed))" by (simp add: distinct_map)
  then have "distinct (map mf_id ?cs)" by simp
  moreover have "set ?cs = set ?fs" by (simp flip: k(2))
  ultimately show ?thesis
    using k(1) neighborhood_facts(1) [OF assms] distinct_map [of mf_id ?cs] by (simp add: sorted_candidates_def)
qed

section \<open>The whole compilation\<close>

text \<open>The stages of a successful compilation.\<close>

definition compiled ::
  "token_estimator \<Rightarrow> memory_projection \<Rightarrow> context_request \<Rightarrow> selection \<Rightarrow> memory_fact list \<Rightarrow> memory_view \<Rightarrow> bool" where
  "compiled est p r s cs view \<longleftrightarrow>
    (\<exists>nb. neighborhood_ok p r nb \<and> selection_ok est r (nb_nodes nb) s \<and>
       try_map (bt_index (nb_nodes nb)) (bs_items (sl_selected s)) = Ok (view_nodes view)) \<and>
    view_facts view = sort_key mf_id (sl_facts s) \<and> subseq (sl_facts s) cs \<and>
    length (sl_facts s) + sl_omitted s = length cs \<and>
    set cs = candidates_of p r \<and> distinct (map mf_id cs) \<and>
    (\<forall>i \<in> set (cr_seeds r). bs_contains (sl_selected s) i)"

lemma select_seeds_Ok:
  assumes "select_seeds est r nodes = Ok (selected, used)" "set (cr_seeds r) \<subseteq> set (bt_keys nodes)"
  shows "selection_ok est r nodes \<lparr> sl_selected = selected, sl_used = used, sl_facts = [], sl_omitted = 0 \<rparr>"
    and "set (bs_items selected) = set (cr_seeds r)"
proof -
  from assms(1) have *: "try_fold (seed_cost est nodes) ([], 0) (sort_dedup (cr_seeds r)) = Ok (selected, used)"
    "used \<le> cr_token_budget r"
    by (auto simp: select_seeds_def and_then_Ok split: if_splits)
  have "set_cost est nodes [] \<le> 0" by (simp add: set_cost_def)
  from seed_cost_loop [OF *(1) _ this] have sel: "bt_ok selected" "set (bs_items selected) = set (cr_seeds r)"
    "set_cost est nodes selected \<le> used" by auto
  show "selection_ok est r nodes \<lparr> sl_selected = selected, sl_used = used, sl_facts = [], sl_omitted = 0 \<rparr>"
    using sel *(2) assms(2) by (simp add: selection_ok_def)
  show "set (bs_items selected) = set (cr_seeds r)" by (rule sel(2))
qed

lemma compile_stages:
  assumes inv: "proj_inv p" and budget: "cr_token_budget r < usize_max"
    and ok: "compile api est p r = Ok b"
  shows "seeds_in_scope p r \<and> (\<exists>s cs. compiled est p r s cs (cb_view b) \<and> project_graph api (cb_view b) = Ok (cb_graph b) \<and>
    cb_receipt b = \<lparr> rc_valid_at = cr_valid_at r, rc_known_at = cr_known_at r,
                rc_source_position = mp_last_global_position p, rc_estimator = te_name est,
                rc_token_budget = cr_token_budget r, rc_estimated_tokens = sl_used s,
                rc_examined_facts = length cs, rc_selected_facts = length (sl_facts s),
                rc_omitted_by_budget = sl_omitted s, rc_excluded_by_scope = card (scope_boundary p r) \<rparr>)"
proof -
  from ok obtain nb where nb0: "neighborhood p r = Ok nb" by (auto simp: compile_def and_then_Ok split: if_splits)
  have seeds: "seeds_in_scope p r" using neighborhood_Err [OF inv] nb0 by fastforce
  have nb: "neighborhood_ok p r nb" using neighborhood_Ok [OF inv seeds] nb0 by simp
  from sorted_candidates_Ok [OF nb] obtain cs where cs: "sorted_candidates nb = Ok cs" "set cs = candidates_of p r"
    "distinct (map mf_id cs)" by blast
  from ok nb0 cs(1) obtain selected used s nodes where
    sel: "select_seeds est r (nb_nodes nb) = Ok (selected, used)"
    and s: "try_fold (select_fact est r (nb_nodes nb))
        \<lparr> sl_selected = selected, sl_used = used, sl_facts = [], sl_omitted = 0 \<rparr> cs = Ok s"
    and nodes: "try_map (bt_index (nb_nodes nb)) (bs_items (sl_selected s)) = Ok nodes"
    by (auto simp: compile_def and_then_Ok split: if_splits)
  have "set (cr_seeds r) \<subseteq> set (bt_keys (nb_nodes nb))"
    using neighborhood_keys(2) [OF nb inv seeds] hops_seed by (fastforce simp: within_reach_def)
  note start = select_seeds_Ok [OF sel this]
  let ?view = "\<lparr> view_nodes = nodes, view_facts = sort_key mf_id (sl_facts s) \<rparr>"
  have view: "cb_view b = ?view" "project_graph api ?view = Ok (cb_graph b)" and
    rc: "cb_receipt b = \<lparr> rc_valid_at = cr_valid_at r, rc_known_at = cr_known_at r,
                rc_source_position = mp_last_global_position p, rc_estimator = te_name est,
                rc_token_budget = cr_token_budget r, rc_estimated_tokens = sl_used s,
                rc_examined_facts = length cs, rc_selected_facts = length (sl_facts s),
                rc_omitted_by_budget = sl_omitted s, rc_excluded_by_scope = card (scope_boundary p r) \<rparr>"
    using ok nb0 cs(1) sel s nodes nb
    by (auto simp: compile_def and_then_Ok Let_def neighborhood_ok_def split: if_splits)
  from select_facts_ok [OF s budget start(1)] start(2) have "compiled est p r s cs (cb_view b)"
    using nb nodes cs(2,3) unfolding view(1) compiled_def by (auto simp: bs_contains_items)
  then show ?thesis using view rc seeds by (intro conjI exI [of _ s] exI [of _ cs]) simp_all
qed

lemma compiled_tokens:
  assumes "compiled est p r s cs view"
  shows "view_tokens est view \<le> sl_used s" and "sl_used s \<le> cr_token_budget r"
proof -
  from assms obtain nb :: neighborhood_data where nb: "selection_ok est r (nb_nodes nb) s"
    "try_map (bt_index (nb_nodes nb)) (bs_items (sl_selected s)) = Ok (view_nodes view)"
    and facts: "view_facts view = sort_key mf_id (sl_facts s)" unfolding compiled_def by blast
  have "distinct (map mf_id (sl_facts s))"
    using assms subseq_map [of "sl_facts s" cs mf_id] subseq_distinct by (auto simp: compiled_def)
  then have d: "distinct (sl_facts s)" by (simp add: distinct_map)
  have "sum_list (map (fact_tokens est) (view_facts view)) = sum_list (map (fact_tokens est) (sl_facts s))"
    using d sum_list_distinct_conv_sum_set [of "sl_facts s" "fact_tokens est"]
      sum_list_distinct_conv_sum_set [of "sort_key mf_id (sl_facts s)" "fact_tokens est"] by (simp add: facts)
  moreover have "sum_list (map (node_tokens est) (view_nodes view)) = set_cost est (nb_nodes nb) (sl_selected s)"
    using try_map_index(1) [OF nb(2)] by (simp add: set_cost_def)
  ultimately show "view_tokens est view \<le> sl_used s" "sl_used s \<le> cr_token_budget r"
    using nb(1) by (auto simp: view_tokens_def selection_ok_def)
qed

lemma visible_node_id:
  assumes "proj_inv p" "visible_node p i t = Some n"
  shows "mn_id n = i"
proof -
  have nodes: "nodes_ok p" using assms(1) by (simp add: proj_inv_def)
  from assms(2) obtain k where k: "ix_get (mp_node_lookup p) i = Some k" "visible_revision (mp_nodes p ! k) t = Some n"
    by (auto simp: visible_node_def bind_eq_Some_conv)
  from node_ids_index [OF nodes k(1)] have "k < length (mp_nodes p)" "history_id (mp_nodes p ! k) = i"
    by (auto simp: node_ids_def)
  moreover from this have "history_ok (mp_nodes p ! k)" using nodes by (auto simp: nodes_ok_def)
  ultimately show ?thesis using visible_revision_id k(2) by metis
qed

lemma try_map_index_ids:
  assumes nb: "neighborhood_ok p r nb" and inv: "proj_inv p" and "try_map (bt_index (nb_nodes nb)) is = Ok ns"
  shows "map mn_id ns = is \<and> (\<forall>n \<in> set ns. within_reach p r (mn_id n) \<and> visible_node p (mn_id n) (cr_known_at r) = Some n)"
  using assms(3)
proof (induction "is" arbitrary: ns)
  case (Cons i "is")
  from Cons.prems obtain n ms where n: "bt_get (nb_nodes nb) i = Some n" "try_map (bt_index (nb_nodes nb)) is = Ok ms"
    "ns = n # ms" by (auto simp: and_then_Ok bt_index_Ok)
  have "within_reach p r i" "visible_node p i (cr_known_at r) = Some n" using nb n(1) by (auto simp: neighborhood_ok_def)
  with Cons.IH [OF n(2)] n(3) visible_node_id [OF inv this(2)] show ?case by simp
qed simp

lemma compiled_view:
  assumes inv: "proj_inv p" and c: "compiled est p r s cs view"
  shows "map mn_id (view_nodes view) = bs_items (sl_selected s)"
    and "sorted_wrt (<) (map mn_id (view_nodes view))"
    and "n \<in> set (view_nodes view) \<Longrightarrow> within_reach p r (mn_id n) \<and> visible_node p (mn_id n) (cr_known_at r) = Some n"
    and "sorted_wrt (<) (map mf_id (view_facts view))"
    and "set (view_facts view) \<subseteq> candidates_of p r"
    and "f \<in> set (view_facts view) \<Longrightarrow> bs_contains (sl_selected s) (mf_source f) \<and> bs_contains (sl_selected s) (mf_target f)"
    and "sl_omitted s = 0 \<Longrightarrow> set (view_facts view) = candidates_of p r"
    and "length (view_facts view) + sl_omitted s = length cs"
proof -
  from c obtain nb where nb: "neighborhood_ok p r nb" "selection_ok est r (nb_nodes nb) s"
    "try_map (bt_index (nb_nodes nb)) (bs_items (sl_selected s)) = Ok (view_nodes view)"
    unfolding compiled_def by blast
  have v: "view_facts view = sort_key mf_id (sl_facts s)" "subseq (sl_facts s) cs" "set cs = candidates_of p r"
    "distinct (map mf_id cs)" "length (sl_facts s) + sl_omitted s = length cs"
    using c by (auto simp: compiled_def)
  note ids = try_map_index_ids [OF nb(1) inv nb(3)]
  show "map mn_id (view_nodes view) = bs_items (sl_selected s)" using ids by simp
  then show "sorted_wrt (<) (map mn_id (view_nodes view))"
    using nb(2) bt_keys_sorted [of "sl_selected s"] by (simp add: selection_ok_def)
  show "within_reach p r (mn_id n) \<and> visible_node p (mn_id n) (cr_known_at r) = Some n" if "n \<in> set (view_nodes view)"
    using ids that by simp
  have "distinct (map mf_id (sl_facts s))"
    using v(4) subseq_map [OF v(2), of mf_id] subseq_distinct by blast
  then have "distinct (map mf_id (view_facts view))" by (simp add: v(1) distinct_map)
  then show "sorted_wrt (<) (map mf_id (view_facts view))"
    by (simp add: v(1) strict_sorted_iff)
  show "set (view_facts view) \<subseteq> candidates_of p r"
    using v(1,3) subseq_set [OF v(2)] by auto
  show "bs_contains (sl_selected s) (mf_source f) \<and> bs_contains (sl_selected s) (mf_target f)"
    if "f \<in> set (view_facts view)" using that nb(2) v(1) by (simp add: selection_ok_def)
  show "set (view_facts view) = candidates_of p r" if "sl_omitted s = 0"
    using that v subseq_same_length [OF v(2)] by simp
  show "length (view_facts view) + sl_omitted s = length cs" using v(1,5) by simp
qed


text \<open>
  C21: what a compiled context contains: exactly one node per selected entity, in identifier order, among
  them every seed, each the revision known at the requested time and reached from a seed over usable
  facts in at most the requested number of hops; and facts in identifier order that are active at
  the requested clock, allowed by the relation filter and whose endpoints are nodes of the view.
  Every examined fact is selected or counted as omitted, the examined facts are all the usable facts
  among the reached nodes, and if none was omitted the context is the whole neighbourhood.
\<close>

theorem context_is_scoped_neighborhood:
  assumes "proj_inv p" "cr_token_budget r < usize_max" "compile api est p r = Ok b"
  shows "sorted_wrt (<) (map mn_id (view_nodes (cb_view b))) \<and> sorted_wrt (<) (map mf_id (view_facts (cb_view b))) \<and>
    set (cr_seeds r) \<subseteq> mn_id ` set (view_nodes (cb_view b)) \<and>
    (\<forall>n \<in> set (view_nodes (cb_view b)). within_reach p r (mn_id n) \<and>
       visible_node p (mn_id n) (cr_known_at r) = Some n \<and> node_allowed r n) \<and>
    (\<forall>f \<in> set (view_facts (cb_view b)). f \<in> candidates_of p r \<and>
       {mf_source f, mf_target f} \<subseteq> mn_id ` set (view_nodes (cb_view b))) \<and>
    rc_selected_facts (cb_receipt b) = length (view_facts (cb_view b)) \<and>
    rc_examined_facts (cb_receipt b) = card (candidates_of p r) \<and>
    rc_examined_facts (cb_receipt b) = rc_selected_facts (cb_receipt b) + rc_omitted_by_budget (cb_receipt b) \<and>
    rc_excluded_by_scope (cb_receipt b) = card (scope_boundary p r) \<and>
    (rc_omitted_by_budget (cb_receipt b) = 0 \<longrightarrow> set (view_facts (cb_view b)) = candidates_of p r)"
proof -
  from compile_stages [OF assms] obtain s cs where seeds: "seeds_in_scope p r" and
    c: "compiled est p r s cs (cb_view b)" and rc: "rc_selected_facts (cb_receipt b) = length (sl_facts s)"
    "rc_examined_facts (cb_receipt b) = length cs" "rc_omitted_by_budget (cb_receipt b) = sl_omitted s"
    "rc_excluded_by_scope (cb_receipt b) = card (scope_boundary p r)" by auto
  note view = compiled_view [OF assms(1) c]
  have items: "mn_id ` set (view_nodes (cb_view b)) = set (bs_items (sl_selected s))"
    using view(1) by (metis set_map)
  have "distinct cs" "set cs = candidates_of p r" "length (sl_facts s) = length (view_facts (cb_view b))"
    using c by (auto simp: compiled_def distinct_map)
  then have counts: "length cs = card (candidates_of p r)" "length (sl_facts s) = length (view_facts (cb_view b))"
    using distinct_card [of cs] by simp_all
  have seeds_in: "set (cr_seeds r) \<subseteq> set (bs_items (sl_selected s))"
    using c by (auto simp: compiled_def bs_contains_items)
  have allowed: "node_allowed r n" if "n \<in> set (view_nodes (cb_view b))" for n
    using view(3) [OF that] reach_in_scope [OF seeds] by (fastforce simp: in_scope_def)
  show ?thesis
    using view counts rc items seeds_in allowed by (auto simp: bs_contains_items)
qed

lemma compile_Err_graph:
  assumes inv: "proj_inv p" and budget: "cr_token_budget r < usize_max" and seeds: "seeds_in_scope p r" "cr_seeds r \<noteq> []"
    and sel: "neighborhood p r = Ok nb" "select_seeds est r (nb_nodes nb) = Ok (selected, used)"
    and err: "compile api est p r = Err e"
  shows "graph_failure e"
proof -
  have nb: "neighborhood_ok p r nb" using neighborhood_Ok [OF inv seeds(1)] sel(1) by simp
  note keys = neighborhood_keys(2) [OF nb inv seeds(1)]
  from sorted_candidates_Ok [OF nb] obtain cs where cs: "sorted_candidates nb = Ok cs" "set cs = candidates_of p r"
    "distinct (map mf_id cs)" by blast
  let ?s0 = "\<lparr> sl_selected = selected, sl_used = used, sl_facts = [], sl_omitted = 0 \<rparr>"
  have "\<forall>f \<in> set cs. mf_source f \<in> set (bt_keys (nb_nodes nb)) \<and> mf_target f \<in> set (bt_keys (nb_nodes nb))"
    using cs(2) keys by (auto simp: candidates_of_def)
  from select_facts_total [OF this] obtain s where s: "try_fold (select_fact est r (nb_nodes nb)) ?s0 cs = Ok s" by blast
  have "set (cr_seeds r) \<subseteq> set (bt_keys (nb_nodes nb))"
    using keys hops_seed by (fastforce simp: within_reach_def)
  from select_facts_ok [OF s budget select_seeds_Ok(1) [OF sel(2) this]]
  have ok: "selection_ok est r (nb_nodes nb) s" "set (sl_facts s) \<subseteq> set cs"
    using subseq_set by auto
  have "set (bs_items (sl_selected s)) \<subseteq> set (bt_keys (nb_nodes nb))" using ok(1) by (simp add: selection_ok_def)
  from try_map_index_total [OF this] obtain nodes where
    nodes: "try_map (bt_index (nb_nodes nb)) (bs_items (sl_selected s)) = Ok nodes" by blast
  let ?view = "\<lparr> view_nodes = nodes, view_facts = sort_key mf_id (sl_facts s) \<rparr>"
  have "mn_id ` set nodes = set (bs_items (sl_selected s))"
    using try_map_index_ids [OF nb inv nodes] by (metis set_map)
  moreover have "mf_evidence f \<noteq> []" if "f \<in> set (sl_facts s)" for f
    using that ok(2) cs(2) inv by (auto simp: candidates_of_def proj_inv_def facts_ok_def fact_ok_def)
  ultimately have "view_closed ?view"
    using ok(1) by (auto simp: view_closed_def selection_ok_def bs_contains_items)
  moreover have "project_graph api ?view = Err e"
    using err sel cs(1) s nodes seeds(2) by (auto simp: compile_def Let_def and_then_Err)
  ultimately show ?thesis by (rule project_graph_Err)
qed

lemma select_seeds_Err:
  assumes nb: "neighborhood_ok p r nb" and inv: "proj_inv p" and seeds: "seeds_in_scope p r"
    and err: "select_seeds est r (nb_nodes nb) = Err e"
  shows "\<exists>nodes. map mn_id nodes = sort_dedup (cr_seeds r) \<and>
    sum_list (map (node_tokens est) nodes) > cr_token_budget r \<and>
    e = Fault (BudgetTooSmall (sum_list (map (node_tokens est) nodes)) (cr_token_budget r))"
proof -
  have keys: "set (sort_dedup (cr_seeds r)) \<subseteq> set (bt_keys (nb_nodes nb))"
    using neighborhood_keys(2) [OF nb inv seeds] hops_seed by (fastforce simp: within_reach_def)
  from try_map_index_total [OF keys] obtain ns where
    ns: "try_map (bt_index (nb_nodes nb)) (sort_dedup (cr_seeds r)) = Ok ns" by blast
  show ?thesis
    using err try_map_index(1) [OF ns, of est] try_map_index_ids [OF nb inv ns]
    by (auto simp: select_seeds_def seed_cost_total [OF keys] split: if_splits intro!: exI [of _ ns])
qed

text \<open>
  On a consistent projection a compilation always ends, without a panic: it returns a context, or
  reports that there is no seed, that a seed is not visible in the requested scope, that the seeds
  alone exceed the budget (with their exact cost), or an error of the graph library.
\<close>

theorem compile_never_panics:
  assumes "proj_inv p" "cr_token_budget r < usize_max"
  shows "(\<exists>b. compile api est p r = Ok b) \<or>
    (cr_seeds r = [] \<and> (\<exists>field reason. compile api est p r = Err (Fault (InvalidValue field reason)))) \<or>
    (\<exists>i \<in> set (cr_seeds r). compile api est p r = Err (Fault (MissingEntity (as_str i))) \<and> (\<forall>n. \<not> in_scope p r i n)) \<or>
    (\<exists>nodes. map mn_id nodes = sort_dedup (cr_seeds r) \<and>
       sum_list (map (node_tokens est) nodes) > cr_token_budget r \<and>
       compile api est p r = Err (Fault (BudgetTooSmall (sum_list (map (node_tokens est) nodes)) (cr_token_budget r)))) \<or>
    (\<exists>message. compile api est p r = Err (Fault (GraphError message)))"
proof (cases "cr_seeds r = []")
  case True
  then show ?thesis by (simp add: compile_def)
next
  case ne: False
  show ?thesis
  proof (cases "seeds_in_scope p r")
    case False
    from neighborhood_Err [OF assms(1) this] ne show ?thesis by (auto simp: compile_def)
  next
    case True
    from neighborhood_Ok [OF assms(1) True] obtain nb where nb: "neighborhood p r = Ok nb" "neighborhood_ok p r nb" by blast
    show ?thesis
    proof (cases "select_seeds est r (nb_nodes nb)")
      case (Err e)
      from select_seeds_Err [OF nb(2) assms(1) True Err] Err nb(1) ne show ?thesis by (auto simp: compile_def)
    next
      case (Ok acc)
      obtain selected used where acc: "acc = (selected, used)" by force
      show ?thesis
      proof (cases "compile api est p r")
        case (Err e)
        from compile_Err_graph [OF assms True ne nb(1) Ok [unfolded acc] Err] Err show ?thesis by (auto simp: graph_failure_def)
      qed simp
    qed
  qed
qed

section \<open>A small compilation\<close>

lemma demo_costs:
  "node_tokens (bytes_estimator bytes_token_estimator_default) (demo_node ''a'') = 11"
  "node_tokens (bytes_estimator bytes_token_estimator_default) (demo_node ''b'') = 11"
  "fact_tokens (bytes_estimator bytes_token_estimator_default) demo_fact = 24"
  by (simp_all add: node_tokens_def fact_tokens_def bytes_estimator_def bytes_token_estimator_default_def div_ceil_def
        demo_node_def demo_fact_def demo_evidence_def option_list_def)

lemma demo_compile:
  "\<exists>b. compile demo_api (bytes_estimator bytes_token_estimator_default) demo_memory demo_request = Ok b \<and>
    map mn_id (view_nodes (cb_view b)) = [TextId ''a'', TextId ''b''] \<and> view_facts (cb_view b) = [demo_fact] \<and>
    rc_omitted_by_budget (cb_receipt b) = 0"
    by (simp add: compile_def demo_neighborhood demo_neighborhood_def select_seeds_def sort_dedup_def seed_cost_def
        bt_get_def demo_costs sorted_candidates_def bt_values_def candidate_key_def bt_index_def expect_def select_fact_def
        missing_nodes_def bs_contains_def Let_def saturating_add_usize_def usize_max_def bt_keys_def demo_graph)

lemma demo_budget: "cr_token_budget demo_request < usize_max"
  by (simp add: usize_max_def)


theorem context_is_scoped_neighborhood_witness:
  "\<exists>b. compile demo_api (bytes_estimator bytes_token_estimator_default) demo_memory demo_request = Ok b \<and>
    view_facts (cb_view b) = [demo_fact] \<and> candidates_of demo_memory demo_request = {demo_fact}"
proof -
  obtain b where b: "compile demo_api (bytes_estimator bytes_token_estimator_default) demo_memory demo_request = Ok b"
    "view_facts (cb_view b) = [demo_fact]" "rc_omitted_by_budget (cb_receipt b) = 0"
    using demo_compile by blast
  from context_is_scoped_neighborhood [OF demo_inv demo_budget b(1)] b show ?thesis by (intro exI [of _ b]) simp
qed

theorem compile_never_panics_witness:
  "\<exists>i. compile demo_api (bytes_estimator bytes_token_estimator_default) demo_memory (demo_request\<lparr>cr_seeds := [TextId ''z'']\<rparr>) =
     Err (Fault (MissingEntity i))"
proof -
  let ?r = "demo_request\<lparr>cr_seeds := [TextId ''z'']\<rparr>"
  have gone: "\<not> in_scope demo_memory ?r (TextId ''z'') n" for n
    by (simp add: in_scope_def demo_projection_def visible_node_def ix.look_put ix.look_empty)
  then have missing: "compile demo_api (bytes_estimator bytes_token_estimator_default) demo_memory ?r = Err (Fault (MissingEntity ''z''))"
    by (simp add: compile_def neighborhood_def sort_dedup_def seed_step_def scoped_node_def demo_projection_def visible_node_def
        ix.look_put ix.look_empty)
  have "cr_token_budget ?r < usize_max" using demo_budget by simp
  from compile_never_panics [OF demo_inv this, of demo_api "bytes_estimator bytes_token_estimator_default"] missing
  show ?thesis by auto
qed

end
