(* ===== verification/Retrieval.thy ===== *)
theory Retrieval
  imports Context_Compile "HOL-Library.Multiset"
begin

text \<open>
  Provider-neutral retrieval, \<open>src/src/context/retrieval.rs\<close>, and context compilation from free text,
  \<open>src/src/context/retrieved.rs\<close>. Providers are trait objects: a name and a function. Scores are
  fused with integer reciprocal ranks on 64-bit words.
\<close>

section \<open>Queries and hits\<close>

datatype retrieval_channel = Literal | Lexical | Semantic | Hybrid

fun channel_index :: "retrieval_channel \<Rightarrow> nat" where
  "channel_index Literal = 0"
| "channel_index Lexical = 1"
| "channel_index Semantic = 2"
| "channel_index Hybrid = 3"

lemma channel_index_inject: "channel_index a = channel_index b \<Longrightarrow> a = b"
  by (cases a; cases b) auto

instantiation retrieval_channel :: linorder
begin

definition less_eq_retrieval_channel :: "retrieval_channel \<Rightarrow> retrieval_channel \<Rightarrow> bool" where
  "less_eq_retrieval_channel a b \<longleftrightarrow> channel_index a \<le> channel_index b"

definition less_retrieval_channel :: "retrieval_channel \<Rightarrow> retrieval_channel \<Rightarrow> bool" where
  "less_retrieval_channel a b \<longleftrightarrow> channel_index a < channel_index b"

instance
  by standard (auto simp: less_eq_retrieval_channel_def less_retrieval_channel_def dest: channel_index_inject)

end

record retrieval_query =
  rq_text :: string
  rq_limit :: usize
  rq_channels :: "retrieval_channel btree_set"

record retrieval_error =
  re_provider :: string
  re_message :: string

type_synonym 'a retrieval_result = "('a, retrieval_error) result"

definition retrieval_error_new :: "string \<Rightarrow> string \<Rightarrow> retrieval_error" where
  "retrieval_error_new provider message = \<lparr> re_provider = provider, re_message = message \<rparr>"

definition retrieval_query_new :: "string \<Rightarrow> usize \<Rightarrow> retrieval_query retrieval_result" where
  "retrieval_query_new text limit =
    (if text = [] \<or> trim text \<noteq> text
     then Err (retrieval_error_new ''query'' ''text must be non-empty and trimmed'')
     else if limit = 0
     then Err (retrieval_error_new ''query'' ''limit must be greater than zero'')
     else Ok \<lparr> rq_text = text, rq_limit = limit, rq_channels = [] \<rparr>)"

definition query_include :: "retrieval_query \<Rightarrow> retrieval_channel \<Rightarrow> retrieval_query" where
  "query_include q channel = q\<lparr>rq_channels := bs_insert (rq_channels q) channel\<rparr>"

record retrieval_hit =
  rh_entity :: entity_id
  rh_channel :: retrieval_channel
  rh_score :: u32

record retrieval_source =
  rs_provider :: string
  rs_channel :: retrieval_channel
  rs_rank :: usize
  rs_raw_score :: u32

record fused_hit =
  fh_entity :: entity_id
  fh_score :: u64
  fh_sources :: "retrieval_source list"

record retrieval_provider =
  rp_name :: string
  rp_retrieve :: "retrieval_query \<Rightarrow> retrieval_hit list retrieval_result"

definition from_retrieval_error :: "retrieval_error \<Rightarrow> memory_error" where
  "from_retrieval_error e = RetrievalFailed (re_provider e) (re_message e)"

section \<open>Rank fusion\<close>

definition rrf_k :: u64 where "rrf_k = 60"
definition rrf_scale :: u64 where "rrf_scale = 1000000000"

definition saturating_add_u64 :: "u64 \<Rightarrow> u64 \<Rightarrow> u64" where
  "saturating_add_u64 a b = (case checked_add a b of Some c \<Rightarrow> c | None \<Rightarrow> - 1)"

fun validate_names :: "string btree_set \<Rightarrow> retrieval_provider list \<Rightarrow> unit retrieval_result" where
  "validate_names names [] = Ok ()"
| "validate_names names (p # ps) =
    (if rp_name p = [] \<or> trim (rp_name p) \<noteq> rp_name p
     then Err (retrieval_error_new ''provider'' ''provider names must be non-empty and trimmed'')
     else if bs_contains names (rp_name p)
     then Err (retrieval_error_new (rp_name p) ''provider names must be unique'')
     else validate_names (bs_insert names (rp_name p)) ps)"

definition validate_providers :: "retrieval_provider list \<Rightarrow> unit retrieval_result" where
  "validate_providers ps = validate_names [] ps"

definition hit_key :: "retrieval_hit \<Rightarrow> u32 reverse \<times> entity_id \<times> retrieval_channel" where
  "hit_key h = (Reverse (rh_score h), rh_entity h, rh_channel h)"

text \<open>\<open>retain(|hit| seen.insert(hit.entity))\<close>: the first hit of every entity.\<close>

fun first_hits :: "entity_id btree_set \<Rightarrow> retrieval_hit list \<Rightarrow> retrieval_hit list" where
  "first_hits seen [] = []"
| "first_hits seen (h # hs) =
    (if bs_contains seen (rh_entity h) then first_hits seen hs
     else h # first_hits (bs_insert seen (rh_entity h)) hs)"

definition ranked_hits :: "retrieval_query \<Rightarrow> retrieval_hit list \<Rightarrow> retrieval_hit list" where
  "ranked_hits q hits =
    take (rq_limit q) (first_hits [] (sort_key hit_key
      (filter (\<lambda>h. rq_channels q = [] \<or> bs_contains (rq_channels q) (rh_channel h)) hits)))"

definition contribution :: "usize \<Rightarrow> u64" where
  "contribution rank = rrf_scale div (rrf_k + of_nat rank)"

definition fuse_hit ::
  "string \<Rightarrow> (entity_id, fused_hit) btree_map \<Rightarrow> usize \<times> retrieval_hit \<Rightarrow> (entity_id, fused_hit) btree_map" where
  "fuse_hit name fused oh =
    (let (offset, h) = oh;
         rank = offset + 1;
         entry = (case bt_get fused (rh_entity h) of
                    Some entry \<Rightarrow> entry
                  | None \<Rightarrow> \<lparr> fh_entity = rh_entity h, fh_score = 0, fh_sources = [] \<rparr>)
     in bt_insert fused (rh_entity h)
          (entry\<lparr> fh_score := saturating_add_u64 (fh_score entry) (contribution rank),
                  fh_sources := fh_sources entry @
                    [\<lparr> rs_provider = name, rs_channel = rh_channel h, rs_rank = rank, rs_raw_score = rh_score h \<rparr>] \<rparr>))"

definition fuse_provider ::
  "retrieval_query \<Rightarrow> (entity_id, fused_hit) btree_map \<Rightarrow> retrieval_provider \<Rightarrow>
   (entity_id, fused_hit) btree_map retrieval_result" where
  "fuse_provider q fused p =
    and_then (rp_retrieve p q) (\<lambda>hits. Ok (foldl (fuse_hit (rp_name p)) fused (List.enumerate 0 (ranked_hits q hits))))"

definition fused_key :: "fused_hit \<Rightarrow> u64 reverse \<times> entity_id" where
  "fused_key h = (Reverse (fh_score h), fh_entity h)"

definition fuse_retrieval :: "retrieval_provider list \<Rightarrow> retrieval_query \<Rightarrow> fused_hit list retrieval_result" where
  "fuse_retrieval providers q =
    (let ps = sort_key rp_name providers
     in and_then (validate_providers ps) (\<lambda>_.
        and_then (try_fold (fuse_provider q) [] ps) (\<lambda>fused.
          Ok (take (rq_limit q) (sort_key fused_key (bt_values fused))))))"

section \<open>Contexts from free text (\<open>retrieved.rs\<close>)\<close>

record 'graph retrieved_bundle =
  rb_context :: "'graph context_bundle"
  rb_retrieval :: "fused_hit list"

definition compile_with_retrieval ::
  "('kind, 'node, 'node_id, 'ev, 'prov, 'ekind, 'edge, 'graph) graph_api \<Rightarrow> token_estimator \<Rightarrow>
   memory_projection \<Rightarrow> context_request \<Rightarrow> retrieval_query \<Rightarrow> retrieval_provider list \<Rightarrow>
   'graph retrieved_bundle fallible"
where
  "compile_with_retrieval api est p r q providers =
    (case fuse_retrieval providers q of
       Err e \<Rightarrow> Err (Fault (from_retrieval_error e))
     | Ok retrieval \<Rightarrow>
         (let seeds = map fh_entity (filter (\<lambda>h. visible_node p (fh_entity h) (cr_known_at r) \<noteq> None) retrieval)
          in if seeds = []
             then Err (Fault (RetrievalFailed ''fusion'' ''no retrieved entity exists in this projection''))
             else and_then (compile api est p (r\<lparr>cr_seeds := seeds\<rparr>)) (\<lambda>context.
               Ok \<lparr> rb_context = context, rb_retrieval = retrieval \<rparr>)))"

section \<open>The order of the providers does not matter\<close>

lemma validate_names_iff:
  "validate_names names ps = Ok () \<longleftrightarrow>
    (\<forall>p \<in> set ps. trimmed (rp_name p)) \<and> distinct (map rp_name ps) \<and>
    (\<forall>p \<in> set ps. \<not> bs_contains names (rp_name p))"
proof (induction ps arbitrary: names)
  case (Cons p ps)
  show ?case using Cons.IH [of "bs_insert names (rp_name p)"] by (force simp: trimmed_def image_iff)
qed simp

lemma validate_names_cong:
  "map rp_name ps = map rp_name qs \<Longrightarrow> validate_names names ps = validate_names names qs"
proof (induction ps arbitrary: qs names)
  case (Cons p ps)
  then obtain q qs' where "qs = q # qs'" "rp_name q = rp_name p" "map rp_name ps = map rp_name qs'"
    by (cases qs) auto
  with Cons.IH [of qs'] show ?case by simp
qed auto

lemma map_sort_key: "map f (sort_key f xs) = sort (map f xs)"
  by (rule properties_for_sort [symmetric]) (auto simp: mset_map)

lemma sort_mset_cong: "mset xs = mset ys \<Longrightarrow> sort xs = sort ys"
  by (rule properties_for_sort) simp_all

lemma sort_map_cong: "mset xs = mset ys \<Longrightarrow> sort (map f xs) = sort (map f ys)"
  by (rule sort_mset_cong) (simp add: mset_map)

lemma sort_key_unique:
  assumes "mset xs = mset ys" "distinct (map f xs)"
  shows "sort_key f xs = sort_key f ys"
proof (rule map_inj_on)
  show "map f (sort_key f xs) = map f (sort_key f ys)"
    unfolding map_sort_key by (rule sort_map_cong [OF assms(1)])
  have "set ys = set xs" using assms(1) by (metis mset_eq_setD)
  then show "inj_on f (set (sort_key f xs) \<union> set (sort_key f ys))" using assms(2) by (simp add: distinct_map)
qed

lemma fuse_retrieval_permute:
  assumes "mset ps = mset qs"
  shows "fuse_retrieval ps q = fuse_retrieval qs q"
proof -
  have names: "validate_providers (sort_key rp_name ps) = validate_providers (sort_key rp_name qs)"
    unfolding validate_providers_def
    by (rule validate_names_cong) (simp only: map_sort_key sort_map_cong [OF assms])
  show ?thesis
  proof (cases "validate_providers (sort_key rp_name ps)")
    case (Ok u)
    then have "distinct (map rp_name (sort_key rp_name ps))" by (cases u) (simp add: validate_providers_def validate_names_iff)
    then have "distinct (map rp_name ps)" by (simp add: distinct_map)
    from sort_key_unique [OF assms this] show ?thesis by (simp add: fuse_retrieval_def)
  next
    case (Err e)
    then show ?thesis using names by (simp add: fuse_retrieval_def)
  qed
qed

text \<open>
rank fusion does not depend on the order in which the providers are passed: any permutation of
  the providers gives the same hits with the same scores, or the same error.
\<close>

theorem fusion_ignores_provider_order:
  assumes "mset ps = mset qs"
  shows "fuse_retrieval ps q = fuse_retrieval qs q"
  by (rule fuse_retrieval_permute [OF assms])

section \<open>What fusion computes\<close>

text \<open>The sources of an entity, provider by provider.\<close>

definition hit_sources :: "string \<Rightarrow> (usize \<times> retrieval_hit) list \<Rightarrow> entity_id \<Rightarrow> retrieval_source list" where
  "hit_sources name hits e =
    map (\<lambda>(offset, h). \<lparr> rs_provider = name, rs_channel = rh_channel h, rs_rank = offset + 1, rs_raw_score = rh_score h \<rparr>)
      (filter (\<lambda>(offset, h). rh_entity h = e) hits)"

definition provider_sources :: "retrieval_query \<Rightarrow> retrieval_provider \<Rightarrow> entity_id \<Rightarrow> retrieval_source list" where
  "provider_sources q p e =
    (case rp_retrieve p q of
       Err _ \<Rightarrow> []
     | Ok hits \<Rightarrow> hit_sources (rp_name p) (List.enumerate 0 (ranked_hits q hits)) e)"

definition sources_of :: "retrieval_query \<Rightarrow> retrieval_provider list \<Rightarrow> entity_id \<Rightarrow> retrieval_source list" where
  "sources_of q ps e = concat (map (\<lambda>p. provider_sources q p e) ps)"

definition score_of :: "retrieval_source list \<Rightarrow> u64" where
  "score_of sources = foldl (\<lambda>score s. saturating_add_u64 score (contribution (rs_rank s))) 0 sources"

definition fused_with :: "(entity_id, fused_hit) btree_map \<Rightarrow> (entity_id \<Rightarrow> retrieval_source list) \<Rightarrow> bool" where
  "fused_with fused srcs \<longleftrightarrow> bt_ok fused \<and>
    (\<forall>e. bt_get fused e = (if srcs e = [] then None
       else Some \<lparr> fh_entity = e, fh_score = score_of (srcs e), fh_sources = srcs e \<rparr>))"

lemma hit_sources_Nil [simp]:
  "hit_sources name [] e = []"
  by (simp add: hit_sources_def)

lemma hit_sources_Cons: "hit_sources name (oh # ohs) e = hit_sources name [oh] e @ hit_sources name ohs e"
  by (simp add: hit_sources_def)

lemma fuse_hit_with:
  assumes "fused_with fused srcs"
  shows "fused_with (fuse_hit name fused oh) (\<lambda>e. srcs e @ hit_sources name [oh] e)"
  using assms by (cases oh) (auto simp: fused_with_def fuse_hit_def hit_sources_def score_of_def Let_def)

lemma fuse_hits_with:
  "fused_with fused srcs \<Longrightarrow>
    fused_with (foldl (fuse_hit name) fused ohs) (\<lambda>e. srcs e @ hit_sources name ohs e)"
proof (induction ohs arbitrary: fused srcs)
  case (Cons oh ohs)
  from Cons.IH [OF fuse_hit_with [OF Cons.prems, of name oh]]
  show ?case by (simp add: hit_sources_Cons [of name oh ohs])
qed simp

lemma fuse_provider_Ok: "fuse_provider q fused p = Ok fused' \<longleftrightarrow> (\<exists>hits. rp_retrieve p q = Ok hits \<and>
    fused' = foldl (fuse_hit (rp_name p)) fused (List.enumerate 0 (ranked_hits q hits)))"
  by (auto simp: fuse_provider_def result_simps)

lemma fuse_providers_with:
  "try_fold (fuse_provider q) fused ps = Ok fused' \<Longrightarrow> fused_with fused srcs \<Longrightarrow>
    fused_with fused' (\<lambda>e. srcs e @ sources_of q ps e)"
proof (induction ps arbitrary: fused srcs)
  case (Cons p ps)
  from Cons.prems(1) obtain hits where hits: "rp_retrieve p q = Ok hits" and
    rest: "try_fold (fuse_provider q) (foldl (fuse_hit (rp_name p)) fused (List.enumerate 0 (ranked_hits q hits))) ps = Ok fused'"
    by (auto simp: fuse_provider_Ok and_then_Ok)
  from Cons.IH [OF rest fuse_hits_with [OF Cons.prems(2)]] hits
  show ?case by (simp add: sources_of_def provider_sources_def)
qed (simp add: sources_of_def)

lemma unat_saturating: "unat (saturating_add_u64 a b) = min (unat a + unat b) (2 ^ 64 - 1)"
proof (cases "checked_add a b")
  case None
  then have "2 ^ 64 \<le> unat a + unat b" by (simp add: checked_add_def split: if_splits)
  then show ?thesis using None by (simp add: saturating_add_u64_def unsigned_minus_1_eq_mask mask_eq_exp_minus_1)
next
  case (Some c)
  then show ?thesis using checked_add_unat [OF Some] Some [unfolded checked_add_Some] Some by (simp add: saturating_add_u64_def)
qed

lemma unat_contribution: "rank + 60 < 2 ^ 64 \<Longrightarrow> unat (contribution rank) = 1000000000 div (60 + rank)"
proof -
  assume "rank + 60 < 2 ^ 64"
  then have "rrf_k + of_nat rank = (of_nat (60 + rank) :: u64)" "60 + rank < 2 ^ 64" by (simp_all add: rrf_k_def)
  then have "unat (rrf_k + of_nat rank :: u64) = 60 + rank" by (metis unat_of_nat_u64)
  then show ?thesis by (simp add: contribution_def unat_div_distrib rrf_scale_def)
qed

lemma score_snoc: "score_of (ss @ [s]) = saturating_add_u64 (score_of ss) (contribution (rs_rank s))"
  by (simp add: score_of_def)

lemma unat_score:
  "\<forall>s \<in> set ss. rs_rank s + 60 < 2 ^ 64 \<Longrightarrow>
    unat (score_of ss) = min (sum_list (map (\<lambda>s. 1000000000 div (60 + rs_rank s)) ss)) (2 ^ 64 - 1)"
proof (induction ss rule: rev_induct)
  case (snoc s ss)
  then show ?case by (simp add: score_snoc unat_saturating unat_contribution min_def)
qed (simp add: score_of_def)

lemma source_rank:
  assumes "s \<in> set (sources_of q ps e)"
  shows "1 \<le> rs_rank s \<and> rs_rank s \<le> rq_limit q"
proof -
  from assms obtain p where "s \<in> set (provider_sources q p e)" by (auto simp: sources_of_def)
  then obtain hits k h where "(k, h) \<in> set (List.enumerate 0 (ranked_hits q hits))" "rs_rank s = k + 1"
    by (auto simp: provider_sources_def hit_sources_def split: result.splits)
  moreover have "length (ranked_hits q hits) \<le> rq_limit q" by (simp add: ranked_hits_def)
  ultimately show ?thesis by (auto simp: in_set_enumerate_eq)
qed

text \<open>The entry fusion makes for an entity, over the providers in name order.\<close>

definition fused_entry :: "retrieval_query \<Rightarrow> retrieval_provider list \<Rightarrow> entity_id \<Rightarrow> fused_hit" where
  "fused_entry q ps e =
    (let sources = sources_of q (sort_key rp_name ps) e
     in \<lparr> fh_entity = e, fh_score = score_of sources, fh_sources = sources \<rparr>)"

lemma fusion_entries:
  assumes "fuse_retrieval ps q = Ok out"
  shows "\<exists>all. out = take (rq_limit q) all \<and> sorted_wrt (\<lambda>a b. fused_key a < fused_key b) all \<and>
    set all = {fused_entry q ps e | e. sources_of q (sort_key rp_name ps) e \<noteq> []}"
proof -
  let ?ps = "sort_key rp_name ps"
  from assms obtain fused where f: "try_fold (fuse_provider q) [] ?ps = Ok fused"
    and out: "out = take (rq_limit q) (sort_key fused_key (bt_values fused))"
    by (auto simp: fuse_retrieval_def Let_def and_then_Ok)
  have "fused_with [] (\<lambda>_. [])" by (simp add: fused_with_def)
  from fuse_providers_with [OF f this] have "fused_with fused (sources_of q ?ps)" by simp
  then have ok: "bt_ok fused" and get: "bt_get fused e = Some h \<longleftrightarrow> sources_of q ?ps e \<noteq> [] \<and> h = fused_entry q ps e" for e h
    by (auto simp: fused_with_def fused_entry_def Let_def)
  let ?all = "sort_key fused_key (bt_values fused)"
  have all: "set ?all = {fused_entry q ps e | e. sources_of q ?ps e \<noteq> []}"
    using bt_values_in [OF ok] get by auto
  have "map fh_entity (bt_values fused) = bt_keys fused"
    unfolding bt_values_def bt_keys_def map_map
    by (rule map_cong [OF refl]) (use get bt_get_in [OF ok] in \<open>auto simp: fused_entry_def Let_def\<close>)
  then have "distinct (map fh_entity (bt_values fused))" using bt_keys_distinct [OF ok] by simp
  then have "distinct (map fused_key (bt_values fused))"
    by (auto simp: distinct_map inj_on_def fused_key_def)
  then have "distinct (map fused_key ?all)" by (simp add: distinct_map)
  then have "sorted_wrt (<) (map fused_key ?all)" by (simp add: strict_sorted_iff)
  then show ?thesis using out all by (intro exI [of _ ?all]) (simp add: sorted_wrt_map)
qed


section \<open>Retrieved contexts\<close>

lemma compile_with_retrieval_Ok:
  assumes "compile_with_retrieval api est p r q providers = Ok b"
  obtains hits seeds where "fuse_retrieval providers q = Ok hits" "rb_retrieval b = hits"
    "seeds = map fh_entity (filter (\<lambda>h. visible_node p (fh_entity h) (cr_known_at r) \<noteq> None) hits)" "seeds \<noteq> []"
    "compile api est p (r\<lparr>cr_seeds := seeds\<rparr>) = Ok (rb_context b)"
  using assms by (auto simp: compile_with_retrieval_def Let_def and_then_Ok split: result.splits if_splits)

text \<open>
  A context compiled from free text contains, within the token budget, every retrieved entity that
  is visible at the requested time; and when no retrieved entity is visible the compilation fails
  with the retrieval error of the fusion, whatever the request.
\<close>

theorem retrieved_entities_in_context:
  assumes "proj_inv p" "cr_token_budget r < usize_max" "fuse_retrieval providers q = Ok hits"
  shows "(\<forall>b. compile_with_retrieval api est p r q providers = Ok b \<longrightarrow> rb_retrieval b = hits \<and>
      view_tokens est (cb_view (rb_context b)) \<le> cr_token_budget r \<and>
      (\<forall>h \<in> set hits. visible_node p (fh_entity h) (cr_known_at r) \<noteq> None \<longrightarrow>
         fh_entity h \<in> mn_id ` set (view_nodes (cb_view (rb_context b))))) \<and>
    ((\<forall>h \<in> set hits. visible_node p (fh_entity h) (cr_known_at r) = None) \<longrightarrow>
      compile_with_retrieval api est p r q providers =
        Err (Fault (RetrievalFailed ''fusion'' ''no retrieved entity exists in this projection'')))"
proof -
  have ok: "rb_retrieval b = hits \<and> view_tokens est (cb_view (rb_context b)) \<le> cr_token_budget r \<and>
      (\<forall>h \<in> set hits. visible_node p (fh_entity h) (cr_known_at r) \<noteq> None \<longrightarrow>
         fh_entity h \<in> mn_id ` set (view_nodes (cb_view (rb_context b))))"
    if b: "compile_with_retrieval api est p r q providers = Ok b" for b
  proof -
    let ?seeds = "map fh_entity (filter (\<lambda>h. visible_node p (fh_entity h) (cr_known_at r) \<noteq> None) hits)"
    let ?r = "r\<lparr>cr_seeds := ?seeds\<rparr>"
    from compile_with_retrieval_Ok [OF b] assms(3)
    have c: "rb_retrieval b = hits" "compile api est p ?r = Ok (rb_context b)" by auto
    have budget: "cr_token_budget ?r < usize_max" using assms(2) by simp
    from compile_stages [OF assms(1) budget c(2)] obtain s cs where
      stages: "compiled est p ?r s cs (cb_view (rb_context b))" by blast
    have "view_tokens est (cb_view (rb_context b)) \<le> cr_token_budget r"
      using compiled_tokens [OF stages] by simp
    moreover have "set ?seeds \<subseteq> set (bs_items (sl_selected s))"
      using stages by (auto simp: compiled_def bs_contains_items)
    moreover have "set (bs_items (sl_selected s)) = mn_id ` set (view_nodes (cb_view (rb_context b)))"
      using compiled_view(1) [OF assms(1) stages] by (metis set_map)
    ultimately show ?thesis using c(1) by auto
  qed
  have "compile_with_retrieval api est p r q providers =
      Err (Fault (RetrievalFailed ''fusion'' ''no retrieved entity exists in this projection''))"
    if "\<forall>h \<in> set hits. visible_node p (fh_entity h) (cr_known_at r) = None"
  proof -
    have "filter (\<lambda>h. visible_node p (fh_entity h) (cr_known_at r) \<noteq> None) hits = []" using that by (auto simp: filter_empty_conv)
    then show ?thesis using assms(3) by (simp add: compile_with_retrieval_def)
  qed
  with ok show ?thesis by blast
qed

section \<open>A small fusion\<close>

definition demo_retriever :: "string \<Rightarrow> retrieval_hit list \<Rightarrow> retrieval_provider" where
  "demo_retriever name hits = \<lparr> rp_name = name, rp_retrieve = \<lambda>_. Ok hits \<rparr>"

definition demo_providers :: "retrieval_provider list" where
  "demo_providers =
    [demo_retriever ''vector'' [\<lparr> rh_entity = TextId ''b'', rh_channel = Semantic, rh_score = 9 \<rparr>],
     demo_retriever ''bm25'' [\<lparr> rh_entity = TextId ''a'', rh_channel = Lexical, rh_score = 5 \<rparr>,
                            \<lparr> rh_entity = TextId ''b'', rh_channel = Lexical, rh_score = 7 \<rparr>]]"

definition demo_query :: retrieval_query where
  "demo_query = \<lparr> rq_text = ''label'', rq_limit = 2, rq_channels = [] \<rparr>"

lemma demo_provider_names: "trimmed ''vector''" "trimmed ''bm25''"
  by (simp_all add: trimmed_code white_space_def suffix_def prefix_def)

lemma demo_fusion:
  "\<exists>a b. fuse_retrieval demo_providers demo_query = Ok [b, a] \<and> fh_entity b = TextId ''b'' \<and> fh_entity a = TextId ''a'' \<and>
    fh_score b = 32786884 \<and> fh_score a = 16129032"
  using demo_provider_names
  by (simp add: fuse_retrieval_def demo_providers_def demo_retriever_def demo_query_def Let_def validate_providers_def
      trimmed_def fuse_provider_def ranked_hits_def hit_key_def fuse_hit_def bt_get_def
      contribution_def rrf_scale_def rrf_k_def saturating_add_u64_def checked_add_def bt_values_def fused_key_def
      bs_contains_def)

theorem fusion_ignores_provider_order_witness:
  "fuse_retrieval (rev demo_providers) demo_query = fuse_retrieval demo_providers demo_query"
  by (rule fusion_ignores_provider_order) simp


abbreviation demo_seeded :: context_request where
  "demo_seeded \<equiv> demo_request\<lparr>cr_seeds := [TextId ''b'', TextId ''a'']\<rparr>"

lemma demo_retrieved:
  "\<exists>b. compile_with_retrieval demo_api (bytes_estimator bytes_token_estimator_default) demo_memory demo_request
     demo_query demo_providers = Ok b"
proof -
  have active: "fact_is_active demo_memory demo_fact (clock_of demo_seeded)"
    using demo_context_active by (simp add: clock_of_def)
  have nb: "neighborhood demo_memory demo_seeded = Ok (demo_neighborhood\<lparr>nb_distances := [(TextId ''a'', 0), (TextId ''b'', 0)]\<rparr>)"
    by (simp add: neighborhood_def sort_dedup_def seed_step_def scoped_node_def empty_search_def
        demo_context_visible demo_context_incident active node_allowed_def relation_allowed_def
        search_loop.simps expand_def bt_index_def expect_def bt_get_def visit_fact_def other_end_def Let_def
        bt_retain_def demo_neighborhood_def)
  have "\<exists>b. compile demo_api (bytes_estimator bytes_token_estimator_default) demo_memory demo_seeded = Ok b"
    by (simp add: compile_def nb demo_neighborhood_def select_seeds_def sort_dedup_def seed_cost_def
        bt_get_def demo_costs sorted_candidates_def bt_values_def candidate_key_def bt_index_def expect_def select_fact_def
        missing_nodes_def bs_contains_def Let_def saturating_add_usize_def usize_max_def bt_keys_def demo_graph)
  moreover obtain a b where "fuse_retrieval demo_providers demo_query = Ok [b, a]" "fh_entity b = TextId ''b''"
    "fh_entity a = TextId ''a''" using demo_fusion by blast
  ultimately show ?thesis by (auto simp: compile_with_retrieval_def demo_context_visible)
qed

theorem retrieved_entities_in_context_witness:
  "\<exists>b. compile_with_retrieval demo_api (bytes_estimator bytes_token_estimator_default) demo_memory demo_request
      demo_query demo_providers = Ok b \<and> TextId ''b'' \<in> mn_id ` set (view_nodes (cb_view (rb_context b)))"
proof -
  obtain a b where hits: "fuse_retrieval demo_providers demo_query = Ok [b, a]" "fh_entity b = TextId ''b''"
    using demo_fusion by blast
  obtain c where c: "compile_with_retrieval demo_api (bytes_estimator bytes_token_estimator_default) demo_memory
    demo_request demo_query demo_providers = Ok c" using demo_retrieved by blast
  from retrieved_entities_in_context [OF demo_inv demo_budget hits(1)] c hits(2) demo_context_visible
  show ?thesis by (intro exI [of _ c]) auto
qed

end
