(* ===== verification/Analytics_Base.thy ===== *)
theory Analytics_Base
  imports Graph_Projection
begin

text \<open>
  What the analyses of \<open>src/src/analytics\<close> share: ASCII case folding,
  saturating arithmetic, and the queries of the graph library
  \<open>weavatrix_graph\<close>, which is outside the repository and stays a parameter (\<open>graph_queries\<close>).
\<close>

section \<open>ASCII case (bytes above 127 are left alone)\<close>

definition ascii_lower :: "char \<Rightarrow> char" where
  "ascii_lower c = (let n = (of_char c :: nat) in if 65 \<le> n \<and> n \<le> 90 then char_of (n + 32) else c)"

definition to_ascii_lowercase :: "string \<Rightarrow> string" where
  "to_ascii_lowercase = map ascii_lower"

definition eq_ignore_ascii_case :: "string \<Rightarrow> string \<Rightarrow> bool" where
  "eq_ignore_ascii_case a b \<longleftrightarrow> to_ascii_lowercase a = to_ascii_lowercase b"

section \<open>Saturating arithmetic\<close>

definition usize_sat_add :: "nat \<Rightarrow> nat \<Rightarrow> nat" where
  "usize_sat_add a b = min (a + b) usize_max"

definition usize_sat_mul :: "nat \<Rightarrow> nat \<Rightarrow> nat" where
  "usize_sat_mul a b = min (a * b) usize_max"

definition unwrap_or :: "'a option \<Rightarrow> 'a \<Rightarrow> 'a" where
  "unwrap_or x a = (case x of Some b \<Rightarrow> b | None \<Rightarrow> a)"

definition i64_sat :: "int \<Rightarrow> int" where
  "i64_sat x = max (- (2 ^ 63)) (min x (2 ^ 63 - 1))"

lemma unwrap_or_Some [simp]: "unwrap_or (Some a) b = a"
  by (simp add: unwrap_or_def)

section \<open>Revisions of a belief\<close>

definition revision_order :: "memory_fact list \<Rightarrow> memory_fact list" where
  "revision_order facts = sort_key (\<lambda>f. (mf_recorded_at f, mf_id f)) facts"

definition revisions :: "memory_projection \<Rightarrow> timestamp \<Rightarrow> (entity_id \<times> string, memory_fact list) btree_map" where
  "revisions p known =
    group_by (\<lambda>f. (mf_source f, mf_relation f)) (filter (\<lambda>f. mf_recorded_at f \<le> known) (mp_facts p))"

definition revisions_of :: "memory_projection \<Rightarrow> timestamp \<Rightarrow> entity_id \<Rightarrow> string \<Rightarrow> memory_fact list" where
  "revisions_of p known entity relation =
    filter (\<lambda>f. mf_recorded_at f \<le> known \<and> mf_source f = entity \<and> mf_relation f = relation) (mp_facts p)"

lemma revision_order_simps [simp]:
  "set (revision_order fs) = set fs" "length (revision_order fs) = length fs"
  "length (filter P (revision_order fs)) = length (filter P fs)" "revision_order fs = [] \<longleftrightarrow> fs = []"
proof -
  show l: "length (revision_order fs) = length fs" by (simp add: revision_order_def)
  show "set (revision_order fs) = set fs" by (simp add: revision_order_def)
  show "revision_order fs = [] \<longleftrightarrow> fs = []" using l by (metis length_0_conv)
  show "length (filter P (revision_order fs)) = length (filter P fs)"
    by (simp add: revision_order_def filter_sort)
qed

lemma revisions_in:
  "((i, relation), fs) \<in> set (revisions p known) \<longleftrightarrow> fs = revisions_of p known i relation \<and> fs \<noteq> []"
  by (simp add: revisions_def group_by_in revisions_of_def conj_ac)

section \<open>The graph library\<close>

text \<open>
  Node indexes are abstract; a node is represented by the text of its identifier, the only part of
  it the code reads.
\<close>

record ('graph, 'index) graph_queries =
  gq_node_index :: "'graph \<Rightarrow> string \<Rightarrow> 'index option"
  gq_node_at :: "'graph \<Rightarrow> 'index \<Rightarrow> string option"
  gq_nodes :: "'graph \<Rightarrow> string list"
  gq_outgoing_neighbors_at :: "'graph \<Rightarrow> 'index \<Rightarrow> 'index list"
  gq_bfs :: "'graph \<Rightarrow> 'index \<Rightarrow> 'index list"
  gq_in_degree :: "'graph \<Rightarrow> 'index \<Rightarrow> usize option"
  gq_out_degree :: "'graph \<Rightarrow> 'index \<Rightarrow> usize option"

end
