(* ===== verification/Drift.thy ===== *)
theory Drift
  imports Analytics_Base
begin

text \<open>
  Belief drift, \<open>src/src/analytics/drift.rs\<close>: the timeline of the facts a source asserts under one
  relation, the classification of each change, and the stability score in basis points.
\<close>

datatype change_kind = Initial | Refined | Corrected | Reinforced | Weakened

record drift_snapshot =
  ds_fact :: fact_id
  ds_target :: entity_id
  ds_recorded_at :: timestamp
  ds_confidence_bps :: u16
  ds_change :: change_kind

record drift_report =
  dr_source :: entity_id
  dr_relation :: string
  dr_snapshots :: "drift_snapshot list"
  dr_correction_count :: usize
  dr_stability_bps :: u16
  dr_likely_to_change :: bool

definition classify :: "memory_fact \<Rightarrow> memory_fact \<Rightarrow> change_kind" where
  "classify prior current =
    (if mf_supersedes current = Some (mf_id prior) \<or> mf_target current \<noteq> mf_target prior then Corrected
     else if mf_confidence current > mf_confidence prior then Reinforced
     else if mf_confidence current < mf_confidence prior then Weakened
     else Refined)"

definition stability :: "drift_snapshot list \<Rightarrow> usize \<Rightarrow> u16" where
  "stability snapshots corrections =
    (let transitions = length snapshots - 1
     in if transitions = 0 then 10000
        else let other = transitions - corrections;
                 penalty = min (usize_sat_add (usize_sat_mul corrections 6000) (usize_sat_mul other 1000) div transitions) 10000
             in unwrap_or (u16_try_from (10000 - penalty)) 0)"

definition timeline_key :: "memory_fact \<Rightarrow> timestamp \<times> fact_id" where
  "timeline_key f = (mf_recorded_at f, mf_id f)"

definition timeline :: "memory_projection \<Rightarrow> entity_id \<Rightarrow> string \<Rightarrow> timestamp \<Rightarrow> memory_fact list" where
  "timeline p source relation known =
    sort_key timeline_key (filter (\<lambda>f. mf_source f = source \<and> mf_relation f = relation \<and> mf_recorded_at f \<le> known) (mp_facts p))"

definition drift_snapshots :: "memory_fact list \<Rightarrow> drift_snapshot list" where
  "drift_snapshots facts =
    map (\<lambda>(index, f).
      \<lparr> ds_fact = mf_id f, ds_target = mf_target f, ds_recorded_at = mf_recorded_at f,
        ds_confidence_bps = basis_points (mf_confidence f),
        ds_change = (if index = 0 then Initial else classify (facts ! (index - 1)) f) \<rparr>) (List.enumerate 0 facts)"

definition drift :: "memory_projection \<Rightarrow> entity_id \<Rightarrow> string \<Rightarrow> timestamp \<Rightarrow> drift_report memory_result" where
  "drift p source relation known =
    (if relation = [] \<or> trim relation \<noteq> relation then Err (InvalidValue ''drift.relation'' must_be_trimmed)
     else
       (let snapshots = drift_snapshots (timeline p source relation known);
            correction_count = length (filter (\<lambda>s. ds_change s = Corrected) snapshots);
            stability_bps = stability snapshots correction_count
        in Ok \<lparr> dr_source = source, dr_relation = relation, dr_snapshots = snapshots,
                dr_correction_count = correction_count, dr_stability_bps = stability_bps,
                dr_likely_to_change = (correction_count \<ge> 2 \<or> stability_bps < 6000) \<rparr>))"

section \<open>The stability score\<close>

lemma length_drift_snapshots [simp]: "length (drift_snapshots fs) = length fs"
  by (simp add: drift_snapshots_def)

lemma nth_drift_snapshots:
  "i < length fs \<Longrightarrow> drift_snapshots fs ! i =
    \<lparr> ds_fact = mf_id (fs ! i), ds_target = mf_target (fs ! i), ds_recorded_at = mf_recorded_at (fs ! i),
      ds_confidence_bps = basis_points (mf_confidence (fs ! i)),
      ds_change = (if i = 0 then Initial else classify (fs ! (i - 1)) (fs ! i)) \<rparr>"
  by (simp add: drift_snapshots_def nth_enumerate_eq)

lemma corrections_le:
  assumes "fs \<noteq> []"
  shows "length (filter (\<lambda>s. ds_change s = Corrected) (drift_snapshots fs)) \<le> length fs - 1"
proof -
  obtain s ss where ss: "drift_snapshots fs = s # ss" using assms length_drift_snapshots [of fs] by (cases "drift_snapshots fs") auto
  have "ds_change s = Initial" using nth_drift_snapshots [of 0 fs] assms ss by simp
  then have "length (filter (\<lambda>s. ds_change s = Corrected) (drift_snapshots fs)) \<le> length ss"
    using ss length_filter_le [of "\<lambda>s. ds_change s = Corrected" ss] by simp
  then show ?thesis using length_drift_snapshots [of fs] ss by simp
qed

lemma stability_exact:
  assumes t: "length snapshots = Suc t" "0 < t" and c: "c \<le> t" and fits: "6000 * t < 2 ^ 64"
  shows "unat (stability snapshots c) = 10000 - (6000 * c + 1000 * (t - c)) div t"
    and "1000 \<le> (6000 * c + 1000 * (t - c)) div t" "(6000 * c + 1000 * (t - c)) div t \<le> 6000"
proof -
  let ?n = "6000 * c + 1000 * (t - c)"
  have n: "1000 * t \<le> ?n" "?n \<le> 6000 * t" using c by auto
  show lo: "1000 \<le> ?n div t" using n(1) t(2) by (simp add: less_eq_div_iff_mult_less_eq)
  have "?n div t \<le> 6000 * t div t" by (rule div_le_mono [OF n(2)])
  then show hi: "?n div t \<le> 6000" using t(2) by simp
  have "usize_sat_add (usize_sat_mul c 6000) (usize_sat_mul (t - c) 1000) = ?n"
    using n fits c by (simp add: usize_sat_add_def usize_sat_mul_def usize_max_def)
  then have "stability snapshots c = of_nat (10000 - ?n div t)"
    using t hi by (simp add: stability_def u16_try_from_bps)
  then show "unat (stability snapshots c) = 10000 - ?n div t" using lo by simp
qed

text \<open>
  C26: the stability score of a drift report is the documented weighted mean: 10,000 basis points for at
  most one assertion, and otherwise 10,000 less the average penalty of the transitions, 6,000 for a
  correction and 1,000 for any other change; so it always lies between 4,000 and 10,000, the
  saturating arithmetic never saturates, and a belief is called likely to change exactly when it
  was corrected twice or its score is below 6,000.
\<close>

theorem drift_stability_bounded:
  assumes "drift p source relation known = Ok r" "6000 * length (dr_snapshots r) < 2 ^ 64"
  shows "4000 \<le> unat (dr_stability_bps r) \<and> unat (dr_stability_bps r) \<le> 10000 \<and>
    (length (dr_snapshots r) \<le> 1 \<longleftrightarrow> dr_stability_bps r = 10000) \<and>
    (\<forall>t. length (dr_snapshots r) = Suc t \<and> 0 < t \<longrightarrow> dr_correction_count r \<le> t \<and>
       unat (dr_stability_bps r) = 10000 - (6000 * dr_correction_count r + 1000 * (t - dr_correction_count r)) div t) \<and>
    (dr_likely_to_change r \<longleftrightarrow> 2 \<le> dr_correction_count r \<or> unat (dr_stability_bps r) < 6000)"
proof -
  let ?fs = "timeline p source relation known"
  have r: "dr_snapshots r = drift_snapshots ?fs" "dr_correction_count r = length (filter (\<lambda>s. ds_change s = Corrected) (dr_snapshots r))"
    "dr_stability_bps r = stability (dr_snapshots r) (dr_correction_count r)"
    "dr_likely_to_change r \<longleftrightarrow> dr_correction_count r \<ge> 2 \<or> dr_stability_bps r < 6000"
    using assms(1) by (auto simp: drift_def Let_def split: if_splits)
  have likely: "dr_likely_to_change r \<longleftrightarrow> 2 \<le> dr_correction_count r \<or> unat (dr_stability_bps r) < 6000"
    unfolding r(4) by (simp add: word_less_nat_alt)
  show ?thesis
  proof (cases "length (dr_snapshots r) \<le> 1")
    case True
    then have "dr_stability_bps r = 10000" unfolding r(3) stability_def by simp
    with True likely show ?thesis by auto
  next
    case False
    then obtain t where t: "length (dr_snapshots r) = Suc t" "0 < t" by (cases "length (dr_snapshots r)") auto
    have "?fs \<noteq> []" using t r(1) by auto
    from corrections_le [OF this] have c: "dr_correction_count r \<le> t" using r(1,2) t(1) by simp
    have fits: "6000 * t < 2 ^ 64" using assms(2) t(1) by simp
    note st = stability_exact [OF t c fits, folded r(3)]
    then have "unat (dr_stability_bps r) \<noteq> 10000" by simp
    then have "dr_stability_bps r \<noteq> 10000" by auto
    then show ?thesis using st t c likely False by auto
  qed
qed

section \<open>The timeline\<close>

lemma timeline_sorted: "sorted_wrt (\<le>) (map timeline_key (timeline p source relation known))"
  by (simp add: timeline_def)

lemma correction_count_eq:
  "length (filter (\<lambda>s. ds_change s = Corrected) (drift_snapshots fs)) =
    card {i. i < length fs \<and> 0 < i \<and> (mf_supersedes (fs ! i) = Some (mf_id (fs ! (i - 1))) \<or> mf_target (fs ! i) \<noteq> mf_target (fs ! (i - 1)))}"
  unfolding length_filter_conv_card
  by (rule arg_cong [where f = card]) (auto simp: nth_drift_snapshots classify_def split: if_splits)

text \<open>
a drift report is faithful to the projection: its snapshots are, in the order of recording and then
  of the identifiers, exactly the facts the source asserts under the relation that were recorded by
  the knowledge time; the first is an initial belief; and the correction count is the number of
  facts that supersede or retarget their predecessor in that order. A relation that is empty or
  padded is refused.
\<close>

theorem drift_report_exact:
  "if trimmed relation then \<exists>r fs. drift p source relation known = Ok r \<and>
      sorted_wrt (\<le>) (map timeline_key fs) \<and>
      set fs = {f \<in> set (mp_facts p). mf_source f = source \<and> mf_relation f = relation \<and> mf_recorded_at f \<le> known} \<and>
      length (dr_snapshots r) = length fs \<and> map ds_fact (dr_snapshots r) = map mf_id fs \<and>
      dr_correction_count r = card {i. i < length fs \<and> 0 < i \<and>
        (mf_supersedes (fs ! i) = Some (mf_id (fs ! (i - 1))) \<or> mf_target (fs ! i) \<noteq> mf_target (fs ! (i - 1)))} \<and>
      (fs = [] \<or> ds_change (hd (dr_snapshots r)) = Initial)
    else drift p source relation known = Err (InvalidValue ''drift.relation'' must_be_trimmed)"
proof (cases "trimmed relation")
  case False
  then show ?thesis by (auto simp: drift_def trimmed_def)
next
  case True
  let ?fs = "timeline p source relation known"
  let ?s = "drift_snapshots ?fs"
  let ?c = "length (filter (\<lambda>s. ds_change s = Corrected) ?s)"
  let ?r = "\<lparr> dr_source = source, dr_relation = relation, dr_snapshots = ?s, dr_correction_count = ?c,
    dr_stability_bps = stability ?s ?c, dr_likely_to_change = (?c \<ge> 2 \<or> stability ?s ?c < 6000) \<rparr>"
  have "drift p source relation known = Ok ?r" using True by (simp add: drift_def trimmed_def Let_def)
  moreover have "set ?fs = {f \<in> set (mp_facts p). mf_source f = source \<and> mf_relation f = relation \<and> mf_recorded_at f \<le> known}"
    by (auto simp: timeline_def)
  moreover have "map ds_fact ?s = map mf_id ?fs" by (rule nth_equalityI) (auto simp: nth_drift_snapshots)
  moreover have "?fs = [] \<or> ds_change (hd ?s) = Initial"
    using nth_drift_snapshots [of 0 ?fs] by (cases "?fs") (auto simp: hd_conv_nth drift_snapshots_def)
  ultimately show ?thesis
    using True timeline_sorted correction_count_eq [of ?fs] by (simp add: exI [of _ ?r]) blast
qed

theorem drift_stability_bounded_witness:
  "\<exists>r. drift (demo_projection [(TextId ''f'', demo_first)] 3) (TextId ''a'') ''calls'' (Timestamp 6) = Ok r \<and>
    dr_stability_bps r = 10000"
proof -
  obtain r where r: "drift (demo_projection [(TextId ''f'', demo_first)] 3) (TextId ''a'') ''calls'' (Timestamp 6) = Ok r"
    "length (dr_snapshots r) = 1"
    using demo_trimmed by (simp add: drift_def Let_def trimmed_def timeline_def demo_projection_def demo_fact_def less_eq_timestamp_def)
  from drift_stability_bounded [OF r(1)] r show ?thesis by simp
qed

end
