(* ===== verification/Gaps.thy ===== *)
theory Gaps
  imports Analytics_Base "HOL-Library.Signed_Division" "HOL-Library.Option_ord"
begin

text \<open>
  Reasoning gaps, \<open>src/src/analytics/gaps.rs\<close>: decisions without support, inferences with too few
  supports, weak or stale facts and unstable beliefs, with severities and a health score in basis
  points.
\<close>

section \<open>Requests and reports (\<open>model.rs\<close>)\<close>

record reasoning_gap_request =
  rg_clock :: projection_clock
  rg_minimum_supports :: usize
  rg_low_confidence_bps :: u16
  rg_unstable_revision_count :: usize
  rg_stale_after_micros :: i64
  rg_max_results :: usize

datatype gap_kind =
    UnjustifiedDecision | SingleSourceInference | LowConfidenceFoundation | UnstableKnowledge | StaleEvidence

fun gap_kind_index :: "gap_kind \<Rightarrow> nat" where
  "gap_kind_index UnjustifiedDecision = 0"
| "gap_kind_index SingleSourceInference = 1"
| "gap_kind_index LowConfidenceFoundation = 2"
| "gap_kind_index UnstableKnowledge = 3"
| "gap_kind_index StaleEvidence = 4"

lemma gap_kind_index_inject: "gap_kind_index a = gap_kind_index b \<Longrightarrow> a = b"
  by (cases a; cases b) auto

instantiation gap_kind :: linorder
begin

definition less_eq_gap_kind :: "gap_kind \<Rightarrow> gap_kind \<Rightarrow> bool" where
  "less_eq_gap_kind a b \<longleftrightarrow> gap_kind_index a \<le> gap_kind_index b"

definition less_gap_kind :: "gap_kind \<Rightarrow> gap_kind \<Rightarrow> bool" where
  "less_gap_kind a b \<longleftrightarrow> gap_kind_index a < gap_kind_index b"

instance
  by standard (auto simp: less_eq_gap_kind_def less_gap_kind_def dest: gap_kind_index_inject)

end

record reasoning_gap =
  gap_entity :: entity_id
  gap_fact :: "fact_id option"
  gap_kind_of :: gap_kind
  gap_severity_bps :: u16
  gap_downstream :: usize
  gap_explanation :: string

record gap_report =
  gr_gaps :: "reasoning_gap list"
  gr_health_bps :: u16
  gr_analyzed_entities :: usize
  gr_analyzed_facts :: usize

section \<open>Severities\<close>

definition support_severity :: "usize \<Rightarrow> usize \<Rightarrow> u16" where
  "support_severity actual required =
    (let missing = required - actual
     in unwrap_or (u16_try_from (min (usize_sat_mul missing 10000 div required) 10000)) 10000)"

definition stale_severity :: "int \<Rightarrow> int \<Rightarrow> u16" where
  "stale_severity age threshold =
    (if threshold = 0 then 10000
     else let ratio = i64_sat (i64_sat (age * 5000) sdiv threshold)
          in unwrap_or (u16_try_from (nat (max 1000 (min ratio 10000)))) 10000)"

definition revision_severity :: "usize \<Rightarrow> u16" where
  "revision_severity count = unwrap_or (u16_try_from (min (usize_sat_mul count 2000) 10000)) 10000"

definition health :: "usize \<Rightarrow> usize \<Rightarrow> u16" where
  "health gaps entities =
    (if entities = 0 then 10000
     else let penalty = usize_sat_mul gaps 10000 div entities
          in unwrap_or (u16_try_from (10000 - min penalty 10000)) 0)"

section \<open>Finding gaps\<close>

definition downstream :: "('graph, 'index) graph_queries \<Rightarrow> 'graph \<Rightarrow> entity_id \<Rightarrow> usize" where
  "downstream gq g entity =
    (case gq_node_index gq g (as_str entity) of None \<Rightarrow> 0 | Some index \<Rightarrow> length (gq_bfs gq g index) - 1)"

definition gap_new ::
  "('graph, 'index) graph_queries \<Rightarrow> 'graph \<Rightarrow> entity_id \<Rightarrow> fact_id option \<Rightarrow> gap_kind \<Rightarrow> u16 \<Rightarrow> string \<Rightarrow> reasoning_gap" where
  "gap_new gq g entity f kind severity explanation =
    \<lparr> gap_entity = entity, gap_fact = f, gap_kind_of = kind, gap_severity_bps = severity,
      gap_downstream = downstream gq g entity, gap_explanation = explanation \<rparr>"

definition validate_gap_request :: "reasoning_gap_request \<Rightarrow> unit memory_result" where
  "validate_gap_request r =
    (if rg_minimum_supports r = 0 \<or> rg_low_confidence_bps r > 10000 \<or> rg_unstable_revision_count r < 2 \<or>
        sint (rg_stale_after_micros r) < 0 \<or> rg_max_results r = 0
     then Err (InvalidValue ''reasoning_gap'' ''thresholds and limits must be in their documented ranges'')
     else Ok ())"

definition is_support :: "memory_fact \<Rightarrow> bool" where
  "is_support f \<longleftrightarrow> to_ascii_lowercase (mf_relation f) \<in> {''supports'', ''supported_by'', ''caused_by''}"

definition count_support :: "(entity_id, usize) btree_map \<Rightarrow> memory_fact \<Rightarrow> (entity_id, usize) btree_map" where
  "count_support m f =
    (if is_support f
     then bt_insert m (mf_target f) ((case bt_get m (mf_target f) of Some n \<Rightarrow> n | None \<Rightarrow> 0) + 1)
     else m)"

definition support_counts :: "memory_fact list \<Rightarrow> (entity_id, usize) btree_map" where
  "support_counts facts = foldl count_support [] facts"

definition node_gap ::
  "('graph, 'index) graph_queries \<Rightarrow> 'graph \<Rightarrow> (entity_id, usize) btree_map \<Rightarrow> reasoning_gap_request \<Rightarrow> memory_node \<Rightarrow>
   reasoning_gap option"
where
  "node_gap gq g counts r n =
    (let supports = (case bt_get counts (mn_id n) of Some k \<Rightarrow> k | None \<Rightarrow> 0)
     in if eq_ignore_ascii_case (mn_kind n) ''decision'' \<and> supports = 0
        then Some (gap_new gq g (mn_id n) None UnjustifiedDecision 10000 ''decision has no incoming support evidence'')
        else if eq_ignore_ascii_case (mn_kind n) ''inference'' \<and> supports < rg_minimum_supports r
        then Some (gap_new gq g (mn_id n) None SingleSourceInference (support_severity supports (rg_minimum_supports r))
                     ''inference has fewer independent supports than required'')
        else None)"

definition fact_gaps ::
  "('graph, 'index) graph_queries \<Rightarrow> 'graph \<Rightarrow> reasoning_gap_request \<Rightarrow> memory_fact \<Rightarrow> reasoning_gap list" where
  "fact_gaps gq g r f =
    (let confidence = basis_points (mf_confidence f);
         age = i64_sat (sint (as_unix_micros (known_at (rg_clock r))) - sint (as_unix_micros (mf_recorded_at f)))
     in (if confidence < rg_low_confidence_bps r
         then [gap_new gq g (mf_target f) (Some (mf_id f)) LowConfidenceFoundation (10000 - confidence)
                 ''active fact confidence is below the requested floor'']
         else []) @
        (if age \<ge> sint (rg_stale_after_micros r)
         then [gap_new gq g (mf_target f) (Some (mf_id f)) StaleEvidence (stale_severity age (sint (rg_stale_after_micros r)))
                 ''active fact has not been refreshed within the requested interval'']
         else []))"

definition unstable_gap ::
  "('graph, 'index) graph_queries \<Rightarrow> 'graph \<Rightarrow> reasoning_gap_request \<Rightarrow> (entity_id \<times> string) \<times> memory_fact list \<Rightarrow>
   reasoning_gap option"
where
  "unstable_gap gq g r entry =
    (let ((entity, _), facts) = entry
     in if length facts < rg_unstable_revision_count r then None
        else let facts = revision_order facts;
                 superseding = length (filter (\<lambda>f. mf_supersedes f \<noteq> None) facts)
             in if superseding + 1 < rg_unstable_revision_count r then None
                else Some (gap_new gq g entity (map_option mf_id (last_of facts)) UnstableKnowledge
                       (revision_severity (length facts)) ''belief has a long explicit supersession history''))"

definition gap_key :: "reasoning_gap \<Rightarrow> u16 reverse \<times> usize reverse \<times> entity_id \<times> gap_kind \<times> fact_id option" where
  "gap_key x = (Reverse (gap_severity_bps x), Reverse (gap_downstream x), gap_entity x, gap_kind_of x, gap_fact x)"

definition all_gaps ::
  "('graph, 'index) graph_queries \<Rightarrow> 'graph \<Rightarrow> memory_projection \<Rightarrow> memory_view \<Rightarrow> reasoning_gap_request \<Rightarrow> reasoning_gap list"
where
  "all_gaps gq g p view r =
    List.map_filter (node_gap gq g (support_counts (view_facts view)) r) (view_nodes view) @
    concat (map (fact_gaps gq g r) (view_facts view)) @
    List.map_filter (unstable_gap gq g r) (revisions p (known_at (rg_clock r)))"

definition reasoning_gaps ::
  "('kind, 'node, 'node_id, 'ev, 'prov, 'ekind, 'edge, 'graph) graph_api \<Rightarrow> ('graph, 'index) graph_queries \<Rightarrow>
   memory_projection \<Rightarrow> reasoning_gap_request \<Rightarrow> gap_report fallible"
where
  "reasoning_gaps api gq p r =
    and_then (returned (validate_gap_request r)) (\<lambda>_.
      let view = view_ref p (rg_clock r)
      in and_then (project_graph api view) (\<lambda>g.
        let gaps = sort_key gap_key (all_gaps gq g p view r)
        in Ok \<lparr> gr_gaps = take (rg_max_results r) gaps,
                gr_health_bps = health (length gaps) (length (view_nodes view)),
                gr_analyzed_entities = length (view_nodes view),
                gr_analyzed_facts = length (view_facts view) \<rparr>))"

section \<open>Scores are basis points\<close>

lemma unat_bps: "n \<le> 10000 \<Longrightarrow> unat (unwrap_or (u16_try_from n) d) = n"
  by (simp add: u16_try_from_bps)

lemma severity_bounds:
  "unat (support_severity a b) \<le> 10000" "unat (stale_severity x y) \<le> 10000" "unat (revision_severity n) \<le> 10000"
  "unat (health m k) \<le> 10000"
proof -
  show "unat (support_severity a b) \<le> 10000" by (simp add: support_severity_def Let_def unat_bps)
  have "nat (max 1000 (min ratio 10000)) \<le> 10000" for ratio :: int by simp
  then show "unat (stale_severity x y) \<le> 10000" by (simp add: stale_severity_def Let_def unat_bps)
  show "unat (revision_severity n) \<le> 10000" by (simp add: revision_severity_def unat_bps)
  show "unat (health m k) \<le> 10000" by (simp add: health_def Let_def unat_bps)
qed

lemma unat_health:
  "0 < entities \<Longrightarrow> 10000 * gaps < 2 ^ 64 \<Longrightarrow> unat (health gaps entities) = 10000 - min (10000 * gaps div entities) 10000"
  by (simp add: health_def Let_def unat_bps usize_sat_mul_def usize_max_def mult.commute)

lemma unat_support_severity:
  "0 < required \<Longrightarrow> 10000 * required < 2 ^ 64 \<Longrightarrow>
    unat (support_severity actual required) = 10000 * (required - actual) div required"
proof -
  assume r: "0 < required" "10000 * required < 2 ^ 64"
  have "10000 * (required - actual) div required \<le> 10000 * required div required" by (rule div_le_mono) simp
  then have "10000 * (required - actual) div required \<le> 10000" using r(1) by simp
  moreover have "usize_sat_mul (required - actual) 10000 = 10000 * (required - actual)"
    using r(2) by (simp add: usize_sat_mul_def usize_max_def)
  ultimately show ?thesis by (simp add: support_severity_def unat_bps min_def)
qed

section \<open>What the gaps mean\<close>

lemma support_counts_get:
  "(case bt_get (support_counts facts) i of Some k \<Rightarrow> k | None \<Rightarrow> 0) = length (filter (\<lambda>f. is_support f \<and> mf_target f = i) facts)"
proof (induction facts rule: rev_induct)
  case (snoc f facts)
  then show ?case by (auto simp: support_counts_def count_support_def)
qed (simp add: support_counts_def)

definition supports_of :: "memory_view \<Rightarrow> entity_id \<Rightarrow> nat" where
  "supports_of view i = length (filter (\<lambda>f. is_support f \<and> mf_target f = i) (view_facts view))"

definition age_at :: "reasoning_gap_request \<Rightarrow> memory_fact \<Rightarrow> int" where
  "age_at r f = i64_sat (sint (as_unix_micros (known_at (rg_clock r))) - sint (as_unix_micros (mf_recorded_at f)))"

text \<open>The condition each kind of gap stands for, with its severity.\<close>

fun gap_condition :: "memory_projection \<Rightarrow> memory_view \<Rightarrow> reasoning_gap_request \<Rightarrow> gap_kind \<Rightarrow> entity_id \<Rightarrow> fact_id option \<Rightarrow> u16 \<Rightarrow> bool" where
  "gap_condition p view r UnjustifiedDecision i f severity \<longleftrightarrow>
    (\<exists>n \<in> set (view_nodes view). mn_id n = i \<and> eq_ignore_ascii_case (mn_kind n) ''decision'') \<and>
    supports_of view i = 0 \<and> f = None \<and> severity = 10000"
| "gap_condition p view r SingleSourceInference i f severity \<longleftrightarrow>
    (\<exists>n \<in> set (view_nodes view). mn_id n = i \<and> eq_ignore_ascii_case (mn_kind n) ''inference'') \<and>
    supports_of view i < rg_minimum_supports r \<and> f = None \<and>
    severity = support_severity (supports_of view i) (rg_minimum_supports r)"
| "gap_condition p view r LowConfidenceFoundation i f severity \<longleftrightarrow>
    (\<exists>x \<in> set (view_facts view). mf_target x = i \<and> f = Some (mf_id x) \<and>
      basis_points (mf_confidence x) < rg_low_confidence_bps r \<and> severity = 10000 - basis_points (mf_confidence x))"
| "gap_condition p view r StaleEvidence i f severity \<longleftrightarrow>
    (\<exists>x \<in> set (view_facts view). mf_target x = i \<and> f = Some (mf_id x) \<and>
      sint (rg_stale_after_micros r) \<le> age_at r x \<and> severity = stale_severity (age_at r x) (sint (rg_stale_after_micros r)))"
| "gap_condition p view r UnstableKnowledge i f severity \<longleftrightarrow>
    (\<exists>relation. let facts = revisions_of p (known_at (rg_clock r)) i relation
       in facts \<noteq> [] \<and> rg_unstable_revision_count r \<le> length facts \<and>
          rg_unstable_revision_count r \<le> Suc (length (filter (\<lambda>x. mf_supersedes x \<noteq> None) facts)) \<and>
          f = Some (mf_id (last (revision_order facts))) \<and> severity = revision_severity (length facts))"

lemma decision_not_inference: "\<not> (eq_ignore_ascii_case k ''decision'' \<and> eq_ignore_ascii_case k ''inference'')"
  by (auto simp: eq_ignore_ascii_case_def to_ascii_lowercase_def ascii_lower_def Let_def)

fun explanation_of :: "gap_kind \<Rightarrow> string" where
  "explanation_of UnjustifiedDecision = ''decision has no incoming support evidence''"
| "explanation_of SingleSourceInference = ''inference has fewer independent supports than required''"
| "explanation_of LowConfidenceFoundation = ''active fact confidence is below the requested floor''"
| "explanation_of StaleEvidence = ''active fact has not been refreshed within the requested interval''"
| "explanation_of UnstableKnowledge = ''belief has a long explicit supersession history''"

definition holds_gap :: "('graph, 'index) graph_queries \<Rightarrow> 'graph \<Rightarrow> memory_projection \<Rightarrow> memory_view \<Rightarrow> reasoning_gap_request \<Rightarrow> reasoning_gap \<Rightarrow> bool" where
  "holds_gap gq g p view r x \<longleftrightarrow>
    gap_condition p view r (gap_kind_of x) (gap_entity x) (gap_fact x) (gap_severity_bps x) \<and>
    gap_downstream x = downstream gq g (gap_entity x) \<and> gap_explanation x = explanation_of (gap_kind_of x)"

lemma holds_gap_new:
  "holds_gap gq g p view r (gap_new gq g i f k severity e) \<longleftrightarrow> gap_condition p view r k i f severity \<and> e = explanation_of k"
  by (auto simp: holds_gap_def gap_new_def)

lemma holds_gap_eq:
  "holds_gap gq g p view r x \<Longrightarrow>
    x = gap_new gq g (gap_entity x) (gap_fact x) (gap_kind_of x) (gap_severity_bps x) (explanation_of (gap_kind_of x))"
  by (simp add: holds_gap_def gap_new_def)

lemma node_gap_iff:
  "(\<exists>n \<in> set (view_nodes view). node_gap gq g (support_counts (view_facts view)) r n = Some x) \<longleftrightarrow>
    holds_gap gq g p view r x \<and> gap_kind_of x \<in> {UnjustifiedDecision, SingleSourceInference}"
proof
  assume "\<exists>n \<in> set (view_nodes view). node_gap gq g (support_counts (view_facts view)) r n = Some x"
  then obtain n where "n \<in> set (view_nodes view)" "node_gap gq g (support_counts (view_facts view)) r n = Some x" by blast
  then show "holds_gap gq g p view r x \<and> gap_kind_of x \<in> {UnjustifiedDecision, SingleSourceInference}"
    by (auto simp: node_gap_def Let_def support_counts_get supports_of_def [symmetric] holds_gap_def gap_new_def split: if_splits)
next
  assume x: "holds_gap gq g p view r x \<and> gap_kind_of x \<in> {UnjustifiedDecision, SingleSourceInference}"
  then obtain n where n: "n \<in> set (view_nodes view)" "mn_id n = gap_entity x"
    "gap_kind_of x = UnjustifiedDecision \<longrightarrow> eq_ignore_ascii_case (mn_kind n) ''decision''"
    "gap_kind_of x = SingleSourceInference \<longrightarrow> eq_ignore_ascii_case (mn_kind n) ''inference''"
    by (auto simp: holds_gap_def)
  have "node_gap gq g (support_counts (view_facts view)) r n = Some x"
    using x n decision_not_inference [of "mn_kind n"]
    by (auto simp: node_gap_def Let_def support_counts_get supports_of_def [symmetric] holds_gap_def gap_new_def)
  with n(1) show "\<exists>n \<in> set (view_nodes view). node_gap gq g (support_counts (view_facts view)) r n = Some x" by blast
qed

lemma fact_gaps_iff:
  "(\<exists>f \<in> set (view_facts view). x \<in> set (fact_gaps gq g r f)) \<longleftrightarrow>
    holds_gap gq g p view r x \<and> gap_kind_of x \<in> {LowConfidenceFoundation, StaleEvidence}"
proof
  assume "\<exists>f \<in> set (view_facts view). x \<in> set (fact_gaps gq g r f)"
  then show "holds_gap gq g p view r x \<and> gap_kind_of x \<in> {LowConfidenceFoundation, StaleEvidence}"
    by (auto simp: fact_gaps_def Let_def holds_gap_def gap_new_def age_at_def split: if_splits)
next
  assume x: "holds_gap gq g p view r x \<and> gap_kind_of x \<in> {LowConfidenceFoundation, StaleEvidence}"
  then obtain f where "f \<in> set (view_facts view)" "x \<in> set (fact_gaps gq g r f)"
    by (auto simp: fact_gaps_def Let_def holds_gap_def gap_new_def age_at_def)
  then show "\<exists>f \<in> set (view_facts view). x \<in> set (fact_gaps gq g r f)" by blast
qed

lemma unstable_gap_iff:
  "(\<exists>e \<in> set (revisions p (known_at (rg_clock r))). unstable_gap gq g r e = Some x) \<longleftrightarrow>
    holds_gap gq g p view r x \<and> gap_kind_of x = UnstableKnowledge"
proof
  assume "\<exists>e \<in> set (revisions p (known_at (rg_clock r))). unstable_gap gq g r e = Some x"
  then obtain i relation fs where "((i, relation), fs) \<in> set (revisions p (known_at (rg_clock r)))"
    "unstable_gap gq g r ((i, relation), fs) = Some x" by auto
  then show "holds_gap gq g p view r x \<and> gap_kind_of x = UnstableKnowledge"
    by (auto simp: revisions_in unstable_gap_def Let_def holds_gap_def gap_new_def last_of_eq split: if_splits
        intro!: exI [of _ relation])
next
  assume x: "holds_gap gq g p view r x \<and> gap_kind_of x = UnstableKnowledge"
  then obtain relation where rel: "revisions_of p (known_at (rg_clock r)) (gap_entity x) relation \<noteq> []"
    "rg_unstable_revision_count r \<le> length (revisions_of p (known_at (rg_clock r)) (gap_entity x) relation)"
    "rg_unstable_revision_count r \<le> Suc (length (filter (\<lambda>x. mf_supersedes x \<noteq> None) (revisions_of p (known_at (rg_clock r)) (gap_entity x) relation)))"
    "gap_fact x = Some (mf_id (last (revision_order (revisions_of p (known_at (rg_clock r)) (gap_entity x) relation))))"
    "gap_severity_bps x = revision_severity (length (revisions_of p (known_at (rg_clock r)) (gap_entity x) relation))"
    by (auto simp: holds_gap_def Let_def)
  then have "unstable_gap gq g r ((gap_entity x, relation), revisions_of p (known_at (rg_clock r)) (gap_entity x) relation) = Some x"
    using x by (simp add: unstable_gap_def Let_def last_of_eq holds_gap_def gap_new_def)
  with rel(1) show "\<exists>e \<in> set (revisions p (known_at (rg_clock r))). unstable_gap gq g r e = Some x"
    using revisions_in by blast
qed

lemma all_gaps_iff: "x \<in> set (all_gaps gq g p view r) \<longleftrightarrow> holds_gap gq g p view r x"
proof -
  have "x \<in> set (all_gaps gq g p view r) \<longleftrightarrow>
      (\<exists>n \<in> set (view_nodes view). node_gap gq g (support_counts (view_facts view)) r n = Some x) \<or>
      (\<exists>f \<in> set (view_facts view). x \<in> set (fact_gaps gq g r f)) \<or>
      (\<exists>e \<in> set (revisions p (known_at (rg_clock r))). unstable_gap gq g r e = Some x)"
    by (auto simp: all_gaps_def set_map_filter)
  then show ?thesis
    unfolding node_gap_iff [where p = p] fact_gaps_iff [where p = p] unstable_gap_iff [where view = view]
    by (cases "gap_kind_of x") auto
qed

lemma low_confidence_severity: "(w :: u16) < v \<Longrightarrow> v \<le> 10000 \<Longrightarrow> unat (10000 - w) \<le> 10000"
  by (simp add: word_less_nat_alt word_le_nat_alt unat_sub)

lemma holds_gap_severity:
  "holds_gap gq g p view r x \<Longrightarrow> rg_low_confidence_bps r \<le> 10000 \<Longrightarrow> unat (gap_severity_bps x) \<le> 10000"
  by (cases "gap_kind_of x") (auto simp: holds_gap_def severity_bounds low_confidence_severity Let_def)


text \<open>
  All scores of a gap report are basis points: the health score and every severity lie between 0 and
  10,000, none of them wraps, and when no gap was cut off the health is exactly 10,000 less the gaps
  per analyzed entity in basis points, with 0 as floor. A request outside the documented ranges is
  refused.
\<close>

theorem gap_scores_bounded:
  "if rg_minimum_supports r = 0 \<or> 10000 < unat (rg_low_confidence_bps r) \<or> rg_unstable_revision_count r < 2 \<or>
      sint (rg_stale_after_micros r) < 0 \<or> rg_max_results r = 0
   then \<exists>field reason. reasoning_gaps api gq p r = Err (Fault (InvalidValue field reason))
   else \<forall>report. reasoning_gaps api gq p r = Ok report \<longrightarrow>
      unat (gr_health_bps report) \<le> 10000 \<and> (\<forall>x \<in> set (gr_gaps report). unat (gap_severity_bps x) \<le> 10000) \<and>
      (0 < gr_analyzed_entities report \<and> 10000 * rg_max_results r < 2 ^ 64 \<and> length (gr_gaps report) < rg_max_results r \<longrightarrow>
         unat (gr_health_bps report) =
           10000 - min (10000 * length (gr_gaps report) div gr_analyzed_entities report) 10000)"
proof (cases "validate_gap_request r")
  case (Err e)
  then show ?thesis
    by (auto simp: validate_gap_request_def reasoning_gaps_def word_less_nat_alt split: if_splits)
next
  case (Ok u)
  have valid: "\<not> (rg_minimum_supports r = 0 \<or> 10000 < unat (rg_low_confidence_bps r) \<or> rg_unstable_revision_count r < 2 \<or>
      sint (rg_stale_after_micros r) < 0 \<or> rg_max_results r = 0)"
    using Ok by (auto simp: validate_gap_request_def word_less_nat_alt split: if_splits)
  have scores: "unat (gr_health_bps report) \<le> 10000 \<and> (\<forall>x \<in> set (gr_gaps report). unat (gap_severity_bps x) \<le> 10000) \<and>
      (0 < gr_analyzed_entities report \<and> 10000 * rg_max_results r < 2 ^ 64 \<and> length (gr_gaps report) < rg_max_results r \<longrightarrow>
         unat (gr_health_bps report) =
           10000 - min (10000 * length (gr_gaps report) div gr_analyzed_entities report) 10000)"
    if rep: "reasoning_gaps api gq p r = Ok report" for report
  proof -
    have low: "rg_low_confidence_bps r \<le> 10000" using valid by (simp add: word_le_nat_alt)
    from rep obtain g where
      gaps: "gr_gaps report = take (rg_max_results r) (sort_key gap_key (all_gaps gq g p (view_ref p (rg_clock r)) r))"
      and health: "gr_health_bps report = health (length (all_gaps gq g p (view_ref p (rg_clock r)) r)) (gr_analyzed_entities report)"
      by (auto simp: reasoning_gaps_def Let_def and_then_Ok)
    have "unat (gap_severity_bps x) \<le> 10000" if "x \<in> set (gr_gaps report)" for x
    proof -
      have "x \<in> set (sort_key gap_key (all_gaps gq g p (view_ref p (rg_clock r)) r))"
        using that in_set_takeD unfolding gaps by fast
      then have "holds_gap gq g p (view_ref p (rg_clock r)) r x" by (simp add: all_gaps_iff)
      then show ?thesis using low by (rule holds_gap_severity)
    qed
    moreover have "unat (gr_health_bps report) =
        10000 - min (10000 * length (gr_gaps report) div gr_analyzed_entities report) 10000"
      if "0 < gr_analyzed_entities report" "10000 * rg_max_results r < 2 ^ 64" "length (gr_gaps report) < rg_max_results r"
    proof -
      have "length (gr_gaps report) = length (all_gaps gq g p (view_ref p (rg_clock r)) r)"
        using that(3) gaps by (simp add: min_def split: if_splits)
      then show ?thesis using that unat_health [of "gr_analyzed_entities report"] health by simp
    qed
    ultimately show ?thesis using severity_bounds(4) health by simp
  qed
  with valid show ?thesis by auto
qed

section \<open>A small report\<close>

definition demo_queries :: "(string list \<times> string list, string) graph_queries" where
  "demo_queries = \<lparr> gq_node_index = \<lambda>g i. if i \<in> set (fst g) then Some i else None, gq_node_at = \<lambda>g i. Some i,
     gq_nodes = fst, gq_outgoing_neighbors_at = \<lambda>g i. [], gq_bfs = \<lambda>g i. [i], gq_in_degree = \<lambda>g i. Some 0,
     gq_out_degree = \<lambda>g i. Some 0 \<rparr>"

definition demo_gap_request :: reasoning_gap_request where
  "demo_gap_request = \<lparr> rg_clock = \<lparr> valid_at = Timestamp 2, known_at = Timestamp 6 \<rparr>, rg_minimum_supports = 1,
     rg_low_confidence_bps = 5000, rg_unstable_revision_count = 2, rg_stale_after_micros = 2, rg_max_results = 5 \<rparr>"

definition demo_gap :: reasoning_gap where
  "demo_gap = gap_new demo_queries ([''a'', ''b''], [''calls'']) (TextId ''b'') (Some (TextId ''f'')) StaleEvidence 10000
    (explanation_of StaleEvidence)"

lemma demo_all_gaps:
  "all_gaps demo_queries ([''a'', ''b''], [''calls'']) demo_memory \<lparr> view_nodes = [demo_node ''a'', demo_node ''b''], view_facts = [demo_fact] \<rparr>
    demo_gap_request = [demo_gap]"
proof -
  have kinds: "\<not> eq_ignore_ascii_case (mn_kind (demo_node i)) ''decision''" "\<not> eq_ignore_ascii_case (mn_kind (demo_node i)) ''inference''" for i
    by (simp_all add: demo_node_def eq_ignore_ascii_case_def to_ascii_lowercase_def ascii_lower_def Let_def)
  have nodes: "node_gap demo_queries g counts demo_gap_request (demo_node i) = None" for g i counts
    using kinds [of i] by (simp add: node_gap_def Let_def)
  have request: "rg_clock demo_gap_request = \<lparr> valid_at = Timestamp 2, known_at = Timestamp 6 \<rparr>"
    "rg_unstable_revision_count demo_gap_request = 2" by (simp_all add: demo_gap_request_def)
  have "revisions demo_memory (Timestamp 6) = [((TextId ''a'', ''calls''), [demo_fact])]"
    by (simp add: revisions_def demo_projection_def group_by_def push_group_def less_eq_timestamp_def bt_get_def demo_fact_def)
  moreover have "fact_gaps demo_queries ([''a'', ''b''], [''calls'']) demo_gap_request demo_fact = [demo_gap]"
    by (simp add: fact_gaps_def demo_gap_request_def demo_fact_def certain_def i64_sat_def stale_severity_def demo_gap_def
        Let_def u16_try_from_def)
  ultimately show ?thesis
    by (simp add: all_gaps_def nodes unstable_gap_def request List.map_filter_def Let_def)
qed

lemma demo_health: "health 1 2 = 5000"
  by (simp add: health_def usize_sat_mul_def usize_max_def u16_try_from_def Let_def)

lemma demo_gaps:
  "reasoning_gaps demo_api demo_queries demo_memory demo_gap_request =
    Ok \<lparr> gr_gaps = [demo_gap], gr_health_bps = 5000, gr_analyzed_entities = 2, gr_analyzed_facts = 1 \<rparr>"
proof -
  have clock: "rg_clock demo_gap_request = \<lparr> valid_at = Timestamp 2, known_at = Timestamp 6 \<rparr>"
    "rg_max_results demo_gap_request = 5" "validate_gap_request demo_gap_request = Ok ()"
    by (simp_all add: demo_gap_request_def validate_gap_request_def)
  show ?thesis
    using demo_health by (simp add: reasoning_gaps_def clock demo_view demo_graph demo_all_gaps numeral_2_eq_2)
qed


theorem gap_scores_bounded_witness:
  "unat (gap_severity_bps demo_gap) \<le> 10000 \<and> (5000 :: nat) = 10000 - min (10000 * 1 div 2) 10000"
proof -
  have "rg_minimum_supports demo_gap_request = 1" "rg_low_confidence_bps demo_gap_request = 5000"
    "rg_unstable_revision_count demo_gap_request = 2" "rg_stale_after_micros demo_gap_request = 2"
    "rg_max_results demo_gap_request = 5" by (simp_all add: demo_gap_request_def)
  with gap_scores_bounded [of demo_gap_request demo_api demo_queries demo_memory] show ?thesis
    by (simp add: demo_gaps)
qed

end
