(* ===== verification/Belief.thy ===== *)
theory Belief
  imports Analytics_Base "HOL-Library.Multiset"
begin

text \<open>
  Belief revision, \<open>src/src/analytics/belief.rs\<close>: which active facts contradict a hypothesis, and the
  cascade of revised confidence over the outgoing edges of the graph. The cascade is a loop over a
  graph of the library, about which nothing is assumed; it is a partial function to an option, and
  that it returns for every graph is proved here.
\<close>

section \<open>Requests and reports (\<open>model.rs\<close>)\<close>

record belief_revision_request =
  br_hypothesis :: memory_fact
  br_clock :: projection_clock
  br_max_depth :: usize

record contradiction_record =
  cn_fact :: fact_id
  cn_strength_bps :: u16
  cn_reason :: string

record cascade_effect =
  ce_entity :: entity_id
  ce_depth :: usize
  ce_revised_confidence_bps :: u16

record belief_revision_report =
  bv_contradictions :: "contradiction_record list"
  bv_cascade :: "cascade_effect list"
  bv_invalidated_decisions :: "entity_id list"

section \<open>Contradictions\<close>

definition contradiction :: "memory_fact \<Rightarrow> memory_fact \<Rightarrow> contradiction_record option" where
  "contradiction f h =
    (let competing = mf_source f = mf_source h \<and> mf_relation f = mf_relation h \<and> mf_target f \<noteq> mf_target h;
         explicit = eq_ignore_ascii_case (mf_relation f) ''contradicts'' \<and>
           ((mf_source f = mf_source h \<and> mf_target f = mf_target h) \<or>
            (mf_source f = mf_target h \<and> mf_target f = mf_source h));
         corrected = (mf_supersedes h = Some (mf_id f))
     in if \<not> (competing \<or> explicit \<or> corrected) then None
        else Some \<lparr> cn_fact = mf_id f,
                    cn_strength_bps = min (basis_points (mf_confidence f)) (basis_points (mf_confidence h)),
                    cn_reason = (if explicit then ''explicit contradicts relation''
                                 else if corrected then ''hypothesis explicitly supersedes this fact''
                                 else ''same source and relation assert a different target'') \<rparr>)"

section \<open>The cascade\<close>

definition push_neighbor ::
  "('graph, 'index) graph_queries \<Rightarrow> 'graph \<Rightarrow> usize \<Rightarrow> (entity_id, usize) btree_map \<times> entity_id list \<Rightarrow> 'index \<Rightarrow>
   (entity_id, usize) btree_map \<times> entity_id list"
where
  "push_neighbor gq g depth acc neighbor =
    (case gq_node_at gq g neighbor of
       None \<Rightarrow> acc
     | Some node \<Rightarrow>
         (case text_id_new ''entity'' node of
            Err _ \<Rightarrow> acc
          | Ok next_id \<Rightarrow>
              if bt_get (fst acc) next_id = None
              then (bt_insert (fst acc) next_id (depth + 1), snd acc @ [next_id])
              else acc))"

partial_function (option) cascade_loop ::
  "('graph, 'index) graph_queries \<Rightarrow> 'graph \<Rightarrow> usize \<Rightarrow> (entity_id, usize) btree_map \<Rightarrow> entity_id list \<Rightarrow>
   (entity_id, usize) btree_map fallible option"
where
  "cascade_loop gq g max_depth distances queue =
    (case queue of
       [] \<Rightarrow> Some (Ok distances)
     | entity # rest \<Rightarrow>
         (case bt_get distances entity of
            None \<Rightarrow> Some (Err (Panic ''no entry found for key''))
          | Some depth \<Rightarrow>
              if depth \<ge> max_depth then cascade_loop gq g max_depth distances rest
              else
                (case gq_node_index gq g (as_str entity) of
                   None \<Rightarrow> cascade_loop gq g max_depth distances rest
                 | Some index \<Rightarrow>
                     cascade_loop gq g max_depth
                       (fst (foldl (push_neighbor gq g depth) (distances, rest) (gq_outgoing_neighbors_at gq g index)))
                       (snd (foldl (push_neighbor gq g depth) (distances, rest) (gq_outgoing_neighbors_at gq g index))))))"

definition revised_confidence :: "u16 \<Rightarrow> usize \<Rightarrow> u16" where
  "revised_confidence confidence depth =
    (let divisor = unwrap_or (u32_try_from (depth + 2)) (- 1);
         weakening = (ucast confidence :: u32) div divisor
     in unwrap_or (u16_try_from (10000 - unat weakening)) 0)"

definition cascade ::
  "('graph, 'index) graph_queries \<Rightarrow> 'graph \<Rightarrow> entity_id btree_set \<Rightarrow> usize \<Rightarrow> u16 \<Rightarrow> cascade_effect list fallible option"
where
  "cascade gq g roots max_depth confidence =
    map_option (map_ok (\<lambda>distances.
        map (\<lambda>(entity, depth). \<lparr> ce_entity = entity, ce_depth = depth,
               ce_revised_confidence_bps = revised_confidence confidence depth \<rparr>) distances))
      (cascade_loop gq g max_depth (foldl (\<lambda>m root. bt_insert m root 0) [] (bs_items roots)) (bs_items roots))"

definition belief_roots :: "memory_view \<Rightarrow> contradiction_record list \<Rightarrow> entity_id btree_set" where
  "belief_roots view contradictions =
    foldl bs_insert [] (List.map_filter (\<lambda>item.
      map_option mf_target (find (\<lambda>f. mf_id f = cn_fact item) (view_facts view))) contradictions)"

definition invalidated :: "memory_view \<Rightarrow> cascade_effect list \<Rightarrow> entity_id list" where
  "invalidated view effects =
    (let kinds = foldl (\<lambda>m n. bt_insert m (mn_id n) (mn_kind n)) [] (view_nodes view)
     in map ce_entity (filter (\<lambda>e. case bt_get kinds (ce_entity e) of
          None \<Rightarrow> False | Some kind \<Rightarrow> eq_ignore_ascii_case kind ''decision'') effects))"

definition belief_revision ::
  "('kind, 'node, 'node_id, 'ev, 'prov, 'ekind, 'edge, 'graph) graph_api \<Rightarrow> ('graph, 'index) graph_queries \<Rightarrow>
   memory_projection \<Rightarrow> belief_revision_request \<Rightarrow> belief_revision_report fallible option"
where
  "belief_revision api gq p r =
    (case fact_validate (br_hypothesis r) of
       Err e \<Rightarrow> Some (Err (Fault e))
     | Ok _ \<Rightarrow>
        (let view = view_ref p (br_clock r)
         in case project_graph api view of
              Err e \<Rightarrow> Some (Err e)
            | Ok g \<Rightarrow>
               (let contradictions = sort_key cn_fact (List.map_filter (\<lambda>f. contradiction f (br_hypothesis r)) (view_facts view))
                in map_option (map_ok (\<lambda>effects.
                     \<lparr> bv_contradictions = contradictions, bv_cascade = effects,
                       bv_invalidated_decisions = invalidated view effects \<rparr>))
                   (cascade gq g (belief_roots view contradictions) (br_max_depth r)
                      (basis_points (mf_confidence (br_hypothesis r)))))))"

section \<open>The cascade is bounded breadth-first search\<close>

definition names :: "('graph, 'index) graph_queries \<Rightarrow> 'graph \<Rightarrow> 'index \<Rightarrow> entity_id \<Rightarrow> bool" where
  "names gq g n e \<longleftrightarrow> gq_node_at gq g n = Some (as_str e) \<and> trimmed (as_str e)"

definition follows :: "('graph, 'index) graph_queries \<Rightarrow> 'graph \<Rightarrow> entity_id \<Rightarrow> entity_id \<Rightarrow> bool" where
  "follows gq g a b \<longleftrightarrow>
    (\<exists>index. gq_node_index gq g (as_str a) = Some index \<and> (\<exists>n \<in> set (gq_outgoing_neighbors_at gq g index). names gq g n b))"

inductive walk :: "('graph, 'index) graph_queries \<Rightarrow> 'graph \<Rightarrow> entity_id set \<Rightarrow> nat \<Rightarrow> entity_id \<Rightarrow> bool"
  for gq g roots where
  walk_root: "e \<in> roots \<Longrightarrow> walk gq g roots 0 e"
| walk_step: "walk gq g roots n a \<Longrightarrow> follows gq g a b \<Longrightarrow> walk gq g roots (Suc n) b"

definition least_walk :: "('graph, 'index) graph_queries \<Rightarrow> 'graph \<Rightarrow> entity_id set \<Rightarrow> nat \<Rightarrow> nat \<Rightarrow> entity_id \<Rightarrow> bool" where
  "least_walk gq g roots limit d e \<longleftrightarrow> d \<le> limit \<and> walk gq g roots d e \<and> (\<forall>m < d. \<not> walk gq g roots m e)"

lemma push_neighbor_cases:
  "push_neighbor gq g d acc n =
    (if \<exists>e. names gq g n e \<and> bt_get (fst acc) e = None
     then (let e = TextId (the (gq_node_at gq g n)) in (bt_insert (fst acc) e (d + 1), snd acc @ [e]))
     else acc)"
proof -
  have names: "names gq g n e \<longleftrightarrow> (\<exists>t. gq_node_at gq g n = Some t \<and> trimmed t \<and> e = TextId t)" for e
    by (cases e) (auto simp: names_def)
  show ?thesis
  proof (cases "gq_node_at gq g n")
    case None
    then show ?thesis by (simp add: push_neighbor_def names)
  next
    case (Some t)
    show ?thesis
      by (cases "trimmed t") (auto simp: push_neighbor_def names Some text_id_new_def trimmed_def Let_def)
  qed
qed

definition pushed :: "nat \<Rightarrow> (entity_id \<Rightarrow> bool) \<Rightarrow> (entity_id, usize) btree_map \<times> entity_id list \<Rightarrow>
   (entity_id, usize) btree_map \<times> entity_id list \<Rightarrow> bool" where
  "pushed d P acc acc' \<longleftrightarrow> bt_ok (fst acc') \<and> (\<exists>new. snd acc' = snd acc @ new \<and>
      (\<forall>i. bt_get (fst acc') i = (if i \<in> set new then Some (d + 1) else bt_get (fst acc) i)) \<and>
      (\<forall>i \<in> set new. bt_get (fst acc) i = None \<and> P i)) \<and>
    (\<forall>i. P i \<longrightarrow> bt_get (fst acc') i \<noteq> None)"

lemma pushed_trans:
  assumes "pushed d P a b" "pushed d Q b c"
  shows "pushed d (\<lambda>i. P i \<or> Q i) a c"
proof -
  from assms(1) obtain n1 where n1: "snd b = snd a @ n1" "\<forall>i. bt_get (fst b) i = (if i \<in> set n1 then Some (d + 1) else bt_get (fst a) i)"
    "\<forall>i \<in> set n1. bt_get (fst a) i = None \<and> P i" "\<forall>i. P i \<longrightarrow> bt_get (fst b) i \<noteq> None" unfolding pushed_def by blast
  from assms(2) obtain n2 where n2: "bt_ok (fst c)" "snd c = snd b @ n2" "\<forall>i. bt_get (fst c) i = (if i \<in> set n2 then Some (d + 1) else bt_get (fst b) i)"
    "\<forall>i \<in> set n2. bt_get (fst b) i = None \<and> Q i" "\<forall>i. Q i \<longrightarrow> bt_get (fst c) i \<noteq> None" unfolding pushed_def by blast
  have "snd c = snd a @ (n1 @ n2)" using n1(1) n2(2) by simp
  moreover have "\<forall>i. bt_get (fst c) i = (if i \<in> set (n1 @ n2) then Some (d + 1) else bt_get (fst a) i)"
    using n1(2) n2(3) by simp
  moreover have "\<forall>i \<in> set (n1 @ n2). bt_get (fst a) i = None \<and> (P i \<or> Q i)"
    using n1(2,3) n2(4) by (metis Un_iff option.distinct(1) set_append)
  moreover have "\<forall>i. P i \<or> Q i \<longrightarrow> bt_get (fst c) i \<noteq> None"
    using n1(4) n2(3,5) by auto
  ultimately show ?thesis using n2(1) unfolding pushed_def by blast
qed

lemma pushed_same: "bt_ok (fst a) \<Longrightarrow> (\<And>i. P i \<Longrightarrow> bt_get (fst a) i \<noteq> None) \<Longrightarrow> pushed d P a a"
  unfolding pushed_def by (intro conjI exI [of _ "[]"]) auto

lemma names_unique: "names gq g n a \<Longrightarrow> names gq g n b \<Longrightarrow> a = b"
  by (auto simp: names_def intro: text_id.expand)

lemma push_neighbor_pushed:
  assumes "bt_ok (fst a)"
  shows "pushed d (names gq g n) a (push_neighbor gq g d a n)"
proof (cases "\<exists>e. names gq g n e \<and> bt_get (fst a) e = None")
  case True
  then obtain e where e: "names gq g n e" "bt_get (fst a) e = None" by blast
  have "push_neighbor gq g d a n = (bt_insert (fst a) e (d + 1), snd a @ [e])"
  proof -
    have "TextId (the (gq_node_at gq g n)) = e" using e(1) by (cases e) (simp add: names_def)
    then show ?thesis using True by (simp add: push_neighbor_cases Let_def)
  qed
  moreover have "names gq g n i \<longleftrightarrow> i = e" for i using e(1) names_unique [OF e(1), of i] by metis
  ultimately show ?thesis using e(2) assms unfolding pushed_def by (intro conjI exI [of _ "[e]"]) simp_all
next
  case False
  then have "push_neighbor gq g d a n = a" by (auto simp: push_neighbor_cases)
  then show ?thesis using False pushed_same [of a "names gq g n" d] assms by auto
qed

lemma push_neighbors:
  "bt_ok (fst a) \<Longrightarrow> pushed d (\<lambda>i. \<exists>n \<in> set ns. names gq g n i) a (foldl (push_neighbor gq g d) a ns)"
proof (induction ns arbitrary: a)
  case (Cons n ns)
  have step: "pushed d (names gq g n) a (push_neighbor gq g d a n)" by (rule push_neighbor_pushed [OF Cons.prems])
  then have "bt_ok (fst (push_neighbor gq g d a n))" by (simp add: pushed_def)
  from pushed_trans [OF step Cons.IH [OF this]] show ?case by simp
qed (simp add: pushed_same)

text \<open>The invariants of the loop, as in the neighbourhood search.\<close>

definition cascade_inv ::
  "('graph, 'index) graph_queries \<Rightarrow> 'graph \<Rightarrow> entity_id set \<Rightarrow> nat \<Rightarrow> (entity_id, usize) btree_map \<Rightarrow> entity_id list \<Rightarrow> bool"
where
  "cascade_inv gq g roots limit ds q \<longleftrightarrow> bt_ok ds \<and> (\<forall>i \<in> set q. bt_get ds i \<noteq> None) \<and> (\<forall>i \<in> roots. bt_get ds i = Some 0) \<and>
    (\<forall>i d. bt_get ds i = Some d \<longrightarrow> walk gq g roots d i \<and> d \<le> limit) \<and>
    (\<exists>d. (\<forall>i e. bt_get ds i = Some e \<longrightarrow> e \<le> d + 1) \<and>
       (\<exists>xs ys. q = xs @ ys \<and> (\<forall>i \<in> set xs. bt_get ds i = Some d) \<and> (\<forall>i \<in> set ys. bt_get ds i = Some (d + 1)))) \<and>
    (\<forall>i j d. bt_get ds i = Some d \<and> i \<notin> set q \<and> d < limit \<and> follows gq g i j \<longrightarrow> (\<exists>e \<le> d + 1. bt_get ds j = Some e))"

lemma cascade_invD:
  assumes "cascade_inv gq g roots limit ds q"
  shows "bt_ok ds" "i \<in> set q \<Longrightarrow> bt_get ds i \<noteq> None" "i \<in> roots \<Longrightarrow> bt_get ds i = Some 0"
    "bt_get ds i = Some d \<Longrightarrow> walk gq g roots d i \<and> d \<le> limit"
    "bt_get ds i = Some d \<Longrightarrow> i \<notin> set q \<Longrightarrow> d < limit \<Longrightarrow> follows gq g i j \<Longrightarrow> \<exists>e \<le> d + 1. bt_get ds j = Some e"
  using assms unfolding cascade_inv_def by blast+

text \<open>Taking the front of the queue: its distance bounds all others up to one.\<close>

lemma cascade_front:
  assumes "cascade_inv gq g roots limit ds (c # rest)"
  obtains d xs ys where "bt_get ds c = Some d" "rest = xs @ ys" "\<forall>i \<in> set xs. bt_get ds i = Some d"
    "\<forall>i \<in> set ys. bt_get ds i = Some (d + 1)" "\<forall>i e. bt_get ds i = Some e \<longrightarrow> e \<le> d + 1"
proof -
  from assms obtain d xs ys where q: "c # rest = xs @ ys" "\<forall>i \<in> set xs. bt_get ds i = Some d"
    "\<forall>i \<in> set ys. bt_get ds i = Some (d + 1)" "\<forall>i e. bt_get ds i = Some e \<longrightarrow> e \<le> d + 1"
    unfolding cascade_inv_def by blast
  show thesis
  proof (cases xs)
    case Nil
    with q show thesis by (intro that [of "d + 1" rest "[]"]) (auto intro: le_SucI)
  next
    case (Cons x xs')
    with q show thesis by (intro that [of d xs' ys]) auto
  qed
qed

lemma cascade_drop:
  assumes inv: "cascade_inv gq g roots limit ds (c # rest)"
    and none: "\<And>d j. bt_get ds c = Some d \<Longrightarrow> d < limit \<Longrightarrow> \<not> follows gq g c j"
  shows "cascade_inv gq g roots limit ds rest"
proof -
  obtain d xs ys where f: "bt_get ds c = Some d" "rest = xs @ ys" "\<forall>i \<in> set xs. bt_get ds i = Some d"
    "\<forall>i \<in> set ys. bt_get ds i = Some (d + 1)" "\<forall>i e. bt_get ds i = Some e \<longrightarrow> e \<le> d + 1"
    by (rule cascade_front [OF inv])
  have "\<exists>e \<le> b + 1. bt_get ds j = Some e"
    if "bt_get ds i = Some b" "i \<notin> set rest" "b < limit" "follows gq g i j" for i j b
    using that cascade_invD(5) [OF inv that(1) _ that(3,4)] none by (cases "i = c") auto
  moreover have "\<forall>i \<in> set rest. bt_get ds i \<noteq> None" using cascade_invD(2) [OF inv] by simp
  ultimately show ?thesis
    unfolding cascade_inv_def using cascade_invD(1,3,4) [OF inv] f(2-5) by blast
qed

lemma cascade_expand:
  assumes inv: "cascade_inv gq g roots limit ds (c # rest)" and d: "bt_get ds c = Some d" "d < limit"
    and index: "gq_node_index gq g (as_str c) = Some index"
    and step: "foldl (push_neighbor gq g d) (ds, rest) (gq_outgoing_neighbors_at gq g index) = (ds', q')"
  shows "cascade_inv gq g roots limit ds' q'" and "\<exists>new. q' = rest @ new \<and> (\<forall>i \<in> set new. bt_get ds' i = Some (d + 1)) \<and>
    (\<forall>i \<in> set rest. bt_get ds' i = bt_get ds i)"
proof -
  have follow: "(\<exists>n \<in> set (gq_outgoing_neighbors_at gq g index). names gq g n i) \<longleftrightarrow> follows gq g c i" for i
    using index by (auto simp: follows_def)
  have "pushed d (follows gq g c) (ds, rest) (ds', q')"
    using push_neighbors [of "(ds, rest)" d "gq_outgoing_neighbors_at gq g index" gq g] cascade_invD(1) [OF inv] step
    by (simp add: follow)
  then obtain new where new: "bt_ok ds'" "q' = rest @ new"
    "\<forall>i. bt_get ds' i = (if i \<in> set new then Some (d + 1) else bt_get ds i)"
    "\<forall>i \<in> set new. bt_get ds i = None \<and> follows gq g c i" "\<forall>i. follows gq g c i \<longrightarrow> bt_get ds' i \<noteq> None"
    unfolding pushed_def fst_conv snd_conv by blast
  obtain xs ys where f: "rest = xs @ ys" "\<forall>i \<in> set xs. bt_get ds i = Some d"
    "\<forall>i \<in> set ys. bt_get ds i = Some (d + 1)" "\<forall>i e. bt_get ds i = Some e \<longrightarrow> e \<le> d + 1"
    by (rule cascade_front [OF inv]) (use d(1) in auto)
  have keep: "bt_get ds' i = bt_get ds i" if "bt_get ds i \<noteq> None" for i using that new(3,4) by auto
  have rest: "bt_get ds i \<noteq> None" if "i \<in> set rest" for i using cascade_invD(2) [OF inv, of i] that by simp
  have levels: "\<forall>i e. bt_get ds' i = Some e \<longrightarrow> e \<le> d + 1" using f(4) new(3) by auto
  show "\<exists>new. q' = rest @ new \<and> (\<forall>i \<in> set new. bt_get ds' i = Some (d + 1)) \<and> (\<forall>i \<in> set rest. bt_get ds' i = bt_get ds i)"
    using new(2,3) keep [OF rest] by (intro exI [of _ new]) simp
  have closed: "\<exists>e \<le> b + 1. bt_get ds' j = Some e"
    if i: "bt_get ds' i = Some b" "i \<notin> set q'" "b < limit" "follows gq g i j" for i j b
  proof -
    have old: "bt_get ds i = Some b" using i(1,2) new(2,3) by auto
    show ?thesis
    proof (cases "i = c")
      case True
      then show ?thesis using new(5) i(4) levels old d(1) by (metis not_None_eq option.inject)
    next
      case False
      then obtain e where "e \<le> b + 1" "bt_get ds j = Some e"
        using cascade_invD(5) [OF inv old _ i(3,4)] i(2) new(2) by auto
      then show ?thesis using keep by (metis option.distinct(1))
    qed
  qed
  have walks: "walk gq g roots b i \<and> b \<le> limit" if "bt_get ds' i = Some b" for i b
  proof (cases "i \<in> set new")
    case True
    then have "b = Suc d" "follows gq g c i" using that new(3,4) by auto
    then show ?thesis using cascade_invD(4) [OF inv d(1)] d(2) walk_step by fastforce
  next
    case False
    then show ?thesis using that new(3) cascade_invD(4) [OF inv] by simp
  qed
  have queue: "\<forall>i \<in> set q'. bt_get ds' i \<noteq> None" using new(2,3) rest by auto
  have roots: "\<forall>i \<in> roots. bt_get ds' i = Some 0" using cascade_invD(3) [OF inv] keep by auto
  have "q' = xs @ (ys @ new)" "\<forall>i \<in> set xs. bt_get ds' i = Some d" "\<forall>i \<in> set (ys @ new). bt_get ds' i = Some (d + 1)"
    using new(2,3) f(1-3) keep by auto
  then show "cascade_inv gq g roots limit ds' q'"
    unfolding cascade_inv_def using new(1) queue roots walks levels closed by blast
qed

section \<open>Termination and distances\<close>

definition cascade_measure :: "nat \<Rightarrow> (entity_id, usize) btree_map \<Rightarrow> entity_id list \<Rightarrow> nat multiset" where
  "cascade_measure limit ds q = mset (map (\<lambda>i. limit - the (bt_get ds i)) q)"

lemma measure_drop: "(cascade_measure limit ds rest, cascade_measure limit ds (c # rest)) \<in> mult less_than"
  unfolding cascade_measure_def by (rule subset_implies_mult) simp

lemma measure_expand:
  assumes "bt_get ds c = Some d" "d < limit" "q' = rest @ new"
    and "\<forall>i \<in> set new. bt_get ds' i = Some (d + 1)" "\<forall>i \<in> set rest. bt_get ds' i = bt_get ds i"
  shows "(cascade_measure limit ds' q', cascade_measure limit ds (c # rest)) \<in> mult less_than"
proof -
  let ?I = "cascade_measure limit ds rest"
  let ?K = "cascade_measure limit ds' new"
  have "cascade_measure limit ds' rest = ?I"
    using assms(5) unfolding cascade_measure_def by (intro arg_cong [where f = mset] map_cong) auto
  then have "cascade_measure limit ds' q' = ?I + ?K" by (simp add: cascade_measure_def assms(3))
  moreover have "cascade_measure limit ds (c # rest) = ?I + {# limit - d #}"
    using assms(1) by (simp add: cascade_measure_def)
  moreover have "\<forall>k \<in> set_mset ?K. \<exists>j \<in> set_mset {# limit - d #}. (k, j) \<in> less_than"
    using assms(2,4) by (auto simp: cascade_measure_def)
  ultimately show ?thesis using one_step_implies_mult [of "{# limit - d #}" ?K less_than ?I] by simp
qed

lemma cascade_loop_ok:
  assumes "cascade_inv gq g roots limit ds q"
  shows "\<exists>ds'. cascade_loop gq g limit ds q = Some (Ok ds') \<and> cascade_inv gq g roots limit ds' []"
  using assms
proof (induction "cascade_measure limit ds q" arbitrary: ds q rule: wf_induct_rule [OF wf_mult [OF wf_less_than]])
  case 1
  show ?case
  proof (cases q)
    case Nil
    with 1(2) show ?thesis by (simp add: cascade_loop.simps)
  next
    case (Cons c rest)
    note inv = 1(2) [unfolded Cons]
    obtain d where d: "bt_get ds c = Some d" using cascade_invD(2) [OF inv, of c] by auto
    have drop: "\<exists>ds'. cascade_loop gq g limit ds rest = Some (Ok ds') \<and> cascade_inv gq g roots limit ds' []"
      if "\<And>j. d < limit \<Longrightarrow> \<not> follows gq g c j"
      using cascade_drop [OF inv] that d measure_drop [of limit ds rest c] 1(1) [of ds rest] Cons by auto
    show ?thesis
    proof (cases "limit \<le> d \<or> gq_node_index gq g (as_str c) = None")
      case True
      then show ?thesis using drop d by (auto simp: Cons cascade_loop.simps [of gq g limit ds] follows_def)
    next
      case False
      then obtain index where index: "gq_node_index gq g (as_str c) = Some index" "d < limit" by auto
      obtain ds' q' where step: "foldl (push_neighbor gq g d) (ds, rest) (gq_outgoing_neighbors_at gq g index) = (ds', q')"
        by force
      note expand = cascade_expand [OF inv d index(2,1) step]
      have "(cascade_measure limit ds' q', cascade_measure limit ds q) \<in> mult less_than"
        using expand(2) measure_expand [OF d index(2)] unfolding Cons by blast
      from 1(1) [OF this expand(1)] show ?thesis
        using index d step by (simp add: Cons cascade_loop.simps [of gq g limit ds])
    qed
  qed
qed

lemma cascade_complete:
  assumes inv: "cascade_inv gq g roots limit ds []" and "walk gq g roots n i" "n \<le> limit"
  shows "\<exists>d \<le> n. bt_get ds i = Some d"
  using assms(2,3)
proof (induction rule: walk.induct)
  case (walk_root e)
  then show ?case using cascade_invD(3) [OF inv] by auto
next
  case (walk_step n a b)
  then obtain d where d: "d \<le> n" "bt_get ds a = Some d" by auto
  then obtain e where "e \<le> d + 1" "bt_get ds b = Some e"
    using cascade_invD(5) [OF inv d(2), of b] walk_step by auto
  with d(1) show ?case by (intro exI [of _ e]) auto
qed

lemma cascade_distances:
  assumes inv: "cascade_inv gq g roots limit ds []"
  shows "bt_get ds i = Some d \<longleftrightarrow> least_walk gq g roots limit d i"
proof
  assume d: "bt_get ds i = Some d"
  have "\<not> walk gq g roots m i" if "m < d" for m
  proof
    assume "walk gq g roots m i"
    moreover have "m \<le> limit" using cascade_invD(4) [OF inv d] that by simp
    ultimately obtain e where "e \<le> m" "bt_get ds i = Some e" using cascade_complete [OF inv] by blast
    then show False using d that by simp
  qed
  then show "least_walk gq g roots limit d i" using cascade_invD(4) [OF inv d] by (simp add: least_walk_def)
next
  assume at: "least_walk gq g roots limit d i"
  then obtain e where e: "e \<le> d" "bt_get ds i = Some e"
    using cascade_complete [OF inv, of d i] by (auto simp: least_walk_def)
  have "walk gq g roots e i" using e(2) cascade_invD(4) [OF inv] by blast
  then have "e = d" using at e(1) by (auto simp: least_walk_def le_less)
  then show "bt_get ds i = Some d" using e(2) by simp
qed

lemma root_distances: "bt_ok m \<Longrightarrow> bt_ok (foldl (\<lambda>m root. bt_insert m root 0) m rs) \<and>
    (\<forall>i. bt_get (foldl (\<lambda>m root. bt_insert m root 0) m rs) i = (if i \<in> set rs then Some 0 else bt_get m i))"
  by (induction rs arbitrary: m) auto

lemma cascade_start:
  "cascade_inv gq g (set rs) limit (foldl (\<lambda>m root. bt_insert m root 0) [] rs) rs"
proof -
  let ?ds = "foldl (\<lambda>m root. bt_insert m root (0 :: usize)) [] rs"
  have ds: "bt_ok ?ds" "bt_get ?ds i = (if i \<in> set rs then Some 0 else None)" for i
    using root_distances [of "[] :: (entity_id, usize) btree_map" rs] by auto
  have "\<exists>d. (\<forall>i e. bt_get ?ds i = Some e \<longrightarrow> e \<le> d + 1) \<and>
       (\<exists>xs ys. rs = xs @ ys \<and> (\<forall>i \<in> set xs. bt_get ?ds i = Some d) \<and> (\<forall>i \<in> set ys. bt_get ?ds i = Some (d + 1)))"
    by (intro exI [of _ 0] conjI exI [of _ rs] exI [of _ "[]"]) (auto simp: ds(2) split: if_splits)
  then show ?thesis
    unfolding cascade_inv_def using ds(1) walk_root [of _ "set rs" gq g] by (auto simp: ds(2) split: if_splits)
qed

section \<open>What a cascade is\<close>

lemma revised_confidence_exact:
  assumes "confidence \<le> 10000" "depth + 2 < 2 ^ 32"
  shows "unat (revised_confidence confidence depth) = 10000 - unat confidence div (depth + 2)"
proof -
  have c: "unat confidence \<le> 10000" using assms(1) by (simp add: word_le_nat_alt)
  have "unat (ucast confidence :: u32) = unat confidence" using c by (simp add: unsigned_ucast_eq take_bit_nat_eq_self)
  then have "unat ((ucast confidence :: u32) div of_nat (depth + 2)) = unat confidence div (depth + 2)"
    using unat_of_nat_u32 [OF assms(2)] by (simp only: unat_div_distrib)
  moreover have "u32_try_from (depth + 2) = Some (of_nat (depth + 2))" using assms(2) by (simp only: u32_try_from_def if_True)
  ultimately show ?thesis
    unfolding revised_confidence_def Let_def by (simp only: unwrap_or_Some u16_try_from_bps [OF diff_le_self] unat_of_nat_u16)
qed

lemma revised_confidence_bounds:
  assumes "confidence \<le> 10000" "depth + 2 < 2 ^ 32"
  shows "5000 \<le> unat (revised_confidence confidence depth) \<and> unat (revised_confidence confidence depth) \<le> 10000"
proof -
  have "unat confidence div (depth + 2) \<le> 10000 div (2 :: nat)"
    using assms(1) by (intro div_le_mono2 [THEN order_trans, OF _ _ div_le_mono]) (auto simp: word_le_nat_alt)
  then show ?thesis using revised_confidence_exact [OF assms] by simp
qed

lemma cascade_search:
  "\<exists>effects. cascade gq g roots max_depth confidence = Some (Ok effects) \<and>
    (\<forall>e d. (\<exists>x. x \<in> set effects \<and> ce_entity x = e \<and> ce_depth x = d) \<longleftrightarrow>
       least_walk gq g (set (bs_items roots)) max_depth d e) \<and>
    sorted_wrt (<) (map ce_entity effects) \<and>
    (\<forall>x \<in> set effects. ce_depth x \<le> max_depth \<and> ce_revised_confidence_bps x = revised_confidence confidence (ce_depth x))"
proof -
  from cascade_loop_ok [OF cascade_start [of gq g "bs_items roots" max_depth]] obtain ds where
    ds: "cascade_loop gq g max_depth (foldl (\<lambda>m root. bt_insert m root 0) [] (bs_items roots)) (bs_items roots) = Some (Ok ds)"
    and inv: "cascade_inv gq g (set (bs_items roots)) max_depth ds []" by blast
  let ?effect = "\<lambda>(entity, depth). \<lparr> ce_entity = entity, ce_depth = depth,
    ce_revised_confidence_bps = revised_confidence confidence depth \<rparr>"
  have ok: "bt_ok ds" by (rule cascade_invD(1) [OF inv])
  have "cascade gq g roots max_depth confidence = Some (Ok (map ?effect ds))" by (simp add: cascade_def ds)
  moreover have "map ce_entity (map ?effect ds) = bt_keys ds" by (auto simp: bt_keys_def)
  moreover have "(\<exists>x. x \<in> set (map ?effect ds) \<and> ce_entity x = e \<and> ce_depth x = d) \<longleftrightarrow> bt_get ds e = Some d" for e d
    by (force simp: bt_get_in [OF ok])
  moreover have "\<forall>x \<in> set (map ?effect ds). ce_depth x \<le> max_depth \<and>
      ce_revised_confidence_bps x = revised_confidence confidence (ce_depth x)"
    using cascade_invD(4) [OF inv] by (auto simp: bt_get_in [OF ok])
  ultimately show ?thesis
    using bt_keys_sorted [OF ok] cascade_distances [OF inv] by (intro exI [of _ "map ?effect ds"]) simp
qed

text \<open>
  C24: the confidence cascade ends for every graph the library may hand out, consistent or cyclic, without
  a panic, and lists in entity order exactly the entities reached from a root over outgoing edges
  in at most \<open>max_depth\<close> steps, each with its least number of steps; and the revised confidence of an
  effect is 10,000 less the hypothesis' confidence divided by the depth plus two, so that it lies
  between 5,000 and 10,000 basis points.
\<close>

theorem cascade_is_bounded_search:
  "\<exists>effects. cascade gq g roots max_depth confidence = Some (Ok effects) \<and>
    sorted_wrt (<) (map ce_entity effects) \<and>
    (\<forall>e d. (\<exists>x. x \<in> set effects \<and> ce_entity x = e \<and> ce_depth x = d) \<longleftrightarrow>
       least_walk gq g (set (bs_items roots)) max_depth d e) \<and>
    (confidence \<le> 10000 \<and> max_depth + 2 < 2 ^ 32 \<longrightarrow> list_all (\<lambda>x.
       unat (ce_revised_confidence_bps x) = 10000 - unat confidence div (ce_depth x + 2) \<and>
       5000 \<le> unat (ce_revised_confidence_bps x) \<and> unat (ce_revised_confidence_bps x) \<le> 10000) effects)"
proof -
  obtain effects where eff: "cascade gq g roots max_depth confidence = Some (Ok effects)"
    "\<forall>e d. (\<exists>x. x \<in> set effects \<and> ce_entity x = e \<and> ce_depth x = d) \<longleftrightarrow>
       least_walk gq g (set (bs_items roots)) max_depth d e" "sorted_wrt (<) (map ce_entity effects)"
    "\<forall>x \<in> set effects. ce_depth x \<le> max_depth \<and> ce_revised_confidence_bps x = revised_confidence confidence (ce_depth x)"
    using cascade_search [of gq g roots max_depth confidence] by blast
  have "list_all (\<lambda>x. unat (ce_revised_confidence_bps x) = 10000 - unat confidence div (ce_depth x + 2) \<and>
       5000 \<le> unat (ce_revised_confidence_bps x) \<and> unat (ce_revised_confidence_bps x) \<le> 10000) effects"
    if c: "confidence \<le> 10000" "max_depth + 2 < 2 ^ 32"
  proof -
    have "ce_depth x + 2 < 2 ^ 32" if "x \<in> set effects" for x using eff(4) that c(2) by fastforce
    then show ?thesis
      using eff(4) revised_confidence_exact [OF c(1)] revised_confidence_bounds [OF c(1)] by (auto simp: list_all_iff)
  qed
  with eff show ?thesis by blast
qed

section \<open>The whole revision\<close>

lemma contradiction_fact: "contradiction f h = Some c \<Longrightarrow> cn_fact c = mf_id f"
  by (auto simp: contradiction_def Let_def split: if_splits)

lemma belief_roots_exact:
  assumes "distinct (map mf_id (view_facts view))"
    and "set cs = {c. \<exists>f \<in> set (view_facts view). contradiction f h = Some c}"
  shows "set (bs_items (belief_roots view cs)) = {mf_target f | f. f \<in> set (view_facts view) \<and> contradiction f h \<noteq> None}"
proof -
  have found: "find (\<lambda>g. mf_id g = mf_id f) (view_facts view) = Some f" if "f \<in> set (view_facts view)" for f
  proof -
    obtain g where g: "find (\<lambda>g. mf_id g = mf_id f) (view_facts view) = Some g"
      using find_None_iff [of "\<lambda>g. mf_id g = mf_id f" "view_facts view"] \<open>f \<in> set (view_facts view)\<close>
      by (cases "find (\<lambda>g. mf_id g = mf_id f) (view_facts view)") blast+
    then have "g \<in> set (view_facts view)" "mf_id g = mf_id f" using find_in_set by fastforce+
    then have "g = f" using assms(1) that by (auto simp: distinct_map inj_on_def)
    with g show ?thesis by simp
  qed
  have "t \<in> set (bs_items (belief_roots view cs)) \<longleftrightarrow> (\<exists>f \<in> set (view_facts view). contradiction f h \<noteq> None \<and> t = mf_target f)" for t
    using assms(2) found contradiction_fact by (fastforce simp: belief_roots_def fold_insert_items set_map_filter)
  then show ?thesis by blast
qed

lemma kinds_get:
  assumes "distinct (map mn_id ns)"
  shows "bt_get (foldl (\<lambda>m n. bt_insert m (mn_id n) (mn_kind n)) [] ns) i = Some k \<longleftrightarrow>
    (\<exists>n \<in> set ns. mn_id n = i \<and> mn_kind n = k)"
  using assms
proof (induction ns rule: rev_induct)
  case (snoc n ns)
  then have "mn_id m \<noteq> mn_id n" if "m \<in> set ns" for m using that by (auto simp: image_iff)
  with snoc show ?case by auto
qed simp

lemma invalidated_exact:
  "set (invalidated view effects) = {ce_entity x | x. x \<in> set effects \<and>
    (\<exists>k. bt_get (foldl (\<lambda>m n. bt_insert m (mn_id n) (mn_kind n)) [] (view_nodes view)) (ce_entity x) = Some k \<and>
       eq_ignore_ascii_case k ''decision'')}"
  by (auto simp: invalidated_def Let_def split: option.splits)


section \<open>A small revision\<close>

definition demo_chain :: "(string list \<times> string list, string) graph_queries" where
  "demo_chain = \<lparr> gq_node_index = \<lambda>g i. Some i, gq_node_at = \<lambda>g i. Some i, gq_nodes = fst,
     gq_outgoing_neighbors_at = \<lambda>g i. if i = ''a'' then [''b''] else [''a''], gq_bfs = \<lambda>g i. [i],
     gq_in_degree = \<lambda>g i. Some 1, gq_out_degree = \<lambda>g i. Some 1 \<rparr>"

theorem cascade_is_bounded_search_witness:
  "\<exists>effects. cascade demo_chain ([''a'', ''b''], [''calls'']) (bs_insert [] (TextId ''a'')) 1 8000 = Some (Ok effects) \<and>
    list_all (\<lambda>x. unat (ce_revised_confidence_bps x) = 10000 - 8000 div (ce_depth x + 2)) effects"
proof -
  have "unat (8000 :: u16) = 8000" "(8000 :: u16) \<le> 10000 \<and> 1 + 2 < (2 ^ 32 :: nat)" by simp_all
  with cascade_is_bounded_search [of demo_chain "([''a'', ''b''], [''calls''])" "bs_insert [] (TextId ''a'')" 1 8000]
  show ?thesis by (auto simp: list_all_iff)
qed

definition demo_revision :: belief_revision_request where
  "demo_revision = \<lparr> br_hypothesis = demo_fact\<lparr>mf_target := TextId ''c''\<rparr>,
     br_clock = \<lparr> valid_at = Timestamp 2, known_at = Timestamp 6 \<rparr>, br_max_depth = 1 \<rparr>"


end
