(* ===== verification/Consolidation.thy ===== *)
theory Consolidation
  imports Analytics_Base
begin

text \<open>
  The maintenance plan, \<open>src/src/analytics/consolidation.rs\<close>: duplicates of an active fact, entities
  without edges and long chains of revisions, sorted, cut off at a limit, with the number of
  records the plan would save.
\<close>

section \<open>Plans (\<open>model.rs\<close>)\<close>

datatype consolidation_kind = SupersedeDuplicate | ReviewOrphan | CompactRevisionChain

fun consolidation_kind_index :: "consolidation_kind \<Rightarrow> nat" where
  "consolidation_kind_index SupersedeDuplicate = 0"
| "consolidation_kind_index ReviewOrphan = 1"
| "consolidation_kind_index CompactRevisionChain = 2"

lemma consolidation_kind_index_inject: "consolidation_kind_index a = consolidation_kind_index b \<Longrightarrow> a = b"
  by (cases a; cases b) auto

instantiation consolidation_kind :: linorder
begin

definition less_eq_consolidation_kind :: "consolidation_kind \<Rightarrow> consolidation_kind \<Rightarrow> bool" where
  "less_eq_consolidation_kind a b \<longleftrightarrow> consolidation_kind_index a \<le> consolidation_kind_index b"

definition less_consolidation_kind :: "consolidation_kind \<Rightarrow> consolidation_kind \<Rightarrow> bool" where
  "less_consolidation_kind a b \<longleftrightarrow> consolidation_kind_index a < consolidation_kind_index b"

instance
  by standard (auto simp: less_eq_consolidation_kind_def less_consolidation_kind_def dest: consolidation_kind_index_inject)

end

record consolidation_action =
  ca_kind :: consolidation_kind
  ca_keep :: "fact_id option"
  ca_affected_facts :: "fact_id list"
  ca_affected_entities :: "entity_id list"
  ca_rationale :: string

record consolidation_plan_data =
  cp_actions :: "consolidation_action list"
  cp_projected_savings :: usize
  cp_source_position :: "u64 option"

section \<open>The three kinds of action\<close>

definition triple_of :: "memory_fact \<Rightarrow> entity_id \<times> string \<times> entity_id" where
  "triple_of f = (mf_source f, mf_relation f, mf_target f)"

definition strength_key :: "memory_fact \<Rightarrow> confidence reverse \<times> timestamp reverse \<times> fact_id" where
  "strength_key f = (Reverse (mf_confidence f), Reverse (mf_recorded_at f), mf_id f)"

definition duplicate_action :: "(entity_id \<times> string \<times> entity_id) \<times> memory_fact list \<Rightarrow> consolidation_action option" where
  "duplicate_action group_entry =
    (case group_entry of ((source, _, target), facts) \<Rightarrow>
      if length facts < 2 then None
      else let duplicates = sort_key strength_key facts
           in Some \<lparr> ca_kind = SupersedeDuplicate, ca_keep = Some (mf_id (duplicates ! 0)),
                     ca_affected_facts = map mf_id duplicates, ca_affected_entities = [source, target],
                     ca_rationale = ''same active source, relation, and target; keep strongest evidence'' \<rparr>)"

definition duplicate_actions :: "memory_fact list \<Rightarrow> consolidation_action list" where
  "duplicate_actions facts = List.map_filter duplicate_action (group_by triple_of facts)"

definition orphan_action :: "('graph, 'index) graph_queries \<Rightarrow> 'graph \<Rightarrow> string \<Rightarrow> consolidation_action option" where
  "orphan_action gq g node =
    (case gq_node_index gq g node of
       None \<Rightarrow> None
     | Some index \<Rightarrow>
         if gq_in_degree gq g index = Some 0 \<and> gq_out_degree gq g index = Some 0
         then Some \<lparr> ca_kind = ReviewOrphan, ca_keep = None, ca_affected_facts = [],
                     ca_affected_entities = (case text_id_new ''entity'' node of Ok i \<Rightarrow> [i] | Err _ \<Rightarrow> []),
                     ca_rationale = ''entity has no active incoming or outgoing evidence'' \<rparr>
         else None)"

definition orphan_actions :: "('graph, 'index) graph_queries \<Rightarrow> 'graph \<Rightarrow> consolidation_action list" where
  "orphan_actions gq g = List.map_filter (orphan_action gq g) (gq_nodes gq g)"

definition revision_action :: "(entity_id \<times> string) \<times> memory_fact list \<Rightarrow> consolidation_action option" where
  "revision_action group_entry =
    (case group_entry of ((entity, _), group_facts) \<Rightarrow>
      let facts = revision_order group_facts;
          chain = length (filter (\<lambda>f. mf_supersedes f \<noteq> None) facts)
      in if chain \<ge> 3
         then Some \<lparr> ca_kind = CompactRevisionChain, ca_keep = map_option mf_id (last_of facts),
                     ca_affected_facts = map mf_id facts, ca_affected_entities = [entity],
                     ca_rationale = ''retain event history but checkpoint a long revision chain'' \<rparr>
         else None)"

definition revision_actions :: "memory_projection \<Rightarrow> projection_clock \<Rightarrow> consolidation_action list" where
  "revision_actions p clock = List.map_filter revision_action (revisions p (known_at clock))"

section \<open>The plan\<close>

definition action_key :: "consolidation_action \<Rightarrow> consolidation_kind \<times> entity_id list \<times> fact_id list" where
  "action_key a = (ca_kind a, ca_affected_entities a, ca_affected_facts a)"

definition savings :: "consolidation_action \<Rightarrow> usize" where
  "savings a = (case ca_kind a of ReviewOrphan \<Rightarrow> 0 | _ \<Rightarrow> length (ca_affected_facts a) - 1)"

definition all_actions ::
  "('graph, 'index) graph_queries \<Rightarrow> 'graph \<Rightarrow> memory_projection \<Rightarrow> projection_clock \<Rightarrow> consolidation_action list"
where
  "all_actions gq g p clock =
    duplicate_actions (view_facts (view_ref p clock)) @ orphan_actions gq g @ revision_actions p clock"

definition consolidation_plan ::
  "('kind, 'node, 'node_id, 'ev, 'prov, 'ekind, 'edge, 'graph) graph_api \<Rightarrow> ('graph, 'index) graph_queries \<Rightarrow>
   memory_projection \<Rightarrow> projection_clock \<Rightarrow> usize \<Rightarrow> consolidation_plan_data fallible"
where
  "consolidation_plan api gq p clock max_actions =
    (if max_actions = 0
     then Err (Fault (InvalidValue ''consolidation.max_actions'' ''must be greater than zero''))
     else and_then (project_graph api (view_ref p clock)) (\<lambda>g.
       let actions = take max_actions (sort_key action_key (all_actions gq g p clock))
       in Ok \<lparr> cp_actions = actions, cp_projected_savings = sum_list (map savings actions),
               cp_source_position = mp_last_global_position p \<rparr>))"

section \<open>What the actions are\<close>

definition same_triple :: "memory_view \<Rightarrow> entity_id \<Rightarrow> string \<Rightarrow> entity_id \<Rightarrow> memory_fact list" where
  "same_triple view source relation target =
    filter (\<lambda>f. mf_source f = source \<and> mf_relation f = relation \<and> mf_target f = target) (view_facts view)"

lemma duplicate_actions_in:
  "a \<in> set (duplicate_actions (view_facts view)) \<longleftrightarrow>
    (\<exists>source relation target. 2 \<le> length (same_triple view source relation target) \<and>
       duplicate_action ((source, relation, target), same_triple view source relation target) = Some a)"
proof -
  have same: "filter (\<lambda>f. triple_of f = (s, r, t)) (view_facts view) = same_triple view s r t" for s r t
    by (simp add: same_triple_def triple_of_def)
  have entry: "((s, r, t), fs) \<in> set (group_by triple_of (view_facts view)) \<longleftrightarrow> fs = same_triple view s r t \<and> fs \<noteq> []"
    for s r t fs by (simp add: group_by_in same)
  show ?thesis
  proof
    assume "a \<in> set (duplicate_actions (view_facts view))"
    then obtain s r t fs where "((s, r, t), fs) \<in> set (group_by triple_of (view_facts view))"
      "duplicate_action ((s, r, t), fs) = Some a"
      by (auto simp: duplicate_actions_def set_map_filter)
    moreover from this(2) have "2 \<le> length fs" by (auto simp: duplicate_action_def split: if_splits)
    ultimately show "\<exists>s r t. 2 \<le> length (same_triple view s r t) \<and> duplicate_action ((s, r, t), same_triple view s r t) = Some a"
      unfolding entry by blast
  next
    assume "\<exists>s r t. 2 \<le> length (same_triple view s r t) \<and> duplicate_action ((s, r, t), same_triple view s r t) = Some a"
    then obtain s r t where srt: "2 \<le> length (same_triple view s r t)" "duplicate_action ((s, r, t), same_triple view s r t) = Some a"
      by blast
    then have "((s, r, t), same_triple view s r t) \<in> set (group_by triple_of (view_facts view))"
      unfolding entry by auto
    with srt(2) show "a \<in> set (duplicate_actions (view_facts view))"
      unfolding duplicate_actions_def set_map_filter by blast
  qed
qed

lemma orphan_actions_in:
  "a \<in> set (orphan_actions gq g) \<longleftrightarrow> (\<exists>node \<in> set (gq_nodes gq g). orphan_action gq g node = Some a)"
  by (simp add: orphan_actions_def set_map_filter)

lemma revision_actions_in:
  "a \<in> set (revision_actions p clock) \<longleftrightarrow> (\<exists>entity relation.
     revision_action ((entity, relation), revisions_of p (known_at clock) entity relation) = Some a)"
proof -
  have "revision_action ((e, r), []) = None" for e r
    by (simp add: revision_action_def revision_order_def)
  then show ?thesis
    unfolding revision_actions_def set_map_filter by (metis (no_types, opaque_lifting) option.distinct(1) prod.collapse revisions_in)
qed

definition proposed ::
  "('graph, 'index) graph_queries \<Rightarrow> 'graph \<Rightarrow> memory_projection \<Rightarrow> projection_clock \<Rightarrow> consolidation_action \<Rightarrow> bool"
where
  "proposed gq g p clock a \<longleftrightarrow>
    (\<exists>source relation target. let same = same_triple (view_ref p clock) source relation target
       in 2 \<le> length same \<and> duplicate_action ((source, relation, target), same) = Some a) \<or>
    (\<exists>node \<in> set (gq_nodes gq g). orphan_action gq g node = Some a) \<or>
    (\<exists>entity relation. revision_action ((entity, relation), revisions_of p (known_at clock) entity relation) = Some a)"

lemma all_actions_in: "a \<in> set (all_actions gq g p clock) \<longleftrightarrow> proposed gq g p clock a"
  by (simp add: all_actions_def duplicate_actions_in orphan_actions_in revision_actions_in proposed_def Let_def)

lemma consolidation_plan_Ok:
  assumes "consolidation_plan api gq p clock n = Ok plan"
  obtains g where "project_graph api (view_ref p clock) = Ok g" "0 < n"
    "cp_actions plan = take n (sort_key action_key (all_actions gq g p clock))"
    "cp_projected_savings plan = sum_list (map savings (cp_actions plan))"
    "cp_source_position plan = mp_last_global_position p"
  using assms by (auto simp: consolidation_plan_def Let_def and_then_Ok split: if_splits)


section \<open>What a duplicate action keeps\<close>

lemma sort_key_head: "xs \<noteq> [] \<Longrightarrow> x \<in> set xs \<Longrightarrow> f (sort_key f xs ! 0) \<le> f x"
proof -
  assume "xs \<noteq> []" "x \<in> set xs"
  then obtain i where "i < length (sort_key f xs)" "sort_key f xs ! i = x" by (metis in_set_conv_nth set_sort)
  then show ?thesis
    using sorted_nth_mono [of "map f (sort_key f xs)" 0 i] \<open>xs \<noteq> []\<close> by (cases "sort_key f xs = []") auto
qed

text \<open>
  A duplicate action of a plan is about one source, relation and target that at least two active facts
  share; it affects exactly those facts, each once, and keeps one of the strongest of them: no
  other has a higher confidence, nor the same confidence and a later recording.
\<close>

theorem duplicates_keep_strongest:
  assumes "proj_inv p" "consolidation_plan api gq p clock max_actions = Ok plan" "a \<in> set (cp_actions plan)"
    "ca_kind a = SupersedeDuplicate"
  shows "\<exists>source relation target kept. ca_affected_entities a = [source, target] \<and> ca_keep a = Some (mf_id kept) \<and>
    kept \<in> set (same_triple (view_ref p clock) source relation target) \<and>
    2 \<le> length (ca_affected_facts a) \<and> distinct (ca_affected_facts a) \<and>
    set (ca_affected_facts a) = mf_id ` set (same_triple (view_ref p clock) source relation target) \<and>
    (\<forall>f \<in> set (same_triple (view_ref p clock) source relation target).
       mf_confidence f < mf_confidence kept \<or> mf_confidence f = mf_confidence kept \<and> mf_recorded_at f \<le> mf_recorded_at kept)"
proof -
  from consolidation_plan_Ok [OF assms(2)] obtain g where
    "cp_actions plan = take max_actions (sort_key action_key (all_actions gq g p clock))" by metis
  with assms(3) have "a \<in> set (all_actions gq g p clock)" by (auto dest: in_set_takeD)
  moreover have "a \<notin> set (orphan_actions gq g)" "a \<notin> set (revision_actions p clock)"
    using assms(4) by (auto simp: orphan_actions_in revision_actions_in orphan_action_def revision_action_def Let_def
        split: option.splits if_splits)
  ultimately obtain s r t where len: "2 \<le> length (same_triple (view_ref p clock) s r t)"
    and a: "duplicate_action ((s, r, t), same_triple (view_ref p clock) s r t) = Some a"
    by (auto simp: all_actions_def duplicate_actions_in)
  let ?same = "same_triple (view_ref p clock) s r t"
  let ?kept = "sort_key strength_key ?same ! 0"
  have act: "ca_affected_entities a = [s, t]" "ca_keep a = Some (mf_id ?kept)"
    "ca_affected_facts a = map mf_id (sort_key strength_key ?same)"
    using a len by (auto simp: duplicate_action_def Let_def)
  have kept: "?kept \<in> set ?same"
    using len nth_mem [of 0 "sort_key strength_key ?same"] by (auto simp del: length_greater_0_conv)
  have ids: "distinct (map mf_id ?same)"
    unfolding same_triple_def by (rule distinct_map_filter [OF view_facts_distinct [OF assms(1)]])
  then have "distinct (map mf_id (sort_key strength_key ?same))" by (simp add: distinct_map)
  moreover have "mf_confidence f < mf_confidence ?kept \<or> mf_confidence f = mf_confidence ?kept \<and> mf_recorded_at f \<le> mf_recorded_at ?kept"
    if "f \<in> set ?same" for f
    using sort_key_head [OF _ that, of strength_key] that
    by (cases "?same = []") (auto simp: strength_key_def less_eq_prod_def)
  ultimately show ?thesis using act kept len by (intro exI [of _ s] exI [of _ r] exI [of _ t] exI [of _ ?kept]) simp
qed

section \<open>The projected savings\<close>

lemma sum_map_filter:
  "sum_list (map h (List.map_filter f xs)) = sum_list (map (\<lambda>x. case f x of None \<Rightarrow> 0 | Some y \<Rightarrow> (h y :: nat)) xs)"
  by (induction xs) (auto simp: List.map_filter_def)

lemma sum_sort_key: "sum_list (map h (sort_key f xs)) = (sum_list (map h xs) :: nat)"
proof -
  have "sum_list (map h (insort_key f x xs)) = h x + (sum_list (map h xs) :: nat)" for x xs by (induction xs) auto
  then show ?thesis by (induction xs) (auto simp: sort_key_def)
qed

lemma duplicate_savings:
  "sum_list (map savings (duplicate_actions facts)) + card (triple_of ` set facts) = length facts"
proof -
  have "(case duplicate_action e of None \<Rightarrow> 0 | Some a \<Rightarrow> savings a) = (case e of (k, fs) \<Rightarrow> length fs - 1)" for e
    by (cases e) (auto simp: duplicate_action_def savings_def Let_def)
  then have "sum_list (map savings (duplicate_actions facts)) =
      sum_list (map (\<lambda>(k, fs). length fs - 1) (group_by triple_of facts))"
    unfolding duplicate_actions_def sum_map_filter by (simp add: case_prod_unfold)
  then show ?thesis using group_by_sizes [of triple_of facts] by simp
qed

definition chain_savings :: "memory_fact list \<Rightarrow> nat" where
  "chain_savings facts = (if 3 \<le> length (filter (\<lambda>f. mf_supersedes f \<noteq> None) facts) then length facts - 1 else 0)"

lemma revision_savings:
  "sum_list (map savings (revision_actions p clock)) =
    (\<Sum>(entity, relation) \<in> (\<lambda>f. (mf_source f, mf_relation f)) ` {f \<in> set (mp_facts p). mf_recorded_at f \<le> known_at clock}.
       chain_savings (revisions_of p (known_at clock) entity relation))"
proof -
  have "(case revision_action e of None \<Rightarrow> 0 | Some a \<Rightarrow> savings a) = (case e of (k, fs) \<Rightarrow> chain_savings fs)" for e
    by (cases e) (auto simp: revision_action_def savings_def chain_savings_def Let_def)
  then have "sum_list (map savings (revision_actions p clock)) =
      sum_list (map (\<lambda>(k, fs). chain_savings fs) (revisions p (known_at clock)))"
    unfolding revision_actions_def sum_map_filter by (simp add: case_prod_unfold)
  moreover have "filter (\<lambda>f. (mf_source f, mf_relation f) = k) (filter (\<lambda>f. mf_recorded_at f \<le> t) (mp_facts p)) =
      (case k of (e, r) \<Rightarrow> revisions_of p t e r)" for k t by (cases k) (simp add: revisions_of_def conj_ac)
  ultimately show ?thesis unfolding revisions_def group_by_sum by (simp add: case_prod_unfold)
qed

lemma orphan_savings: "sum_list (map savings (orphan_actions gq g)) = 0"
proof -
  have "savings a = 0" if "a \<in> set (orphan_actions gq g)" for a
  proof -
    have "ca_kind a = ReviewOrphan"
      using that by (auto simp: orphan_actions_in orphan_action_def split: option.splits if_splits)
    then show ?thesis by (simp add: savings_def)
  qed
  then show ?thesis by simp
qed

text \<open>
  The projected savings add up: when no action is cut off they are the number of active facts less
  the number of different triples they assert, plus the revisions but the last of every belief with at
  least three superseding revisions.
\<close>

theorem consolidation_savings_exact:
  assumes "consolidation_plan api gq p clock max_actions = Ok plan" "length (cp_actions plan) < max_actions"
  shows "cp_projected_savings plan =
    (length (view_facts (view_ref p clock)) - card (triple_of ` set (view_facts (view_ref p clock)))) +
    (\<Sum>(entity, relation) \<in> (\<lambda>f. (mf_source f, mf_relation f)) ` {f \<in> set (mp_facts p). mf_recorded_at f \<le> known_at clock}.
       chain_savings (revisions_of p (known_at clock) entity relation))"
proof -
  from consolidation_plan_Ok [OF assms(1)] obtain g where
    g: "cp_actions plan = take max_actions (sort_key action_key (all_actions gq g p clock))"
    "cp_projected_savings plan = sum_list (map savings (cp_actions plan))" by metis
  have "cp_actions plan = sort_key action_key (all_actions gq g p clock)" using g(1) assms(2) by simp
  then have "cp_projected_savings plan = sum_list (map savings (all_actions gq g p clock))"
    using g(2) by (simp add: sum_sort_key)
  then show ?thesis
    using duplicate_savings [of "view_facts (view_ref p clock)"] orphan_savings [of gq g]
    by (simp add: all_actions_def revision_savings)
qed

section \<open>A small plan\<close>

definition demo_copy :: memory_fact where
  "demo_copy = demo_fact\<lparr>mf_id := TextId ''g'', mf_confidence := Confidence 9000, mf_recorded_at := Timestamp 5\<rparr>"

definition demo_copied :: memory_projection where
  "demo_copied = snd (mp_apply demo_memory (demo_event ''e4'' 4 5 (FactRecorded demo_copy)))"

abbreviation demo_clock :: projection_clock where
  "demo_clock \<equiv> \<lparr> valid_at = Timestamp 2, known_at = Timestamp 6 \<rparr>"

definition demo_full :: "(string list \<times> string list, string) graph_queries" where
  "demo_full = \<lparr> gq_node_index = \<lambda>g i. Some i, gq_node_at = \<lambda>g i. Some i, gq_nodes = fst,
     gq_outgoing_neighbors_at = \<lambda>g i. [], gq_bfs = \<lambda>g i. [i], gq_in_degree = \<lambda>g i. Some 1,
     gq_out_degree = \<lambda>g i. Some 1 \<rparr>"

lemma demo_copied_inv: "proj_inv demo_copied"
  using mp_apply_inv [OF demo_inv] by (metis demo_copied_def prod.collapse)

lemma demo_copied_view:
  "mp_facts demo_copied = [demo_fact, demo_copy]"
  "view_ref demo_copied demo_clock = \<lparr> view_nodes = [demo_node ''a'', demo_node ''b''], view_facts = [demo_fact, demo_copy] \<rparr>"
proof -
  have ok: "fact_validate demo_copy = Ok ()"
    using demo_valid(2) by (simp add: demo_copy_def demo_fact_def fact_validate_Ok fact_ok_def less_eq_timestamp_def)
  have sel: "mf_id demo_copy = TextId ''g''" "mf_source demo_copy = TextId ''a''" "mf_target demo_copy = TextId ''b''"
    "mf_supersedes demo_copy = None" "mf_valid_from demo_copy = Timestamp 1" "mf_recorded_at demo_copy = Timestamp 5"
    "mf_valid_until demo_copy = None" "mf_agent_id demo_copy = TextId ''agent''" "mf_session_id demo_copy = TextId ''session''"
    by (simp_all add: demo_copy_def)
  have parts: "mp_facts demo_copied = [demo_fact, demo_copy] \<and> mp_nodes demo_copied = mp_nodes demo_memory \<and>
      mp_supersessions demo_copied = [] \<and> mp_retractions demo_copied = [(TextId ''f'', demo_first)]"
    by (simp add: demo_copied_def demo_simps ok sel)
  then show "mp_facts demo_copied = [demo_fact, demo_copy]" by simp
  show "view_ref demo_copied demo_clock = \<lparr> view_nodes = [demo_node ''a'', demo_node ''b''], view_facts = [demo_fact, demo_copy] \<rparr>"
    unfolding view_ref_def using parts
    by (simp add: demo_projection_def demo_visible fact_is_active_def bt_get_def demo_first_def sel
      less_eq_timestamp_def less_timestamp_def List.map_filter_def Let_def)
qed

lemma demo_copied_graph:
  "project_graph demo_api \<lparr> view_nodes = [demo_node ''a'', demo_node ''b''], view_facts = [demo_fact, demo_copy] \<rparr> =
    Ok ([''a'', ''b''], [''calls'', ''calls''])"
  by (simp add: project_graph_def push_node_def graph_node_def graph_edge_def endpoint_def first_evidence_def expect_def
      first_of_def demo_api_def bt_get_def Let_def demo_node_def demo_fact_def demo_copy_def demo_evidence_def)

definition demo_duplicate :: consolidation_action where
  "demo_duplicate = \<lparr> ca_kind = SupersedeDuplicate, ca_keep = Some (TextId ''f''),
     ca_affected_facts = [TextId ''f'', TextId ''g''], ca_affected_entities = [TextId ''a'', TextId ''b''],
     ca_rationale = ''same active source, relation, and target; keep strongest evidence'' \<rparr>"

lemma demo_plan:
  "consolidation_plan demo_api demo_full demo_copied demo_clock 5 =
    Ok \<lparr> cp_actions = [demo_duplicate], cp_projected_savings = 1, cp_source_position = mp_last_global_position demo_copied \<rparr>"
proof -
  have facts: "triple_of demo_fact = (TextId ''a'', ''calls'', TextId ''b'')" "triple_of demo_copy = (TextId ''a'', ''calls'', TextId ''b'')"
    "strength_key demo_fact \<le> strength_key demo_copy" "mf_id demo_copy = TextId ''g''" "mf_supersedes demo_copy = None"
    by (simp_all add: triple_of_def strength_key_def demo_fact_def demo_copy_def certain_def less_confidence_def less_eq_confidence_def)
  have "duplicate_actions [demo_fact, demo_copy] = [demo_duplicate]"
    using facts by (simp add: duplicate_actions_def group_by_def push_group_def bt_get_def facts duplicate_action_def
        List.map_filter_def demo_duplicate_def)
  moreover have "orphan_actions demo_full g = []" for g
    by (simp add: orphan_actions_def orphan_action_def demo_full_def List.map_filter_def)
  moreover have "revision_action e = None" if "snd e = [demo_fact, demo_copy]" for e
  proof -
    have "length (filter (\<lambda>f. mf_supersedes f \<noteq> None) (revision_order (snd e))) = 0"
      unfolding that by (simp add: facts)
    then show ?thesis by (cases e) (simp add: revision_action_def Let_def)
  qed
  then have "revision_actions demo_copied demo_clock = []"
    by (simp add: revision_actions_def revisions_def demo_copied_view(1) group_by_def push_group_def bt_get_def
        less_eq_timestamp_def demo_copy_def demo_fact_def List.map_filter_def)
  ultimately show ?thesis
    by (simp add: consolidation_plan_def demo_copied_view(2) demo_copied_graph all_actions_def savings_def demo_duplicate_def)
qed


theorem duplicates_keep_strongest_witness:
  "\<exists>source target (kept :: memory_fact). ca_affected_entities demo_duplicate = [source, target] \<and>
    ca_keep demo_duplicate = Some (mf_id kept) \<and> distinct (ca_affected_facts demo_duplicate)"
proof -
  have "ca_kind demo_duplicate = SupersedeDuplicate" by (simp add: demo_duplicate_def)
  with duplicates_keep_strongest [OF demo_copied_inv demo_plan, of demo_duplicate] show ?thesis by simp blast
qed

theorem consolidation_savings_exact_witness:
  "1 = (length [demo_fact, demo_copy] - card (triple_of ` {demo_fact, demo_copy})) +
    (\<Sum>(entity, relation) \<in> (\<lambda>f. (mf_source f, mf_relation f)) ` {f \<in> {demo_fact, demo_copy}. mf_recorded_at f \<le> Timestamp 6}.
       chain_savings (revisions_of demo_copied (Timestamp 6) entity relation))"
  using consolidation_savings_exact [OF demo_plan] by (simp add: demo_copied_view)

end
