(* ===== verification/Extraction_Model.thy ===== *)
theory Extraction_Model
  imports Containers
begin

text \<open>
  The data of automatic extraction: the keys and hashes of \<open>src/src/extraction/key.rs\<close>, the inputs,
  mentions, relations and plans of \<open>src/src/extraction/model\<close>, and the errors of
  \<open>src/src/extraction/provider.rs\<close>. The Unicode tables of the standard library (which characters are
  alphanumeric, and lower case) are a record of functions, an argument of what uses them.
\<close>

section \<open>Characters\<close>

definition is_continuation :: "char \<Rightarrow> bool" where
  "is_continuation c \<longleftrightarrow> utf8_cont (byte_of_char c)"

text \<open>\<open>str::is_char_boundary\<close> and \<open>str::chars\<close>, each character as the string of its bytes.\<close>

definition is_char_boundary :: "string \<Rightarrow> usize \<Rightarrow> bool" where
  "is_char_boundary s i \<longleftrightarrow> i = 0 \<or> i = length s \<or> (i < length s \<and> \<not> is_continuation (s ! i))"

function chars :: "string \<Rightarrow> string list" where
  "chars [] = []"
| "chars (c # s) = (c # takeWhile is_continuation s) # chars (dropWhile is_continuation s)"
  by pat_completeness auto
termination
  by (relation "measure length") (auto simp: le_imp_less_Suc length_dropWhile_le)

lemma concat_chars [simp]: "concat (chars s) = s"
  by (induction s rule: chars.induct) auto

text \<open>
  \<open>uc_to_lowercase\<close> is \<open>char::to_lowercase\<close> (which may yield several characters) and
  \<open>uc_str_to_lowercase\<close> is \<open>str::to_lowercase\<close>, which also looks at the context of a character.
\<close>

record unicode =
  uc_is_alphanumeric :: "string \<Rightarrow> bool"
  uc_to_lowercase :: "string \<Rightarrow> string"
  uc_str_to_lowercase :: "string \<Rightarrow> string"

section \<open>Keys (\<open>key.rs\<close>)\<close>

definition normalize_step :: "unicode \<Rightarrow> string \<times> bool \<Rightarrow> string \<Rightarrow> string \<times> bool" where
  "normalize_step uc acc character =
    (let (output, separator) = acc
     in if uc_is_alphanumeric uc character
        then ((if separator \<and> output \<noteq> [] then output @ '' '' else output) @ uc_to_lowercase uc character, False)
        else (output, True))"

definition normalized :: "unicode \<Rightarrow> string \<Rightarrow> string" where
  "normalized uc s = fst (foldl (normalize_step uc) ([], False) (chars s))"

definition slug :: "unicode \<Rightarrow> string \<Rightarrow> string" where
  "slug uc s =
    (let result = concat (map (\<lambda>c. if c = '' '' then ''-'' else c) (take 32 (chars (normalized uc s))))
     in if result = [] then ''entity'' else result)"

definition hash_offset :: u64 where "hash_offset = 0xcbf29ce484222325"
definition hash_prime :: u64 where "hash_prime = 0x100000001b3"

definition hash_byte :: "u64 \<Rightarrow> u8 \<Rightarrow> u64" where
  "hash_byte hash byte = (hash XOR ucast byte) * hash_prime"

definition part_bytes :: "string \<Rightarrow> bytes" where
  "part_bytes part = u64_le_bytes (of_nat (length part)) @ as_bytes part"

definition stable_hash :: "string list \<Rightarrow> u64" where
  "stable_hash parts = foldl (\<lambda>hash part. foldl hash_byte hash (part_bytes part)) hash_offset parts"

text \<open>The format \<open>{:016x}\<close>.\<close>

definition hex_digit :: "u64 \<Rightarrow> char" where
  "hex_digit d = char_of (if d < 10 then 48 + unat d else 87 + unat d)"

fun hex_digits :: "nat \<Rightarrow> u64 \<Rightarrow> string" where
  "hex_digits 0 w = []"
| "hex_digits (Suc n) w = hex_digits n (drop_bit 4 w) @ [hex_digit (w AND 15)]"

definition hex16 :: "u64 \<Rightarrow> string" where
  "hex16 w = hex_digits 16 w"

section \<open>Inputs (\<open>model/input.rs\<close>)\<close>

record text_span =
  ts_start :: usize
  ts_end :: usize

definition text_span_new :: "usize \<Rightarrow> usize \<Rightarrow> text_span memory_result" where
  "text_span_new a b =
    (if a \<ge> b then Err (InvalidValue ''text_span'' ''start must be before end'')
     else Ok \<lparr> ts_start = a, ts_end = b \<rparr>)"

record extraction_input =
  ei_source :: string
  ei_content :: string
  ei_occurred_at :: timestamp
  ei_recorded_at :: timestamp
  ei_agent_id :: agent_id
  ei_session_id :: session_id
  ei_repository :: "string option"
  ei_branch :: "string option"
  ei_locator :: "string option"
  ei_digest :: "string option"

definition input_validate :: "extraction_input \<Rightarrow> unit memory_result" where
  "input_validate i =
    and_then (validate_text ''extraction.source'' (ei_source i)) (\<lambda>_.
      if trim (ei_content i) = []
      then Err (InvalidValue ''extraction.content'' ''must contain non-whitespace text'')
      else if ei_occurred_at i > ei_recorded_at i
      then Err (InvalidValue ''extraction.occurred_at'' ''must not be later than recorded_at'')
      else
        and_then (validate_optional_text ''extraction.repository'' (ei_repository i)) (\<lambda>_.
        and_then (validate_optional_text ''extraction.branch'' (ei_branch i)) (\<lambda>_.
        and_then (validate_optional_text ''extraction.locator'' (ei_locator i)) (\<lambda>_.
          validate_optional_text ''extraction.digest'' (ei_digest i)))))"

definition extraction_input_new ::
  "string \<Rightarrow> string \<Rightarrow> timestamp \<Rightarrow> timestamp \<Rightarrow> agent_id \<Rightarrow> session_id \<Rightarrow> extraction_input memory_result" where
  "extraction_input_new source content occurred_at recorded_at agent session =
    (let input = \<lparr> ei_source = source, ei_content = content, ei_occurred_at = occurred_at, ei_recorded_at = recorded_at,
                   ei_agent_id = agent, ei_session_id = session, ei_repository = None, ei_branch = None,
                   ei_locator = None, ei_digest = None \<rparr>
     in and_then (input_validate input) (\<lambda>_. Ok input))"

definition input_in_repository :: "extraction_input \<Rightarrow> string \<Rightarrow> extraction_input" where
  "input_in_repository i r = i\<lparr>ei_repository := Some r\<rparr>"

definition input_on_branch :: "extraction_input \<Rightarrow> string \<Rightarrow> extraction_input" where
  "input_on_branch i b = i\<lparr>ei_branch := Some b\<rparr>"

definition input_with_locator :: "extraction_input \<Rightarrow> string \<Rightarrow> extraction_input" where
  "input_with_locator i l = i\<lparr>ei_locator := Some l\<rparr>"

definition input_with_digest :: "extraction_input \<Rightarrow> string \<Rightarrow> extraction_input" where
  "input_with_digest i d = i\<lparr>ei_digest := Some d\<rparr>"

record entity_hint =
  eh_entity_id :: entity_id
  eh_confidence :: confidence
  eh_source :: string

definition entity_hint_new :: "entity_id \<Rightarrow> confidence \<Rightarrow> string \<Rightarrow> entity_hint memory_result" where
  "entity_hint_new i c source =
    and_then (validate_text ''entity_hint.source'' source) (\<lambda>_.
      Ok \<lparr> eh_entity_id = i, eh_confidence = c, eh_source = source \<rparr>)"

record extracted_entity =
  xe_local_id :: string
  xe_kind :: string
  xe_label :: string
  xe_confidence :: confidence
  xe_stable_id :: "entity_id option"
  xe_aliases :: "string list"
  xe_attributes :: "(string, string) btree_map"
  xe_hints :: "entity_hint list"
  xe_span :: "text_span option"

definition external_key :: "string \<Rightarrow> bool" where
  "external_key key \<longleftrightarrow> prefix ''external_id.'' key"

definition entity_validate :: "extracted_entity \<Rightarrow> unit memory_result" where
  "entity_validate e =
    and_then (validate_text ''extracted_entity.local_id'' (xe_local_id e)) (\<lambda>_.
    and_then (validate_text ''extracted_entity.kind'' (xe_kind e)) (\<lambda>_.
    and_then (validate_text ''extracted_entity.label'' (xe_label e)) (\<lambda>_.
    and_then (try_for_each (validate_text ''extracted_entity.alias'') (xe_aliases e)) (\<lambda>_.
    and_then (try_for_each (validate_text ''extracted_entity.attribute.key'') (bt_keys (xe_attributes e))) (\<lambda>_.
    and_then (try_for_each (\<lambda>(key, v). if external_key key then validate_text ''extracted_entity.external_id'' v else Ok ())
                (xe_attributes e)) (\<lambda>_.
      try_for_each (\<lambda>hint. validate_text ''entity_hint.source'' (eh_source hint)) (xe_hints e)))))))"

definition extracted_entity_new :: "string \<Rightarrow> string \<Rightarrow> string \<Rightarrow> confidence \<Rightarrow> extracted_entity memory_result" where
  "extracted_entity_new local_id kind label c =
    (let e = \<lparr> xe_local_id = local_id, xe_kind = kind, xe_label = label, xe_confidence = c, xe_stable_id = None,
               xe_aliases = [], xe_attributes = [], xe_hints = [], xe_span = None \<rparr>
     in and_then (entity_validate e) (\<lambda>_. Ok e))"

definition entity_with_stable_id :: "extracted_entity \<Rightarrow> entity_id \<Rightarrow> extracted_entity" where
  "entity_with_stable_id e i = e\<lparr>xe_stable_id := Some i\<rparr>"

definition entity_with_alias :: "extracted_entity \<Rightarrow> string \<Rightarrow> extracted_entity" where
  "entity_with_alias e a = e\<lparr>xe_aliases := xe_aliases e @ [a]\<rparr>"

definition entity_with_attribute :: "extracted_entity \<Rightarrow> string \<Rightarrow> string \<Rightarrow> extracted_entity" where
  "entity_with_attribute e k v = e\<lparr>xe_attributes := bt_insert (xe_attributes e) k v\<rparr>"

definition entity_with_hint :: "extracted_entity \<Rightarrow> entity_hint \<Rightarrow> extracted_entity" where
  "entity_with_hint e h = e\<lparr>xe_hints := xe_hints e @ [h]\<rparr>"

definition entity_with_span :: "extracted_entity \<Rightarrow> text_span \<Rightarrow> extracted_entity" where
  "entity_with_span e s = e\<lparr>xe_span := Some s\<rparr>"

section \<open>Relations and outputs (\<open>model/output.rs\<close>)\<close>

record extracted_relation =
  xr_local_id :: string
  xr_source :: string
  xr_relation :: string
  xr_target :: string
  xr_confidence :: confidence
  xr_valid_from :: "timestamp option"
  xr_valid_until :: "timestamp option"
  xr_span :: "text_span option"

definition relation_validate :: "extracted_relation \<Rightarrow> unit memory_result" where
  "relation_validate r =
    and_then (validate_text ''extracted_relation.local_id'' (xr_local_id r)) (\<lambda>_.
    and_then (validate_text ''extracted_relation.source'' (xr_source r)) (\<lambda>_.
    and_then (validate_text ''extracted_relation.relation'' (xr_relation r)) (\<lambda>_.
      validate_text ''extracted_relation.target'' (xr_target r))))"

definition extracted_relation_new ::
  "string \<Rightarrow> string \<Rightarrow> string \<Rightarrow> string \<Rightarrow> confidence \<Rightarrow> extracted_relation memory_result" where
  "extracted_relation_new local_id source relation target c =
    (let r = \<lparr> xr_local_id = local_id, xr_source = source, xr_relation = relation, xr_target = target, xr_confidence = c,
               xr_valid_from = None, xr_valid_until = None, xr_span = None \<rparr>
     in and_then (relation_validate r) (\<lambda>_. Ok r))"

definition relation_valid_from :: "extracted_relation \<Rightarrow> timestamp \<Rightarrow> extracted_relation" where
  "relation_valid_from r t = r\<lparr>xr_valid_from := Some t\<rparr>"

definition relation_valid_until :: "extracted_relation \<Rightarrow> timestamp \<Rightarrow> extracted_relation" where
  "relation_valid_until r t = r\<lparr>xr_valid_until := Some t\<rparr>"

definition relation_with_span :: "extracted_relation \<Rightarrow> text_span \<Rightarrow> extracted_relation" where
  "relation_with_span r s = r\<lparr>xr_span := Some s\<rparr>"

record extraction_output =
  xo_entities :: "extracted_entity list"
  xo_relations :: "extracted_relation list"

section \<open>Links and plans (\<open>model/link.rs\<close>)\<close>

record link_policy =
  lp_minimum_score :: u16
  lp_minimum_margin :: u16
  lp_create_unmatched :: bool

definition link_policy_default :: link_policy where
  "link_policy_default = \<lparr> lp_minimum_score = 8000, lp_minimum_margin = 500, lp_create_unmatched = True \<rparr>"

definition link_policy_new :: "u16 \<Rightarrow> u16 \<Rightarrow> bool \<Rightarrow> link_policy memory_result" where
  "link_policy_new score margin create =
    (if score > 10000 \<or> margin > 10000
     then Err (InvalidValue ''link_policy'' ''scores must be between 0 and 10,000 basis points'')
     else Ok \<lparr> lp_minimum_score = score, lp_minimum_margin = margin, lp_create_unmatched = create \<rparr>)"

datatype link_method =
    StableId | ExternalId | ProviderHint | ScopedLabel | Label | Alias | Created | Ambiguous | Unresolved

fun method_name :: "link_method \<Rightarrow> string" where
  "method_name StableId = ''StableId''"
| "method_name ExternalId = ''ExternalId''"
| "method_name ProviderHint = ''ProviderHint''"
| "method_name ScopedLabel = ''ScopedLabel''"
| "method_name Label = ''Label''"
| "method_name Alias = ''Alias''"
| "method_name Created = ''Created''"
| "method_name Ambiguous = ''Ambiguous''"
| "method_name Unresolved = ''Unresolved''"

record link_candidate =
  lc_entity_id :: entity_id
  lc_score :: confidence
  lc_method :: link_method

record link_decision =
  ld_mention_id :: string
  ld_entity_id :: "entity_id option"
  ld_score :: confidence
  ld_method :: link_method
  ld_candidates :: "link_candidate list"

record rejected_relation =
  rj_relation_id :: string
  rj_source_mention :: string
  rj_target_mention :: string
  rj_reason :: string

record extraction_plan =
  xp_provider :: string
  xp_source :: string
  xp_events :: "memory_event new_event list"
  xp_links :: "link_decision list"
  xp_rejected_relations :: "rejected_relation list"

definition node_event_count :: "extraction_plan \<Rightarrow> usize" where
  "node_event_count plan =
    length (filter (\<lambda>e. case ne_payload e of NodeUpserted _ \<Rightarrow> True | _ \<Rightarrow> False) (xp_events plan))"

definition fact_event_count :: "extraction_plan \<Rightarrow> usize" where
  "fact_event_count plan =
    length (filter (\<lambda>e. case ne_payload e of FactRecorded _ \<Rightarrow> True | _ \<Rightarrow> False) (xp_events plan))"

section \<open>Providers (\<open>provider.rs\<close>)\<close>

record extraction_error =
  xx_provider :: string
  xx_message :: string

definition from_extraction_error :: "extraction_error \<Rightarrow> memory_error" where
  "from_extraction_error e = ExtractionFailed (xx_provider e) (xx_message e)"

definition extraction_error_new :: "string \<Rightarrow> string \<Rightarrow> extraction_error" where
  "extraction_error_new provider message = \<lparr> xx_provider = provider, xx_message = message \<rparr>"

definition extraction_error_text :: "extraction_error \<Rightarrow> string" where
  "extraction_error_text e = ''extraction provider '' @ xx_provider e @ '' failed: '' @ xx_message e"

record extraction_provider =
  xv_name :: string
  xv_extract :: "extraction_input \<Rightarrow> (extraction_output, extraction_error) result"

section \<open>Hashes\<close>

text \<open>The prime is odd, so that a step can be undone; a step is injective in the hash and in the byte.\<close>

definition hash_prime_inverse :: u64 where "hash_prime_inverse = 0xce965057aff6957b"

lemma hash_prime_inverse: "hash_prime * hash_prime_inverse = 1"
  by (simp add: hash_prime_def hash_prime_inverse_def)

lemma hash_prime_cancel: "a * hash_prime = b * hash_prime \<longleftrightarrow> a = b"
proof
  assume "a * hash_prime = b * hash_prime"
  then have "a * (hash_prime * hash_prime_inverse) = b * (hash_prime * hash_prime_inverse)"
    by (simp only: mult.assoc [symmetric])
  then show "a = b" by (simp add: hash_prime_inverse)
qed simp

lemma hash_byte_inject:
  "hash_byte h b = hash_byte h' b \<longleftrightarrow> h = h'" "hash_byte h b = hash_byte h b' \<longleftrightarrow> b = b'"
proof -
  have undo: "(x XOR y) XOR y = x" "y XOR (y XOR x) = x" for x y :: u64
    by (rule bit_word_eqI, auto simp: bit_xor_iff)+
  have x: "x XOR y = x' XOR y \<longleftrightarrow> x = x'" "y XOR x = y XOR x' \<longleftrightarrow> x = x'" for x x' y :: u64
    by (metis undo(1)) (metis undo(2))
  show "hash_byte h b = hash_byte h' b \<longleftrightarrow> h = h'" by (simp add: hash_byte_def hash_prime_cancel x)
  have "ucast (ucast c :: u64) = c" for c :: u8
    by (rule bit_word_eqI) (simp add: bit_unsigned_iff possible_bit_word)
  then have "(ucast b :: u64) = ucast b' \<longleftrightarrow> b = b'" by metis
  then show "hash_byte h b = hash_byte h b' \<longleftrightarrow> b = b'" by (simp add: hash_byte_def hash_prime_cancel x)
qed

lemma hash_bytes_inject: "foldl hash_byte h bs = foldl hash_byte h' bs \<longleftrightarrow> h = h'"
  by (induction bs arbitrary: h h') (auto simp: hash_byte_inject)

lemma stable_hash_bytes: "stable_hash parts = foldl hash_byte hash_offset (concat (map part_bytes parts))"
proof -
  have "foldl (\<lambda>hash part. foldl hash_byte hash (part_bytes part)) h parts = foldl hash_byte h (concat (map part_bytes parts))" for h
    by (induction parts arbitrary: h) auto
  then show ?thesis by (simp add: stable_hash_def)
qed

lemma part_bytes_inject:
  assumes "length s < 2 ^ 64" "length t < 2 ^ 64" "part_bytes s @ bs = part_bytes t @ cs"
  shows "s = t \<and> bs = cs"
proof -
  from assms(3) have len: "u64_le_bytes (of_nat (length s)) = u64_le_bytes (of_nat (length t))"
    and rest: "as_bytes s @ bs = as_bytes t @ cs"
    unfolding part_bytes_def append_assoc
    using append_eq_append_conv [of "u64_le_bytes (of_nat (length s))" "u64_le_bytes (of_nat (length t))" "as_bytes s @ bs" "as_bytes t @ cs"]
    by simp_all
  from len have "(of_nat (length s) :: u64) = of_nat (length t)" by (metis u64_le_round_trip)
  then have "length s = length t" using of_nat_u64_inject assms(1,2) by blast
  then have "as_bytes s = as_bytes t \<and> bs = cs" using rest by simp
  then show ?thesis by (metis str_of_as_bytes)
qed

lemma part_bytes_nonempty [simp]: "part_bytes s \<noteq> []"
proof -
  have "length (part_bytes s) = 8 + length s" by (simp add: part_bytes_def)
  then show ?thesis by auto
qed

lemma part_stream_inject:
  assumes "\<forall>s \<in> set ps \<union> set qs. length s < 2 ^ 64" "concat (map part_bytes ps) = concat (map part_bytes qs)"
  shows "ps = qs"
  using assms
proof (induction ps arbitrary: qs)
  case Nil
  then show ?case by (cases qs) auto
next
  case (Cons p ps)
  obtain q qs' where qs: "qs = q # qs'" using Cons.prems(2) by (cases qs) simp_all
  have "p = q \<and> concat (map part_bytes ps) = concat (map part_bytes qs')"
    using part_bytes_inject [of p q] Cons.prems qs by simp
  with Cons qs show ?case by simp
qed

text \<open>
  The stable hash separates its parts: the bytes it hashes determine the list of parts, so that moving
  text from one part to the next changes what is hashed; and two lists of parts that differ in a
  single byte of one part have different hashes.
\<close>

theorem stable_hash_separates:
  "(list_all (\<lambda>s. length s < 2 ^ 64) (ps @ qs) \<longrightarrow>
     concat (map part_bytes ps) = concat (map part_bytes qs) \<longrightarrow> ps = qs) \<and>
   (a \<noteq> b \<longrightarrow> stable_hash (xs @ (s @ a # t) # ys) \<noteq> stable_hash (xs @ (s @ b # t) # ys))"
proof (intro conjI impI)
  assume "list_all (\<lambda>s. length s < 2 ^ 64) (ps @ qs)" "concat (map part_bytes ps) = concat (map part_bytes qs)"
  then show "ps = qs" using part_stream_inject [of ps qs] by (auto simp: list_all_iff)
next
  assume "a \<noteq> b"
  then have ab: "byte_of_char a \<noteq> byte_of_char b" by (metis char_of_byte_of_char)
  show "stable_hash (xs @ (s @ a # t) # ys) \<noteq> stable_hash (xs @ (s @ b # t) # ys)"
    unfolding stable_hash_bytes by (simp add: part_bytes_def as_bytes_def hash_bytes_inject hash_byte_inject ab)
qed

theorem stable_hash_separates_witness:
  "stable_hash [''ab'', ''c''] \<noteq> stable_hash [''ad'', ''c''] \<and>
   concat (map part_bytes [''ab'', ''c'']) \<noteq> concat (map part_bytes [''a'', ''bc''])"
proof -
  have "stable_hash [''ab'', ''c''] \<noteq> stable_hash [''ad'', ''c'']"
    using stable_hash_separates [of "[]" "[]" "CHR ''b''" "CHR ''d''" "[]" "''a''" "[]" "[''c'']"] by simp
  moreover have "concat (map part_bytes [''ab'', ''c'']) \<noteq> concat (map part_bytes [''a'', ''bc''])"
    using stable_hash_separates [of "[''ab'', ''c'']" "[''a'', ''bc'']" "CHR ''b''" "CHR ''b''" "[]" "[]" "[]" "[]"] by auto
  ultimately show ?thesis ..
qed

section \<open>Identifiers made of text\<close>

lemma white_space_edges: "list_all (\<lambda>w. \<not> (33 \<le> (of_char (hd w) :: nat) \<and> of_char (hd w) \<le> (126 :: nat)) \<and>
    \<not> (33 \<le> (of_char (last w) :: nat) \<and> of_char (last w) \<le> (126 :: nat))) white_space"
  by (simp add: white_space_def)

definition visible :: "char \<Rightarrow> bool" where
  "visible c \<longleftrightarrow> 33 \<le> (of_char c :: nat) \<and> of_char c \<le> (126 :: nat)"

lemma trimmed_visible:
  assumes "s \<noteq> []" "visible (hd s)" "visible (last s)"
  shows "trimmed s"
  unfolding trimmed_iff
proof (intro conjI ballI)
  fix w assume w: "w \<in> set white_space"
  then have e: "w \<noteq> []" "\<not> visible (hd w)" "\<not> visible (last w)"
    using white_space_edges white_space_nonempty by (auto simp: list_all_iff visible_def)
  show "\<not> prefix w s" using e assms(2) by (cases w) (auto simp: prefix_def)
  show "\<not> suffix w s" using e assms(3) by (auto simp: suffix_def)
qed (rule assms(1))

lemma visible_hex: "visible (hex_digit d)" if "d \<le> 15"
proof -
  have d: "unat d \<le> 15" using that by (simp add: word_le_nat_alt)
  then show ?thesis by (auto simp: hex_digit_def visible_def of_char_of word_less_nat_alt)
qed

lemma last_hex16: "hex16 w \<noteq> [] \<and> visible (last (hex16 w))"
proof -
  have "w AND 15 \<le> 15" for w :: u64 by (rule word_and_le1)
  then show ?thesis by (simp add: hex16_def numeral_eq_Suc visible_hex)
qed

lemma trimmed_hashed: "visible (hd prefix_text) \<Longrightarrow> prefix_text \<noteq> [] \<Longrightarrow> trimmed (prefix_text @ hex16 w)"
  using last_hex16 [of w] by (intro trimmed_visible) auto

lemma visible_lower: "visible (CHR ''a'')" "visible (CHR ''b'')" "visible (CHR ''e'')" "visible (CHR ''f'')"
  by (simp_all add: visible_def)

section \<open>ASCII as an instance of the Unicode tables\<close>

definition ascii_letter :: "char \<Rightarrow> bool" where
  "ascii_letter c \<longleftrightarrow> c \<in> set ''abcdefghijklmnopqrstuvwxyzABCDEFGHIJKLMNOPQRSTUVWXYZ0123456789''"

definition ascii_small :: "char \<Rightarrow> char" where
  "ascii_small c = (let n = (of_char c :: nat) in if 65 \<le> n \<and> n \<le> 90 then char_of (n + 32) else c)"

definition ascii_unicode :: unicode where
  "ascii_unicode = \<lparr> uc_is_alphanumeric = list_all ascii_letter, uc_to_lowercase = map ascii_small,
     uc_str_to_lowercase = map ascii_small \<rparr>"

lemma not_continuation [simp]: "(of_char c :: nat) < 128 \<Longrightarrow> \<not> is_continuation c"
  by (simp add: is_continuation_def utf8_cont_def byte_of_char_def word_le_nat_alt unat_of_nat)

lemma normalized_examples:
  "normalized ascii_unicode ''Module'' = ''module''" "normalized ascii_unicode ''module'' = ''module''"
  "normalized ascii_unicode ''Label'' = ''label''" "normalized ascii_unicode ''label'' = ''label''"
  "normalized ascii_unicode ''-- my Label! '' = ''my label''"
  by (simp_all add: normalized_def normalize_step_def ascii_unicode_def ascii_letter_def ascii_small_def Let_def char_of_def bit_Suc_0_iff)

end
