(* ===== verification/Linker.thy ===== *)
theory Linker
  imports Extraction_Model
begin

text \<open>
  Linking mentions to known entities, \<open>src/src/extraction/linker\<close>: the catalog with its exact-match
  indexes, the scores of the candidates, and the decision, which never picks one of two candidates
  that are too close.
\<close>

section \<open>The catalog (\<open>linker/mod.rs\<close>, \<open>linker/catalog.rs\<close>)\<close>

datatype index_bucket = One usize | Many "usize list"

record catalog_entity =
  ct_id :: entity_id
  ct_kind :: string
  ct_repository :: "string option"
  ct_branch :: "string option"

text \<open>The indexes are hash maps that are only looked up; their order is never seen.\<close>

record entity_linker =
  el_nodes :: "catalog_entity list"
  el_by_id :: "entity_id \<rightharpoonup> usize"
  el_by_label :: "string \<times> string \<rightharpoonup> index_bucket"
  el_by_alias :: "string \<times> string \<rightharpoonup> index_bucket"
  el_by_external_id :: "string \<times> string \<times> string \<rightharpoonup> index_bucket"

definition exact_key :: "unicode \<Rightarrow> string \<Rightarrow> string" where
  "exact_key uc v = uc_str_to_lowercase uc (trim v)"

definition insert_index :: "('k \<rightharpoonup> index_bucket) \<Rightarrow> 'k \<Rightarrow> usize \<Rightarrow> ('k \<rightharpoonup> index_bucket)" where
  "insert_index m key v =
    (case m key of
       None \<Rightarrow> m(key \<mapsto> One v)
     | Some (One first) \<Rightarrow> m(key \<mapsto> Many [first, v])
     | Some (Many vs) \<Rightarrow> m(key \<mapsto> Many (vs @ [v])))"

definition alias_attribute :: "string \<Rightarrow> bool" where
  "alias_attribute key \<longleftrightarrow> key = ''alias'' \<or> prefix ''alias.'' key"

definition index_attribute ::
  "unicode \<Rightarrow> string \<Rightarrow> usize \<Rightarrow> entity_linker \<Rightarrow> string \<times> string \<Rightarrow> entity_linker memory_result" where
  "index_attribute uc kind index linker attribute =
    (let (key, v) = attribute
     in if alias_attribute key then
          and_then (validate_text ''entity_linker.alias'' v) (\<lambda>_.
            Ok (linker\<lparr>el_by_alias := insert_index (el_by_alias linker) (kind, normalized uc v) index\<rparr>))
        else if external_key key then
          and_then (validate_text ''entity_linker.external_id'' v) (\<lambda>_.
            Ok (linker\<lparr>el_by_external_id := insert_index (el_by_external_id linker) (kind, key, exact_key uc v) index\<rparr>))
        else Ok linker)"

definition catalog_node :: "unicode \<Rightarrow> entity_linker \<Rightarrow> usize \<times> memory_node \<Rightarrow> entity_linker memory_result" where
  "catalog_node uc linker entry =
    (let (index, n) = entry
     in and_then (node_validate n) (\<lambda>_.
        if el_by_id linker (mn_id n) \<noteq> None
        then Err (InvalidValue ''entity_linker.catalog'' ''entity identifiers must be unique'')
        else
          let kind = normalized uc (mn_kind n);
              linker = linker\<lparr>
                el_by_id := (el_by_id linker)(mn_id n \<mapsto> index),
                el_nodes := el_nodes linker @
                  [\<lparr> ct_id = mn_id n, ct_kind = kind, ct_repository = mn_repository n, ct_branch = mn_branch n \<rparr>],
                el_by_label := insert_index (el_by_label linker) (kind, normalized uc (mn_label n)) index\<rparr>
          in try_fold (index_attribute uc kind index) linker (mn_attributes n)))"

definition linker_from_view :: "unicode \<Rightarrow> memory_view \<Rightarrow> entity_linker memory_result" where
  "linker_from_view uc view =
    try_fold (catalog_node uc)
      \<lparr> el_nodes = [], el_by_id = Map.empty, el_by_label = Map.empty, el_by_alias = Map.empty, el_by_external_id = Map.empty \<rparr>
      (List.enumerate 0 (view_nodes view))"

section \<open>Scores (\<open>linker/scoring.rs\<close>)\<close>

definition decision ::
  "extracted_entity \<Rightarrow> entity_id option \<Rightarrow> confidence \<Rightarrow> link_method \<Rightarrow> link_candidate list \<Rightarrow> link_decision" where
  "decision mention i score link_method candidates =
    \<lparr> ld_mention_id = xe_local_id mention, ld_entity_id = i, ld_score = score, ld_method = link_method,
      ld_candidates = candidates \<rparr>"

definition generated_id :: "unicode \<Rightarrow> extracted_entity \<Rightarrow> extraction_input \<Rightarrow> entity_id memory_result" where
  "generated_id uc mention input =
    (let label = normalized uc (xe_label mention);
         hash = stable_hash [(case ei_repository input of Some r \<Rightarrow> r | None \<Rightarrow> []),
                             (case ei_branch input of Some b \<Rightarrow> b | None \<Rightarrow> []),
                             normalized uc (xe_kind mention), label]
     in text_id_new ''entity'' (''auto:'' @ slug uc (xe_kind mention) @ '':'' @ hex16 hash))"

definition scope_adjust :: "string option \<Rightarrow> string option \<Rightarrow> int \<Rightarrow> int \<Rightarrow> int \<Rightarrow> int \<times> bool" where
  "scope_adjust wanted candidate same other unknown =
    (case wanted of
       None \<Rightarrow> (0, False)
     | Some w \<Rightarrow> (case candidate of
         Some c \<Rightarrow> if c = w then (same, True) else (- other, False)
       | None \<Rightarrow> (- unknown, False)))"

definition scope_score :: "u16 \<Rightarrow> catalog_entity \<Rightarrow> extraction_input \<Rightarrow> (u16 \<times> bool) fallible" where
  "scope_score base node input =
    (let (r, repository_scoped) = scope_adjust (ei_repository input) (ct_repository node) 400 2000 300;
         (b, branch_scoped) = scope_adjust (ei_branch input) (ct_branch node) 200 700 100;
         score = uint base + r + b
     in and_then (expect ''clamped score fits u16'' (u16_try_from (nat (max 0 (min score 10000))))) (\<lambda>score.
          Ok (score, repository_scoped \<or> branch_scoped)))"

section \<open>Candidates (\<open>linker/mod.rs\<close>)\<close>

type_synonym candidates = "(entity_id, link_candidate) btree_map"

definition keep_better :: "candidates \<Rightarrow> link_candidate \<Rightarrow> candidates" where
  "keep_better cs c =
    (case bt_get cs (lc_entity_id c) of
       Some existing \<Rightarrow> if lc_score existing \<ge> lc_score c then cs else bt_insert cs (lc_entity_id c) c
     | None \<Rightarrow> bt_insert cs (lc_entity_id c) c)"

definition add_candidate ::
  "entity_linker \<Rightarrow> extracted_entity \<Rightarrow> extraction_input \<Rightarrow> u16 \<Rightarrow> link_method \<Rightarrow> candidates \<Rightarrow> usize \<Rightarrow> candidates fallible"
where
  "add_candidate linker mention input base_score link_method cs index =
    and_then (at_index (el_nodes linker) index) (\<lambda>node.
    and_then (scope_score base_score node input) (\<lambda>(score, scoped).
    and_then (returned (from_basis_points (min score (basis_points (xe_confidence mention))))) (\<lambda>score.
      Ok (keep_better cs \<lparr> lc_entity_id = ct_id node, lc_score = score,
            lc_method = (if link_method = Label \<and> scoped then ScopedLabel else link_method) \<rparr>))))"

fun bucket_items :: "index_bucket option \<Rightarrow> usize list" where
  "bucket_items None = []"
| "bucket_items (Some (One index)) = [index]"
| "bucket_items (Some (Many indexes)) = indexes"

definition add_index_matches ::
  "entity_linker \<Rightarrow> extracted_entity \<Rightarrow> extraction_input \<Rightarrow> u16 \<Rightarrow> link_method \<Rightarrow> candidates \<Rightarrow> index_bucket option \<Rightarrow>
   candidates fallible"
where
  "add_index_matches linker mention input base_score link_method cs indexes =
    try_fold (add_candidate linker mention input base_score link_method) cs (bucket_items indexes)"

definition add_hint ::
  "entity_linker \<Rightarrow> string \<Rightarrow> extracted_entity \<Rightarrow> extraction_input \<Rightarrow> candidates \<Rightarrow> entity_hint \<Rightarrow> candidates fallible"
where
  "add_hint linker kind mention input cs hint =
    (case el_by_id linker (eh_entity_id hint) of
       None \<Rightarrow> Ok cs
     | Some index \<Rightarrow>
         and_then (at_index (el_nodes linker) index) (\<lambda>node.
           if ct_kind node = kind
           then add_candidate linker mention input (basis_points (eh_confidence hint)) ProviderHint cs index
           else Ok cs))"

definition add_external ::
  "unicode \<Rightarrow> entity_linker \<Rightarrow> string \<Rightarrow> extracted_entity \<Rightarrow> extraction_input \<Rightarrow> candidates \<Rightarrow> string \<times> string \<Rightarrow>
   candidates fallible"
where
  "add_external uc linker kind mention input cs attribute =
    (let (key, v) = attribute
     in if external_key key
        then add_index_matches linker mention input 9700 ExternalId cs (el_by_external_id linker (kind, key, exact_key uc v))
        else Ok cs)"

definition candidate_order :: "link_candidate \<Rightarrow> confidence reverse \<times> entity_id" where
  "candidate_order c = (Reverse (lc_score c), lc_entity_id c)"

definition collect_candidates ::
  "unicode \<Rightarrow> entity_linker \<Rightarrow> extracted_entity \<Rightarrow> extraction_input \<Rightarrow> link_candidate list fallible"
where
  "collect_candidates uc linker mention input =
    (let kind = normalized uc (xe_kind mention); label = normalized uc (xe_label mention)
     in and_then (add_index_matches linker mention input 9000 Label [] (el_by_label linker (kind, label))) (\<lambda>cs.
        and_then (add_index_matches linker mention input 8500 Alias cs (el_by_alias linker (kind, label))) (\<lambda>cs.
        and_then (try_fold (\<lambda>cs alias. add_index_matches linker mention input 8500 Alias cs
                    (el_by_alias linker (kind, normalized uc alias))) cs (xe_aliases mention)) (\<lambda>cs.
        and_then (try_fold (add_external uc linker kind mention input) cs (xe_attributes mention)) (\<lambda>cs.
        and_then (try_fold (add_hint linker kind mention input) cs (xe_hints mention)) (\<lambda>cs.
          Ok (sort_key candidate_order (bt_values cs))))))))"

section \<open>The decision (\<open>linker/mod.rs\<close>)\<close>

definition link_stable_id :: "unicode \<Rightarrow> entity_linker \<Rightarrow> extracted_entity \<Rightarrow> entity_id \<Rightarrow> link_decision fallible" where
  "link_stable_id uc linker mention stable_id =
    (case el_by_id linker stable_id of
       Some index \<Rightarrow>
         and_then (at_index (el_nodes linker) index) (\<lambda>node.
           if ct_kind node \<noteq> normalized uc (xe_kind mention)
           then Err (Fault (InvalidValue ''extracted_entity.stable_id'' ''existing entity kind does not match extracted kind''))
           else Ok (decision mention (Some stable_id) (xe_confidence mention) StableId
                      [\<lparr> lc_entity_id = stable_id, lc_score = xe_confidence mention, lc_method = StableId \<rparr>]))
     | None \<Rightarrow> Ok (decision mention (Some stable_id) (xe_confidence mention) Created []))"

definition unmatched ::
  "unicode \<Rightarrow> entity_linker \<Rightarrow> extracted_entity \<Rightarrow> extraction_input \<Rightarrow> link_policy \<Rightarrow> link_candidate list \<Rightarrow> link_decision fallible"
where
  "unmatched uc linker mention input policy candidates =
    (if \<not> lp_create_unmatched policy
     then and_then (returned (from_basis_points 0)) (\<lambda>score. Ok (decision mention None score Unresolved candidates))
     else and_then (returned (generated_id uc mention input)) (\<lambda>i.
       if el_by_id linker i \<noteq> None
       then Err (Fault (ExtractionFailed ''entity-linker'' (''generated entity identifier collides with '' @ as_str i)))
       else Ok (decision mention (Some i) (xe_confidence mention) Created candidates)))"

definition u16_saturating_sub :: "u16 \<Rightarrow> u16 \<Rightarrow> u16" where
  "u16_saturating_sub a b = (if b \<le> a then a - b else 0)"

definition resolve_candidates ::
  "unicode \<Rightarrow> entity_linker \<Rightarrow> extracted_entity \<Rightarrow> extraction_input \<Rightarrow> link_policy \<Rightarrow> link_candidate list \<Rightarrow> link_decision fallible"
where
  "resolve_candidates uc linker mention input policy candidates =
    (case candidates of
       [] \<Rightarrow> unmatched uc linker mention input policy candidates
     | best # rest \<Rightarrow>
         if basis_points (lc_score best) < lp_minimum_score policy
         then unmatched uc linker mention input policy candidates
         else if (case rest of [] \<Rightarrow> False
                  | second # _ \<Rightarrow>
                      u16_saturating_sub (basis_points (lc_score best)) (basis_points (lc_score second)) < lp_minimum_margin policy)
         then Ok (decision mention None (lc_score best) Ambiguous candidates)
         else Ok (decision mention (Some (lc_entity_id best)) (lc_score best) (lc_method best) candidates))"

definition link ::
  "unicode \<Rightarrow> entity_linker \<Rightarrow> extracted_entity \<Rightarrow> extraction_input \<Rightarrow> link_policy \<Rightarrow> link_decision fallible"
where
  "link uc linker mention input policy =
    (if lp_minimum_score policy > 10000 \<or> lp_minimum_margin policy > 10000
     then Err (Fault (InvalidValue ''link_policy'' ''scores must be between 0 and 10,000 basis points''))
     else case xe_stable_id mention of
       Some stable_id \<Rightarrow> link_stable_id uc linker mention stable_id
     | None \<Rightarrow> and_then (collect_candidates uc linker mention input) (\<lambda>candidates.
         resolve_candidates uc linker mention input policy candidates))"

section \<open>What the indexes hold\<close>

definition catalog_entry :: "unicode \<Rightarrow> memory_node \<Rightarrow> catalog_entity" where
  "catalog_entry uc n =
    \<lparr> ct_id = mn_id n, ct_kind = normalized uc (mn_kind n), ct_repository = mn_repository n, ct_branch = mn_branch n \<rparr>"

definition alias_keys :: "unicode \<Rightarrow> string \<Rightarrow> (string \<times> string) list \<Rightarrow> (string \<times> string) set" where
  "alias_keys uc kind attributes = {(kind, normalized uc v) | k v. (k, v) \<in> set attributes \<and> alias_attribute k}"

definition external_keys :: "unicode \<Rightarrow> string \<Rightarrow> (string \<times> string) list \<Rightarrow> (string \<times> string \<times> string) set" where
  "external_keys uc kind attributes = {(kind, k, exact_key uc v) | k v. (k, v) \<in> set attributes \<and> external_key k}"

definition indexed :: "('k \<rightharpoonup> index_bucket) \<Rightarrow> 'k \<Rightarrow> usize set" where
  "indexed m key = set (bucket_items (m key))"

lemma indexed_empty [simp]: "indexed Map.empty key = {}"
  by (simp add: indexed_def)

lemma indexed_insert [simp]:
  "indexed (insert_index m key v) key' = (if key' = key then insert v (indexed m key') else indexed m key')"
  by (auto simp: indexed_def insert_index_def split: option.split index_bucket.split)

lemma external_not_alias: "external_key k \<Longrightarrow> \<not> alias_attribute k"
  by (auto simp: external_key_def alias_attribute_def prefix_def)

lemma alias_keys_Cons:
  "alias_keys uc kind ((k, v) # attributes) =
    (if alias_attribute k then insert (kind, normalized uc v) (alias_keys uc kind attributes) else alias_keys uc kind attributes)"
  by (auto simp: alias_keys_def)

lemma external_keys_Cons:
  "external_keys uc kind ((k, v) # attributes) =
    (if external_key k then insert (kind, k, exact_key uc v) (external_keys uc kind attributes) else external_keys uc kind attributes)"
  by (auto simp: external_keys_def)

lemma index_attributes:
  "try_fold (index_attribute uc kind index) l attributes = Ok l' \<Longrightarrow>
    el_nodes l' = el_nodes l \<and> el_by_id l' = el_by_id l \<and> el_by_label l' = el_by_label l \<and>
    (\<forall>key. indexed (el_by_alias l') key = indexed (el_by_alias l) key \<union> {x. x = index \<and> key \<in> alias_keys uc kind attributes}) \<and>
    (\<forall>key. indexed (el_by_external_id l') key =
       indexed (el_by_external_id l) key \<union> {x. x = index \<and> key \<in> external_keys uc kind attributes})"
proof (induction attributes arbitrary: l)
  case Nil
  then show ?case by (simp add: alias_keys_def external_keys_def)
next
  case (Cons attribute attributes)
  obtain k v where kv: "attribute = (k, v)" by force
  from Cons.prems obtain l1 where l1: "index_attribute uc kind index l (k, v) = Ok l1"
    "try_fold (index_attribute uc kind index) l1 attributes = Ok l'" by (auto simp: kv and_then_Ok)
  note IH = Cons.IH [OF l1(2)]
  show ?case
  proof (cases "alias_attribute k")
    case True
    then have "l1 = l\<lparr>el_by_alias := insert_index (el_by_alias l) (kind, normalized uc v) index\<rparr>" "\<not> external_key k"
      using l1(1) external_not_alias by (auto simp: index_attribute_def and_then_Ok)
    with True IH show ?thesis by (simp add: kv alias_keys_Cons external_keys_Cons) auto
  next
    case False
    then have "l1 = (if external_key k
        then l\<lparr>el_by_external_id := insert_index (el_by_external_id l) (kind, k, exact_key uc v) index\<rparr> else l)"
      using l1(1) by (auto simp: index_attribute_def and_then_Ok split: if_splits)
    with False IH show ?thesis by (simp add: kv alias_keys_Cons external_keys_Cons) auto
  qed
qed

definition catalog_ok :: "unicode \<Rightarrow> memory_node list \<Rightarrow> entity_linker \<Rightarrow> bool" where
  "catalog_ok uc nodes l \<longleftrightarrow> el_nodes l = map (catalog_entry uc) nodes \<and> distinct (map mn_id nodes) \<and>
    (\<forall>i k. el_by_id l i = Some k \<longleftrightarrow> k < length nodes \<and> mn_id (nodes ! k) = i) \<and>
    (\<forall>key. indexed (el_by_label l) key =
       {k. k < length nodes \<and> (normalized uc (mn_kind (nodes ! k)), normalized uc (mn_label (nodes ! k))) = key}) \<and>
    (\<forall>key. indexed (el_by_alias l) key =
       {k. k < length nodes \<and> key \<in> alias_keys uc (normalized uc (mn_kind (nodes ! k))) (mn_attributes (nodes ! k))}) \<and>
    (\<forall>key. indexed (el_by_external_id l) key =
       {k. k < length nodes \<and> key \<in> external_keys uc (normalized uc (mn_kind (nodes ! k))) (mn_attributes (nodes ! k))})"

lemma catalog_okD:
  assumes "catalog_ok uc nodes l"
  shows "el_nodes l = map (catalog_entry uc) nodes" "distinct (map mn_id nodes)"
    "el_by_id l i = Some k \<longleftrightarrow> k < length nodes \<and> mn_id (nodes ! k) = i"
    "indexed (el_by_label l) lk = {k. k < length nodes \<and> (normalized uc (mn_kind (nodes ! k)), normalized uc (mn_label (nodes ! k))) = lk}"
    "indexed (el_by_alias l) lk = {k. k < length nodes \<and> lk \<in> alias_keys uc (normalized uc (mn_kind (nodes ! k))) (mn_attributes (nodes ! k))}"
    "indexed (el_by_external_id l) xk = {k. k < length nodes \<and> xk \<in> external_keys uc (normalized uc (mn_kind (nodes ! k))) (mn_attributes (nodes ! k))}"
  using assms unfolding catalog_ok_def by blast+

lemma linker_node_ids:
  assumes "catalog_ok uc nodes l"
  shows "el_by_id l i = None \<longleftrightarrow> i \<notin> mn_id ` set nodes"
proof -
  have "(\<exists>k. el_by_id l i = Some k) \<longleftrightarrow> (\<exists>k < length nodes. mn_id (nodes ! k) = i)"
    by (simp only: catalog_okD(3) [OF assms])
  also have "\<dots> \<longleftrightarrow> i \<in> mn_id ` set nodes" by (metis image_iff in_set_conv_nth)
  finally show ?thesis by (cases "el_by_id l i") auto
qed

lemma less_Suc_nth:
  "{k. k < Suc (length xs) \<and> P ((xs @ [x]) ! k)} = {k. k < length xs \<and> P (xs ! k)} \<union> {k. k = length xs \<and> P x}"
  by (auto simp: less_Suc_eq nth_append)

lemma catalog_node_ok:
  assumes ok: "catalog_ok uc before l" and step: "catalog_node uc l (length before, n) = Ok l'"
  shows "catalog_ok uc (before @ [n]) l' \<and> node_ok n"
proof -
  let ?kind = "normalized uc (mn_kind n)" and ?k = "length before"
  let ?l = "l\<lparr> el_by_id := (el_by_id l)(mn_id n \<mapsto> ?k), el_nodes := el_nodes l @ [catalog_entry uc n],
      el_by_label := insert_index (el_by_label l) (?kind, normalized uc (mn_label n)) ?k\<rparr>"
  from step have n: "node_ok n" "el_by_id l (mn_id n) = None"
    and fold: "try_fold (index_attribute uc ?kind ?k) ?l (mn_attributes n) = Ok l'"
    by (auto simp: catalog_node_def Let_def and_then_Ok node_validate_Ok catalog_entry_def split: if_splits)
  note at = index_attributes [OF fold]
  note D = catalog_okD [OF ok]
  have new: "mn_id n \<notin> mn_id ` set before"
    using n(2) linker_node_ids [OF ok] by blast
  have "el_by_id l' i = Some k \<longleftrightarrow> k < Suc ?k \<and> mn_id ((before @ [n]) ! k) = i" for i k
    using at D(3) [of i k] new n(2) by (auto simp: less_Suc_eq nth_append)
  then show ?thesis
    using at D new n(1) unfolding catalog_ok_def
    by (simp add: less_Suc_nth [of before "\<lambda>m. (normalized uc (mn_kind m), normalized uc (mn_label m)) = key" n for key]
      less_Suc_nth [of before "\<lambda>m. key \<in> alias_keys uc (normalized uc (mn_kind m)) (mn_attributes m)" n for key]
      less_Suc_nth [of before "\<lambda>m. key \<in> external_keys uc (normalized uc (mn_kind m)) (mn_attributes m)" n for key]) auto
qed

lemma catalog_nodes_ok:
  "catalog_ok uc before l \<Longrightarrow> try_fold (catalog_node uc) l (List.enumerate (length before) ns) = Ok l' \<Longrightarrow>
    catalog_ok uc (before @ ns) l' \<and> (\<forall>n \<in> set ns. node_ok n)"
proof (induction ns arbitrary: before l)
  case (Cons n ns)
  from Cons.prems(2) obtain l1 where l1: "catalog_node uc l (length before, n) = Ok l1"
    "try_fold (catalog_node uc) l1 (List.enumerate (length (before @ [n])) ns) = Ok l'" by (auto simp: and_then_Ok)
  from catalog_node_ok [OF Cons.prems(1) l1(1)] Cons.IH [OF _ l1(2)] show ?case by simp
qed simp

lemma linker_catalog: "linker_from_view uc view = Ok l \<Longrightarrow> catalog_ok uc (view_nodes view) l"
proof -
  assume a: "linker_from_view uc view = Ok l"
  have "catalog_ok uc [] \<lparr> el_nodes = [], el_by_id = Map.empty, el_by_label = Map.empty, el_by_alias = Map.empty,
      el_by_external_id = Map.empty \<rparr>" by (simp add: catalog_ok_def)
  from catalog_nodes_ok [OF this] a show ?thesis by (simp add: linker_from_view_def)
qed

section \<open>What the candidates are\<close>

text \<open>The score a base score leads to, without the conversions, which never fail.\<close>

definition adjusted_score :: "u16 \<Rightarrow> memory_node \<Rightarrow> extraction_input \<Rightarrow> nat" where
  "adjusted_score base n input =
    nat (max 0 (min (uint base + fst (scope_adjust (ei_repository input) (mn_repository n) 400 2000 300) +
                     fst (scope_adjust (ei_branch input) (mn_branch n) 200 700 100)) 10000))"

definition final_score :: "extracted_entity \<Rightarrow> extraction_input \<Rightarrow> memory_node \<Rightarrow> u16 \<Rightarrow> confidence" where
  "final_score mention input n base =
    Confidence (min (of_nat (adjusted_score base n input)) (basis_points (xe_confidence mention)))"

lemma adjusted_score_bound: "adjusted_score base n input \<le> 10000"
  by (simp add: adjusted_score_def)

lemma scope_score_total:
  "\<exists>scoped. scope_score base (catalog_entry uc n) input = Ok (of_nat (adjusted_score base n input), scoped)"
  using u16_try_from_bps [OF adjusted_score_bound [of base n input]]
  by (simp add: scope_score_def catalog_entry_def adjusted_score_def Let_def split_beta)

text \<open>How a candidate can be found.\<close>

definition match_methods :: "link_method set" where
  "match_methods = {ExternalId, ProviderHint, ScopedLabel, Label, Alias}"

lemma match_methods [simp]:
  "ExternalId \<in> match_methods" "ProviderHint \<in> match_methods" "ScopedLabel \<in> match_methods" "Label \<in> match_methods"
  "Alias \<in> match_methods" "Created \<notin> match_methods" "StableId \<notin> match_methods"
  by (simp_all add: match_methods_def)

lemma add_candidate_total:
  assumes "catalog_ok uc nodes l" "k < length nodes" "m \<in> match_methods"
  shows "\<exists>link_method \<in> match_methods. add_candidate l mention input base m cs k =
    Ok (keep_better cs \<lparr> lc_entity_id = mn_id (nodes ! k), lc_score = final_score mention input (nodes ! k) base,
      lc_method = link_method \<rparr>)"
proof -
  let ?n = "nodes ! k"
  obtain scoped where s: "scope_score base (catalog_entry uc ?n) input = Ok (of_nat (adjusted_score base ?n input), scoped)"
    using scope_score_total by blast
  have "at_index (el_nodes l) k = Ok (catalog_entry uc ?n)" using catalog_okD(1) [OF assms(1)] assms(2) by simp
  moreover have "(of_nat (adjusted_score base ?n input) :: u16) \<le> 10000"
    using adjusted_score_bound [of base ?n input] by (simp add: u16_le_bps)
  then have "min (of_nat (adjusted_score base ?n input)) (basis_points (xe_confidence mention)) \<le> (10000 :: u16)"
    by (rule min.coboundedI1)
  then have "from_basis_points (min (of_nat (adjusted_score base ?n input)) (basis_points (xe_confidence mention))) =
      Ok (final_score mention input ?n base)"
    by (simp add: from_basis_points_Ok final_score_def)
  moreover have "ct_id (catalog_entry uc ?n) = mn_id ?n" by (simp add: catalog_entry_def)
  ultimately have "add_candidate l mention input base m cs k = Ok (keep_better cs \<lparr> lc_entity_id = mn_id ?n,
      lc_score = final_score mention input ?n base, lc_method = (if m = Label \<and> scoped then ScopedLabel else m) \<rparr>)"
    using s unfolding add_candidate_def by (simp only: and_then.simps prod.case returned.simps)
  moreover have "(if m = Label \<and> scoped then ScopedLabel else m) \<in> match_methods" using assms(3) by simp
  ultimately show ?thesis by blast
qed

text \<open>
  The candidates seen so far: for every node the greatest score of the offers made to it. The
  offers are a relation between the nodes and base scores.
\<close>

definition greatest_score :: "extracted_entity \<Rightarrow> extraction_input \<Rightarrow> memory_node \<Rightarrow> u16 set \<Rightarrow> confidence \<Rightarrow> bool" where
  "greatest_score mention input n bases score \<longleftrightarrow>
    (\<exists>b \<in> bases. score = final_score mention input n b) \<and> (\<forall>b \<in> bases. final_score mention input n b \<le> score)"

definition best_of ::
  "memory_node list \<Rightarrow> extracted_entity \<Rightarrow> extraction_input \<Rightarrow> (memory_node \<Rightarrow> u16 set) \<Rightarrow> candidates \<Rightarrow> bool"
where
  "best_of nodes mention input offered cs \<longleftrightarrow> bt_ok cs \<and>
    (\<forall>i. i \<notin> mn_id ` set nodes \<longrightarrow> bt_get cs i = None) \<and>
    (\<forall>n \<in> set nodes. case bt_get cs (mn_id n) of
       None \<Rightarrow> offered n = {}
     | Some c \<Rightarrow> lc_entity_id c = mn_id n \<and> lc_method c \<in> match_methods \<and>
         greatest_score mention input n (offered n) (lc_score c))"

lemma best_of_empty: "best_of nodes mention input (\<lambda>_. {}) []"
  by (simp add: best_of_def)

lemma greatest_score_insert:
  "greatest_score mention input n bases s \<Longrightarrow>
    greatest_score mention input n (insert b bases) (if final_score mention input n b \<le> s then s else final_score mention input n b)"
  by (auto simp: greatest_score_def)

lemma best_of_keep_better:
  assumes best: "best_of nodes mention input offered cs" and k: "k < length nodes" and d: "distinct (map mn_id nodes)"
    and c: "lc_entity_id c = mn_id (nodes ! k)" "lc_score c = final_score mention input (nodes ! k) base"
      "lc_method c \<in> match_methods"
  shows "best_of nodes mention input (\<lambda>n. offered n \<union> {b. n = nodes ! k \<and> b = base}) (keep_better cs c)"
proof -
  let ?n = "nodes ! k"
  have n: "?n \<in> set nodes" using k by simp
  have same: "mn_id m = mn_id ?n \<longleftrightarrow> m = ?n" if "m \<in> set nodes" for m
    using d that n by (metis distinct_map inj_onD)
  have old: "case bt_get cs (mn_id m) of None \<Rightarrow> offered m = {}
      | Some c \<Rightarrow> lc_entity_id c = mn_id m \<and> lc_method c \<in> match_methods \<and>
          greatest_score mention input m (offered m) (lc_score c)" if "m \<in> set nodes" for m
    using best that unfolding best_of_def by blast
  have "bt_ok (keep_better cs c)" using best by (simp add: best_of_def keep_better_def split: option.split)
  moreover have "bt_get (keep_better cs c) i = None" if "i \<notin> mn_id ` set nodes" for i
    using best that c(1) n by (auto simp: best_of_def keep_better_def split: option.split)
  moreover have "case bt_get (keep_better cs c) (mn_id m) of None \<Rightarrow> offered m \<union> {b. m = ?n \<and> b = base} = {}
      | Some c' \<Rightarrow> lc_entity_id c' = mn_id m \<and> lc_method c' \<in> match_methods \<and>
          greatest_score mention input m (offered m \<union> {b. m = ?n \<and> b = base}) (lc_score c')" if m: "m \<in> set nodes" for m
  proof (cases "m = ?n")
    case False
    then have "bt_get (keep_better cs c) (mn_id m) = bt_get cs (mn_id m)"
      using same [OF m] c(1) by (auto simp: keep_better_def split: option.split)
    have none: "offered m \<union> {b. m = ?n \<and> b = base} = offered m" using False by simp
    show ?thesis unfolding none \<open>bt_get (keep_better cs c) (mn_id m) = bt_get cs (mn_id m)\<close> by (rule old [OF m])
  next
    case True
    show ?thesis
    proof (cases "bt_get cs (mn_id ?n)")
      case None
      then have "offered ?n = {}" using old [OF n] by simp
      then show ?thesis using None c by (simp add: True keep_better_def greatest_score_def)
    next
      case (Some e)
      then have e: "lc_entity_id e = mn_id ?n" "greatest_score mention input ?n (offered ?n) (lc_score e)"
        "lc_method e \<in> match_methods" using old [OF n] by auto
      have union: "offered ?n \<union> {b. ?n = ?n \<and> b = base} = insert base (offered ?n)" by auto
      show ?thesis using Some c e(1,3) greatest_score_insert [OF e(2), of base]
        unfolding True union by (simp add: keep_better_def split: if_splits)
    qed
  qed
  ultimately show ?thesis unfolding best_of_def by blast
qed

lemma best_of_cong: "best_of nodes mention input f cs \<Longrightarrow> (\<And>n. n \<in> set nodes \<Longrightarrow> f n = g n) \<Longrightarrow> best_of nodes mention input g cs"
  by (auto simp: best_of_def split: option.splits)

lemma add_candidates:
  assumes cat: "catalog_ok uc nodes l" and m: "m \<in> match_methods"
  shows "\<forall>k \<in> set ks. k < length nodes \<Longrightarrow> best_of nodes mention input offered cs \<Longrightarrow>
    \<exists>cs'. try_fold (add_candidate l mention input base m) cs ks = Ok cs' \<and>
      best_of nodes mention input (\<lambda>n. offered n \<union> {b. (\<exists>k \<in> set ks. n = nodes ! k) \<and> b = base}) cs'"
proof (induction ks arbitrary: cs offered)
  case (Cons k ks)
  have k: "k < length nodes" using Cons.prems(1) by simp
  obtain link_method where lm: "link_method \<in> match_methods" and add: "add_candidate l mention input base m cs k =
      Ok (keep_better cs \<lparr> lc_entity_id = mn_id (nodes ! k), lc_score = final_score mention input (nodes ! k) base, lc_method = link_method \<rparr>)"
    using add_candidate_total [OF cat k m] by blast
  note step = best_of_keep_better [OF Cons.prems(2) k catalog_okD(2) [OF cat], of "\<lparr> lc_entity_id = mn_id (nodes ! k),
      lc_score = final_score mention input (nodes ! k) base, lc_method = link_method \<rparr>" base, simplified link_candidate.simps, OF refl refl lm]
  from Cons.IH [OF _ step] Cons.prems(1) obtain cs' where
    "try_fold (add_candidate l mention input base m) (keep_better cs \<lparr> lc_entity_id = mn_id (nodes ! k),
       lc_score = final_score mention input (nodes ! k) base, lc_method = link_method \<rparr>) ks = Ok cs'"
    "best_of nodes mention input (\<lambda>n. (offered n \<union> {b. n = nodes ! k \<and> b = base}) \<union> {b. (\<exists>k \<in> set ks. n = nodes ! k) \<and> b = base}) cs'"
    by auto
  then show ?case using add by (intro exI [of _ cs']) (auto elim!: best_of_cong)
qed simp

lemma add_matches:
  assumes cat: "catalog_ok uc nodes l" and idx: "indexed m key = {k. k < length nodes \<and> P (nodes ! k)}"
    and best: "best_of nodes mention input offered cs" and lm: "lm \<in> match_methods"
  shows "\<exists>cs'. add_index_matches l mention input base lm cs (m key) = Ok cs' \<and>
    best_of nodes mention input (\<lambda>n. offered n \<union> {b. P n \<and> b = base}) cs'"
proof -
  let ?ks = "bucket_items (m key)"
  have ks: "k \<in> set ?ks \<longleftrightarrow> k < length nodes \<and> P (nodes ! k)" for k
    using idx unfolding indexed_def by blast
  obtain cs' where cs': "try_fold (add_candidate l mention input base lm) cs ?ks = Ok cs'"
    "best_of nodes mention input (\<lambda>n. offered n \<union> {b. (\<exists>k \<in> set ?ks. n = nodes ! k) \<and> b = base}) cs'"
    using add_candidates [OF cat lm _ best, of ?ks] ks by blast
  have "best_of nodes mention input (\<lambda>n. offered n \<union> {b. P n \<and> b = base}) cs'"
  proof (rule best_of_cong [OF cs'(2)])
    fix n assume "n \<in> set nodes"
    then have "(\<exists>k \<in> set ?ks. n = nodes ! k) \<longleftrightarrow> P n" using ks by (metis in_set_conv_nth)
    then show "offered n \<union> {b. (\<exists>k \<in> set ?ks. n = nodes ! k) \<and> b = base} = offered n \<union> {b. P n \<and> b = base}" by simp
  qed
  with cs'(1) show ?thesis by (auto simp: add_index_matches_def)
qed

lemma fold_matches:
  assumes step: "\<And>x cs offered. x \<in> set xs \<Longrightarrow> best_of nodes mention input offered cs \<Longrightarrow>
      \<exists>cs'. f cs x = Ok cs' \<and> best_of nodes mention input (\<lambda>n. offered n \<union> Q x n) cs'"
    and best: "best_of nodes mention input offered cs"
  shows "\<exists>cs'. try_fold f cs xs = Ok cs' \<and> best_of nodes mention input (\<lambda>n. offered n \<union> (\<Union>x \<in> set xs. Q x n)) cs'"
  using step best
proof (induction xs arbitrary: cs offered)
  case (Cons x xs)
  obtain cs1 where cs1: "f cs x = Ok cs1" "best_of nodes mention input (\<lambda>n. offered n \<union> Q x n) cs1"
    using Cons.prems(1) [OF _ Cons.prems(2), of x] by auto
  obtain cs' where cs': "try_fold f cs1 xs = Ok cs'"
    "best_of nodes mention input (\<lambda>n. (offered n \<union> Q x n) \<union> (\<Union>x \<in> set xs. Q x n)) cs'"
    using Cons.IH [OF _ cs1(2)] Cons.prems(1) by auto
  have eq: "(offered n \<union> Q x n) \<union> (\<Union>x \<in> set xs. Q x n) = offered n \<union> (\<Union>y \<in> set (x # xs). Q y n)" for n by auto
  from cs' cs1(1) show ?case unfolding eq by auto
qed simp

text \<open>
  What a mention offers a node: a base score for an equal label, an alias, a shared external
  identifier and every hint, when the kinds are equal.
\<close>

definition same_kind :: "unicode \<Rightarrow> extracted_entity \<Rightarrow> memory_node \<Rightarrow> bool" where
  "same_kind uc mention n \<longleftrightarrow> normalized uc (mn_kind n) = normalized uc (xe_kind mention)"

definition has_alias :: "unicode \<Rightarrow> memory_node \<Rightarrow> string \<Rightarrow> bool" where
  "has_alias uc n t \<longleftrightarrow> (\<exists>k v. (k, v) \<in> set (mn_attributes n) \<and> alias_attribute k \<and> normalized uc v = normalized uc t)"

definition has_external :: "unicode \<Rightarrow> memory_node \<Rightarrow> string \<Rightarrow> string \<Rightarrow> bool" where
  "has_external uc n key w \<longleftrightarrow> external_key key \<and> (\<exists>v. (key, v) \<in> set (mn_attributes n) \<and> exact_key uc v = exact_key uc w)"

definition offers :: "unicode \<Rightarrow> extracted_entity \<Rightarrow> memory_node \<Rightarrow> u16 set" where
  "offers uc mention n = {b. same_kind uc mention n \<and>
    (b = 9000 \<and> normalized uc (mn_label n) = normalized uc (xe_label mention) \<or>
     b = 8500 \<and> (\<exists>text \<in> set (xe_label mention # xe_aliases mention). has_alias uc n text) \<or>
     b = 9700 \<and> (\<exists>(key, w) \<in> set (xe_attributes mention). has_external uc n key w) \<or>
     (\<exists>hint \<in> set (xe_hints mention). eh_entity_id hint = mn_id n \<and> b = basis_points (eh_confidence hint)))}"

lemma alias_keys_in:
  "(kind', t) \<in> alias_keys uc kind attributes \<longleftrightarrow>
    kind' = kind \<and> (\<exists>k v. (k, v) \<in> set attributes \<and> alias_attribute k \<and> normalized uc v = t)"
  by (auto simp: alias_keys_def)

lemma external_keys_in:
  "(kind', k, t) \<in> external_keys uc kind attributes \<longleftrightarrow>
    kind' = kind \<and> external_key k \<and> (\<exists>v. (k, v) \<in> set attributes \<and> exact_key uc v = t)"
  by (auto simp: external_keys_def)

lemma label_index:
  "catalog_ok uc nodes l \<Longrightarrow> indexed (el_by_label l) (normalized uc (xe_kind mention), normalized uc text) =
    {k. k < length nodes \<and> (same_kind uc mention (nodes ! k) \<and> normalized uc (mn_label (nodes ! k)) = normalized uc text)}"
  by (auto simp: catalog_okD(4) same_kind_def)

lemma alias_index:
  "catalog_ok uc nodes l \<Longrightarrow> indexed (el_by_alias l) (normalized uc (xe_kind mention), normalized uc text) =
    {k. k < length nodes \<and> (same_kind uc mention (nodes ! k) \<and> has_alias uc (nodes ! k) text)}"
  by (simp add: catalog_okD(5) same_kind_def has_alias_def alias_keys_in eq_commute conj_ac)

lemma external_index:
  "catalog_ok uc nodes l \<Longrightarrow> external_key key \<Longrightarrow>
    indexed (el_by_external_id l) (normalized uc (xe_kind mention), key, exact_key uc w) =
    {k. k < length nodes \<and> (same_kind uc mention (nodes ! k) \<and> has_external uc (nodes ! k) key w)}"
  by (simp add: catalog_okD(6) same_kind_def has_external_def external_keys_in eq_commute conj_ac)

lemma alias_matches:
  assumes cat: "catalog_ok uc nodes l" and best: "best_of nodes mention input offered cs"
  shows "\<exists>cs'. add_index_matches l mention input 8500 Alias cs (el_by_alias l (normalized uc (xe_kind mention), normalized uc text)) = Ok cs' \<and>
    best_of nodes mention input (\<lambda>n. offered n \<union> {b. (same_kind uc mention n \<and> has_alias uc n text) \<and> b = 8500}) cs'"
  by (rule add_matches [OF cat alias_index [OF cat] best]) simp

lemma external_matches:
  assumes cat: "catalog_ok uc nodes l" and best: "best_of nodes mention input offered cs"
  shows "\<exists>cs'. add_external uc l (normalized uc (xe_kind mention)) mention input cs attribute = Ok cs' \<and>
    best_of nodes mention input (\<lambda>n. offered n \<union>
      {b. (same_kind uc mention n \<and> has_external uc n (fst attribute) (snd attribute)) \<and> b = 9700}) cs'"
proof (cases "external_key (fst attribute)")
  case True
  from add_matches [OF cat external_index [OF cat True, of mention "snd attribute"] best match_methods(1)] show ?thesis
    using True by (simp add: add_external_def split_beta)
next
  case False
  then show ?thesis using best by (auto simp: add_external_def split_beta has_external_def)
qed

lemma hint_matches:
  assumes cat: "catalog_ok uc nodes l" and best: "best_of nodes mention input offered cs"
  shows "\<exists>cs'. add_hint l (normalized uc (xe_kind mention)) mention input cs hint = Ok cs' \<and>
    best_of nodes mention input (\<lambda>n. offered n \<union>
      {b. (same_kind uc mention n \<and> eh_entity_id hint = mn_id n) \<and> b = basis_points (eh_confidence hint)}) cs'"
proof (cases "el_by_id l (eh_entity_id hint)")
  case None
  then have "eh_entity_id hint \<noteq> mn_id n" if "n \<in> set nodes" for n
    using linker_node_ids [OF cat, of "eh_entity_id hint"] that by auto
  then show ?thesis using None by (auto simp: add_hint_def intro!: best_of_cong [OF best])
next
  case (Some k)
  then have k: "k < length nodes" "mn_id (nodes ! k) = eh_entity_id hint" using catalog_okD(3) [OF cat] by auto
  have same: "eh_entity_id hint = mn_id n \<longleftrightarrow> n = nodes ! k" if "n \<in> set nodes" for n
    using catalog_okD(2) [OF cat] that k by (metis distinct_map inj_onD nth_mem)
  have node: "at_index (el_nodes l) k = Ok (catalog_entry uc (nodes ! k))" using catalog_okD(1) [OF cat] k(1) by simp
  show ?thesis
  proof (cases "same_kind uc mention (nodes ! k)")
    case True
    obtain lm where lm: "lm \<in> match_methods" and "add_candidate l mention input (basis_points (eh_confidence hint)) ProviderHint cs k =
        Ok (keep_better cs \<lparr> lc_entity_id = mn_id (nodes ! k),
          lc_score = final_score mention input (nodes ! k) (basis_points (eh_confidence hint)), lc_method = lm \<rparr>)"
      using add_candidate_total [OF cat k(1) match_methods(2)] by blast
    moreover note best_of_keep_better [OF best k(1) catalog_okD(2) [OF cat], of "\<lparr> lc_entity_id = mn_id (nodes ! k),
        lc_score = final_score mention input (nodes ! k) (basis_points (eh_confidence hint)), lc_method = lm \<rparr>"
        "basis_points (eh_confidence hint)", simplified link_candidate.simps, OF refl refl lm]
    ultimately show ?thesis
      using True same Some node by (simp add: add_hint_def same_kind_def catalog_entry_def) (auto elim!: best_of_cong)
  next
    case False
    then show ?thesis
      using same Some node by (auto simp: add_hint_def same_kind_def catalog_entry_def intro!: best_of_cong [OF best])
  qed
qed

lemma collected:
  assumes cat: "catalog_ok uc nodes l"
  shows "\<exists>cs. collect_candidates uc l mention input = Ok (sort_key candidate_order (bt_values cs)) \<and>
    best_of nodes mention input (offers uc mention) cs"
proof -
  let ?kind = "normalized uc (xe_kind mention)" and ?label = "normalized uc (xe_label mention)"
  let ?same = "same_kind uc mention"
  obtain c1 where c1: "add_index_matches l mention input 9000 Label [] (el_by_label l (?kind, ?label)) = Ok c1"
    "best_of nodes mention input (\<lambda>n. {} \<union> {b. (?same n \<and> normalized uc (mn_label n) = ?label) \<and> b = 9000}) c1"
    using add_matches [OF cat label_index [OF cat, of mention "xe_label mention"] best_of_empty match_methods(4)] by blast
  obtain c2 where c2: "add_index_matches l mention input 8500 Alias c1 (el_by_alias l (?kind, ?label)) = Ok c2"
    "best_of nodes mention input (\<lambda>n. ({} \<union> {b. (?same n \<and> normalized uc (mn_label n) = ?label) \<and> b = 9000}) \<union>
       {b. (?same n \<and> has_alias uc n (xe_label mention)) \<and> b = 8500}) c2"
    using alias_matches [OF cat c1(2), of "xe_label mention"] by blast
  obtain c3 where c3: "try_fold (\<lambda>cs alias. add_index_matches l mention input 8500 Alias cs (el_by_alias l (?kind, normalized uc alias)))
        c2 (xe_aliases mention) = Ok c3"
    "best_of nodes mention input (\<lambda>n. (({} \<union> {b. (?same n \<and> normalized uc (mn_label n) = ?label) \<and> b = 9000}) \<union>
       {b. (?same n \<and> has_alias uc n (xe_label mention)) \<and> b = 8500}) \<union>
       (\<Union>text \<in> set (xe_aliases mention). {b. (?same n \<and> has_alias uc n text) \<and> b = 8500})) c3"
    using fold_matches [where xs = "xe_aliases mention" and Q = "\<lambda>text n. {b. (?same n \<and> has_alias uc n text) \<and> b = 8500}"
        and f = "\<lambda>cs alias. add_index_matches l mention input 8500 Alias cs (el_by_alias l (?kind, normalized uc alias))",
        OF alias_matches [OF cat] c2(2)] by blast
  obtain c4 where c4: "try_fold (add_external uc l ?kind mention input) c3 (xe_attributes mention) = Ok c4"
    "best_of nodes mention input (\<lambda>n. ((({} \<union> {b. (?same n \<and> normalized uc (mn_label n) = ?label) \<and> b = 9000}) \<union>
       {b. (?same n \<and> has_alias uc n (xe_label mention)) \<and> b = 8500}) \<union>
       (\<Union>text \<in> set (xe_aliases mention). {b. (?same n \<and> has_alias uc n text) \<and> b = 8500})) \<union>
       (\<Union>a \<in> set (xe_attributes mention). {b. (?same n \<and> has_external uc n (fst a) (snd a)) \<and> b = 9700})) c4"
    using fold_matches [where xs = "xe_attributes mention" and f = "add_external uc l ?kind mention input"
        and Q = "\<lambda>a n. {b. (?same n \<and> has_external uc n (fst a) (snd a)) \<and> b = 9700}", OF external_matches [OF cat] c3(2)] by blast
  obtain c5 where c5: "try_fold (add_hint l ?kind mention input) c4 (xe_hints mention) = Ok c5"
    "best_of nodes mention input (\<lambda>n. (((({} \<union> {b. (?same n \<and> normalized uc (mn_label n) = ?label) \<and> b = 9000}) \<union>
       {b. (?same n \<and> has_alias uc n (xe_label mention)) \<and> b = 8500}) \<union>
       (\<Union>text \<in> set (xe_aliases mention). {b. (?same n \<and> has_alias uc n text) \<and> b = 8500})) \<union>
       (\<Union>a \<in> set (xe_attributes mention). {b. (?same n \<and> has_external uc n (fst a) (snd a)) \<and> b = 9700})) \<union>
       (\<Union>h \<in> set (xe_hints mention). {b. (?same n \<and> eh_entity_id h = mn_id n) \<and> b = basis_points (eh_confidence h)})) c5"
    using fold_matches [where xs = "xe_hints mention" and f = "add_hint l ?kind mention input"
        and Q = "\<lambda>h n. {b. (?same n \<and> eh_entity_id h = mn_id n) \<and> b = basis_points (eh_confidence h)}", OF hint_matches [OF cat] c4(2)]
    by blast
  have "best_of nodes mention input (offers uc mention) c5"
    by (rule best_of_cong [OF c5(2)]) (auto simp: offers_def split_beta)
  then show ?thesis
    using c1(1) c2(1) c3(1) c4(1) c5(1) by (auto simp: collect_candidates_def Let_def)
qed

lemma best_of_values:
  assumes best: "best_of nodes mention input offered cs"
  shows "distinct (map lc_entity_id (bt_values cs))"
    and "c \<in> set (bt_values cs) \<Longrightarrow> lc_method c \<in> match_methods"
    and "(\<exists>c \<in> set (bt_values cs). lc_entity_id c = i \<and> lc_score c = s) \<longleftrightarrow>
      (\<exists>n \<in> set nodes. mn_id n = i \<and> greatest_score mention input n (offered n) s)"
proof -
  have ok: "bt_ok cs" using best by (simp add: best_of_def)
  have at: "case bt_get cs (mn_id n) of None \<Rightarrow> offered n = {}
      | Some c \<Rightarrow> lc_entity_id c = mn_id n \<and> lc_method c \<in> match_methods \<and>
          greatest_score mention input n (offered n) (lc_score c)" if "n \<in> set nodes" for n
    using best that by (simp add: best_of_def)
  have node: "\<exists>n \<in> set nodes. mn_id n = k" if "bt_get cs k = Some c" for k c
  proof -
    have "k \<in> mn_id ` set nodes" using best that by (metis best_of_def option.distinct(1))
    then show ?thesis by auto
  qed
  have key: "lc_entity_id c = k" if "bt_get cs k = Some c" for k c
    using node [OF that] at that by fastforce
  have "map lc_entity_id (bt_values cs) = bt_keys cs"
    unfolding bt_values_def bt_keys_def map_map
    by (rule map_cong [OF refl]) (use key bt_get_in [OF ok] in \<open>auto\<close>)
  then show "distinct (map lc_entity_id (bt_values cs))" using bt_keys_distinct [OF ok] by simp
  show "lc_method c \<in> match_methods" if c: "c \<in> set (bt_values cs)"
  proof -
    obtain k where "bt_get cs k = Some c" using bt_values_in [OF ok] c by blast
    with node at show ?thesis by fastforce
  qed
  have unique: "s = s'" if "greatest_score mention input n b s" "greatest_score mention input n b s'" for n b s s'
    using that by (auto simp: greatest_score_def intro: antisym)
  have nonempty: "b \<noteq> {}" if "greatest_score mention input n b s" for n b s
    using that by (auto simp: greatest_score_def)
  show "(\<exists>c \<in> set (bt_values cs). lc_entity_id c = i \<and> lc_score c = s) \<longleftrightarrow>
      (\<exists>n \<in> set nodes. mn_id n = i \<and> greatest_score mention input n (offered n) s)" (is "?l \<longleftrightarrow> ?r")
  proof
    assume ?l
    then obtain k c where c: "bt_get cs k = Some c" "lc_entity_id c = i" "lc_score c = s"
      using bt_values_in [OF ok] by blast
    then obtain n where n: "n \<in> set nodes" "mn_id n = k" using node by blast
    with at [OF n(1)] c show ?r by auto
  next
    assume ?r
    then obtain n where n: "n \<in> set nodes" "mn_id n = i" "greatest_score mention input n (offered n) s" by blast
    then obtain c where c: "bt_get cs i = Some c" using at [OF n(1)] nonempty [OF n(3)] by (cases "bt_get cs i") auto
    with at [OF n(1)] n have "lc_entity_id c = i" "greatest_score mention input n (offered n) (lc_score c)" by auto
    with unique [OF n(3)] c show ?l using bt_values_in [OF ok] by auto
  qed
qed

lemma candidates_scan:
  assumes "linker_from_view uc view = Ok l"
  shows "\<exists>cs. collect_candidates uc l mention input = Ok cs \<and>
    sorted_wrt (\<lambda>a b. candidate_order a \<le> candidate_order b) cs \<and> distinct (map lc_entity_id cs) \<and>
    (\<forall>c \<in> set cs. lc_method c \<in> match_methods) \<and>
    (\<forall>i s. (\<exists>c \<in> set cs. lc_entity_id c = i \<and> lc_score c = s) \<longleftrightarrow>
       (\<exists>n \<in> set (view_nodes view). mn_id n = i \<and> greatest_score mention input n (offers uc mention n) s))"
proof -
  obtain cs where cs: "collect_candidates uc l mention input = Ok (sort_key candidate_order (bt_values cs))"
    "best_of (view_nodes view) mention input (offers uc mention) cs"
    using collected [OF linker_catalog [OF assms]] by blast
  have "distinct (map lc_entity_id (sort_key candidate_order (bt_values cs)))"
    using best_of_values(1) [OF cs(2)] by (simp add: distinct_map)
  moreover have "(\<exists>c \<in> set (sort_key candidate_order (bt_values cs)). lc_entity_id c = i \<and> lc_score c = s) \<longleftrightarrow>
      (\<exists>n \<in> set (view_nodes view). mn_id n = i \<and> greatest_score mention input n (offers uc mention n) s)" for i s
    unfolding set_sort by (rule best_of_values(3) [OF cs(2)])
  ultimately show ?thesis using best_of_values(2) [OF cs(2)]
    by (intro exI [of _ "sort_key candidate_order (bt_values cs)"] conjI allI cs(1) sorted_sort_key) simp_all
qed

text \<open>
  C29: the indexes of the linker are exact: the candidates of a mention are what a scan of the whole view
  finds, one per entity of the mention's kind with an equal label, an alias, a shared external
  identifier or a provider hint, each with the greatest of its scores (adjusted to the scope, cut at
  the mention's confidence), sorted by descending score and then by identifier; and collecting them
  never fails.
\<close>

theorem candidates_equal_full_scan:
  assumes "linker_from_view uc view = Ok l"
  shows "\<exists>cs. collect_candidates uc l mention input = Ok cs \<and>
    sorted_wrt (\<lambda>a b. candidate_order a \<le> candidate_order b) cs \<and> distinct (map lc_entity_id cs) \<and>
    (\<forall>c \<in> set cs. lc_method c \<in> match_methods) \<and>
    (\<forall>i s. (\<exists>c \<in> set cs. lc_entity_id c = i \<and> lc_score c = s) \<longleftrightarrow>
       (\<exists>n \<in> set (view_nodes view). mn_id n = i \<and> greatest_score mention input n (offers uc mention n) s))"
  by (rule candidates_scan [OF assms])

section \<open>The decision\<close>

lemma candidates_sorted:
  assumes "collect_candidates uc l mention input = Ok (best # rest)" "c \<in> set rest"
  shows "lc_score c \<le> lc_score best \<and> (\<forall>second tl. rest = second # tl \<longrightarrow> lc_score c \<le> lc_score second)"
proof -
  obtain xs where "sort_key candidate_order xs = best # rest"
    using assms(1) by (auto simp: collect_candidates_def Let_def and_then_Ok)
  then have "sorted_wrt (\<lambda>a b. candidate_order a \<le> candidate_order b) (best # rest)" using sorted_sort_key [of candidate_order xs] by simp
  then have "sorted_wrt (\<lambda>a b. lc_score b \<le> lc_score a) (best # rest)"
    by (rule sorted_wrt_mono_rel [rotated]) (auto simp: candidate_order_def less_eq_prod_def)
  then show ?thesis using assms(2) by auto
qed

definition refusal :: "memory_error \<Rightarrow> bool" where
  "refusal e \<longleftrightarrow> (\<exists>field reason. e = InvalidValue field reason) \<or> (\<exists>kind text. e = InvalidId kind text) \<or>
    (\<exists>provider message. e = ExtractionFailed provider message)"

lemma link_total:
  assumes "linker_from_view uc view = Ok l"
  shows "(\<exists>d. link uc l mention input policy = Ok d) \<or> (\<exists>e. link uc l mention input policy = Err (Fault e) \<and> refusal e)"
proof -
  note cat = linker_catalog [OF assms]
  obtain cs where cs: "collect_candidates uc l mention input = Ok cs" using collected [OF cat] by blast
  have gen: "\<exists>kind text. e = InvalidId kind text" if "generated_id uc mention input = Err e" for e
    using that by (auto simp: generated_id_def text_id_new_def Let_def split: if_splits)
  have un: "(\<exists>d. unmatched uc l mention input policy cs' = Ok d) \<or> (\<exists>e. unmatched uc l mention input policy cs' = Err (Fault e) \<and> refusal e)" for cs'
    using gen by (cases "generated_id uc mention input") (auto simp: unmatched_def refusal_def from_basis_points_def)
  have stable: "(\<exists>d. link_stable_id uc l mention i = Ok d) \<or> (\<exists>e. link_stable_id uc l mention i = Err (Fault e) \<and> refusal e)" for i
    using catalog_okD(1,3) [OF cat] by (auto simp: link_stable_id_def refusal_def split: option.split)
  show ?thesis
    using cs un [of cs] stable by (auto simp: link_def resolve_candidates_def refusal_def split: option.split list.split)
qed

text \<open>
  What justifies a decision: a known entity is named by the mention itself or is the candidate that
  reaches the minimum score and beats every other one by the margin; a new entity is named by the
  mention or wanted by the policy, with no candidate reaching the minimum; and no entity at all
  means that none may be created, or that the two best candidates are too close.
\<close>

definition justified :: "memory_view \<Rightarrow> extracted_entity \<Rightarrow> link_policy \<Rightarrow> link_decision \<Rightarrow> bool" where
  "justified view mention policy d \<longleftrightarrow>
    ld_mention_id d = xe_local_id mention \<and>
    (case ld_entity_id d of
       None \<Rightarrow> xe_stable_id mention = None \<and>
         (ld_method d = Unresolved \<and> \<not> lp_create_unmatched policy \<and>
            (\<forall>c \<in> set (ld_candidates d). basis_points (lc_score c) < lp_minimum_score policy) \<or>
          ld_method d = Ambiguous \<and> (\<exists>best second others. ld_candidates d = best # second # others \<and>
            lp_minimum_score policy \<le> basis_points (lc_score best) \<and>
            unat (basis_points (lc_score best)) < unat (basis_points (lc_score second)) + unat (lp_minimum_margin policy)))
     | Some i \<Rightarrow>
         if i \<in> mn_id ` set (view_nodes view)
         then xe_stable_id mention = Some i \<and> ld_method d = StableId \<or>
           (\<exists>best others. ld_candidates d = best # others \<and> lc_entity_id best = i \<and> ld_score d = lc_score best \<and>
              ld_method d = lc_method best \<and> lc_method best \<in> match_methods \<and> lp_minimum_score policy \<le> basis_points (lc_score best) \<and>
              (\<forall>c \<in> set others. unat (basis_points (lc_score c)) + unat (lp_minimum_margin policy) \<le> unat (basis_points (lc_score best))))
         else ld_method d = Created \<and> (xe_stable_id mention = Some i \<or>
           xe_stable_id mention = None \<and> lp_create_unmatched policy \<and>
           (\<forall>c \<in> set (ld_candidates d). basis_points (lc_score c) < lp_minimum_score policy)))"

lemma candidate_found:
  assumes "linker_from_view uc view = Ok l" "collect_candidates uc l mention input = Ok cs" "c \<in> set cs"
  shows "lc_entity_id c \<in> mn_id ` set (view_nodes view) \<and> lc_method c \<in> match_methods"
proof -
  have found: "\<forall>c \<in> set cs. lc_method c \<in> match_methods" "\<forall>i s. (\<exists>c \<in> set cs. lc_entity_id c = i \<and> lc_score c = s) \<longleftrightarrow>
      (\<exists>n \<in> set (view_nodes view). mn_id n = i \<and> greatest_score mention input n (offers uc mention n) s)"
    using candidates_scan [OF assms(1), of mention input] assms(2) by auto
  then obtain n where "n \<in> set (view_nodes view)" "mn_id n = lc_entity_id c"
    using assms(3) found(2) [rule_format, of "lc_entity_id c" "lc_score c"] by blast
  then show ?thesis using found(1) assms(3) by (metis image_eqI)
qed

text \<open>The three outcomes of a resolution, told apart by the scores as numbers.\<close>

lemma resolve_outcomes:
  assumes "collect_candidates uc l mention input = Ok cs" "resolve_candidates uc l mention input policy cs = Ok d"
  obtains (low) "unmatched uc l mention input policy cs = Ok d"
      "\<forall>c \<in> set cs. basis_points (lc_score c) < lp_minimum_score policy"
  | (close) best second others where "cs = best # second # others" "d = decision mention None (lc_score best) Ambiguous cs"
      "lp_minimum_score policy \<le> basis_points (lc_score best)"
      "unat (basis_points (lc_score best)) < unat (basis_points (lc_score second)) + unat (lp_minimum_margin policy)"
  | (clear) best others where "cs = best # others"
      "d = decision mention (Some (lc_entity_id best)) (lc_score best) (lc_method best) cs"
      "lp_minimum_score policy \<le> basis_points (lc_score best)"
      "\<forall>c \<in> set others. unat (basis_points (lc_score c)) + unat (lp_minimum_margin policy) \<le> unat (basis_points (lc_score best))"
proof (cases cs)
  case Nil
  then show thesis using low assms(2) by (simp add: resolve_candidates_def)
next
  case (Cons best rest)
  note sorted = candidates_sorted [OF assms(1) [unfolded Cons]]
  show thesis
  proof (cases "basis_points (lc_score best) < lp_minimum_score policy")
    case True
    have "basis_points (lc_score c) < lp_minimum_score policy" if "c \<in> set cs" for c
      using that sorted True by (auto simp: Cons less_eq_confidence_def intro: le_less_trans)
    then show thesis using low assms(2) True by (simp add: Cons resolve_candidates_def)
  next
    case False
    show thesis
    proof (cases rest)
      case Nil
      then show thesis using clear assms(2) False by (simp add: Cons resolve_candidates_def)
    next
      case tl: (Cons second tl)
      have b: "basis_points (lc_score second) \<le> basis_points (lc_score best)"
        using sorted [of second] tl by (simp add: less_eq_confidence_def)
      have margin: "u16_saturating_sub (basis_points (lc_score best)) (basis_points (lc_score second)) < lp_minimum_margin policy \<longleftrightarrow>
          unat (basis_points (lc_score best)) < unat (basis_points (lc_score second)) + unat (lp_minimum_margin policy)"
        using b by (auto simp: u16_saturating_sub_def word_less_nat_alt unat_sub word_le_nat_alt)
      have "unat (basis_points (lc_score c)) \<le> unat (basis_points (lc_score second))" if "c \<in> set rest" for c
        using sorted [OF that] tl by (simp add: less_eq_confidence_def word_le_nat_alt)
      then have "\<forall>c \<in> set rest. unat (basis_points (lc_score c)) + unat (lp_minimum_margin policy) \<le> unat (basis_points (lc_score best))"
        if "\<not> unat (basis_points (lc_score best)) < unat (basis_points (lc_score second)) + unat (lp_minimum_margin policy)"
        using that by fastforce
      then show thesis
        using clear [of best rest] close [of best second tl] assms(2) False
        by (simp add: Cons tl resolve_candidates_def margin split: if_splits)
    qed
  qed
qed

lemma link_justified:
  assumes "linker_from_view uc view = Ok l" "link uc l mention input policy = Ok d"
  shows "justified view mention policy d"
proof -
  note cat = linker_catalog [OF assms(1)]
  show ?thesis
  proof (cases "xe_stable_id mention")
    case (Some i)
    have "link_stable_id uc l mention i = Ok d" using assms(2) Some by (auto simp: link_def split: if_splits)
    then show ?thesis using Some linker_node_ids [OF cat, of i]
      by (auto simp: justified_def link_stable_id_def decision_def and_then_Ok split: option.splits if_splits)
  next
    case None
    obtain cs where cs: "collect_candidates uc l mention input = Ok cs" "resolve_candidates uc l mention input policy cs = Ok d"
      using assms(2) None by (auto simp: link_def and_then_Ok split: if_splits)
    from cs show ?thesis
    proof (cases rule: resolve_outcomes)
      case low
      then show ?thesis using None linker_node_ids [OF cat]
        by (auto simp: justified_def unmatched_def decision_def result_simps split: if_splits)
    next
      case (close best second others)
      then show ?thesis using None by (simp add: justified_def decision_def)
    next
      case (clear best others)
      then show ?thesis using None candidate_found [OF assms(1) cs(1), of best] by (simp add: justified_def decision_def)
    qed
  qed
qed

text \<open>
  C30: the linker never guesses, and never panics. A stable identifier is taken as it is, as a new entity
  when the view does not know it; any other mention is linked to a known entity only when its score
  reaches the minimum and beats that of every other candidate by the margin; when the best score
  reaches the minimum but another is too close, the mention is left ambiguous; and a generated
  identifier is never that of a known entity.
\<close>

theorem linker_never_guesses:
  assumes "linker_from_view uc view = Ok l"
  shows "case link uc l mention input policy of
      Err e \<Rightarrow> \<exists>x. e = Fault x \<and> refusal x
    | Ok d \<Rightarrow> justified view mention policy d"
  using link_total [OF assms, of mention input policy] link_justified [OF assms, of mention input policy]
  by (auto split: result.split)

section \<open>Mentions of low confidence\<close>

lemma low_confidence_unmatched:
  assumes l: "linker_from_view uc view = Ok l" and none: "xe_stable_id mention = None"
    and policy: "lp_minimum_score policy \<le> 10000" "lp_minimum_margin policy \<le> 10000"
    and low: "basis_points (xe_confidence mention) < lp_minimum_score policy"
  shows "\<exists>cs. link uc l mention input policy = unmatched uc l mention input policy cs"
proof -
  obtain cs where cs: "collect_candidates uc l mention input = Ok cs"
    "\<forall>i s. (\<exists>c \<in> set cs. lc_entity_id c = i \<and> lc_score c = s) \<longleftrightarrow>
      (\<exists>n \<in> set (view_nodes view). mn_id n = i \<and> greatest_score mention input n (offers uc mention n) s)"
    using candidates_scan [OF l, of mention input] by blast
  have "basis_points (lc_score c) < lp_minimum_score policy" if "c \<in> set cs" for c
  proof -
    from that cs(2) obtain n where "greatest_score mention input n (offers uc mention n) (lc_score c)" by blast
    then have "basis_points (lc_score c) \<le> basis_points (xe_confidence mention)"
      by (auto simp: greatest_score_def final_score_def)
    then show ?thesis using low by (rule le_less_trans)
  qed
  then have "resolve_candidates uc l mention input policy cs = unmatched uc l mention input policy cs"
    by (cases cs) (auto simp: resolve_candidates_def)
  then show ?thesis using none policy cs(1) by (auto simp: link_def not_less)
qed

text \<open>
  C31: a mention whose confidence is below the minimum score of the policy is never linked to a known
  entity, however well it matches: the first time it is planned it creates an entity under its
  generated identifier, and once that entity is in the view, planning the same mention again is
  refused as an identifier collision.
\<close>

theorem low_confidence_mention_collides:
  assumes "linker_from_view uc view = Ok l" "linker_from_view uc later = Ok l'" "xe_stable_id mention = None"
    and "lp_minimum_score policy \<le> 10000" "lp_minimum_margin policy \<le> 10000" "lp_create_unmatched policy"
    and "basis_points (xe_confidence mention) < lp_minimum_score policy" and "generated_id uc mention input = Ok i"
    and "i \<notin> mn_id ` set (view_nodes view)" "i \<in> mn_id ` set (view_nodes later)"
  shows "(\<exists>d. link uc l mention input policy = Ok d \<and> ld_method d = Created \<and> ld_entity_id d = Some i) \<and>
    link uc l' mention input policy =
      Err (Fault (ExtractionFailed ''entity-linker'' (''generated entity identifier collides with '' @ as_str i)))"
proof -
  obtain cs cs' where u: "link uc l mention input policy = unmatched uc l mention input policy cs"
    "link uc l' mention input policy = unmatched uc l' mention input policy cs'"
    using low_confidence_unmatched [OF assms(1,3,4,5,7)] low_confidence_unmatched [OF assms(2,3,4,5,7)] by blast
  have "el_by_id l i = None" "el_by_id l' i \<noteq> None"
    using linker_node_ids [OF linker_catalog [OF assms(1)]] linker_node_ids [OF linker_catalog [OF assms(2)]] assms(9,10) by auto
  then show ?thesis unfolding u using assms(6,8) by (auto simp: unmatched_def decision_def)
qed

section \<open>A small catalog\<close>

definition demo_mention :: extracted_entity where
  "demo_mention = \<lparr> xe_local_id = ''m'', xe_kind = ''Module'', xe_label = ''Label'', xe_confidence = Confidence 9500,
     xe_stable_id = None, xe_aliases = [], xe_attributes = [], xe_hints = [], xe_span = None \<rparr>"

definition demo_input :: extraction_input where
  "demo_input = \<lparr> ei_source = ''suite'', ei_content = ''Label'', ei_occurred_at = Timestamp 1, ei_recorded_at = Timestamp 5,
     ei_agent_id = TextId ''agent'', ei_session_id = TextId ''session'', ei_repository = None, ei_branch = None,
     ei_locator = None, ei_digest = None \<rparr>"

abbreviation demo_catalog :: memory_view where
  "demo_catalog \<equiv> \<lparr> view_nodes = [demo_node ''a''], view_facts = [] \<rparr>"

lemma demo_linker: "\<exists>l. linker_from_view ascii_unicode demo_catalog = Ok l"
  using demo_valid(1) [of "''a''"]
  by (simp add: linker_from_view_def catalog_node_def Let_def) (simp add: demo_node_def)

lemma demo_offers:
  "offers ascii_unicode demo_mention (demo_node ''a'') = {9000}"
  "greatest_score demo_mention demo_input (demo_node ''a'') {9000} (Confidence 9000)"
proof -
  show "offers ascii_unicode demo_mention (demo_node ''a'') = {9000}"
    by (simp add: offers_def demo_mention_def demo_node_def same_kind_def has_alias_def normalized_examples)
  show "greatest_score demo_mention demo_input (demo_node ''a'') {9000} (Confidence 9000)"
    by (simp add: greatest_score_def final_score_def adjusted_score_def scope_adjust_def demo_input_def demo_mention_def)
qed

theorem candidates_equal_full_scan_witness:
  "\<exists>l cs. linker_from_view ascii_unicode demo_catalog = Ok l \<and>
    collect_candidates ascii_unicode l demo_mention demo_input = Ok cs \<and>
    (\<exists>c \<in> set cs. lc_entity_id c = TextId ''a'' \<and> lc_score c = Confidence 9000)"
proof -
  obtain l where l: "linker_from_view ascii_unicode demo_catalog = Ok l" using demo_linker by blast
  obtain cs where cs: "collect_candidates ascii_unicode l demo_mention demo_input = Ok cs"
    "(\<exists>c \<in> set cs. lc_entity_id c = TextId ''a'' \<and> lc_score c = Confidence 9000) \<longleftrightarrow>
     (\<exists>n \<in> set (view_nodes demo_catalog). mn_id n = TextId ''a'' \<and>
        greatest_score demo_mention demo_input n (offers ascii_unicode demo_mention n) (Confidence 9000))"
    using candidates_equal_full_scan [OF l, of demo_mention demo_input] by blast
  then show ?thesis using l demo_offers by auto
qed

theorem linker_never_guesses_witness:
  "\<exists>l d. linker_from_view ascii_unicode demo_catalog = Ok l \<and>
    link ascii_unicode l (demo_mention\<lparr>xe_stable_id := Some (TextId ''z'')\<rparr>) demo_input link_policy_default = Ok d \<and>
    ld_method d = Created"
proof -
  let ?m = "demo_mention\<lparr>xe_stable_id := Some (TextId ''z'')\<rparr>"
  obtain l where l: "linker_from_view ascii_unicode demo_catalog = Ok l" using demo_linker by blast
  have "el_by_id l (TextId ''z'') = None" using linker_node_ids [OF linker_catalog [OF l]] by simp
  then obtain d where d: "link ascii_unicode l ?m demo_input link_policy_default = Ok d" "ld_entity_id d = Some (TextId ''z'')"
    by (simp add: link_def link_policy_default_def link_stable_id_def decision_def)
  with linker_never_guesses [OF l, of ?m link_policy_default demo_input] have "ld_method d = Created"
    by (simp add: justified_def)
  with l d show ?thesis by blast
qed

lemma generated_id_total: "\<exists>i. generated_id uc mention input = Ok i"
proof -
  have "trimmed ((''auto:'' @ t @ '':'') @ hex16 h)" for t h
    by (rule trimmed_hashed) (simp_all add: visible_lower)
  then show ?thesis by (auto simp: generated_id_def Let_def text_id_new_Ok)
qed

theorem low_confidence_mention_collides_witness:
  "\<exists>l' e. link ascii_unicode l' (demo_mention\<lparr>xe_confidence := Confidence 7000\<rparr>) demo_input link_policy_default = Err e"
proof -
  let ?m = "demo_mention\<lparr>xe_confidence := Confidence 7000\<rparr>"
  obtain i where i: "generated_id ascii_unicode ?m demo_input = Ok i" using generated_id_total by blast
  let ?later = "\<lparr> view_nodes = [demo_node (as_str i)], view_facts = [] \<rparr>"
  have no_attributes: "mn_attributes (demo_node j) = []" for j by (simp add: demo_node_def)
  then obtain l l' where l: "linker_from_view ascii_unicode \<lparr> view_nodes = [], view_facts = [] \<rparr> = Ok l"
    "linker_from_view ascii_unicode ?later = Ok l'"
    using demo_valid(1) by (simp add: linker_from_view_def catalog_node_def Let_def)
  have "xe_stable_id ?m = None" "basis_points (xe_confidence ?m) < lp_minimum_score link_policy_default"
    "lp_minimum_score link_policy_default \<le> 10000" "lp_minimum_margin link_policy_default \<le> 10000"
    "lp_create_unmatched link_policy_default"
    by (simp_all add: demo_mention_def link_policy_default_def)
  from low_confidence_mention_collides [OF l this(1,3,4,5,2) i] show ?thesis by (cases i) auto
qed

end
