(* ===== verification/Extraction_Engine.thy ===== *)
theory Extraction_Engine
  imports Linker
begin

text \<open>
  The extraction engine, \<open>src/src/extraction/engine\<close>: the validation of what a provider returned, and the
  conversion of linked mentions and relations into a plan of events.
\<close>

section \<open>Validation (\<open>engine/validation.rs\<close>)\<close>

definition validate_span :: "text_span option \<Rightarrow> extraction_input \<Rightarrow> unit memory_result" where
  "validate_span span input =
    (case span of
       None \<Rightarrow> Ok ()
     | Some s \<Rightarrow>
         if ts_start s \<ge> ts_end s \<or> ts_end s > length (ei_content input) \<or>
            \<not> is_char_boundary (ei_content input) (ts_start s) \<or> \<not> is_char_boundary (ei_content input) (ts_end s)
         then Err (InvalidValue ''extraction.span'' ''must be a valid UTF-8 byte range inside source content'')
         else Ok ())"

definition check_entity :: "extraction_input \<Rightarrow> string btree_set \<Rightarrow> extracted_entity \<Rightarrow> string btree_set memory_result" where
  "check_entity input seen e =
    and_then (entity_validate e) (\<lambda>_.
    and_then (validate_span (xe_span e) input) (\<lambda>_.
      if bs_contains seen (xe_local_id e)
      then Err (InvalidValue ''extraction.entities'' ''local identifiers must be unique'')
      else Ok (bs_insert seen (xe_local_id e))))"

definition valid_from_of :: "extraction_input \<Rightarrow> extracted_relation \<Rightarrow> timestamp" where
  "valid_from_of input r = (case xr_valid_from r of Some t \<Rightarrow> t | None \<Rightarrow> ei_occurred_at input)"

definition check_relation ::
  "extraction_input \<Rightarrow> string btree_set \<Rightarrow> string btree_set \<Rightarrow> extracted_relation \<Rightarrow> string btree_set memory_result" where
  "check_relation input entities seen r =
    and_then (relation_validate r) (\<lambda>_.
    and_then (validate_span (xr_span r) input) (\<lambda>_.
      if bs_contains seen (xr_local_id r)
      then Err (InvalidValue ''extraction.relations'' ''local identifiers must be unique'')
      else if \<not> bs_contains entities (xr_source r) \<or> \<not> bs_contains entities (xr_target r)
      then Err (InvalidValue ''extraction.relation.endpoint'' ''must reference extracted entity local identifiers'')
      else if (case xr_valid_until r of None \<Rightarrow> False | Some until \<Rightarrow> until \<le> valid_from_of input r)
      then Err (InvalidValue ''extraction.relation.valid_until'' ''must be later than valid_from'')
      else Ok (bs_insert seen (xr_local_id r))))"

definition validate_output :: "extraction_output \<Rightarrow> extraction_input \<Rightarrow> unit memory_result" where
  "validate_output output input =
    and_then (try_fold (check_entity input) [] (xo_entities output)) (\<lambda>entities.
    and_then (try_fold (check_relation input entities) [] (xo_relations output)) (\<lambda>_. Ok ()))"

section \<open>Nodes (\<open>engine/build.rs\<close>)\<close>

definition extraction_failed :: "string \<Rightarrow> string \<Rightarrow> memory_error" where
  "extraction_failed provider message = ExtractionFailed provider message"

definition alias_key :: "nat \<Rightarrow> string" where
  "alias_key index = ''alias.'' @ show_nat index"

text \<open>The loop that looks for an unused alias key ends, because the decimal numbers are distinct.\<close>

lemma alias_key_inject [simp]: "alias_key i = alias_key j \<longleftrightarrow> i = j"
  by (metis alias_key_def append_same_eq read_show_nat same_append_eq)

definition used_from :: "(string, string) btree_map \<Rightarrow> nat \<Rightarrow> nat set" where
  "used_from attributes index = {j. index \<le> j \<and> alias_key j \<in> set (bt_keys attributes)}"

lemma finite_used_from: "finite (used_from attributes index)"
proof -
  have "finite (alias_key -` set (bt_keys attributes))" by (rule finite_vimageI) (auto simp: inj_on_def)
  then show ?thesis by (rule rev_finite_subset) (auto simp: used_from_def)
qed

function free_alias_index :: "(string, string) btree_map \<Rightarrow> nat \<Rightarrow> nat" where
  "free_alias_index attributes index =
    (if bt_get attributes (alias_key index) \<noteq> None then free_alias_index attributes (index + 1) else index)"
  by pat_completeness auto
termination
proof (relation "measure (\<lambda>(attributes, index). card (used_from attributes index))")
  fix attributes :: "(string, string) btree_map" and index
  assume "bt_get attributes (alias_key index) \<noteq> None"
  then have "index \<in> used_from attributes index" by (simp add: used_from_def bt_get_None)
  moreover have "index \<notin> used_from attributes (index + 1)" "used_from attributes (index + 1) \<subseteq> used_from attributes index"
    by (auto simp: used_from_def)
  ultimately have "used_from attributes (index + 1) \<subset> used_from attributes index" by blast
  then have "card (used_from attributes (index + 1)) < card (used_from attributes index)"
    by (rule psubset_card_mono [OF finite_used_from])
  then show "((attributes, index + 1), attributes, index) \<in> measure (\<lambda>(attributes, index). card (used_from attributes index))" by simp
qed simp

declare free_alias_index.simps [simp del]

definition is_alias_key :: "string \<Rightarrow> bool" where
  "is_alias_key key \<longleftrightarrow> prefix ''alias.'' key"

definition merge_attribute ::
  "string \<Rightarrow> (string, string) btree_map \<Rightarrow> string \<times> string \<Rightarrow> (string, string) btree_map memory_result" where
  "merge_attribute provider attributes entry =
    (let (key, v) = entry
     in if is_alias_key key then
          (if \<exists>(candidate, alias) \<in> set attributes. is_alias_key candidate \<and> alias = v then Ok attributes
           else Ok (bt_insert attributes (alias_key (free_alias_index attributes (length attributes))) v))
        else if (case bt_get attributes key of None \<Rightarrow> False | Some previous \<Rightarrow> previous \<noteq> v)
        then Err (extraction_failed provider ''two mentions generated conflicting entity attributes'')
        else Ok (bt_insert attributes key v))"

definition merge_node :: "memory_node \<Rightarrow> memory_node \<Rightarrow> string \<Rightarrow> memory_node memory_result" where
  "merge_node existing incoming provider =
    (if mn_kind existing \<noteq> mn_kind incoming \<or> mn_label existing \<noteq> mn_label incoming \<or>
        mn_repository existing \<noteq> mn_repository incoming \<or> mn_branch existing \<noteq> mn_branch incoming
     then Err (extraction_failed provider ''two mentions generated conflicting entity payloads'')
     else and_then (try_fold (merge_attribute provider) (mn_attributes existing) (mn_attributes incoming)) (\<lambda>attributes.
       Ok (existing\<lparr>mn_attributes := attributes\<rparr>)))"

definition build_node :: "extracted_entity \<Rightarrow> entity_id \<Rightarrow> extraction_input \<Rightarrow> string \<Rightarrow> memory_node memory_result" where
  "build_node e i input provider =
    and_then (node_new i (xe_kind e) (xe_label e)) (\<lambda>node.
      let node = node_with_attribute node ''extracted_by'' provider;
          node = node_with_attribute node ''extraction_source'' (ei_source input);
          node = (case ei_repository input of None \<Rightarrow> node | Some r \<Rightarrow> node_in_repository node r);
          node = (case ei_branch input of None \<Rightarrow> node | Some b \<Rightarrow> node_on_branch node b);
          node = foldl (\<lambda>node (key, v). node_with_attribute node key v) node (xe_attributes e);
          node = foldl (\<lambda>node (index, alias). node_with_attribute node (alias_key index) alias) node
                   (List.enumerate 0 (xe_aliases e))
      in Ok node)"

section \<open>Facts\<close>

definition source_evidence :: "extraction_input \<Rightarrow> evidence memory_result" where
  "source_evidence input =
    and_then (evidence_new ''source'' (ei_source input)) (\<lambda>e.
      let e = (case ei_locator input of None \<Rightarrow> e | Some l \<Rightarrow> evidence_with_locator e l);
          e = (case ei_digest input of None \<Rightarrow> e | Some d \<Rightarrow> evidence_with_digest e d)
      in Ok e)"

definition provider_evidence :: "string \<Rightarrow> text_span option \<Rightarrow> evidence memory_result" where
  "provider_evidence provider span =
    and_then (evidence_new ''extraction_provider'' provider) (\<lambda>e.
      Ok (case span of None \<Rightarrow> e
          | Some s \<Rightarrow> evidence_with_locator e (''bytes:'' @ show_nat (ts_start s) @ ''-'' @ show_nat (ts_end s))))"

definition min_confidence :: "confidence \<Rightarrow> confidence \<Rightarrow> confidence \<Rightarrow> confidence" where
  "min_confidence a b c = min (min a b) c"

definition build_fact ::
  "string \<Rightarrow> extraction_input \<Rightarrow> string \<Rightarrow> extracted_relation \<Rightarrow> link_decision \<Rightarrow> link_decision \<Rightarrow> entity_id \<Rightarrow> entity_id \<Rightarrow>
   memory_fact memory_result"
where
  "build_fact provider input content_hash r source_link target_link source target =
    and_then (text_id_new ''fact'' (''fact:auto:'' @ hex16 (stable_hash
      [provider, ei_source input, content_hash, xr_local_id r, as_str source, xr_relation r, as_str target]))) (\<lambda>i.
    and_then (source_evidence input) (\<lambda>e.
    and_then (fact_new i source (xr_relation r) target (valid_from_of input r) (ei_recorded_at input)
      (ei_agent_id input) (ei_session_id input) e) (\<lambda>f.
    let f = fact_observed_at f (ei_occurred_at input);
        f = fact_with_confidence f (min_confidence (xr_confidence r) (ld_score source_link) (ld_score target_link))
    in and_then (provider_evidence provider (xr_span r)) (\<lambda>pe.
    let f = fact_with_evidence f pe
    in case xr_valid_until r of None \<Rightarrow> Ok f | Some until \<Rightarrow> fact_valid_until f until))))"

section \<open>Events\<close>

definition node_event :: "string \<Rightarrow> extraction_input \<Rightarrow> string \<Rightarrow> memory_node \<Rightarrow> memory_event new_event memory_result" where
  "node_event provider input content_hash n =
    and_then (text_id_new ''event'' (''event:auto:node:'' @ hex16 (stable_hash
      [provider, ei_source input, content_hash, as_str (mn_id n)]))) (\<lambda>i.
      new_event_new i ''node_upserted'' (ei_occurred_at input) (ei_recorded_at input) (ei_agent_id input)
        (ei_session_id input) (NodeUpserted n))"

definition fact_event :: "string \<Rightarrow> extraction_input \<Rightarrow> string \<Rightarrow> memory_fact \<Rightarrow> memory_event new_event memory_result" where
  "fact_event provider input content_hash f =
    and_then (text_id_new ''event'' (''event:auto:fact:'' @ hex16 (stable_hash
      [provider, ei_source input, content_hash, as_str (mf_id f)]))) (\<lambda>i.
      new_event_new i ''fact_recorded'' (ei_occurred_at input) (ei_recorded_at input) (ei_agent_id input)
        (ei_session_id input) (FactRecorded f))"

definition reject_relation :: "extracted_relation \<Rightarrow> link_decision \<Rightarrow> link_decision \<Rightarrow> rejected_relation" where
  "reject_relation r source target =
    \<lparr> rj_relation_id = xr_local_id r, rj_source_mention = xr_source r, rj_target_mention = xr_target r,
      rj_reason = ''unresolved endpoints: source='' @ method_name (ld_method source) @ '', target='' @
        method_name (ld_method target) \<rparr>"

section \<open>The plan\<close>

definition add_link ::
  "unicode \<Rightarrow> link_policy \<Rightarrow> extraction_input \<Rightarrow> entity_linker \<Rightarrow>
   (string, link_decision) btree_map \<times> link_decision list \<Rightarrow> extracted_entity \<Rightarrow>
   ((string, link_decision) btree_map \<times> link_decision list) fallible"
where
  "add_link uc policy input linker acc e =
    and_then (link uc linker e input policy) (\<lambda>d. Ok (bt_insert (fst acc) (xe_local_id e) d, snd acc @ [d]))"

definition add_created ::
  "string \<Rightarrow> extraction_input \<Rightarrow> (entity_id, memory_node) btree_map \<Rightarrow> extracted_entity \<times> link_decision \<Rightarrow>
   (entity_id, memory_node) btree_map memory_result"
where
  "add_created provider input created pair =
    (let (e, d) = pair
     in if ld_method d \<noteq> Created then Ok created
        else and_then (ok_or (ld_entity_id d) (extraction_failed provider ''created link has no entity identifier'')) (\<lambda>i.
          and_then (build_node e i input provider) (\<lambda>node.
            case bt_get created i of
              Some existing \<Rightarrow> and_then (merge_node existing node provider) (\<lambda>merged. Ok (bt_insert created i merged))
            | None \<Rightarrow> Ok (bt_insert created i node))))"

definition add_relation ::
  "string \<Rightarrow> extraction_input \<Rightarrow> string \<Rightarrow> (string, link_decision) btree_map \<Rightarrow>
   memory_event new_event list \<times> rejected_relation list \<Rightarrow> extracted_relation \<Rightarrow>
   (memory_event new_event list \<times> rejected_relation list) fallible"
where
  "add_relation provider input content_hash by_mention acc r =
    and_then (bt_index by_mention (xr_source r)) (\<lambda>source.
    and_then (bt_index by_mention (xr_target r)) (\<lambda>target.
      case (ld_entity_id source, ld_entity_id target) of
        (Some source_id, Some target_id) \<Rightarrow>
          and_then (returned (build_fact provider input content_hash r source target source_id target_id)) (\<lambda>f.
          and_then (returned (fact_event provider input content_hash f)) (\<lambda>event.
            Ok (fst acc @ [event], snd acc)))
      | _ \<Rightarrow> Ok (fst acc, snd acc @ [reject_relation r source target])))"

definition build_plan ::
  "unicode \<Rightarrow> link_policy \<Rightarrow> string \<Rightarrow> extraction_input \<Rightarrow> entity_linker \<Rightarrow> extraction_output \<Rightarrow> extraction_plan fallible"
where
  "build_plan uc policy provider input linker output =
    and_then (try_fold (add_link uc policy input linker) ([], []) (xo_entities output)) (\<lambda>(by_mention, links).
    let content_hash = hex16 (stable_hash [ei_content input])
    in and_then (returned (try_fold (add_created provider input) [] (zip (xo_entities output) links))) (\<lambda>created.
    and_then (returned (try_map (node_event provider input content_hash) (bt_values created))) (\<lambda>events.
    and_then (try_fold (add_relation provider input content_hash by_mention) (events, []) (xo_relations output)) (\<lambda>(events, rejected).
      Ok \<lparr> xp_provider = provider, xp_source = ei_source input, xp_events = events, xp_links = links,
           xp_rejected_relations = rejected \<rparr>))))"

section \<open>The engine (\<open>engine/mod.rs\<close>)\<close>

record auto_extraction_engine =
  ae_policy :: link_policy

definition engine_new :: "link_policy \<Rightarrow> auto_extraction_engine" where
  "engine_new policy = \<lparr> ae_policy = policy \<rparr>"

definition plan_with_linker ::
  "unicode \<Rightarrow> auto_extraction_engine \<Rightarrow> extraction_provider \<Rightarrow> extraction_input \<Rightarrow> entity_linker \<Rightarrow> extraction_plan fallible"
where
  "plan_with_linker uc engine provider input linker =
    and_then (returned (input_validate input)) (\<lambda>_.
    and_then (returned (validate_text ''extraction.provider'' (xv_name provider))) (\<lambda>_.
    and_then (case xv_extract provider input of
        Ok output \<Rightarrow> Ok output
      | Err e \<Rightarrow> Err (Fault (if xx_provider e = xv_name provider then from_extraction_error e
          else ExtractionFailed (xv_name provider) ''provider error identity does not match provider name''))) (\<lambda>output.
    and_then (returned (validate_output output input)) (\<lambda>_.
      build_plan uc (ae_policy engine) (xv_name provider) input linker output))))"

definition plan ::
  "unicode \<Rightarrow> auto_extraction_engine \<Rightarrow> extraction_provider \<Rightarrow> extraction_input \<Rightarrow> memory_view \<Rightarrow> extraction_plan fallible"
where
  "plan uc engine provider input view =
    and_then (returned (linker_from_view uc view)) (\<lambda>linker. plan_with_linker uc engine provider input linker)"

end
