(* ===== verification/Extraction_Plan.thy ===== *)
theory Extraction_Plan
  imports Extraction_Engine
begin

text \<open>
  What the extraction engine of \<open>Extraction_Engine\<close> plans: every node and fact is valid, every relation
  is planned or rejected, planning never panics, and the events apply to the projection they were
  planned for.
\<close>

section \<open>Valid input and output\<close>

definition input_ok :: "extraction_input \<Rightarrow> bool" where
  "input_ok i \<longleftrightarrow> trimmed (ei_source i) \<and> trim (ei_content i) \<noteq> [] \<and> ei_occurred_at i \<le> ei_recorded_at i \<and>
    (\<forall>t \<in> set_option (ei_repository i) \<union> set_option (ei_branch i) \<union> set_option (ei_locator i) \<union> set_option (ei_digest i). trimmed t)"

lemma input_validate_Ok [result_simps]: "input_validate i = Ok u \<longleftrightarrow> input_ok i"
  by (auto simp: input_validate_def input_ok_def result_simps)

lemma input_validate_Err: "input_validate i = Err e \<Longrightarrow> refusal e"
  using only_invalid_text
  by (fastforce simp: input_validate_def result_simps refusal_def only_invalid_def split: if_splits)

definition entity_ok :: "extracted_entity \<Rightarrow> bool" where
  "entity_ok e \<longleftrightarrow> trimmed (xe_local_id e) \<and> trimmed (xe_kind e) \<and> trimmed (xe_label e) \<and>
    (\<forall>a \<in> set (xe_aliases e). trimmed a) \<and> (\<forall>k \<in> set (bt_keys (xe_attributes e)). trimmed k) \<and>
    (\<forall>(k, v) \<in> set (xe_attributes e). external_key k \<longrightarrow> trimmed v) \<and> (\<forall>h \<in> set (xe_hints e). trimmed (eh_source h))"

lemma entity_validate_Ok [result_simps]: "entity_validate e = Ok u \<longleftrightarrow> entity_ok e"
  by (auto simp: entity_validate_def entity_ok_def result_simps split_beta)

definition relation_ok :: "extracted_relation \<Rightarrow> bool" where
  "relation_ok r \<longleftrightarrow> trimmed (xr_local_id r) \<and> trimmed (xr_source r) \<and> trimmed (xr_relation r) \<and> trimmed (xr_target r)"

lemma relation_validate_Ok [result_simps]: "relation_validate r = Ok u \<longleftrightarrow> relation_ok r"
  by (auto simp: relation_validate_def relation_ok_def result_simps)

definition span_ok :: "extraction_input \<Rightarrow> text_span option \<Rightarrow> bool" where
  "span_ok input span \<longleftrightarrow> (case span of None \<Rightarrow> True
    | Some s \<Rightarrow> ts_start s < ts_end s \<and> ts_end s \<le> length (ei_content input) \<and>
        is_char_boundary (ei_content input) (ts_start s) \<and> is_char_boundary (ei_content input) (ts_end s))"

lemma validate_span_Ok [result_simps]: "validate_span span input = Ok u \<longleftrightarrow> span_ok input span"
  by (auto simp: validate_span_def span_ok_def split: option.split)

definition output_ok :: "extraction_input \<Rightarrow> extraction_output \<Rightarrow> bool" where
  "output_ok input output \<longleftrightarrow>
    (\<forall>e \<in> set (xo_entities output). entity_ok e \<and> span_ok input (xe_span e)) \<and>
    distinct (map xe_local_id (xo_entities output)) \<and> distinct (map xr_local_id (xo_relations output)) \<and>
    (\<forall>r \<in> set (xo_relations output). relation_ok r \<and> span_ok input (xr_span r) \<and>
       {xr_source r, xr_target r} \<subseteq> xe_local_id ` set (xo_entities output) \<and>
       (\<forall>until. xr_valid_until r = Some until \<longrightarrow> valid_from_of input r < until))"

lemma check_entities:
  "try_fold (check_entity input) seen es = Ok seen' \<longleftrightarrow>
    (\<forall>e \<in> set es. entity_ok e \<and> span_ok input (xe_span e)) \<and> distinct (map xe_local_id es) \<and>
    (\<forall>e \<in> set es. \<not> bs_contains seen (xe_local_id e)) \<and> seen' = foldl bs_insert seen (map xe_local_id es)"
proof (induction es arbitrary: seen)
  case (Cons e es)
  have "check_entity input seen e = Ok s \<longleftrightarrow> entity_ok e \<and> span_ok input (xe_span e) \<and>
      \<not> bs_contains seen (xe_local_id e) \<and> s = bs_insert seen (xe_local_id e)" for s
    by (auto simp: check_entity_def result_simps)
  then show ?case by (auto simp: and_then_Ok Cons.IH image_iff)
qed auto

lemma check_relations:
  "try_fold (check_relation input ids) seen rs = Ok seen' \<longleftrightarrow>
    (\<forall>r \<in> set rs. relation_ok r \<and> span_ok input (xr_span r) \<and> bs_contains ids (xr_source r) \<and> bs_contains ids (xr_target r) \<and>
       (\<forall>until. xr_valid_until r = Some until \<longrightarrow> valid_from_of input r < until)) \<and> distinct (map xr_local_id rs) \<and>
    (\<forall>r \<in> set rs. \<not> bs_contains seen (xr_local_id r)) \<and> seen' = foldl bs_insert seen (map xr_local_id rs)"
proof (induction rs arbitrary: seen)
  case (Cons r rs)
  have "check_relation input ids seen r = Ok s \<longleftrightarrow> relation_ok r \<and> span_ok input (xr_span r) \<and>
      bs_contains ids (xr_source r) \<and> bs_contains ids (xr_target r) \<and>
      (\<forall>until. xr_valid_until r = Some until \<longrightarrow> valid_from_of input r < until) \<and>
      \<not> bs_contains seen (xr_local_id r) \<and> s = bs_insert seen (xr_local_id r)" for s
    by (auto simp: check_relation_def result_simps not_le split: option.splits if_splits)
  then show ?case by (auto simp: and_then_Ok Cons.IH image_iff)
qed auto

lemma validate_output_Ok [result_simps]: "validate_output output input = Ok u \<longleftrightarrow> output_ok input output"
  by (auto simp: validate_output_def output_ok_def and_then_Ok check_entities check_relations bs_contains_items fold_insert_items)

lemma only_invalid_validation:
  "only_invalid (entity_validate e)" "only_invalid (relation_validate r)" "only_invalid (validate_span span input)"
proof -
  have "only_invalid (if external_key k then validate_text l v else Ok ())" for k l v
    using only_invalid_text by (simp add: only_invalid_def)
  then have "only_invalid (case kv of (k, v) \<Rightarrow> if external_key k then validate_text l v else Ok ())" for kv l
    by (cases kv) simp
  then show "only_invalid (entity_validate e)"
    unfolding entity_validate_def by (intro only_invalid_and_then only_invalid_text only_invalid_for_each)
  show "only_invalid (relation_validate r)"
    unfolding relation_validate_def by (intro only_invalid_and_then only_invalid_text)
  show "only_invalid (validate_span span input)"
    by (auto simp: only_invalid_def validate_span_def split: option.split)
qed

lemma validate_output_Err: "validate_output output input = Err e \<Longrightarrow> refusal e"
proof -
  assume "validate_output output input = Err e"
  then consider s x where "check_entity input s x = Err e" | ids s r where "check_relation input ids s r = Err e"
    by (auto simp: validate_output_def and_then_Err dest!: try_fold_Err)
  then have "\<exists>field reason. e = InvalidValue field reason"
  proof cases
    case 1
    then show ?thesis using only_invalid_validation(1) [of x] only_invalid_validation(3) [of "xe_span x" input]
      by (auto simp: check_entity_def and_then_Err only_invalid_def split: if_splits)
  next
    case 2
    then show ?thesis using only_invalid_validation(2) [of r] only_invalid_validation(3) [of "xr_span r" input]
      by (auto simp: check_relation_def and_then_Err only_invalid_def split: if_splits)
  qed
  then show ?thesis by (simp add: refusal_def)
qed

section \<open>Nodes\<close>

lemma visible_digit: "show_nat n \<noteq> [] \<and> visible (last (show_nat n))"
proof -
  have "visible (char_of (48 + n mod 10))" for n :: nat
  proof -
    have "n mod 10 < 10" by simp
    then show ?thesis by (simp add: visible_def of_char_of del: mod_less_divisor)
  qed
  from this [of n] show ?thesis by (cases "n < 10") (simp_all add: show_nat.simps [of n])
qed

lemma trimmed_alias_key: "trimmed (alias_key i)"
  using visible_digit [of i] visible_lower by (intro trimmed_visible) (auto simp: alias_key_def)

lemma node_with_attribute_ok: "node_ok n \<Longrightarrow> trimmed k \<Longrightarrow> node_ok (node_with_attribute n k v)"
  using bt_keys_insert [of "mn_attributes n" k v]
  by (auto simp: node_ok_def node_with_attribute_def bt_keys_def)

lemma node_attributes_ok:
  "node_ok n \<Longrightarrow> (\<And>x. x \<in> set xs \<Longrightarrow> trimmed (k x)) \<Longrightarrow>
    node_ok (foldl (\<lambda>n x. node_with_attribute n (k x) (v x)) n xs) \<and>
    mn_id (foldl (\<lambda>n x. node_with_attribute n (k x) (v x)) n xs) = mn_id n"
proof (induction xs arbitrary: n)
  case (Cons x xs)
  then show ?case using node_with_attribute_ok [of n "k x" "v x"] by (simp add: node_with_attribute_def)
qed simp

lemma build_node_total:
  assumes "entity_ok e" "input_ok input"
  shows "\<exists>n. build_node e i input provider = Ok n \<and> node_ok n \<and> mn_id n = i"
proof -
  let ?n0 = "\<lparr> mn_id = i, mn_kind = xe_kind e, mn_label = xe_label e, mn_repository = None, mn_branch = None, mn_attributes = [] \<rparr>"
  have "node_ok ?n0" using assms(1) by (auto simp: node_ok_def entity_ok_def trimmed_def)
  then have "node_validate ?n0 = Ok ()" by (simp add: node_validate_Ok)
  then have new: "node_new i (xe_kind e) (xe_label e) = Ok ?n0" by (simp add: node_new_def Let_def)
  have keys: "trimmed ''extracted_by''" "trimmed ''extraction_source''"
    by (auto intro!: trimmed_visible simp: visible_def)
  define n1 where "n1 = node_with_attribute (node_with_attribute ?n0 ''extracted_by'' provider) ''extraction_source'' (ei_source input)"
  have n1: "node_ok n1" "mn_id n1 = i"
    unfolding n1_def by (rule node_with_attribute_ok [OF node_with_attribute_ok [OF \<open>node_ok ?n0\<close> keys(1)] keys(2)])
      (simp add: node_with_attribute_def)
  define n2 where "n2 = (case ei_repository input of None \<Rightarrow> n1 | Some r \<Rightarrow> node_in_repository n1 r)"
  have n2: "node_ok n2" "mn_id n2 = i"
    using n1 assms(2) by (auto simp: n2_def node_ok_def node_in_repository_def input_ok_def split: option.split)
  define n3 where "n3 = (case ei_branch input of None \<Rightarrow> n2 | Some b \<Rightarrow> node_on_branch n2 b)"
  have n3: "node_ok n3" "mn_id n3 = i"
    using n2 assms(2) by (auto simp: n3_def node_ok_def node_on_branch_def input_ok_def split: option.split)
  define n4 where "n4 = foldl (\<lambda>n x. node_with_attribute n (fst x) (snd x)) n3 (xe_attributes e)"
  have n4: "node_ok n4" "mn_id n4 = i"
    using node_attributes_ok [OF n3(1), of "xe_attributes e" fst snd] assms(1) n3(2)
    by (auto simp: n4_def entity_ok_def bt_keys_def)
  define n5 where "n5 = foldl (\<lambda>n x. node_with_attribute n (alias_key (fst x)) (snd x)) n4 (List.enumerate 0 (xe_aliases e))"
  have n5: "node_ok n5" "mn_id n5 = i"
    using node_attributes_ok [OF n4(1), of "List.enumerate 0 (xe_aliases e)" "\<lambda>x. alias_key (fst x)" snd] trimmed_alias_key n4(2)
    by (auto simp: n5_def)
  have "build_node e i input provider = Ok n5"
    unfolding build_node_def new n5_def n4_def n3_def n2_def n1_def by (simp add: Let_def case_prod_unfold)
  with n5 show ?thesis by blast
qed

lemma merge_attributes_keys:
  "try_fold (merge_attribute provider) m xs = Ok m' \<Longrightarrow>
    \<forall>k \<in> set (bt_keys m) \<union> fst ` set xs. trimmed k \<Longrightarrow> \<forall>k \<in> set (bt_keys m'). trimmed k"
proof (induction xs arbitrary: m)
  case (Cons x xs)
  then obtain m1 where m1: "merge_attribute provider m x = Ok m1" "try_fold (merge_attribute provider) m1 xs = Ok m'"
    by (auto simp: and_then_Ok)
  have "\<forall>k \<in> set (bt_keys m1). trimmed k"
    using m1(1) Cons.prems(2) trimmed_alias_key
    by (cases x) (auto simp: merge_attribute_def split: if_splits option.splits)
  with Cons.IH [OF m1(2)] Cons.prems(2) show ?case by auto
qed simp

lemma merge_node_ok:
  assumes "merge_node a b provider = Ok n" "node_ok a" "node_ok b"
  shows "node_ok n \<and> mn_id n = mn_id a"
proof -
  obtain m where m: "try_fold (merge_attribute provider) (mn_attributes a) (mn_attributes b) = Ok m" "n = a\<lparr>mn_attributes := m\<rparr>"
    using assms(1) by (auto simp: merge_node_def and_then_Ok split: if_splits)
  have "\<forall>k \<in> set (bt_keys (mn_attributes a)) \<union> fst ` set (mn_attributes b). trimmed k"
    using assms(2,3) unfolding node_ok_def bt_keys_def set_map by blast
  from merge_attributes_keys [OF m(1) this] have "\<forall>k \<in> fst ` set m. trimmed k" unfolding bt_keys_def set_map .
  with assms(2) show ?thesis by (simp add: m(2) node_ok_def)
qed

lemma merge_node_Err: "merge_node a b provider = Err e \<Longrightarrow> refusal e"
  by (auto simp: merge_node_def and_then_Err merge_attribute_def extraction_failed_def refusal_def split: if_splits dest!: try_fold_Err)

section \<open>Facts and events\<close>

lemma source_evidence_total: "input_ok input \<Longrightarrow> \<exists>e. source_evidence input = Ok e \<and> evidence_ok e"
proof -
  assume i: "input_ok input"
  let ?e = "\<lparr> ev_kind = ''source'', ev_source = ei_source input, ev_locator = None, ev_digest = None \<rparr>"
  have "trimmed ''source''" by (auto intro!: trimmed_visible simp: visible_def)
  then have ok: "evidence_ok ?e" using i by (simp add: evidence_ok_def input_ok_def)
  then have "evidence_validate ?e = Ok ()" by (simp add: evidence_validate_Ok)
  then have "evidence_new ''source'' (ei_source input) = Ok ?e" by (simp add: evidence_new_def)
  then show ?thesis using ok i
    by (auto simp: source_evidence_def Let_def evidence_ok_def input_ok_def evidence_with_locator_def evidence_with_digest_def
        split: option.split)
qed

lemma provider_evidence_total: "trimmed provider \<Longrightarrow> \<exists>e. provider_evidence provider span = Ok e \<and> evidence_ok e"
proof -
  assume p: "trimmed provider"
  let ?e = "\<lparr> ev_kind = ''extraction_provider'', ev_source = provider, ev_locator = None, ev_digest = None \<rparr>"
  have "trimmed ''extraction_provider''" by (auto intro!: trimmed_visible simp: visible_def)
  then have ok: "evidence_ok ?e" using p by (simp add: evidence_ok_def)
  then have "evidence_validate ?e = Ok ()" by (simp add: evidence_validate_Ok)
  then have new: "evidence_new ''extraction_provider'' provider = Ok ?e" by (simp add: evidence_new_def)
  have "trimmed (''bytes:'' @ show_nat a @ ''-'' @ show_nat b)" for a b
    using visible_digit [of b] by (intro trimmed_visible) (auto simp: visible_def)
  then show ?thesis using ok
    by (auto simp: provider_evidence_def new evidence_ok_def evidence_with_locator_def split: option.split)
qed

definition planned :: "extraction_input \<Rightarrow> extracted_relation \<Rightarrow> link_decision \<Rightarrow> link_decision \<Rightarrow> entity_id \<Rightarrow> entity_id \<Rightarrow>
    memory_fact \<Rightarrow> bool" where
  "planned input r sd td source target f \<longleftrightarrow> fact_ok f \<and> mf_source f = source \<and> mf_target f = target \<and>
    mf_relation f = xr_relation r \<and> mf_valid_from f = valid_from_of input r \<and> mf_valid_until f = xr_valid_until r \<and>
    mf_recorded_at f = ei_recorded_at input \<and> mf_agent_id f = ei_agent_id input \<and> mf_session_id f = ei_session_id input \<and>
    mf_supersedes f = None \<and> mf_confidence f = min (min (xr_confidence r) (ld_score sd)) (ld_score td)"

lemma build_fact_total:
  assumes i: "input_ok input" and r: "relation_ok r" and p: "trimmed provider"
    and until: "\<forall>until. xr_valid_until r = Some until \<longrightarrow> valid_from_of input r < until"
  shows "\<exists>f. build_fact provider input content_hash r sd td source target = Ok f \<and> planned input r sd td source target f"
proof -
  obtain e where e: "source_evidence input = Ok e" "evidence_ok e" using source_evidence_total [OF i] by blast
  obtain pe where pe: "provider_evidence provider (xr_span r) = Ok pe" "evidence_ok pe" using provider_evidence_total [OF p] by blast
  let ?hash = "stable_hash [provider, ei_source input, content_hash, xr_local_id r, as_str source, xr_relation r, as_str target]"
  have id: "text_id_new ''fact'' (''fact:auto:'' @ hex16 ?hash) = Ok (TextId (''fact:auto:'' @ hex16 ?hash))"
    using trimmed_hashed [of "''fact:auto:''" ?hash] by (simp add: text_id_new_Ok visible_lower)
  let ?f0 = "\<lparr> mf_id = TextId (''fact:auto:'' @ hex16 ?hash), mf_source = source, mf_relation = xr_relation r, mf_target = target,
      mf_valid_from = valid_from_of input r, mf_valid_until = None, mf_observed_at = ei_recorded_at input,
      mf_recorded_at = ei_recorded_at input, mf_agent_id = ei_agent_id input, mf_session_id = ei_session_id input,
      mf_confidence = certain, mf_evidence = [e], mf_supersedes = None \<rparr>"
  have "fact_ok ?f0" using r e(2) by (simp add: fact_ok_def relation_ok_def)
  then have "fact_validate ?f0 = Ok ()" by (simp add: fact_validate_Ok)
  then have new: "fact_new (TextId (''fact:auto:'' @ hex16 ?hash)) source (xr_relation r) target (valid_from_of input r) (ei_recorded_at input)
      (ei_agent_id input) (ei_session_id input) e = Ok ?f0"
    by (simp add: fact_new_def Let_def)
  let ?c = "min_confidence (xr_confidence r) (ld_score sd) (ld_score td)"
  let ?f1 = "fact_with_evidence (fact_with_confidence (fact_observed_at ?f0 (ei_occurred_at input)) ?c) pe"
  have ok: "fact_ok (?f1\<lparr>mf_valid_until := xr_valid_until r\<rparr>)"
    using r e(2) pe(2) i until
    by (simp add: fact_ok_def relation_ok_def input_ok_def fact_with_evidence_def fact_with_confidence_def fact_observed_at_def)
  then have "fact_validate (?f1\<lparr>mf_valid_until := xr_valid_until r\<rparr>) = Ok ()" by (simp add: fact_validate_Ok)
  then have "build_fact provider input content_hash r sd td source target = Ok (?f1\<lparr>mf_valid_until := xr_valid_until r\<rparr>)"
    unfolding build_fact_def id and_then.simps e(1) new Let_def pe(1)
    by (cases "xr_valid_until r") (simp_all add: fact_valid_until_def Let_def fact_with_evidence_def fact_with_confidence_def fact_observed_at_def)
  moreover have "planned input r sd td source target (?f1\<lparr>mf_valid_until := xr_valid_until r\<rparr>)"
    using ok by (simp add: planned_def min_confidence_def fact_with_evidence_def fact_with_confidence_def fact_observed_at_def)
  ultimately show ?thesis by blast
qed

text \<open>The events carry the provenance of the input.\<close>

definition carries :: "extraction_input \<Rightarrow> memory_event new_event \<Rightarrow> memory_event \<Rightarrow> bool" where
  "carries input ne payload \<longleftrightarrow> ne_payload ne = payload \<and> ne_event_type ne = event_type payload \<and>
    ne_recorded_at ne = ei_recorded_at input \<and> ne_agent_id ne = ei_agent_id input \<and> ne_session_id ne = ei_session_id input \<and>
    new_event_ok ne"

lemma events_total:
  assumes "input_ok input"
  shows "\<exists>ne. node_event provider input content_hash n = Ok ne \<and> carries input ne (NodeUpserted n)"
    and "\<exists>ne. fact_event provider input content_hash f = Ok ne \<and> carries input ne (FactRecorded f)"
proof -
  have types: "trimmed ''node_upserted''" "trimmed ''fact_recorded''" by (auto intro!: trimmed_visible simp: visible_def)
  have ids: "text_id_new ''event'' (''event:auto:node:'' @ hex16 h) = Ok (TextId (''event:auto:node:'' @ hex16 h))"
    "text_id_new ''event'' (''event:auto:fact:'' @ hex16 h) = Ok (TextId (''event:auto:fact:'' @ hex16 h))" for h
    using trimmed_hashed [of "''event:auto:node:''" h] trimmed_hashed [of "''event:auto:fact:''" h]
    by (simp_all add: text_id_new_Ok visible_lower)
  have time: "\<not> ei_recorded_at input < ei_occurred_at input" using assms by (simp add: input_ok_def not_less)
  show "\<exists>ne. node_event provider input content_hash n = Ok ne \<and> carries input ne (NodeUpserted n)"
    unfolding node_event_def ids and_then.simps new_event_new_def using types(1) time
    by (simp add: trimmed_def carries_def new_event_ok_def not_less)
  show "\<exists>ne. fact_event provider input content_hash f = Ok ne \<and> carries input ne (FactRecorded f)"
    unfolding fact_event_def ids and_then.simps new_event_new_def using types(2) time
    by (simp add: trimmed_def carries_def new_event_ok_def not_less)
qed

section \<open>Links\<close>

lemma add_links:
  "try_fold (add_link uc policy input linker) (m, ds) es =
    (case try_map (\<lambda>e. link uc linker e input policy) es of
       Ok new \<Rightarrow> Ok (foldl (\<lambda>m (e, d). bt_insert m (xe_local_id e) d) m (zip es new), ds @ new)
     | Err x \<Rightarrow> Err x)"
proof (induction es arbitrary: m ds)
  case (Cons e es)
  show ?case
  proof (cases "link uc linker e input policy")
    case (Ok d)
    then show ?thesis using Cons.IH [of "bt_insert m (xe_local_id e) d" "ds @ [d]"]
      by (simp add: add_link_def split: result.split)
  next
    case (Err x)
    then show ?thesis by (simp add: add_link_def)
  qed
qed simp

lemma mention_lookup:
  "distinct (map (\<lambda>x. k (fst x)) ps) \<Longrightarrow> (e, d) \<in> set ps \<Longrightarrow>
    bt_get (foldl (\<lambda>m (e, d). bt_insert m (k e) d) m ps) (k e) = Some d"
proof (induction ps arbitrary: m rule: rev_induct)
  case (snoc p ps)
  obtain a b where p: "p = (a, b)" by force
  show ?case
  proof (cases "(e, d) = (a, b)")
    case False
    then have "(e, d) \<in> set ps" using snoc.prems(2) p by auto
    moreover from this have "k e \<noteq> k a" using snoc.prems(1) p by (force simp: image_iff)
    ultimately show ?thesis using snoc p by simp
  qed (simp add: p)
qed simp

text \<open>The decision a mention of the output got.\<close>

definition decision_of :: "extracted_entity list \<Rightarrow> link_decision list \<Rightarrow> string \<Rightarrow> link_decision option" where
  "decision_of es ds name = map_of (zip (map xe_local_id es) ds) name"

lemma links_total:
  assumes out: "output_ok input output"
    and links: "try_fold (add_link uc policy input linker) ([], []) (xo_entities output) = Ok (by_mention, ds)"
  shows "try_map (\<lambda>e. link uc linker e input policy) (xo_entities output) = Ok ds"
    and "name \<in> xe_local_id ` set (xo_entities output) \<Longrightarrow>
      \<exists>d. bt_get by_mention name = Some d \<and> decision_of (xo_entities output) ds name = Some d \<and> d \<in> set ds"
proof -
  let ?es = "xo_entities output"
  show new: "try_map (\<lambda>e. link uc linker e input policy) ?es = Ok ds"
    using links unfolding add_links by (auto split: result.splits)
  then have m: "by_mention = foldl (\<lambda>m (e, d). bt_insert m (xe_local_id e) d) [] (zip ?es ds)"
    using links unfolding add_links by simp
  have len: "length ds = length ?es" using try_map_length [OF new] by simp
  assume "name \<in> xe_local_id ` set ?es"
  then obtain j where j: "j < length ?es" "xe_local_id (?es ! j) = name" by (metis imageE in_set_conv_nth)
  have dist: "distinct (map xe_local_id ?es)" using out by (simp add: output_ok_def)
  have "map (\<lambda>x. xe_local_id (fst x)) (zip ?es ds) = map xe_local_id ?es"
    using len by (simp flip: map_map [of xe_local_id fst, unfolded comp_def])
  moreover have at: "(?es ! j, ds ! j) \<in> set (zip ?es ds)" using j(1) len by (auto simp: in_set_zip)
  ultimately have "bt_get by_mention name = Some (ds ! j)"
    using mention_lookup [of xe_local_id "zip ?es ds" "?es ! j" "ds ! j" "[]"] dist j(2) m by simp
  moreover have "(name, ds ! j) \<in> set (zip (map xe_local_id ?es) ds)" using j len by (auto simp: in_set_zip intro!: exI [of _ j])
  then have "decision_of ?es ds name = Some (ds ! j)"
    unfolding decision_of_def using dist len by (intro map_of_is_SomeI) simp_all
  ultimately show "\<exists>d. bt_get by_mention name = Some d \<and> decision_of ?es ds name = Some d \<and> d \<in> set ds"
    using j(1) len by auto
qed

section \<open>Created entities\<close>

definition created_ok :: "(entity_id, memory_node) btree_map \<Rightarrow> bool" where
  "created_ok m \<longleftrightarrow> bt_ok m \<and> (\<forall>k n. bt_get m k = Some n \<longrightarrow> node_ok n \<and> mn_id n = k)"

lemma add_created_step:
  assumes ok: "created_ok m" and e: "entity_ok e" and i: "input_ok input"
  shows "case add_created provider input m (e, d) of
      Err x \<Rightarrow> refusal x
    | Ok m' \<Rightarrow> created_ok m' \<and>
        set (bt_keys m') = set (bt_keys m) \<union> (if ld_method d = Created then set_option (ld_entity_id d) else {})"
proof (cases "ld_method d = Created")
  case True
  show ?thesis
  proof (cases "ld_entity_id d")
    case None
    then show ?thesis using True by (simp add: add_created_def ok_or_def refusal_def extraction_failed_def)
  next
    case (Some k)
    obtain n where n: "build_node e k input provider = Ok n" "node_ok n" "mn_id n = k" using build_node_total [OF e i] by blast
    show ?thesis
    proof (cases "bt_get m k")
      case None
      then show ?thesis using True Some n ok by (simp add: add_created_def ok_or_def created_ok_def)
    next
      case old: (Some a)
      then have a: "node_ok a" "mn_id a = k" using ok by (auto simp: created_ok_def)
      show ?thesis
      proof (cases "merge_node a n provider")
        case (Err x)
        then show ?thesis using True Some n(1) old merge_node_Err [OF Err] by (simp add: add_created_def ok_or_def)
      next
        case (Ok merged)
        from merge_node_ok [OF Ok a(1) n(2)] a(2) show ?thesis
          using True Some n(1) old ok Ok by (simp add: add_created_def ok_or_def created_ok_def)
      qed
    qed
  qed
qed (simp add: add_created_def ok)

lemma add_created_fold:
  "created_ok m \<Longrightarrow> \<forall>(e, d) \<in> set ps. entity_ok e \<Longrightarrow> input_ok input \<Longrightarrow>
    case try_fold (add_created provider input) m ps of
      Err x \<Rightarrow> refusal x
    | Ok m' \<Rightarrow> created_ok m' \<and> set (bt_keys m') = set (bt_keys m) \<union>
        {i. \<exists>d \<in> snd ` set ps. ld_method d = Created \<and> ld_entity_id d = Some i}"
proof (induction ps arbitrary: m)
  case (Cons p ps)
  obtain e d where p: "p = (e, d)" by force
  note step = add_created_step [OF Cons.prems(1) _ Cons.prems(3), of e d provider]
  show ?case
  proof (cases "add_created provider input m (e, d)")
    case (Err x)
    then show ?thesis using step Cons.prems(2) by (simp add: p)
  next
    case (Ok m1)
    then have m1: "created_ok m1" "set (bt_keys m1) = set (bt_keys m) \<union> (if ld_method d = Created then set_option (ld_entity_id d) else {})"
      using step Cons.prems(2) by (simp_all add: p)
    have "(if ld_method d = Created then set_option (ld_entity_id d) else {}) = {i. ld_method d = Created \<and> ld_entity_id d = Some i}"
      by auto
    with Cons.IH [OF m1(1)] Cons.prems(2,3) m1(2) show ?thesis
      by (auto simp: p Ok split: result.splits)
  qed
qed simp

section \<open>Relations\<close>

definition resolved :: "(string \<Rightarrow> link_decision option) \<Rightarrow> extracted_relation \<Rightarrow> bool" where
  "resolved dec r \<longleftrightarrow> (\<exists>sd td. dec (xr_source r) = Some sd \<and> dec (xr_target r) = Some td \<and>
    ld_entity_id sd \<noteq> None \<and> ld_entity_id td \<noteq> None)"

definition planned_event :: "extraction_input \<Rightarrow> (string \<Rightarrow> link_decision option) \<Rightarrow> extracted_relation \<Rightarrow> memory_event new_event \<Rightarrow> bool" where
  "planned_event input dec r ne \<longleftrightarrow> (\<exists>sd td source target f. dec (xr_source r) = Some sd \<and> dec (xr_target r) = Some td \<and>
    ld_entity_id sd = Some source \<and> ld_entity_id td = Some target \<and> planned input r sd td source target f \<and>
    carries input ne (FactRecorded f))"

lemma add_relation_step:
  assumes i: "input_ok input" and p: "trimmed provider" and r: "relation_ok r"
    and until: "\<forall>until. xr_valid_until r = Some until \<longrightarrow> valid_from_of input r < until"
    and sd: "bt_get by_mention (xr_source r) = Some sd" "dec (xr_source r) = Some sd"
    and td: "bt_get by_mention (xr_target r) = Some td" "dec (xr_target r) = Some td"
  shows "if resolved dec r
    then \<exists>ne. add_relation provider input content_hash by_mention (evs, rej) r = Ok (evs @ [ne], rej) \<and> planned_event input dec r ne
    else add_relation provider input content_hash by_mention (evs, rej) r = Ok (evs, rej @ [reject_relation r sd td])"
proof (cases "resolved dec r")
  case True
  then obtain source target where ids: "ld_entity_id sd = Some source" "ld_entity_id td = Some target"
    using sd(2) td(2) by (auto simp: resolved_def)
  obtain f where f: "build_fact provider input content_hash r sd td source target = Ok f" "planned input r sd td source target f"
    using build_fact_total [OF i r p until] by blast
  obtain ne where ne: "fact_event provider input content_hash f = Ok ne" "carries input ne (FactRecorded f)"
    using events_total(2) [OF i] by blast
  have "add_relation provider input content_hash by_mention (evs, rej) r = Ok (evs @ [ne], rej)"
    using sd(1) td(1) ids f(1) ne(1) by (simp add: add_relation_def)
  moreover have "planned_event input dec r ne" using sd(2) td(2) ids f(2) ne(2) unfolding planned_event_def by blast
  ultimately show ?thesis using True by auto
next
  case False
  then have "ld_entity_id sd = None \<or> ld_entity_id td = None" using sd(2) td(2) by (auto simp: resolved_def)
  then show ?thesis using False sd(1) td(1) by (auto simp: add_relation_def split: option.split)
qed

lemma add_relations:
  assumes i: "input_ok input" and p: "trimmed provider"
  shows "(\<And>r. r \<in> set rs \<Longrightarrow> relation_ok r \<and> (\<forall>until. xr_valid_until r = Some until \<longrightarrow> valid_from_of input r < until) \<and>
      (\<exists>sd td. bt_get by_mention (xr_source r) = Some sd \<and> dec (xr_source r) = Some sd \<and>
         bt_get by_mention (xr_target r) = Some td \<and> dec (xr_target r) = Some td)) \<Longrightarrow>
    \<exists>new more. try_fold (add_relation provider input content_hash by_mention) (evs, rej) rs = Ok (evs @ new, rej @ more) \<and>
      list_all2 (planned_event input dec) (filter (resolved dec) rs) new \<and>
      map rj_relation_id more = map xr_local_id (filter (\<lambda>r. \<not> resolved dec r) rs)"
proof (induction rs arbitrary: evs rej)
  case (Cons r rs)
  from Cons.prems [of r] obtain sd td where r: "relation_ok r" "\<forall>until. xr_valid_until r = Some until \<longrightarrow> valid_from_of input r < until"
    "bt_get by_mention (xr_source r) = Some sd" "dec (xr_source r) = Some sd"
    "bt_get by_mention (xr_target r) = Some td" "dec (xr_target r) = Some td" by auto
  note step = add_relation_step [OF i p r, of content_hash evs rej]
  show ?case
  proof (cases "resolved dec r")
    case True
    with step obtain ne where ne: "add_relation provider input content_hash by_mention (evs, rej) r = Ok (evs @ [ne], rej)"
      "planned_event input dec r ne" by auto
    obtain new more where "try_fold (add_relation provider input content_hash by_mention) (evs @ [ne], rej) rs = Ok ((evs @ [ne]) @ new, rej @ more)"
      "list_all2 (planned_event input dec) (filter (resolved dec) rs) new"
      "map rj_relation_id more = map xr_local_id (filter (\<lambda>r. \<not> resolved dec r) rs)" using Cons.IH Cons.prems by (metis list.set_intros(2))
    then show ?thesis using ne True by (intro exI [of _ "ne # new"] exI [of _ more]) simp
  next
    case False
    with step have rj: "add_relation provider input content_hash by_mention (evs, rej) r = Ok (evs, rej @ [reject_relation r sd td])" by simp
    obtain new more where "try_fold (add_relation provider input content_hash by_mention) (evs, rej @ [reject_relation r sd td]) rs =
        Ok (evs @ new, (rej @ [reject_relation r sd td]) @ more)"
      "list_all2 (planned_event input dec) (filter (resolved dec) rs) new"
      "map rj_relation_id more = map xr_local_id (filter (\<lambda>r. \<not> resolved dec r) rs)" using Cons.IH Cons.prems by (metis list.set_intros(2))
    then show ?thesis using rj False
      by (intro exI [of _ new] exI [of _ "reject_relation r sd td # more"]) (simp add: reject_relation_def)
  qed
qed simp

section \<open>The plan\<close>

definition created_ids :: "link_decision list \<Rightarrow> entity_id set" where
  "created_ids ds = {i. \<exists>d \<in> set ds. ld_method d = Created \<and> ld_entity_id d = Some i}"

text \<open>What a plan holds, in terms of the links: its node events, then its fact events, and the rejections.\<close>

definition plan_holds ::
  "extraction_input \<Rightarrow> extraction_output \<Rightarrow> extraction_plan \<Rightarrow> (entity_id, memory_node) btree_map \<Rightarrow> memory_event new_event list \<Rightarrow>
   memory_event new_event list \<Rightarrow> bool"
where
  "plan_holds input output xp created nodes facts \<longleftrightarrow>
    (let dec = decision_of (xo_entities output) (xp_links xp)
     in created_ok created \<and> set (bt_keys created) = created_ids (xp_links xp) \<and>
        xp_events xp = nodes @ facts \<and>
        list_all2 (\<lambda>n ne. carries input ne (NodeUpserted n)) (bt_values created) nodes \<and>
        list_all2 (planned_event input dec) (filter (resolved dec) (xo_relations output)) facts \<and>
        map rj_relation_id (xp_rejected_relations xp) =
          map xr_local_id (filter (\<lambda>r. \<not> resolved dec r) (xo_relations output)) \<and>
        (\<forall>r \<in> set (xo_relations output). \<forall>name \<in> {xr_source r, xr_target r}. \<exists>d \<in> set (xp_links xp). dec name = Some d))"

lemma node_events_total:
  assumes "input_ok input"
  shows "\<exists>nes. try_map (node_event provider input content_hash) ns = Ok nes \<and>
    list_all2 (\<lambda>n ne. carries input ne (NodeUpserted n)) ns nes"
proof (induction ns)
  case (Cons n ns)
  obtain ne where "node_event provider input content_hash n = Ok ne" "carries input ne (NodeUpserted n)"
    using events_total(1) [OF assms] by blast
  with Cons show ?case by auto
qed simp

lemma build_plan_total:
  assumes linker: "linker_from_view uc view = Ok l" and out: "output_ok input output" and i: "input_ok input"
    and p: "trimmed provider"
  shows "case build_plan uc policy provider input l output of
      Err x \<Rightarrow> \<exists>e. x = Fault e \<and> refusal e
    | Ok xp \<Rightarrow> try_map (\<lambda>e. link uc l e input policy) (xo_entities output) = Ok (xp_links xp) \<and>
        (\<exists>created nodes facts. plan_holds input output xp created nodes facts)"
proof (cases "try_fold (add_link uc policy input l) ([], []) (xo_entities output)")
  case (Err x)
  then obtain e where "link uc l e input policy = Err x"
    unfolding add_links by (auto split: result.splits dest!: try_map_Err)
  then have "\<exists>e. x = Fault e \<and> refusal e" using link_total [OF linker, of e input policy] by auto
  then show ?thesis using Err by (simp add: build_plan_def)
next
  case (Ok acc)
  obtain m ds where links: "try_fold (add_link uc policy input l) ([], []) (xo_entities output) = Ok (m, ds)"
    using Ok by (cases acc) simp
  note L = links_total [OF out links]
  let ?ps = "zip (xo_entities output) ds" and ?dec = "decision_of (xo_entities output) ds"
  let ?hash = "hex16 (stable_hash [ei_content input])"
  have es: "\<forall>(e, d) \<in> set ?ps. entity_ok e" using out by (auto simp: output_ok_def dest: set_zip_leftD)
  have ids: "{i. \<exists>d \<in> snd ` set ?ps. ld_method d = Created \<and> ld_entity_id d = Some i} = created_ids ds"
    using try_map_length [OF L(1)] by (simp add: created_ids_def flip: set_map)
  note C = add_created_fold [OF _ es i, of "[]" provider, unfolded ids]
  show ?thesis
  proof (cases "try_fold (add_created provider input) [] ?ps")
    case (Err x)
    then have "refusal x" using C by (simp add: created_ok_def bt_get_def)
    then show ?thesis using Err by (simp add: build_plan_def links)
  next
    case (Ok created)
    then have created: "created_ok created" "set (bt_keys created) = created_ids ds"
      using C by (simp_all add: created_ok_def bt_get_def)
    obtain nodes where nodes: "try_map (node_event provider input ?hash) (bt_values created) = Ok nodes"
      "list_all2 (\<lambda>n ne. carries input ne (NodeUpserted n)) (bt_values created) nodes"
      using node_events_total [OF i] by blast
    have names: "\<exists>d. bt_get m name = Some d \<and> ?dec name = Some d \<and> d \<in> set ds"
      if "r \<in> set (xo_relations output)" "name \<in> {xr_source r, xr_target r}" for r name
      using L(2) [of name] out that by (auto simp: output_ok_def)
    have "relation_ok r \<and> (\<forall>until. xr_valid_until r = Some until \<longrightarrow> valid_from_of input r < until) \<and>
        (\<exists>sd td. bt_get m (xr_source r) = Some sd \<and> ?dec (xr_source r) = Some sd \<and>
           bt_get m (xr_target r) = Some td \<and> ?dec (xr_target r) = Some td)"
      if r: "r \<in> set (xo_relations output)" for r
    proof -
      obtain sd td where "bt_get m (xr_source r) = Some sd \<and> ?dec (xr_source r) = Some sd"
        "bt_get m (xr_target r) = Some td \<and> ?dec (xr_target r) = Some td"
        using names [OF r, of "xr_source r"] names [OF r, of "xr_target r"] by blast
      then show ?thesis using out r unfolding output_ok_def by blast
    qed
    from add_relations [where rs = "xo_relations output", OF i p this] obtain facts more where rel:
      "try_fold (add_relation provider input ?hash m) (nodes, []) (xo_relations output) = Ok (nodes @ facts, [] @ more)"
      "list_all2 (planned_event input ?dec) (filter (resolved ?dec) (xo_relations output)) facts"
      "map rj_relation_id more = map xr_local_id (filter (\<lambda>r. \<not> resolved ?dec r) (xo_relations output))" by blast
    let ?xp = "\<lparr> xp_provider = provider, xp_source = ei_source input, xp_events = nodes @ facts, xp_links = ds,
        xp_rejected_relations = more \<rparr>"
    have "build_plan uc policy provider input l output = Ok ?xp"
      by (simp add: build_plan_def links Ok nodes(1) rel(1))
    moreover have "plan_holds input output ?xp created nodes facts"
      unfolding plan_holds_def Let_def using created nodes(2) rel(2,3) names by (simp; blast)
    ultimately show ?thesis using L(1) by auto
  qed
qed

lemma plan_Ok:
  assumes "plan uc engine provider input view = Ok xp"
  obtains l out created nodes facts where "linker_from_view uc view = Ok l" "xv_extract provider input = Ok out"
    "input_ok input" "output_ok input out" "trimmed (xv_name provider)"
    "try_map (\<lambda>e. link uc l e input (ae_policy engine)) (xo_entities out) = Ok (xp_links xp)"
    "plan_holds input out xp created nodes facts"
proof -
  from assms obtain l out where *: "linker_from_view uc view = Ok l" "xv_extract provider input = Ok out"
    "input_ok input" "output_ok input out" "trimmed (xv_name provider)"
    "build_plan uc (ae_policy engine) (xv_name provider) input l out = Ok xp"
    by (auto simp: plan_def plan_with_linker_def and_then_Ok returned_Ok input_validate_Ok validate_text_Ok validate_output_Ok
        split: result.splits)
  with build_plan_total [OF *(1,4,3,5), of "ae_policy engine"] show thesis by (auto intro: that)
qed

lemma link_decisions:
  assumes "linker_from_view uc view = Ok l" "try_map (\<lambda>e. link uc l e input policy) es = Ok ds"
  shows "map ld_mention_id ds = map xe_local_id es \<and>
    (\<forall>d \<in> set ds. \<forall>i. ld_entity_id d = Some i \<longrightarrow> (i \<in> mn_id ` set (view_nodes view) \<longleftrightarrow> ld_method d \<noteq> Created))"
  using assms(2)
proof (induction es arbitrary: ds)
  case (Cons e es)
  then obtain d ds' where ds: "link uc l e input policy = Ok d" "ds = d # ds'" "try_map (\<lambda>e. link uc l e input policy) es = Ok ds'"
    by (auto simp: and_then_Ok)
  have just: "justified view e policy d" by (rule link_justified [OF assms(1) ds(1)])
  then have "ld_mention_id d = xe_local_id e" by (simp add: justified_def)
  moreover have "i \<in> mn_id ` set (view_nodes view) \<longleftrightarrow> ld_method d \<noteq> Created" if "ld_entity_id d = Some i" for i
    using just that by (auto simp: justified_def split: if_splits)
  ultimately show ?case using Cons.IH [OF ds(3)] ds(2) by auto
qed simp

lemma payloads:
  "list_all2 (\<lambda>n ne. carries input ne (NodeUpserted n)) ns nes \<Longrightarrow> map ne_payload nes = map NodeUpserted ns"
  "list_all2 (planned_event input dec) rs nes \<Longrightarrow> \<exists>fs. map ne_payload nes = map FactRecorded fs \<and> length fs = length rs \<and>
    (\<forall>f \<in> set fs. fact_ok f \<and> (\<exists>r \<in> set rs. \<exists>sd td. dec (xr_source r) = Some sd \<and> dec (xr_target r) = Some td \<and>
       ld_entity_id sd = Some (mf_source f) \<and> ld_entity_id td = Some (mf_target f) \<and> mf_relation f = xr_relation r))"
proof -
  show "list_all2 (\<lambda>n ne. carries input ne (NodeUpserted n)) ns nes \<Longrightarrow> map ne_payload nes = map NodeUpserted ns"
    by (induction rule: list_all2_induct) (auto simp: carries_def)
  show "list_all2 (planned_event input dec) rs nes \<Longrightarrow> \<exists>fs. map ne_payload nes = map FactRecorded fs \<and> length fs = length rs \<and>
    (\<forall>f \<in> set fs. fact_ok f \<and> (\<exists>r \<in> set rs. \<exists>sd td. dec (xr_source r) = Some sd \<and> dec (xr_target r) = Some td \<and>
       ld_entity_id sd = Some (mf_source f) \<and> ld_entity_id td = Some (mf_target f) \<and> mf_relation f = xr_relation r))"
  proof (induction rule: list_all2_induct)
    case (Cons r rs ne nes)
    from Cons(3) obtain fs where fs: "map ne_payload nes = map FactRecorded fs" "length fs = length rs"
      "\<forall>f \<in> set fs. fact_ok f \<and> (\<exists>r \<in> set rs. \<exists>sd td. dec (xr_source r) = Some sd \<and> dec (xr_target r) = Some td \<and>
         ld_entity_id sd = Some (mf_source f) \<and> ld_entity_id td = Some (mf_target f) \<and> mf_relation f = xr_relation r)" by blast
    from Cons(1) obtain f sd td where "ne_payload ne = FactRecorded f" "fact_ok f" "dec (xr_source r) = Some sd"
      "dec (xr_target r) = Some td" "ld_entity_id sd = Some (mf_source f)" "ld_entity_id td = Some (mf_target f)" "mf_relation f = xr_relation r"
      by (auto simp: planned_event_def planned_def carries_def)
    with fs show ?case by (intro exI [of _ "f # fs"]) auto
  qed simp
qed

text \<open>Where the endpoints of the planned facts come from.\<close>

lemma planned_endpoints:
  assumes holds: "plan_holds input output xp created nodes facts"
    and links: "\<forall>d \<in> set (xp_links xp). \<forall>i. ld_entity_id d = Some i \<longrightarrow> (i \<in> ids \<longleftrightarrow> ld_method d \<noteq> Created)"
    and dec: "decision_of (xo_entities output) (xp_links xp) name = Some d" "r \<in> set (xo_relations output)"
      "name \<in> {xr_source r, xr_target r}" "ld_entity_id d = Some i"
  shows "i \<in> ids \<union> created_ids (xp_links xp)"
proof -
  obtain d' where "d' \<in> set (xp_links xp)" "decision_of (xo_entities output) (xp_links xp) name = Some d'"
    using holds dec(2,3) unfolding plan_holds_def Let_def by blast
  then show ?thesis using links dec(1,4) by (auto simp: created_ids_def)
qed

section \<open>Completeness of a plan\<close>

lemma created_values:
  assumes "created_ok m"
  shows "map mn_id (bt_values m) = bt_keys m" "\<forall>n \<in> set (bt_values m). node_ok n"
proof -
  have at: "node_ok n \<and> mn_id n = k" if "bt_get m k = Some n" for k n
    using assms that by (auto simp: created_ok_def)
  have ok: "bt_ok m" using assms by (simp add: created_ok_def)
  show "map mn_id (bt_values m) = bt_keys m"
    unfolding bt_values_def bt_keys_def map_map
    by (rule map_cong [OF refl]) (use at bt_get_in [OF ok] in auto)
  show "\<forall>n \<in> set (bt_values m). node_ok n" using at bt_values_in [OF ok] by blast
qed


section \<open>Planning never panics\<close>

lemma linker_from_view_Err: "linker_from_view uc view = Err e \<Longrightarrow> refusal e"
proof -
  have validate: "refusal x" if "node_validate n = Err x" for n x
  proof -
    have "only_invalid (if mn_label n = [] then Err (InvalidValue f r) else Ok ())" for f r by (simp add: only_invalid_def)
    then have "only_invalid (node_validate n)"
      unfolding node_validate_def by (intro only_invalid_and_then only_invalid_text only_invalid_for_each)
    with that show ?thesis by (auto simp: only_invalid_def refusal_def)
  qed
  have attribute: "refusal x" if "index_attribute uc kind index l a = Err x" for kind index l a x
    using that only_invalid_text(1)
    by (cases a) (auto simp: index_attribute_def and_then_Err refusal_def only_invalid_def split: if_splits)
  have "refusal x" if "catalog_node uc l entry = Err x" for l entry x
    using that by (cases entry) (auto simp: catalog_node_def Let_def and_then_Err refusal_def [of "InvalidValue _ _"]
        split: if_splits dest: validate dest!: try_fold_Err attribute)
  then show "linker_from_view uc view = Err e \<Longrightarrow> refusal e"
    unfolding linker_from_view_def by (metis try_fold_Err)
qed

text \<open>
  C34: planning ends without a panic for every provider, input and view: an error is a refusal of invalid
  data or an extraction failure, and a plan exists only for a valid input and an output that passed
  validation, with unique local identifiers, spans on character boundaries of the content and relations
  between extracted mentions.
\<close>

theorem plan_never_panics:
  "case plan uc engine provider input view of
     Err x \<Rightarrow> \<exists>e. x = Fault e \<and> refusal e
   | Ok xp \<Rightarrow> input_ok input \<and> trimmed (xv_name provider) \<and> (\<exists>out. xv_extract provider input = Ok out \<and> output_ok input out)"
proof (cases "plan uc engine provider input view")
  case (Ok xp)
  then show ?thesis by (auto elim!: plan_Ok)
next
  case (Err x)
  have field: "refusal e" if "validate_text label v = Err e" for label v e
    using that only_invalid_text(1) [of label v] by (auto simp: only_invalid_def refusal_def)
  from Err consider (view) e where "x = Fault e" "linker_from_view uc view = Err e"
    | (source) e where "x = Fault e" "input_validate input = Err e"
    | (name) e where "x = Fault e" "validate_text ''extraction.provider'' (xv_name provider) = Err e"
    | (provider) p m where "x = Fault (ExtractionFailed p m)"
    | (outcome) out e where "x = Fault e" "validate_output out input = Err e"
    | (build) l out where "linker_from_view uc view = Ok l" "input_ok input" "output_ok input out" "trimmed (xv_name provider)"
        "build_plan uc (ae_policy engine) (xv_name provider) input l out = Err x"
    by (auto simp: plan_def plan_with_linker_def and_then_Err returned_Ok returned_Err input_validate_Ok validate_text_Ok validate_output_Ok
        from_extraction_error_def split: result.splits if_splits)
  then have "\<exists>e. x = Fault e \<and> refusal e"
  proof cases
    case build
    then show ?thesis using build_plan_total [OF build(1,3,2,4), of "ae_policy engine"] by simp
  qed (auto simp: refusal_def [of "ExtractionFailed _ _"] dest: linker_from_view_Err input_validate_Err field validate_output_Err)
  with Err show ?thesis by simp
qed

section \<open>The planned events apply\<close>

lemma view_ids_known:
  assumes "proj_inv p"
  shows "mn_id ` set (view_nodes (view_ref p clock)) \<subseteq> set (node_ids p)"
proof
  fix i assume "i \<in> mn_id ` set (view_nodes (view_ref p clock))"
  then obtain h n where h: "h \<in> set (mp_nodes p)" "visible_revision h (known_at clock) = Some n" "mn_id n = i"
    unfolding view_ref_spec [OF assms] by (auto simp: visible_nodes_def set_map_filter)
  have "history_ok h" using assms h(1) by (auto simp: proj_inv_def nodes_ok_def)
  then have "history_id h = i" using visible_revision_id [of h "known_at clock" n] h(2,3) by simp
  then show "i \<in> set (node_ids p)" using h(1) by (auto simp: node_ids_def)
qed

lemma apply_planned_node:
  assumes inv: "proj_inv p" and ne: "carries input ne (NodeUpserted n)" and n: "node_ok n"
  shows "\<exists>q. mp_apply p (stamp st v w ne) = (Ok (), q) \<and> proj_inv q \<and> mp_facts q = mp_facts p \<and>
    insert (mn_id n) (set (node_ids p)) \<subseteq> set (node_ids q)"
proof -
  let ?r = "\<lparr> nr_node = n, nr_recorded_at = em_recorded_at (se_metadata (stamp st v w ne)), nr_position = w \<rparr>"
  have valid: "node_validate n = Ok ()" using n by (simp add: node_validate_Ok)
  obtain q0 where q0: "insert_node ?r p = (Ok (), q0)"
    by (cases "ix_get (mp_node_lookup p) (mn_id n)") (auto simp: insert_node_def valid Let_def seq_op_def lift_op_def)
  have inv0: "proj_inv q0" by (rule insert_node_inv [OF inv q0])
  have nodes: "nodes_ok p" using inv by (simp add: proj_inv_def)
  have ids: "mp_facts q0 = mp_facts p \<and> insert (mn_id n) (set (node_ids p)) \<subseteq> set (node_ids q0)"
    using q0
  proof (cases rule: insert_node_cases)
    case (fresh x)
    then show ?thesis by (auto simp: node_ids_def)
  next
    case (later k)
    then have k: "k < length (mp_nodes p)" "node_ids p ! k = mn_id n" using node_ids_index [OF nodes] by auto
    have "history_id ((mp_nodes p ! k)\<lparr>nh_later := nh_later (mp_nodes p ! k) @ [?r]\<rparr>) = history_id (mp_nodes p ! k)"
      by (simp add: history_id_def)
    then have "node_ids q0 = node_ids p"
      using later(2) k(1) by (simp add: node_ids_def map_update list_update_same_conv)
    moreover have "mn_id n \<in> set (node_ids p)" using k by (metis length_map node_ids_def nth_mem)
    ultimately show ?thesis using later(2) by simp
  qed
  have "mp_apply p (stamp st v w ne) = (Ok (), q0\<lparr>mp_last_global_position := Some w\<rparr>)"
    using ne q0 by (simp add: mp_apply_def stamp_def carries_def Let_def seq_op_def)
  then show ?thesis using inv0 ids last_position_inv by (intro exI [of _ "q0\<lparr>mp_last_global_position := Some w\<rparr>"]) (simp add: node_ids_def)
qed

lemma apply_planned_fact:
  assumes inv: "proj_inv p" and ne: "carries input ne (FactRecorded f)"
    and f: "fact_ok f" "mf_supersedes f = None" "mf_recorded_at f = ei_recorded_at input" "mf_agent_id f = ei_agent_id input"
      "mf_session_id f = ei_session_id input" and ids: "{mf_source f, mf_target f} \<subseteq> set (node_ids p)"
  shows "(\<exists>q. mp_apply p (stamp st v w ne) = (Ok (), q) \<and> proj_inv q \<and> mp_facts q = mp_facts p @ [f] \<and> node_ids q = node_ids p) \<or>
    mp_apply p (stamp st v w ne) = (Err (ConflictingFact (as_str (mf_id f))), p)"
proof -
  have nodes: "nodes_ok p" using inv by (simp add: proj_inv_def)
  obtain source target where look: "ix_get (mp_node_lookup p) (mf_source f) = Some source" "ix_get (mp_node_lookup p) (mf_target f) = Some target"
    using ids node_ids_lookup [OF nodes] by (metis insert_subset not_Some_eq)
  have valid: "fact_validate f = Ok ()" using f(1) by (simp add: fact_validate_Ok)
  obtain res q where res: "mp_apply p (stamp st v w ne) = (res, q)" by force
  have inv': "proj_inv q" by (rule mp_apply_inv [OF inv res])
  show ?thesis
  proof (cases "ix_contains_key (mp_fact_lookup p) (mf_id f)")
    case True
    then show ?thesis using ne f valid look
      by (simp add: mp_apply_def stamp_def carries_def Let_def seq_op_def lift_op_def insert_fact_def require_entity_def ok_or_def)
  next
    case False
    then have "res = Ok () \<and> mp_facts q = mp_facts p @ [f] \<and> mp_nodes q = mp_nodes p"
      using res ne f valid look
      by (auto simp: mp_apply_def stamp_def carries_def Let_def seq_op_def lift_op_def insert_fact_def require_entity_def ok_or_def)
    then show ?thesis using res inv' by (simp add: node_ids_def)
  qed
qed

definition committed :: "'e new_event \<Rightarrow> 'e stored_event \<Rightarrow> bool" where
  "committed ne se \<longleftrightarrow> (\<exists>st v w. se = stamp st v w ne)"

lemma apply_planned_nodes:
  "list_all2 (\<lambda>n ne. carries input ne (NodeUpserted n)) ns nes \<Longrightarrow> list_all node_ok ns \<Longrightarrow>
    list_all2 committed nes ses \<Longrightarrow> proj_inv p \<Longrightarrow>
    \<exists>q. project mp_apply p ses = Ok q \<and> proj_inv q \<and> mp_facts q = mp_facts p \<and>
      mn_id ` set ns \<union> set (node_ids p) \<subseteq> set (node_ids q)"
proof (induction arbitrary: ses p rule: list_all2_induct)
  case (Cons n ns ne nes)
  from Cons.prems(2) obtain st v w ses' where ses: "ses = stamp st v w ne # ses'" "list_all2 committed nes ses'"
    by (fastforce simp: list_all2_Cons1 committed_def [of ne])
  obtain p1 where p1: "mp_apply p (stamp st v w ne) = (Ok (), p1)" "proj_inv p1" "mp_facts p1 = mp_facts p"
    "insert (mn_id n) (set (node_ids p)) \<subseteq> set (node_ids p1)"
    using apply_planned_node [OF Cons.prems(3) Cons.hyps(1), of st v w] Cons.prems(1) by auto
  obtain q where "project mp_apply p1 ses' = Ok q" "proj_inv q" "mp_facts q = mp_facts p1"
    "mn_id ` set ns \<union> set (node_ids p1) \<subseteq> set (node_ids q)"
    using Cons.IH [OF _ ses(2) p1(2)] Cons.prems(1) by auto
  then show ?case using ses(1) p1 by (intro exI [of _ q]) (auto simp: apply_step_def)
qed simp

definition recordable :: "extraction_input \<Rightarrow> memory_projection \<Rightarrow> memory_event new_event \<Rightarrow> memory_fact \<Rightarrow> bool" where
  "recordable input p ne f \<longleftrightarrow> carries input ne (FactRecorded f) \<and> fact_ok f \<and> mf_supersedes f = None \<and>
    mf_recorded_at f = ei_recorded_at input \<and> mf_agent_id f = ei_agent_id input \<and> mf_session_id f = ei_session_id input \<and>
    {mf_source f, mf_target f} \<subseteq> set (node_ids p)"

lemma apply_planned_facts:
  "list_all2 (recordable input p) nes fs \<Longrightarrow> list_all2 committed nes ses \<Longrightarrow> proj_inv p \<Longrightarrow>
    case project mp_apply p ses of
      Err e \<Rightarrow> \<exists>f \<in> set fs. e = ConflictingFact (as_str (mf_id f))
    | Ok q \<Rightarrow> proj_inv q \<and> mp_facts q = mp_facts p @ fs \<and> node_ids q = node_ids p"
proof (induction nes arbitrary: ses fs p)
  case (Cons ne nes)
  from Cons.prems(1) obtain f fs' where fs: "fs = f # fs'" "recordable input p ne f" "list_all2 (recordable input p) nes fs'"
    by (auto simp: list_all2_Cons1)
  from Cons.prems(2) obtain st v w ses' where ses: "ses = stamp st v w ne # ses'" "list_all2 committed nes ses'"
    by (fastforce simp: list_all2_Cons1 committed_def [of ne])
  from fs(2) have "(\<exists>q. mp_apply p (stamp st v w ne) = (Ok (), q) \<and> proj_inv q \<and> mp_facts q = mp_facts p @ [f] \<and> node_ids q = node_ids p) \<or>
      mp_apply p (stamp st v w ne) = (Err (ConflictingFact (as_str (mf_id f))), p)"
    unfolding recordable_def by (intro apply_planned_fact [OF Cons.prems(3)]) auto
  then show ?case
  proof
    assume "\<exists>q. mp_apply p (stamp st v w ne) = (Ok (), q) \<and> proj_inv q \<and> mp_facts q = mp_facts p @ [f] \<and> node_ids q = node_ids p"
    then obtain q where q: "mp_apply p (stamp st v w ne) = (Ok (), q)" "proj_inv q" "mp_facts q = mp_facts p @ [f]" "node_ids q = node_ids p"
      by blast
    have "recordable input q = recordable input p" using q(4) by (simp add: recordable_def fun_eq_iff)
    with Cons.IH [OF _ ses(2) q(2), of fs'] fs(3) q show ?thesis
      by (auto simp: ses(1) fs(1) apply_step_def split: result.splits)
  next
    assume "mp_apply p (stamp st v w ne) = (Err (ConflictingFact (as_str (mf_id f))), p)"
    then show ?thesis by (simp add: ses(1) fs(1) apply_step_def)
  qed
qed simp

lemma planned_recordable:
  assumes "list_all2 (planned_event input dec) rs nes"
    and ends: "\<And>r d i name. r \<in> set rs \<Longrightarrow> name \<in> {xr_source r, xr_target r} \<Longrightarrow> dec name = Some d \<Longrightarrow> ld_entity_id d = Some i \<Longrightarrow>
      i \<in> set (node_ids q)"
  shows "\<exists>fs. list_all2 (recordable input q) nes fs"
  using assms
proof (induction rule: list_all2_induct)
  case (Cons r rs ne nes)
  from Cons.IH Cons.prems obtain fs where fs: "list_all2 (recordable input q) nes fs" by (metis list.set_intros(2))
  from Cons.hyps(1) obtain f sd td where f: "dec (xr_source r) = Some sd" "dec (xr_target r) = Some td" "ld_entity_id sd = Some (mf_source f)"
    "ld_entity_id td = Some (mf_target f)" "planned input r sd td (mf_source f) (mf_target f) f" "carries input ne (FactRecorded f)"
    by (auto simp: planned_event_def planned_def)
  have "mf_source f \<in> set (node_ids q)" using Cons.prems [of r "xr_source r"] f(1,3) by simp
  moreover have "mf_target f \<in> set (node_ids q)" using Cons.prems [of r "xr_target r"] f(2,4) by simp
  ultimately have "recordable input q ne f" using f(5,6) by (simp add: recordable_def planned_def)
  then show ?case using fs by (intro exI [of _ "f # fs"]) simp
qed (auto intro: exI [of _ "[]"])


section \<open>A small plan\<close>

definition demo_new_mention :: extracted_entity where
  "demo_new_mention = demo_mention\<lparr>xe_stable_id := Some (TextId ''z'')\<rparr>"

definition demo_output :: extraction_output where
  "demo_output = \<lparr> xo_entities = [demo_new_mention], xo_relations = [] \<rparr>"

definition demo_provider :: extraction_provider where
  "demo_provider = \<lparr> xv_name = ''demo'', xv_extract = \<lambda>_. Ok demo_output \<rparr>"

definition demo_engine :: auto_extraction_engine where
  "demo_engine = \<lparr> ae_policy = link_policy_default \<rparr>"

abbreviation demo_memory_view :: memory_view where
  "demo_memory_view \<equiv> view_ref (demo_projection [(TextId ''f'', demo_first)] 3) \<lparr> valid_at = Timestamp 2, known_at = Timestamp 6 \<rparr>"

lemma demo_memory_nodes: "view_nodes demo_memory_view = [demo_node ''a'', demo_node ''b'']"
  by (simp add: view_ref_def demo_projection_def demo_visible List.map_filter_def Let_def)

lemma demo_input_ok: "input_ok demo_input" "output_ok demo_input demo_output" "entity_ok demo_new_mention"
proof -
  have t: "trimmed ''m''" "trimmed ''Module''" "trimmed ''Label''" by (auto intro!: trimmed_visible simp: visible_def)
  then have "trim ''Label'' = ''Label''" by (simp add: trimmed_def)
  then show "input_ok demo_input" using demo_trimmed by (simp add: input_ok_def demo_input_def)
  show e: "entity_ok demo_new_mention" using t by (simp add: entity_ok_def demo_new_mention_def demo_mention_def)
  then show "output_ok demo_input demo_output"
    by (simp add: output_ok_def demo_output_def span_ok_def) (simp add: demo_new_mention_def demo_mention_def)
qed

lemma demo_planned:
  "\<exists>xp ne n. plan ascii_unicode demo_engine demo_provider demo_input demo_memory_view = Ok xp \<and> xp_events xp = [ne] \<and>
    ne_payload ne = NodeUpserted n"
proof -
  obtain l where l: "linker_from_view ascii_unicode demo_memory_view = Ok l"
  proof -
    have "mn_attributes (demo_node i) = []" for i by (simp add: demo_node_def)
    then have "\<exists>l. linker_from_view ascii_unicode demo_memory_view = Ok l"
      using demo_valid(1) by (simp add: linker_from_view_def demo_memory_nodes catalog_node_def Let_def)
    then show thesis using that by blast
  qed
  have "el_by_id l (TextId ''z'') = None" using linker_node_ids [OF linker_catalog [OF l]] by (simp add: demo_memory_nodes)
  then have link: "link ascii_unicode l demo_new_mention demo_input link_policy_default =
      Ok (decision demo_new_mention (Some (TextId ''z'')) (Confidence 9500) Created [])"
    by (simp add: link_def link_policy_default_def link_stable_id_def demo_new_mention_def demo_mention_def)
  obtain n where n: "build_node demo_new_mention (TextId ''z'') demo_input ''demo'' = Ok n"
    using build_node_total [OF demo_input_ok(3,1)] by blast
  obtain ne where ne: "node_event ''demo'' demo_input (hex16 (stable_hash [ei_content demo_input])) n = Ok ne"
    "ne_payload ne = NodeUpserted n"
    using events_total(1) [OF demo_input_ok(1)] by (metis carries_def)
  have "validate_output demo_output demo_input = Ok ()" "input_validate demo_input = Ok ()" "validate_text ''extraction.provider'' ''demo'' = Ok ()"
    using demo_input_ok trimmed_visible [of "''demo''"] by (auto simp: validate_output_Ok input_validate_Ok validate_text_Ok visible_def)
  then show ?thesis using l link n ne
    by (simp add: plan_def plan_with_linker_def demo_engine_def demo_provider_def build_plan_def demo_output_def add_link_def
      add_created_def decision_def ok_or_def bt_get_def bt_values_def Let_def)
qed



end
