(* ===== verification/Evaluation.thy ===== *)
theory Evaluation
  imports Containers Complex_Main
begin

text \<open>
  Scoring ranked retrieval, \<open>src/src/evaluation.rs\<close>: validation of cutoffs, cases and predictions,
  and the hit rate, recall, NDCG and reciprocal rank at each cutoff, overall and by category. The
  arithmetic of \<open>f64\<close> is an argument of the definitions (\<open>f64_ops\<close>); the properties name the laws
  of IEEE 754 they use (\<open>f64_laws\<close>), which exact arithmetic satisfies too.
\<close>

section \<open>Floating point arithmetic\<close>

text \<open>\<open>f_sum_start\<close> is the value that the standard library's \<open>sum\<close> starts from, one of the two zeros.\<close>

record 'f f64_ops =
  f_zero :: 'f
  f_one :: 'f
  f_sum_start :: 'f
  f_from_u32 :: "u32 \<Rightarrow> 'f"
  f_add :: "'f \<Rightarrow> 'f \<Rightarrow> 'f"
  f_div :: "'f \<Rightarrow> 'f \<Rightarrow> 'f"
  f_log2 :: "'f \<Rightarrow> 'f"
  f_eq :: "'f \<Rightarrow> 'f \<Rightarrow> bool"

definition float :: "'f f64_ops \<Rightarrow> usize \<Rightarrow> 'f" where
  "float F n = f_from_u32 F (case u32_try_from n of Some w \<Rightarrow> w | None \<Rightarrow> 4294967295)"

definition f_sum :: "'f f64_ops \<Rightarrow> 'f list \<Rightarrow> 'f" where
  "f_sum F = foldl (f_add F) (f_sum_start F)"

section \<open>Data\<close>

record evaluation_case =
  ec_id :: string
  ec_category :: string
  ec_relevant_ids :: "string btree_set"

record ranked_prediction =
  rp_case_id :: string
  rp_ranked_ids :: "string list"

record 'f retrieval_metrics =
  rm_cases :: usize
  rm_hit_at :: "(usize, 'f) btree_map"
  rm_recall_at :: "(usize, 'f) btree_map"
  rm_ndcg_at :: "(usize, 'f) btree_map"
  rm_mean_reciprocal_rank :: 'f

record 'f evaluation_report =
  er_overall :: "'f retrieval_metrics"
  er_by_category :: "(string, 'f retrieval_metrics) btree_map"

section \<open>Validation\<close>

definition invalid :: "string \<Rightarrow> memory_error" where
  "invalid reason = InvalidValue ''evaluation'' reason"

definition validate_cutoffs :: "usize list \<Rightarrow> unit memory_result" where
  "validate_cutoffs cutoffs =
    (if cutoffs = [] \<or> 0 \<in> set cutoffs then Err (invalid ''cutoffs must be non-empty and greater than zero'') else Ok ())"

definition index_case ::
  "(string, evaluation_case) btree_map \<Rightarrow> evaluation_case \<Rightarrow> (string, evaluation_case) btree_map memory_result"
where
  "index_case indexed c =
    (if ec_id c = [] \<or> ec_category c = [] \<or> ec_relevant_ids c = [] \<or> bt_get indexed (ec_id c) \<noteq> None
     then Err (invalid ''cases need unique non-empty ids, categories, and relevance'')
     else Ok (bt_insert indexed (ec_id c) c))"

definition validate_cases :: "evaluation_case list \<Rightarrow> (string, evaluation_case) btree_map memory_result" where
  "validate_cases cases = try_fold index_case [] cases"

fun keep_unseen :: "string btree_set \<Rightarrow> string list \<Rightarrow> string list" where
  "keep_unseen seen [] = []"
| "keep_unseen seen (i # is) =
    (if bs_contains seen i then keep_unseen seen is else i # keep_unseen (bs_insert seen i) is)"

definition index_prediction ::
  "(string, evaluation_case) btree_map \<Rightarrow> (string, string list) btree_map \<Rightarrow> ranked_prediction \<Rightarrow>
   (string, string list) btree_map memory_result"
where
  "index_prediction cases indexed p =
    (if bt_get cases (rp_case_id p) = None then Err (invalid ''prediction references an unknown case'')
     else
       let ranked = keep_unseen [] (rp_ranked_ids p)
       in if bt_get indexed (rp_case_id p) \<noteq> None then Err (invalid ''prediction case ids must be unique'')
          else Ok (bt_insert indexed (rp_case_id p) ranked))"

definition validate_predictions ::
  "ranked_prediction list \<Rightarrow> (string, evaluation_case) btree_map \<Rightarrow> (string, string list) btree_map memory_result"
where
  "validate_predictions predictions cases = try_fold (index_prediction cases) [] predictions"

section \<open>Scores\<close>

definition discount :: "'f f64_ops \<Rightarrow> usize \<Rightarrow> 'f" where
  "discount F index = f_div F (f_one F) (f_log2 F (float F (index + 2)))"

definition ndcg :: "'f f64_ops \<Rightarrow> string list \<Rightarrow> string btree_set \<Rightarrow> usize \<Rightarrow> 'f" where
  "ndcg F selected relevant cutoff =
    (let dcg = f_sum F (map (\<lambda>(index, _). discount F index)
                 (filter (\<lambda>(_, i). bs_contains relevant i) (List.enumerate 0 selected)));
         ideal = f_sum F (map (discount F) [0..<min (length relevant) cutoff])
     in if f_eq F ideal (f_zero F) then f_zero F else f_div F dcg ideal)"

fun position :: "('a \<Rightarrow> bool) \<Rightarrow> 'a list \<Rightarrow> usize option" where
  "position P [] = None"
| "position P (x # xs) = (if P x then Some 0 else map_option Suc (position P xs))"

definition reciprocal :: "'f f64_ops \<Rightarrow> evaluation_case \<Rightarrow> string list \<Rightarrow> 'f" where
  "reciprocal F c ranked =
    (case position (bs_contains (ec_relevant_ids c)) ranked of
       None \<Rightarrow> f_zero F
     | Some index \<Rightarrow> f_div F (f_one F) (float F (index + 1)))"

text \<open>\<open>entry(cutoff).and_modify(|value| *value += x)\<close>\<close>

definition add_at :: "'f f64_ops \<Rightarrow> (usize, 'f) btree_map \<Rightarrow> usize \<Rightarrow> 'f \<Rightarrow> (usize, 'f) btree_map" where
  "add_at F m cutoff x =
    (case bt_get m cutoff of None \<Rightarrow> m | Some v \<Rightarrow> bt_insert m cutoff (f_add F v x))"

definition hit_value :: "'f f64_ops \<Rightarrow> evaluation_case \<Rightarrow> string list \<Rightarrow> usize \<Rightarrow> 'f" where
  "hit_value F c ranked cutoff =
    (if 0 < length (filter (bs_contains (ec_relevant_ids c)) (take cutoff ranked)) then f_one F else f_zero F)"

definition recall_value :: "'f f64_ops \<Rightarrow> evaluation_case \<Rightarrow> string list \<Rightarrow> usize \<Rightarrow> 'f" where
  "recall_value F c ranked cutoff =
    f_div F (float F (length (filter (bs_contains (ec_relevant_ids c)) (take cutoff ranked))))
      (float F (length (ec_relevant_ids c)))"

type_synonym 'f totals = "(usize, 'f) btree_map \<times> (usize, 'f) btree_map \<times> (usize, 'f) btree_map"

definition score_cutoff :: "'f f64_ops \<Rightarrow> evaluation_case \<Rightarrow> string list \<Rightarrow> 'f totals \<Rightarrow> usize \<Rightarrow> 'f totals" where
  "score_cutoff F c ranked totals cutoff =
    (let (hit_at, recall_at, ndcg_at) = totals
     in (add_at F hit_at cutoff (hit_value F c ranked cutoff),
         add_at F recall_at cutoff (recall_value F c ranked cutoff),
         add_at F ndcg_at cutoff (ndcg F (take cutoff ranked) (ec_relevant_ids c) cutoff)))"

definition ranked_for :: "(string, string list) btree_map \<Rightarrow> evaluation_case \<Rightarrow> string list" where
  "ranked_for predictions c = (case bt_get predictions (ec_id c) of Some ranked \<Rightarrow> ranked | None \<Rightarrow> [])"

definition score_case ::
  "'f f64_ops \<Rightarrow> (string, string list) btree_map \<Rightarrow> usize list \<Rightarrow> 'f \<times> 'f totals \<Rightarrow> evaluation_case \<Rightarrow> 'f \<times> 'f totals"
where
  "score_case F predictions cutoffs state c =
    (let (reciprocal_rank, totals) = state; ranked = ranked_for predictions c
     in (f_add F reciprocal_rank (reciprocal F c ranked), foldl (score_cutoff F c ranked) totals cutoffs))"

definition divide_values :: "'f f64_ops \<Rightarrow> 'f \<Rightarrow> (usize, 'f) btree_map \<Rightarrow> (usize, 'f) btree_map" where
  "divide_values F denominator m = map (\<lambda>(cutoff, v). (cutoff, f_div F v denominator)) m"

definition score ::
  "'f f64_ops \<Rightarrow> evaluation_case list \<Rightarrow> (string, string list) btree_map \<Rightarrow> usize list \<Rightarrow> 'f retrieval_metrics"
where
  "score F cases predictions cutoffs =
    (let zeros = foldl (\<lambda>m cutoff. bt_insert m cutoff (f_zero F)) [] cutoffs;
         (reciprocal_rank, hit_at, recall_at, ndcg_at) =
           foldl (score_case F predictions cutoffs) (f_zero F, zeros, zeros, zeros) cases;
         denominator = float F (max (length cases) 1)
     in \<lparr> rm_cases = length cases,
          rm_hit_at = divide_values F denominator hit_at,
          rm_recall_at = divide_values F denominator recall_at,
          rm_ndcg_at = divide_values F denominator ndcg_at,
          rm_mean_reciprocal_rank = f_div F reciprocal_rank denominator \<rparr>)"

definition evaluate_retrieval ::
  "'f f64_ops \<Rightarrow> evaluation_case list \<Rightarrow> ranked_prediction list \<Rightarrow> usize list \<Rightarrow> 'f evaluation_report memory_result"
where
  "evaluate_retrieval F cases predictions cutoffs =
    and_then (validate_cutoffs cutoffs) (\<lambda>_.
    and_then (validate_cases cases) (\<lambda>cases_by_id.
    and_then (validate_predictions predictions cases_by_id) (\<lambda>predictions.
      Ok \<lparr> er_overall = score F cases predictions cutoffs,
           er_by_category = map (\<lambda>(category, cases). (category, score F cases predictions cutoffs)) (group_by ec_category cases) \<rparr>)))"

section \<open>What validation accepts\<close>

lemma keep_unseen_set: "set (keep_unseen seen is) = set is - set (bs_items seen)"
  by (induction seen "is" rule: keep_unseen.induct) (auto simp: bs_contains_items)

lemma keep_unseen_distinct: "distinct (keep_unseen seen is)"
  by (induction seen "is" rule: keep_unseen.induct) (auto simp: keep_unseen_set bs_contains_items)

definition case_ok :: "evaluation_case \<Rightarrow> bool" where
  "case_ok c \<longleftrightarrow> ec_id c \<noteq> [] \<and> ec_category c \<noteq> [] \<and> ec_relevant_ids c \<noteq> []"

lemma index_case_Ok:
  "index_case m c = Ok m' \<longleftrightarrow> case_ok c \<and> bt_get m (ec_id c) = None \<and> m' = bt_insert m (ec_id c) c"
  by (auto simp: index_case_def case_ok_def)

lemma index_prediction_Ok:
  "index_prediction cases m p = Ok m' \<longleftrightarrow> bt_get cases (rp_case_id p) \<noteq> None \<and> bt_get m (rp_case_id p) = None \<and>
     m' = bt_insert m (rp_case_id p) (keep_unseen [] (rp_ranked_ids p))"
  by (auto simp: index_prediction_def Let_def)

lemma validate_cases_Ok:
  "try_fold index_case m cases = Ok m' \<Longrightarrow>
   (\<forall>c \<in> set cases. case_ok c) \<and> distinct (map ec_id cases) \<and>
   (\<forall>i. bt_get m' i \<noteq> None \<longleftrightarrow> bt_get m i \<noteq> None \<or> i \<in> ec_id ` set cases) \<and>
   (\<forall>c \<in> set cases. bt_get m (ec_id c) = None)"
proof (induction cases arbitrary: m)
  case (Cons c cases)
  from Cons.prems have head: "case_ok c" "bt_get m (ec_id c) = None" and
    rest: "try_fold index_case (bt_insert m (ec_id c) c) cases = Ok m'"
    by (auto simp: result_simps index_case_Ok)
  show ?case using Cons.IH [OF rest] head by (auto split: if_splits)
qed simp

lemma validate_cases_complete:
  "\<forall>c \<in> set cases. case_ok c \<and> bt_get m (ec_id c) = None \<Longrightarrow> distinct (map ec_id cases) \<Longrightarrow>
   \<exists>m'. try_fold index_case m cases = Ok m'"
proof (induction cases arbitrary: m)
  case (Cons c cases)
  have "\<forall>d \<in> set cases. case_ok d \<and> bt_get (bt_insert m (ec_id c) c) (ec_id d) = None"
    using Cons.prems by (auto simp: image_iff)
  with Cons.IH [of "bt_insert m (ec_id c) c"] Cons.prems show ?case by (simp add: index_case_def case_ok_def)
qed simp

lemma validate_predictions_Ok:
  "try_fold (index_prediction cases) m ps = Ok m' \<Longrightarrow>
   distinct (map rp_case_id ps) \<and> (\<forall>p \<in> set ps. bt_get cases (rp_case_id p) \<noteq> None \<and> bt_get m (rp_case_id p) = None) \<and>
   (\<forall>i. bt_get m' i =
      (case find (\<lambda>p. rp_case_id p = i) ps of Some p \<Rightarrow> Some (keep_unseen [] (rp_ranked_ids p)) | None \<Rightarrow> bt_get m i))"
proof (induction ps arbitrary: m)
  case (Cons p ps)
  from Cons.prems have head: "bt_get cases (rp_case_id p) \<noteq> None" "bt_get m (rp_case_id p) = None" and
    rest: "try_fold (index_prediction cases) (bt_insert m (rp_case_id p) (keep_unseen [] (rp_ranked_ids p))) ps = Ok m'"
    by (auto simp: result_simps index_prediction_Ok)
  have "find (\<lambda>q. rp_case_id q = rp_case_id p) ps = None"
    using Cons.IH [OF rest] by (auto simp: find_None_iff split: if_splits)
  then show ?case using Cons.IH [OF rest] head by (auto split: if_splits option.splits)
qed simp

lemma validate_predictions_complete:
  "\<forall>p \<in> set ps. bt_get cases (rp_case_id p) \<noteq> None \<and> bt_get m (rp_case_id p) = None \<Longrightarrow> distinct (map rp_case_id ps) \<Longrightarrow>
   \<exists>m'. try_fold (index_prediction cases) m ps = Ok m'"
proof (induction ps arbitrary: m)
  case (Cons p ps)
  let ?m = "bt_insert m (rp_case_id p) (keep_unseen [] (rp_ranked_ids p))"
  have "\<forall>q \<in> set ps. bt_get cases (rp_case_id q) \<noteq> None \<and> bt_get ?m (rp_case_id q) = None"
    using Cons.prems by (auto simp: image_iff)
  with Cons.IH [of ?m] Cons.prems show ?case by (simp add: index_prediction_def Let_def)
qed simp

text \<open>The prediction of a case, without repeated identifiers.\<close>

definition prediction_of :: "ranked_prediction list \<Rightarrow> evaluation_case \<Rightarrow> string list" where
  "prediction_of ps c =
    (case find (\<lambda>p. rp_case_id p = ec_id c) ps of Some p \<Rightarrow> keep_unseen [] (rp_ranked_ids p) | None \<Rightarrow> [])"

lemma prediction_of_distinct: "distinct (prediction_of ps c)"
  by (simp add: prediction_of_def keep_unseen_distinct split: option.split)

definition accepted :: "evaluation_case list \<Rightarrow> ranked_prediction list \<Rightarrow> usize list \<Rightarrow> bool" where
  "accepted cases predictions cutoffs \<longleftrightarrow>
    cutoffs \<noteq> [] \<and> 0 \<notin> set cutoffs \<and> list_all case_ok cases \<and> distinct (map ec_id cases) \<and>
    distinct (map rp_case_id predictions) \<and> rp_case_id ` set predictions \<subseteq> ec_id ` set cases"

lemma evaluate_retrieval_Ok:
  "(\<exists>report. evaluate_retrieval F cases predictions cutoffs = Ok report) \<longleftrightarrow> accepted cases predictions cutoffs"
proof
  assume "\<exists>report. evaluate_retrieval F cases predictions cutoffs = Ok report"
  then obtain m m' where "validate_cutoffs cutoffs = Ok ()" "try_fold index_case [] cases = Ok m"
    "try_fold (index_prediction m) [] predictions = Ok m'"
    by (auto simp: evaluate_retrieval_def result_simps validate_cases_def validate_predictions_def)
  then show "accepted cases predictions cutoffs"
    using validate_cases_Ok [of "[]" cases m] validate_predictions_Ok [of m "[]" predictions m']
    by (auto simp: accepted_def validate_cutoffs_def list_all_iff split: if_splits)
next
  assume ok: "accepted cases predictions cutoffs"
  then obtain m where m: "try_fold index_case [] cases = Ok m"
    using validate_cases_complete [of cases "[]"] by (auto simp: accepted_def list_all_iff)
  have "\<forall>p \<in> set predictions. bt_get m (rp_case_id p) \<noteq> None \<and> bt_get [] (rp_case_id p) = None"
    using validate_cases_Ok [OF m] ok by (auto simp: accepted_def)
  then obtain m' where "try_fold (index_prediction m) [] predictions = Ok m'"
    using validate_predictions_complete [of predictions m "[]"] ok by (auto simp: accepted_def)
  then show "\<exists>report. evaluate_retrieval F cases predictions cutoffs = Ok report"
    using m ok by (simp add: evaluate_retrieval_def validate_cases_def validate_predictions_def validate_cutoffs_def accepted_def)
qed

lemma evaluate_retrieval_parts:
  assumes "evaluate_retrieval F cases predictions cutoffs = Ok report"
  obtains m where "er_overall report = score F cases m cutoffs"
    "er_by_category report = map (\<lambda>(category, cases). (category, score F cases m cutoffs)) (group_by ec_category cases)"
    "ranked_for m = prediction_of predictions" "accepted cases predictions cutoffs"
proof -
  from assms obtain m m' where m: "try_fold index_case [] cases = Ok m"
    "try_fold (index_prediction m) [] predictions = Ok m'"
    and report: "report = \<lparr> er_overall = score F cases m' cutoffs,
      er_by_category = map (\<lambda>(category, cases). (category, score F cases m' cutoffs)) (group_by ec_category cases) \<rparr>"
    by (auto simp: evaluate_retrieval_def result_simps validate_cases_def validate_predictions_def)
  have "ranked_for m' = prediction_of predictions"
    using validate_predictions_Ok [OF m(2)] by (auto simp: ranked_for_def prediction_of_def fun_eq_iff split: option.splits)
  moreover have "accepted cases predictions cutoffs" using assms evaluate_retrieval_Ok by metis
  ultimately show ?thesis using that [of m'] report by simp
qed

section \<open>The totals\<close>

text \<open>One metric: \<open>g\<close> is what a case contributes at a cutoff.\<close>

definition add_all :: "'f f64_ops \<Rightarrow> (usize \<Rightarrow> 'f) \<Rightarrow> (usize, 'f) btree_map \<Rightarrow> usize list \<Rightarrow> (usize, 'f) btree_map" where
  "add_all F g m cutoffs = foldl (\<lambda>m cutoff. add_at F m cutoff (g cutoff)) m cutoffs"

lemma score_cutoffs:
  "foldl (score_cutoff F c ranked) (hits, recalls, ndcgs) cutoffs =
    (add_all F (hit_value F c ranked) hits cutoffs, add_all F (recall_value F c ranked) recalls cutoffs,
     add_all F (\<lambda>k. ndcg F (take k ranked) (ec_relevant_ids c) k) ndcgs cutoffs)"
  by (induction cutoffs arbitrary: hits recalls ndcgs) (auto simp: add_all_def score_cutoff_def)

lemma score_cases:
  "foldl (score_case F m cutoffs) (rr, hits, recalls, ndcgs) cases =
    (foldl (\<lambda>v c. f_add F v (reciprocal F c (ranked_for m c))) rr cases,
     foldl (\<lambda>t c. add_all F (hit_value F c (ranked_for m c)) t cutoffs) hits cases,
     foldl (\<lambda>t c. add_all F (recall_value F c (ranked_for m c)) t cutoffs) recalls cases,
     foldl (\<lambda>t c. add_all F (\<lambda>k. ndcg F (take k (ranked_for m c)) (ec_relevant_ids c) k) t cutoffs) ndcgs cases)"
  by (induction cases arbitrary: rr hits recalls ndcgs) (simp_all add: score_case_def score_cutoffs Let_def)

lemma get_add_all:
  "bt_get (add_all F g m cutoffs) k = map_option (\<lambda>v. ((\<lambda>v. f_add F v (g k)) ^^ count_list cutoffs k) v) (bt_get m k)"
proof (induction cutoffs arbitrary: m)
  case (Cons a cutoffs)
  have swap: "((\<lambda>v. f_add F v x) ^^ n) (f_add F v x) = f_add F (((\<lambda>v. f_add F v x) ^^ n) v) x" for x v n
    using funpow_swap1 [of "\<lambda>v. f_add F v x" n v] by simp
  have "bt_get (add_at F m a (g a)) k = (if a = k then map_option (\<lambda>v. f_add F v (g k)) (bt_get m k) else bt_get m k)"
    by (auto simp: add_at_def split: option.splits)
  then show ?case
    using Cons [of "add_at F m a (g a)"] by (auto simp: add_all_def option.map_comp comp_def swap)
qed (simp add: add_all_def option.map_id0)

definition total :: "'f f64_ops \<Rightarrow> nat \<Rightarrow> ('c \<Rightarrow> 'f) \<Rightarrow> 'f \<Rightarrow> 'c list \<Rightarrow> 'f" where
  "total F n g v cs = foldl (\<lambda>v c. ((\<lambda>v. f_add F v (g c)) ^^ n) v) v cs"

lemma get_totals:
  "bt_get (foldl (\<lambda>t c. add_all F (g c) t cutoffs) m cases) k =
    map_option (\<lambda>v. total F (count_list cutoffs k) (\<lambda>c. g c k) v cases) (bt_get m k)"
  by (induction cases arbitrary: m) (auto simp: total_def get_add_all option.map_comp comp_def option.map_ident)

lemma get_zeros: "bt_get (foldl (\<lambda>m k. bt_insert m k z) m cutoffs) k = (if k \<in> set cutoffs then Some z else bt_get m k)"
  by (induction cutoffs arbitrary: m) auto

lemma get_divide_values: "bt_get (divide_values F d m) k = map_option (\<lambda>v. f_div F v d) (bt_get m k)"
  unfolding divide_values_def bt_get_def by (induction m) auto

lemma score_mean_reciprocal_rank:
  "rm_mean_reciprocal_rank (score F cases m cutoffs) =
    f_div F (total F 1 (\<lambda>c. reciprocal F c (ranked_for m c)) (f_zero F) cases) (float F (max (length cases) 1))"
  by (simp add: score_def Let_def score_cases total_def)

lemma score_at:
  assumes "k \<in> set cutoffs"
  shows "bt_get (rm_hit_at (score F cases m cutoffs)) k =
      Some (f_div F (total F (count_list cutoffs k) (\<lambda>c. hit_value F c (ranked_for m c) k) (f_zero F) cases)
        (float F (max (length cases) 1)))"
    and "bt_get (rm_recall_at (score F cases m cutoffs)) k =
      Some (f_div F (total F (count_list cutoffs k) (\<lambda>c. recall_value F c (ranked_for m c) k) (f_zero F) cases)
        (float F (max (length cases) 1)))"
  using assms by (simp_all add: score_def Let_def score_cases get_divide_values get_totals get_zeros total_def)

section \<open>Laws of the arithmetic\<close>

text \<open>
  What IEEE 754 promises of integers below \<open>2 ^ 32\<close>, whose sums and quotients by themselves are
  exact, and of the order of nonnegative values. \<open>le\<close> is the order of the floating point numbers.
\<close>

definition f64_laws :: "'f f64_ops \<Rightarrow> ('f \<Rightarrow> 'f \<Rightarrow> bool) \<Rightarrow> bool" where
  "f64_laws F le \<longleftrightarrow>
    f_from_u32 F 0 = f_zero F \<and> f_from_u32 F 1 = f_one F \<and>
    (\<forall>a b. unat a + unat b < 2 ^ 32 \<longrightarrow> f_add F (f_from_u32 F a) (f_from_u32 F b) = f_from_u32 F (a + b)) \<and>
    (\<forall>a b. a \<le> b \<longrightarrow> le (f_from_u32 F a) (f_from_u32 F b)) \<and>
    (\<forall>x y z. le x y \<longrightarrow> le y z \<longrightarrow> le x z) \<and>
    (\<forall>x y. le (f_zero F) x \<longrightarrow> le (f_zero F) y \<longrightarrow> le x (f_add F x y)) \<and>
    (\<forall>x y z w. le (f_zero F) x \<longrightarrow> le x y \<longrightarrow> le (f_zero F) z \<longrightarrow> le z w \<longrightarrow> le (f_add F x z) (f_add F y w)) \<and>
    (\<forall>x y c. 0 < c \<longrightarrow> le (f_zero F) x \<longrightarrow> le x y \<longrightarrow> le (f_div F x (f_from_u32 F c)) (f_div F y (f_from_u32 F c))) \<and>
    (\<forall>c. 0 < c \<longrightarrow> f_div F (f_from_u32 F c) (f_from_u32 F c) = f_one F) \<and>
    (\<forall>c. 0 < c \<longrightarrow> f_div F (f_zero F) (f_from_u32 F c) = f_zero F)"

lemma f64_lawsD:
  assumes "f64_laws F le"
  shows "f_from_u32 F 0 = f_zero F" and "f_from_u32 F 1 = f_one F"
    and "unat a + unat b < 2 ^ 32 \<Longrightarrow> f_add F (f_from_u32 F a) (f_from_u32 F b) = f_from_u32 F (a + b)"
    and "a \<le> b \<Longrightarrow> le (f_from_u32 F a) (f_from_u32 F b)"
    and "le x y \<Longrightarrow> le y z \<Longrightarrow> le x z"
    and "le (f_zero F) x \<Longrightarrow> le (f_zero F) y \<Longrightarrow> le x (f_add F x y)"
    and "le (f_zero F) x \<Longrightarrow> le x y \<Longrightarrow> le (f_zero F) z \<Longrightarrow> le z w \<Longrightarrow> le (f_add F x z) (f_add F y w)"
    and "0 < c \<Longrightarrow> le (f_zero F) x \<Longrightarrow> le x y \<Longrightarrow> le (f_div F x (f_from_u32 F c)) (f_div F y (f_from_u32 F c))"
    and "0 < c \<Longrightarrow> f_div F (f_from_u32 F c) (f_from_u32 F c) = f_one F"
    and "0 < c \<Longrightarrow> f_div F (f_zero F) (f_from_u32 F c) = f_zero F"
  using assms unfolding f64_laws_def by blast+

definition between :: "'f f64_ops \<Rightarrow> ('f \<Rightarrow> 'f \<Rightarrow> bool) \<Rightarrow> 'f \<Rightarrow> 'f \<Rightarrow> bool" where
  "between F le x y \<longleftrightarrow> le (f_zero F) x \<and> le x y"

lemma float_small: "n < 2 ^ 32 \<Longrightarrow> float F n = f_from_u32 F (of_nat n)"
  by (simp add: float_def u32_try_from_def)

text \<open>Hits are counted exactly, once for every occurrence of the cutoff.\<close>

lemma add_counts:
  assumes "f64_laws F le" "x + y < 2 ^ 32"
  shows "f_add F (f_from_u32 F (of_nat x)) (f_from_u32 F (of_nat y)) = f_from_u32 F (of_nat (x + y))"
proof -
  have "unat (of_nat x :: u32) = x" "unat (of_nat y :: u32) = y" using assms(2) by simp_all
  then show ?thesis using f64_lawsD(3) [OF assms(1), of "of_nat x" "of_nat y"] assms(2) by simp
qed

lemma add_count_often:
  assumes laws: "f64_laws F le"
  shows "a + m * b < 2 ^ 32 \<Longrightarrow>
    ((\<lambda>v. f_add F v (f_from_u32 F (of_nat b))) ^^ m) (f_from_u32 F (of_nat a)) = f_from_u32 F (of_nat (a + m * b))"
proof (induction m)
  case (Suc m)
  have "f_add F (f_from_u32 F (of_nat (a + m * b))) (f_from_u32 F (of_nat b)) = f_from_u32 F (of_nat (a + m * b + b))"
    using Suc.prems by (intro add_counts [OF laws]) simp
  then show ?case using Suc by (simp add: ac_simps del: of_nat_add of_nat_mult)
qed simp

lemma total_hits:
  assumes laws: "f64_laws F le"
  shows "a + n * length cs < 2 ^ 32 \<Longrightarrow>
    total F n (\<lambda>c. if P c then f_one F else f_zero F) (f_from_u32 F (of_nat a)) cs =
      f_from_u32 F (of_nat (a + n * length (filter P cs)))"
proof (induction cs arbitrary: a)
  case (Cons c cs)
  define b where "b = (if P c then 1 else 0 :: nat)"
  have b: "(if P c then f_one F else f_zero F) = f_from_u32 F (of_nat b)"
    using f64_lawsD(1,2) [OF laws] by (simp add: b_def)
  have small: "a + n * b + n * length cs < 2 ^ 32" using Cons.prems by (simp add: b_def split: if_splits)
  have "((\<lambda>v. f_add F v (if P c then f_one F else f_zero F)) ^^ n) (f_from_u32 F (of_nat a)) = f_from_u32 F (of_nat (a + n * b))"
    unfolding b using small by (intro add_count_often [OF laws]) linarith
  then have "total F n (\<lambda>c. if P c then f_one F else f_zero F) (f_from_u32 F (of_nat a)) (c # cs) =
      total F n (\<lambda>c. if P c then f_one F else f_zero F) (f_from_u32 F (of_nat (a + n * b))) cs"
    by (simp only: total_def foldl_Cons)
  also have "\<dots> = f_from_u32 F (of_nat (a + n * b + n * length (filter P cs)))"
    using small by (rule Cons.IH)
  also have "a + n * b + n * length (filter P cs) = a + n * length (filter P (c # cs))" by (simp add: b_def)
  finally show ?case .
qed (simp add: total_def)

text \<open>A total of contributions between zero and one is between zero and their number.\<close>

lemma zero_nonnegative: "f64_laws F le \<Longrightarrow> le (f_zero F) (f_zero F)"
  using f64_lawsD(4) [of F le 0 0] by (simp add: f64_lawsD(1))

lemma total_between:
  assumes laws: "f64_laws F le" and bound: "length cs < 2 ^ 32"
    and unit: "\<And>c. c \<in> set cs \<Longrightarrow> between F le (g c) (f_one F)"
  shows "between F le (total F 1 g (f_zero F) cs) (f_from_u32 F (of_nat (length cs)))"
  using bound unit
proof (induction cs rule: rev_induct)
  case Nil
  then show ?case using zero_nonnegative [OF laws] by (simp add: total_def between_def f64_lawsD(1) [OF laws])
next
  case (snoc c cs)
  let ?t = "total F 1 g (f_zero F) cs" and ?n = "f_from_u32 F (of_nat (length cs))"
  have t: "le (f_zero F) ?t" "le ?t ?n" and c: "le (f_zero F) (g c)" "le (g c) (f_one F)"
    using snoc by (auto simp: between_def)
  have n: "f_add F ?n (f_one F) = f_from_u32 F (of_nat (length (cs @ [c])))"
    using add_counts [OF laws, of "length cs" 1] snoc.prems by (simp add: f64_lawsD(2) [OF laws] add.commute)
  have "le (f_zero F) (f_add F ?t (g c))" "le (f_add F ?t (g c)) (f_add F ?n (f_one F))"
    using f64_lawsD(5) [OF laws t(1) f64_lawsD(6) [OF laws t(1) c(1)]] f64_lawsD(7) [OF laws t c] .
  then show ?case unfolding between_def n [symmetric] by (simp add: total_def)
qed

lemma float_word: "0 < n \<Longrightarrow> \<exists>w > 0. float F n = f_from_u32 F w"
proof (cases "n < 2 ^ 32")
  case True
  assume "0 < n"
  moreover have "unat (of_nat n :: u32) = n" using True by simp
  ultimately have "0 < (of_nat n :: u32)" by (metis unat_gt_0 word_neq_0_conv less_irrefl)
  then show ?thesis using float_small [OF True] by blast
next
  case False
  then show ?thesis by (intro exI [of _ "4294967295"]) (simp add: float_def u32_try_from_def)
qed

lemma quotient_between:
  assumes laws: "f64_laws F le" and n: "0 < n" and x: "between F le x (float F n)"
  shows "between F le (f_div F x (float F n)) (f_one F)"
proof -
  obtain w where w: "float F n = f_from_u32 F w" "0 < w" using float_word [OF n] by blast
  have "le (f_zero F) x" "le x (f_from_u32 F w)" using x w by (simp_all add: between_def)
  then show ?thesis
    using f64_lawsD(8) [OF laws w(2) zero_nonnegative [OF laws]] f64_lawsD(8) [OF laws w(2)] f64_lawsD(9,10) [OF laws w(2)] w(1)
    unfolding between_def by metis
qed

lemma float_between:
  assumes laws: "f64_laws F le" and le: "m \<le> n"
  shows "between F le (float F m) (float F n)"
proof -
  define clip :: "nat \<Rightarrow> u32" where "clip k = (case u32_try_from k of Some w \<Rightarrow> w | None \<Rightarrow> 4294967295)" for k
  have "clip m \<le> clip n"
    using le by (auto simp: clip_def u32_try_from_def word_le_nat_alt)
  then have "le (f_from_u32 F (clip m)) (f_from_u32 F (clip n))" by (rule f64_lawsD(4) [OF laws])
  moreover have "le (f_from_u32 F 0) (f_from_u32 F (clip m))" by (rule f64_lawsD(4) [OF laws]) simp
  ultimately show ?thesis by (simp add: between_def float_def clip_def f64_lawsD(1) [OF laws])
qed

section \<open>What a report says\<close>

lemma hit_value_between: "f64_laws F le \<Longrightarrow> between F le (hit_value F c ranked k) (f_one F)"
  using zero_nonnegative [of F le] f64_lawsD(4) [of F le 0 1] f64_lawsD(4) [of F le 1 1]
  by (auto simp: hit_value_def between_def f64_lawsD(1,2))

lemma recall_value_between:
  assumes laws: "f64_laws F le" and c: "case_ok c" and distinct: "distinct ranked"
  shows "between F le (recall_value F c ranked k) (f_one F)"
proof -
  let ?found = "filter (bs_contains (ec_relevant_ids c)) (take k ranked)"
  have "distinct ?found" using distinct by simp
  then have "length ?found = card (set ?found)" by (metis distinct_card)
  also have "\<dots> \<le> card (set (bs_items (ec_relevant_ids c)))" by (rule card_mono) (auto simp: bs_contains_items)
  also have "\<dots> \<le> length (ec_relevant_ids c)" by (metis bt_keys_def card_length length_map)
  finally have "between F le (float F (length ?found)) (float F (length (ec_relevant_ids c)))"
    by (rule float_between [OF laws])
  then show ?thesis
    unfolding recall_value_def using c by (intro quotient_between [OF laws]) (auto simp: case_ok_def)
qed

lemma reciprocal_between:
  assumes laws: "f64_laws F le"
  shows "between F le (reciprocal F c ranked) (f_one F)"
proof (cases "position (bs_contains (ec_relevant_ids c)) ranked")
  case None
  then show ?thesis
    using zero_nonnegative [OF laws] f64_lawsD(4) [OF laws, of 0 1] by (simp add: reciprocal_def between_def f64_lawsD(1,2) [OF laws])
next
  case (Some i)
  have "between F le (float F 1) (float F (i + 1))" by (rule float_between [OF laws]) simp
  then have "between F le (f_div F (float F 1) (float F (i + 1))) (f_one F)" by (rule quotient_between [OF laws, rotated]) simp
  then show ?thesis using Some f64_lawsD(2) [OF laws] by (simp add: reciprocal_def float_def u32_try_from_def)
qed

lemma mean_between:
  assumes laws: "f64_laws F le" and bound: "length cs < 2 ^ 32"
    and unit: "\<And>c. c \<in> set cs \<Longrightarrow> between F le (g c) (f_one F)"
  shows "between F le (f_div F (total F 1 g (f_zero F) cs) (float F (max (length cs) 1))) (f_one F)"
proof -
  have "between F le (total F 1 g (f_zero F) cs) (float F (length cs))"
    using total_between [OF laws bound unit] by (simp add: float_small [OF bound])
  moreover have "between F le (float F (length cs)) (float F (max (length cs) 1))" by (rule float_between [OF laws]) simp
  ultimately have "between F le (total F 1 g (f_zero F) cs) (float F (max (length cs) 1))"
    using f64_lawsD(5) [OF laws] unfolding between_def by blast
  then show ?thesis by (rule quotient_between [OF laws, rotated]) simp
qed

definition unit_metrics :: "'f f64_ops \<Rightarrow> ('f \<Rightarrow> 'f \<Rightarrow> bool) \<Rightarrow> usize list \<Rightarrow> 'f retrieval_metrics \<Rightarrow> bool" where
  "unit_metrics F le cutoffs metrics \<longleftrightarrow>
    (\<forall>k \<in> set cutoffs. \<exists>hit recall.
       bt_get (rm_hit_at metrics) k = Some hit \<and> between F le hit (f_one F) \<and>
       bt_get (rm_recall_at metrics) k = Some recall \<and> between F le recall (f_one F)) \<and>
    between F le (rm_mean_reciprocal_rank metrics) (f_one F)"

lemma score_unit:
  assumes laws: "f64_laws F le" and bound: "length cases < 2 ^ 32" and ok: "list_all case_ok cases"
    and ranked: "\<And>c. distinct (ranked_for m c)" and cutoffs: "distinct cutoffs"
  shows "unit_metrics F le cutoffs (score F cases m cutoffs)"
proof -
  have once: "count_list cutoffs k = 1" if "k \<in> set cutoffs" for k
    using that cutoffs by (induction cutoffs) (auto simp: count_list_0_iff)
  have "case_ok c" if "c \<in> set cases" for c using ok that by (simp add: list_all_iff)
  then show ?thesis
    unfolding unit_metrics_def
    by (auto simp: score_at score_mean_reciprocal_rank once simp del: One_nat_def intro!: mean_between [OF laws bound] hit_value_between [OF laws]
        recall_value_between [OF laws] reciprocal_between [OF laws] ranked)
qed

definition retrieved :: "ranked_prediction list \<Rightarrow> usize \<Rightarrow> evaluation_case \<Rightarrow> bool" where
  "retrieved predictions k c \<longleftrightarrow>
    (\<exists>i \<in> set (take k (prediction_of predictions c)). i \<in> set (bs_items (ec_relevant_ids c)))"

definition hit_rate :: "'f f64_ops \<Rightarrow> ranked_prediction list \<Rightarrow> usize list \<Rightarrow> usize \<Rightarrow> evaluation_case list \<Rightarrow> 'f" where
  "hit_rate F predictions cutoffs k cases =
    f_div F (f_from_u32 F (of_nat (count_list cutoffs k * length (filter (retrieved predictions k) cases))))
      (f_from_u32 F (of_nat (max (length cases) 1)))"

lemma score_hit_rate:
  assumes laws: "f64_laws F le" and k: "k \<in> set cutoffs" and bound: "count_list cutoffs k * length cases < 2 ^ 32"
    and m: "ranked_for m = prediction_of predictions"
  shows "bt_get (rm_hit_at (score F cases m cutoffs)) k = Some (hit_rate F predictions cutoffs k cases)"
proof -
  have hit: "hit_value F c (ranked_for m c) k = (if retrieved predictions k c then f_one F else f_zero F)" for c
    by (auto simp: hit_value_def retrieved_def m filter_empty_conv bs_contains_items)
  have "0 < count_list cutoffs k" using k by (simp add: count_list_0_iff neq0_conv [symmetric] del: neq0_conv)
  then have "length cases \<le> count_list cutoffs k * length cases" by simp
  from le_less_trans [OF this bound] have "max (length cases) 1 < 2 ^ 32" by simp
  then show ?thesis
    using total_hits [OF laws, of 0 "count_list cutoffs k" cases "retrieved predictions k"] bound f64_lawsD(1) [OF laws]
    by (simp add: score_at [OF k] hit hit_rate_def float_small)
qed

text \<open>
  C35: A report is produced exactly for nonempty positive cutoffs, unique nonempty cases with relevance and
  unique predictions of known cases. Overall and in each category, the hit rate at a cutoff is then
  the exact number of cases with a relevant identifier among the first distinct ones, divided by the
  number of cases - and multiplied by the number of times the cutoff is listed.
\<close>

theorem hit_rates_counted:
  assumes laws: "f64_laws F le" and k: "k \<in> set cutoffs" and bound: "count_list cutoffs k * length cases < 2 ^ 32"
  shows "case evaluate_retrieval F cases predictions cutoffs of
      Err e \<Rightarrow> \<not> accepted cases predictions cutoffs
    | Ok report \<Rightarrow> accepted cases predictions cutoffs \<and>
        bt_get (rm_hit_at (er_overall report)) k = Some (hit_rate F predictions cutoffs k cases) \<and>
        (\<forall>category metrics. (category, metrics) \<in> set (er_by_category report) \<longrightarrow>
           bt_get (rm_hit_at metrics) k = Some (hit_rate F predictions cutoffs k (filter (\<lambda>c. ec_category c = category) cases)))"
proof (cases "evaluate_retrieval F cases predictions cutoffs")
  case (Ok report)
  from Ok obtain m where m: "er_overall report = score F cases m cutoffs"
    "er_by_category report = map (\<lambda>(category, cases). (category, score F cases m cutoffs)) (group_by ec_category cases)"
    "ranked_for m = prediction_of predictions" "accepted cases predictions cutoffs"
    by (rule evaluate_retrieval_parts)
  have part: "count_list cutoffs k * length (filter P cases) < 2 ^ 32" for P
    using le_less_trans [OF mult_le_mono2 [OF length_filter_le [of P cases]] bound] .
  show ?thesis
    using Ok m by (auto simp: group_by_in score_hit_rate [OF laws k bound m(3)] intro!: score_hit_rate [OF laws k part m(3)])
next
  case (Err e)
  then show ?thesis using evaluate_retrieval_Ok [of F cases predictions cutoffs] by simp
qed

text \<open>
  With distinct cutoffs, the hit rates, recalls and mean reciprocal ranks of a report are all
  between zero and one, overall and in every category, in any arithmetic that obeys the laws.
\<close>

theorem metrics_within_unit:
  assumes laws: "f64_laws F le" and bound: "length cases < 2 ^ 32" and cutoffs: "distinct cutoffs"
    and report: "evaluate_retrieval F cases predictions cutoffs = Ok report"
  shows "unit_metrics F le cutoffs (er_overall report) \<and>
    (\<forall>category metrics. (category, metrics) \<in> set (er_by_category report) \<longrightarrow> unit_metrics F le cutoffs metrics)"
proof -
  from report obtain m where m: "er_overall report = score F cases m cutoffs"
    "er_by_category report = map (\<lambda>(category, cases). (category, score F cases m cutoffs)) (group_by ec_category cases)"
    "ranked_for m = prediction_of predictions" "accepted cases predictions cutoffs"
    by (rule evaluate_retrieval_parts)
  have "unit_metrics F le cutoffs (score F (filter P cases) m cutoffs)" for P
    using m(4) le_less_trans [OF length_filter_le [of P cases] bound]
    by (intro score_unit [OF laws]) (auto simp: m(3) prediction_of_distinct cutoffs accepted_def list_all_iff)
  from this [of "\<lambda>_. True"] this show ?thesis by (auto simp: m(1,2) group_by_in)
qed

section \<open>Exact arithmetic, and a run\<close>

definition exact_f64 :: "real f64_ops" where
  "exact_f64 = \<lparr> f_zero = 0, f_one = 1, f_sum_start = 0, f_from_u32 = (\<lambda>w. real (unat w)), f_add = (+), f_div = (/),
     f_log2 = log 2, f_eq = (=) \<rparr>"

lemma exact_f64_laws: "f64_laws exact_f64 (\<le>)"
proof -
  have "unat (a + b) = unat a + unat b" if "unat a + unat b < 2 ^ 32" for a b :: u32
    using that by (simp add: unat_add_lem [where 'a = 32, symmetric])
  moreover have "0 < c \<longleftrightarrow> unat c \<noteq> 0" for c :: u32 by (simp add: unat_gt_0 word_neq_0_conv)
  ultimately show ?thesis
    unfolding f64_laws_def exact_f64_def word_le_nat_alt
    by (auto simp: divide_right_mono add_mono simp del: of_nat_unat unat_eq_0 word_neq_0_conv)
qed

definition demo_case :: evaluation_case where
  "demo_case = \<lparr> ec_id = ''q'', ec_category = ''recall'', ec_relevant_ids = [(''a'', ())] \<rparr>"

definition demo_prediction :: ranked_prediction where
  "demo_prediction = \<lparr> rp_case_id = ''q'', rp_ranked_ids = [''b'', ''b'', ''a''] \<rparr>"

lemma demo_accepted: "cutoffs \<noteq> [] \<Longrightarrow> 0 \<notin> set cutoffs \<Longrightarrow> accepted [demo_case] [demo_prediction] cutoffs"
  by (simp add: accepted_def demo_case_def demo_prediction_def case_ok_def)

theorem hit_rates_counted_witness:
  "\<exists>report. evaluate_retrieval exact_f64 [demo_case] [demo_prediction] [2, 2] = Ok report \<and>
     bt_get (rm_hit_at (er_overall report)) 2 = Some 2"
proof -
  obtain report where report: "evaluate_retrieval exact_f64 [demo_case] [demo_prediction] [2, 2] = Ok report"
    using evaluate_retrieval_Ok [of exact_f64 "[demo_case]" "[demo_prediction]" "[2, 2]"] demo_accepted [of "[2, 2]"] by auto
  have "retrieved [demo_prediction] 2 demo_case"
    by (simp add: retrieved_def prediction_of_def demo_prediction_def demo_case_def bt_keys_def bs_contains_def bt_get_def numeral_2_eq_2)
  then have "hit_rate exact_f64 [demo_prediction] [2, 2] 2 [demo_case] = 2"
    by (simp add: hit_rate_def exact_f64_def)
  then show ?thesis
    using hit_rates_counted [OF exact_f64_laws, of 2 "[2, 2]" "[demo_case]" "[demo_prediction]"] report by simp
qed

theorem metrics_within_unit_witness:
  "\<exists>report. evaluate_retrieval exact_f64 [demo_case] [demo_prediction] [1, 5] = Ok report \<and>
     unit_metrics exact_f64 (\<le>) [1, 5] (er_overall report)"
proof -
  obtain report where report: "evaluate_retrieval exact_f64 [demo_case] [demo_prediction] [1, 5] = Ok report"
    using evaluate_retrieval_Ok [of exact_f64 "[demo_case]" "[demo_prediction]" "[1, 5]"] demo_accepted [of "[1, 5]"] by auto
  then show ?thesis using metrics_within_unit [OF exact_f64_laws _ _ report] by auto
qed

end
