(* ===== verification/Benchmark.thy ===== *)
theory Benchmark
  imports Evaluation Extraction_Model "HOL-Library.Multiset"
begin

text \<open>
  Prepared benchmarks, \<open>src/tools/eval/model.rs\<close>: groups of documents and cases over them, their
  validation, and the literal baseline, which ranks the documents of a group by the number of
  words they share with the query. Its predictions meet what \<open>Evaluation\<close> demands.
\<close>

section \<open>Data\<close>

record document =
  dc_id :: string
  dc_text :: string

record prepared_case =
  pc_id :: string
  pc_group_id :: string
  pc_category :: string
  pc_query :: string
  pc_relevant_ids :: "string btree_set"

record prepared_benchmark =
  pb_name :: string
  pb_groups :: "(string, document list) btree_map"
  pb_cases :: "prepared_case list"

section \<open>Operations\<close>

definition evaluation_case_of :: "prepared_case \<Rightarrow> evaluation_case" where
  "evaluation_case_of c = \<lparr> ec_id = pc_id c, ec_category = pc_category c, ec_relevant_ids = pc_relevant_ids c \<rparr>"

definition evaluation_cases :: "prepared_benchmark \<Rightarrow> evaluation_case list" where
  "evaluation_cases b = map evaluation_case_of (pb_cases b)"

text \<open>\<open>str::split\<close> by a test on characters: the pieces between the separators, empty ones included.\<close>

fun split_chars :: "(string \<Rightarrow> bool) \<Rightarrow> string \<Rightarrow> string list \<Rightarrow> string list" where
  "split_chars sep piece [] = [piece]"
| "split_chars sep piece (c # cs) =
    (if sep c then piece # split_chars sep [] cs else split_chars sep (piece @ c) cs)"

definition split_str :: "(string \<Rightarrow> bool) \<Rightarrow> string \<Rightarrow> string list" where
  "split_str sep s = split_chars sep [] (chars s)"

definition collect_set :: "('a::linorder) list \<Rightarrow> 'a btree_set" where
  "collect_set xs = foldl bs_insert [] xs"

definition tokens :: "unicode \<Rightarrow> string \<Rightarrow> string btree_set" where
  "tokens uc s =
    collect_set (map (uc_str_to_lowercase uc)
      (filter (\<lambda>token. length token > 1) (split_str (\<lambda>c. \<not> uc_is_alphanumeric uc c) s)))"

definition shared_tokens :: "unicode \<Rightarrow> string btree_set \<Rightarrow> document \<Rightarrow> usize" where
  "shared_tokens uc query d = length (filter (bs_contains (tokens uc (dc_text d))) (bs_items query))"

definition literal_order :: "usize \<times> string \<Rightarrow> usize reverse \<times> string" where
  "literal_order entry = (Reverse (fst entry), snd entry)"

definition literal_prediction ::
  "unicode \<Rightarrow> (string, document list) btree_map \<Rightarrow> usize \<Rightarrow> prepared_case \<Rightarrow> ranked_prediction fallible"
where
  "literal_prediction uc groups limit c =
    (let query = tokens uc (pc_query c)
     in and_then (bt_index groups (pc_group_id c)) (\<lambda>documents.
          let ranked = sort_key literal_order (map (\<lambda>d. (shared_tokens uc query d, dc_id d)) documents)
          in Ok \<lparr> rp_case_id = pc_id c, rp_ranked_ids = map snd (take limit ranked) \<rparr>))"

definition literal_predictions :: "unicode \<Rightarrow> prepared_benchmark \<Rightarrow> usize \<Rightarrow> ranked_prediction list fallible" where
  "literal_predictions uc b limit = try_map (literal_prediction uc (pb_groups b) limit) (pb_cases b)"

definition validate_case ::
  "(string, document list) btree_map \<Rightarrow> string btree_set \<Rightarrow> prepared_case \<Rightarrow> (string btree_set, string) result"
where
  "validate_case groups ids c =
    (case bt_get groups (pc_group_id c) of
       None \<Rightarrow> Err (''case '' @ pc_id c @ '' references a missing group'')
     | Some documents \<Rightarrow>
         let document_ids = collect_set (map dc_id documents)
         in if pc_id c = [] \<or> pc_query c = [] \<or> pc_relevant_ids c = [] \<or> bs_contains ids (pc_id c) \<or>
               \<not> list_all (bs_contains document_ids) (bs_items (pc_relevant_ids c))
            then Err (''invalid prepared case '' @ pc_id c)
            else Ok (bs_insert ids (pc_id c)))"

definition benchmark_validate :: "prepared_benchmark \<Rightarrow> (unit, string) result" where
  "benchmark_validate b = map_ok (\<lambda>_. ()) (try_fold (validate_case (pb_groups b)) [] (pb_cases b))"

section \<open>What validation accepts\<close>

lemma collect_set_items: "set (bs_items (collect_set xs)) = set xs"
  by (simp add: collect_set_def fold_insert_items)

lemma collect_set_contains [simp]: "bs_contains (collect_set xs) x \<longleftrightarrow> x \<in> set xs"
  by (simp add: bs_contains_items collect_set_items)

text \<open>Every case is about documents of its group.\<close>

definition grounded :: "(string, document list) btree_map \<Rightarrow> prepared_case \<Rightarrow> bool" where
  "grounded groups c \<longleftrightarrow> (\<exists>documents. bt_get groups (pc_group_id c) = Some documents \<and>
     pc_relevant_ids c \<noteq> [] \<and> set (bs_items (pc_relevant_ids c)) \<subseteq> dc_id ` set documents)"

definition benchmark_ok :: "prepared_benchmark \<Rightarrow> bool" where
  "benchmark_ok b \<longleftrightarrow> list_all (grounded (pb_groups b)) (pb_cases b) \<and> distinct (map pc_id (pb_cases b)) \<and>
    list_all (\<lambda>c. pc_id c \<noteq> [] \<and> pc_query c \<noteq> []) (pb_cases b)"

lemma validate_case_Ok:
  "validate_case groups ids c = Ok ids' \<longleftrightarrow>
    grounded groups c \<and> pc_id c \<noteq> [] \<and> pc_query c \<noteq> [] \<and> \<not> bs_contains ids (pc_id c) \<and> ids' = bs_insert ids (pc_id c)"
  by (auto simp: validate_case_def grounded_def Let_def list_all_iff split: option.splits)

lemma validate_cases_iff:
  "(\<exists>ids'. try_fold (validate_case groups) ids cs = Ok ids') \<longleftrightarrow>
    list_all (grounded groups) cs \<and> distinct (map pc_id cs) \<and> list_all (\<lambda>c. pc_id c \<noteq> [] \<and> pc_query c \<noteq> []) cs \<and>
    list_all (\<lambda>c. \<not> bs_contains ids (pc_id c)) cs"
proof (induction cs arbitrary: ids)
  case (Cons c cs)
  have "(\<exists>ids'. try_fold (validate_case groups) ids (c # cs) = Ok ids') \<longleftrightarrow>
      grounded groups c \<and> pc_id c \<noteq> [] \<and> pc_query c \<noteq> [] \<and> \<not> bs_contains ids (pc_id c) \<and>
      (\<exists>ids'. try_fold (validate_case groups) (bs_insert ids (pc_id c)) cs = Ok ids')"
    by (auto simp: and_then_Ok validate_case_Ok)
  then show ?case unfolding Cons.IH by (auto simp: list_all_iff image_iff)
qed simp

lemma benchmark_validate_Ok: "benchmark_validate b = Ok u \<longleftrightarrow> benchmark_ok b"
  using validate_cases_iff [of "pb_groups b" "[]" "pb_cases b"]
  by (auto simp: benchmark_validate_def map_ok_Ok benchmark_ok_def list_all_iff)

section \<open>The literal baseline\<close>

definition literal_rank :: "unicode \<Rightarrow> prepared_case \<Rightarrow> document \<Rightarrow> usize reverse \<times> string" where
  "literal_rank uc c d = literal_order (shared_tokens uc (tokens uc (pc_query c)) d, dc_id d)"

lemma insort_key_map: "insort_key f (g x) (map g xs) = map g (insort_key (\<lambda>x. f (g x)) x xs)"
  by (induction xs) auto

lemma sort_key_map: "sort_key f (map g xs) = map g (sort_key (\<lambda>x. f (g x)) xs)"
  unfolding sort_key_def by (induction xs) (simp_all add: insort_key_map)

lemma literal_prediction_Ok:
  assumes "bt_get groups (pc_group_id c) = Some documents"
  shows "literal_prediction uc groups limit c =
    Ok \<lparr> rp_case_id = pc_id c, rp_ranked_ids = map dc_id (take limit (sort_key (literal_rank uc c) documents)) \<rparr>"
proof -
  have "(\<lambda>d. literal_order (shared_tokens uc (tokens uc (pc_query c)) d, dc_id d)) = literal_rank uc c"
    by (simp add: literal_rank_def fun_eq_iff)
  then show ?thesis
    using assms by (simp add: literal_prediction_def sort_key_map take_map comp_def)
qed

text \<open>The documents a prediction names: the best of the group, as many as asked for.\<close>

definition best_documents :: "unicode \<Rightarrow> usize \<Rightarrow> prepared_case \<Rightarrow> document list \<Rightarrow> document list \<Rightarrow> bool" where
  "best_documents uc limit c documents chosen \<longleftrightarrow>
    length chosen = min limit (length documents) \<and> mset chosen \<subseteq># mset documents \<and>
    sorted_wrt (\<lambda>a b. literal_rank uc c a \<le> literal_rank uc c b) chosen \<and>
    (\<forall>d \<in># mset documents - mset chosen. \<forall>a \<in> set chosen. literal_rank uc c a \<le> literal_rank uc c d)"

lemma best_documents_take: "best_documents uc limit c documents (take limit (sort_key (literal_rank uc c) documents))"
proof -
  let ?s = "sort_key (literal_rank uc c) documents"
  have parts: "mset documents = mset (take limit ?s) + mset (drop limit ?s)"
    by (metis append_take_drop_id mset_append mset_sort)
  have "sorted_wrt (\<lambda>a b. literal_rank uc c a \<le> literal_rank uc c b) (take limit ?s @ drop limit ?s)"
    by (simp add: sorted_sort_key)
  then show ?thesis
    unfolding best_documents_def sorted_wrt_append parts by auto
qed

definition predicts ::
  "unicode \<Rightarrow> usize \<Rightarrow> (string, document list) btree_map \<Rightarrow> prepared_case \<Rightarrow> ranked_prediction \<Rightarrow> bool"
where
  "predicts uc limit groups c p \<longleftrightarrow> rp_case_id p = pc_id c \<and>
    (\<exists>documents chosen. bt_get groups (pc_group_id c) = Some documents \<and> best_documents uc limit c documents chosen \<and>
       rp_ranked_ids p = map dc_id chosen)"

lemma literal_predictions_Ok:
  "list_all (grounded groups) cs \<Longrightarrow>
    \<exists>ps. try_map (literal_prediction uc groups limit) cs = Ok ps \<and> list_all2 (predicts uc limit groups) cs ps"
proof (induction cs)
  case (Cons c cs)
  then obtain documents where d: "bt_get groups (pc_group_id c) = Some documents" by (auto simp: grounded_def)
  let ?p = "\<lparr> rp_case_id = pc_id c, rp_ranked_ids = map dc_id (take limit (sort_key (literal_rank uc c) documents)) \<rparr>"
  have "predicts uc limit groups c ?p" using d
    by (auto simp: predicts_def intro!: exI [of _ "take limit (sort_key (literal_rank uc c) documents)"] best_documents_take)
  then show ?case using Cons by (auto simp: literal_prediction_Ok [OF d])
qed simp

lemma predicts_ids: "list_all2 (predicts uc limit groups) cs ps \<Longrightarrow> map rp_case_id ps = map pc_id cs"
  by (induction rule: list_all2_induct) (simp_all add: predicts_def)


text \<open>The predictions of the baseline can be scored exactly when every case has a category.\<close>

lemma literal_predictions_accepted:
  assumes "benchmark_ok b" "literal_predictions uc b limit = Ok ps" "cutoffs \<noteq> []" "0 \<notin> set cutoffs"
  shows "accepted (evaluation_cases b) ps cutoffs \<longleftrightarrow> list_all (\<lambda>c. pc_category c \<noteq> []) (pb_cases b)"
proof -
  have "list_all2 (predicts uc limit (pb_groups b)) (pb_cases b) ps"
    using literal_predictions_Ok [of "pb_groups b" "pb_cases b" uc limit] assms(1,2)
    by (simp add: benchmark_ok_def literal_predictions_def)
  then have ids: "map rp_case_id ps = map pc_id (pb_cases b)" by (rule predicts_ids)
  then have "rp_case_id ` set ps = pc_id ` set (pb_cases b)" by (metis image_set)
  moreover have "map ec_id (evaluation_cases b) = map pc_id (pb_cases b)"
    by (simp add: evaluation_cases_def evaluation_case_of_def)
  ultimately show ?thesis
    using assms ids
    by (auto simp: accepted_def benchmark_ok_def grounded_def case_ok_def evaluation_cases_def evaluation_case_of_def list_all_iff
        comp_def image_image)
qed

section \<open>A small benchmark\<close>

definition demo_document :: "string \<Rightarrow> string \<Rightarrow> document" where
  "demo_document i t = \<lparr> dc_id = i, dc_text = t \<rparr>"

definition demo_benchmark :: prepared_benchmark where
  "demo_benchmark = \<lparr> pb_name = ''demo'',
     pb_groups = [(''g'', [demo_document ''b'' ''red car'', demo_document ''a'' ''blue sea''])],
     pb_cases = [\<lparr> pc_id = ''q'', pc_group_id = ''g'', pc_category = ''colour'', pc_query = ''blue car sea'',
       pc_relevant_ids = [(''a'', ())] \<rparr>] \<rparr>"

lemma demo_benchmark_ok: "benchmark_ok demo_benchmark"
  by (simp add: benchmark_ok_def demo_benchmark_def demo_document_def grounded_def bt_get_def bt_keys_def)

lemma demo_tokens:
  "tokens ascii_unicode ''red car'' = [(''car'', ()), (''red'', ())]"
  "tokens ascii_unicode ''blue sea'' = [(''blue'', ()), (''sea'', ())]"
  "tokens ascii_unicode ''blue car sea'' = [(''blue'', ()), (''car'', ()), (''sea'', ())]"
  by (simp_all add: tokens_def split_str_def collect_set_def ascii_unicode_def ascii_letter_def ascii_small_def Let_def char_of_def bit_Suc_0_iff)

lemma demo_literal:
  "literal_predictions ascii_unicode demo_benchmark 1 = Ok [\<lparr> rp_case_id = ''q'', rp_ranked_ids = [''a''] \<rparr>]"
  by (simp add: literal_predictions_def demo_benchmark_def literal_prediction_Ok [where documents =
        "[demo_document ''b'' ''red car'', demo_document ''a'' ''blue sea'']"] bt_get_def literal_rank_def literal_order_def
      shared_tokens_def demo_document_def demo_tokens bs_contains_def bt_keys_def less_eq_prod_def)


end
