(* ===== verification/Benchmark_Import.thy ===== *)
theory Benchmark_Import
  imports Benchmark
begin

text \<open>
  Preparing the two public benchmarks, \<open>src/tools/eval/locomo.rs\<close> and
  \<open>src/tools/eval/longmemeval.rs\<close>: documents and cases are read from JSON values. The JSON library
  is outside the repository, so its values are a type parameter and its accessors a record.
\<close>

record 'v json_reader =
  js_get :: "'v \<Rightarrow> string \<Rightarrow> 'v option"
  js_as_str :: "'v \<Rightarrow> string option"
  js_as_array :: "'v \<Rightarrow> 'v list option"
  js_as_object :: "'v \<Rightarrow> (string \<times> 'v) list option"
  js_to_string :: "'v \<Rightarrow> string"
  js_parse_array :: "bytes \<Rightarrow> ('v list, string) result"

section \<open>Reading fields\<close>

definition string_field :: "'v json_reader \<Rightarrow> 'v \<Rightarrow> string \<Rightarrow> string option" where
  "string_field js v field = Option.bind (js_get js v field) (js_as_str js)"

definition array_field :: "'v json_reader \<Rightarrow> 'v \<Rightarrow> string \<Rightarrow> 'v list option" where
  "array_field js v field = Option.bind (js_get js v field) (js_as_array js)"

definition required_string :: "'v json_reader \<Rightarrow> 'v \<Rightarrow> string \<Rightarrow> (string, string) result" where
  "required_string js v field = ok_or (string_field js v field) (''missing string field '' @ field)"

definition required_array :: "'v json_reader \<Rightarrow> 'v \<Rightarrow> string \<Rightarrow> ('v list, string) result" where
  "required_array js v field = ok_or (array_field js v field) (''missing array field '' @ field)"

definition value_text :: "'v json_reader \<Rightarrow> 'v \<Rightarrow> string" where
  "value_text js v = (case js_as_str js v of Some s \<Rightarrow> s | None \<Rightarrow> js_to_string js v)"

type_synonym benchmark_parts = "(string, document list) btree_map \<times> prepared_case list"

section \<open>LoCoMo (\<open>locomo.rs\<close>)\<close>

definition dialog_id :: "string \<Rightarrow> string \<Rightarrow> string" where
  "dialog_id sample dialog = sample @ ''::dialog::'' @ dialog"

definition split_evidence :: "string \<Rightarrow> string list" where
  "split_evidence s = filter (\<lambda>s. s \<noteq> []) (map trim (split_str (\<lambda>c. c = '';'') s))"

definition locomo_turn :: "'v json_reader \<Rightarrow> string \<Rightarrow> document list \<Rightarrow> 'v \<Rightarrow> document list" where
  "locomo_turn js sample_id documents turn =
    (case string_field js turn ''dia_id'' of
       None \<Rightarrow> documents
     | Some i \<Rightarrow>
         (case string_field js turn ''text'' of
            None \<Rightarrow> documents
          | Some t \<Rightarrow>
              let speaker = (case string_field js turn ''speaker'' of Some s \<Rightarrow> s | None \<Rightarrow> ''speaker'')
              in documents @ [\<lparr> dc_id = dialog_id sample_id i, dc_text = speaker @ '': '' @ t \<rparr>]))"

definition locomo_session :: "'v json_reader \<Rightarrow> string \<Rightarrow> document list \<Rightarrow> string \<times> 'v \<Rightarrow> document list" where
  "locomo_session js sample_id documents entry =
    (let (key, turns) = entry
     in if \<not> prefix ''session_'' key \<or> suffix ''_date_time'' key then documents
        else (case js_as_array js turns of
                None \<Rightarrow> documents
              | Some turns \<Rightarrow> foldl (locomo_turn js sample_id) documents turns))"

definition conversation_documents :: "'v json_reader \<Rightarrow> 'v \<Rightarrow> string \<Rightarrow> (document list, string) result" where
  "conversation_documents js sample sample_id =
    and_then (ok_or (Option.bind (js_get js sample ''conversation'') (js_as_object js)) (sample_id @ '' has no conversation object''))
      (\<lambda>conversation. Ok (sort_key dc_id (foldl (locomo_session js sample_id) [] conversation)))"

definition locomo_evidence :: "'v json_reader \<Rightarrow> string \<Rightarrow> string btree_set \<Rightarrow> 'v \<Rightarrow> string btree_set" where
  "locomo_evidence js sample_id document_ids question =
    collect_set (filter (bs_contains document_ids) (map (dialog_id sample_id)
      (concat (map split_evidence (List.map_filter (js_as_str js)
        (case array_field js question ''evidence'' of Some vs \<Rightarrow> vs | None \<Rightarrow> []))))))"

definition locomo_case_id :: "string \<Rightarrow> usize \<Rightarrow> string" where
  "locomo_case_id sample_id index = sample_id @ ''::qa::'' @ show_nat index"

definition locomo_question ::
  "'v json_reader \<Rightarrow> string \<Rightarrow> string btree_set \<Rightarrow> prepared_case list \<Rightarrow> usize \<times> 'v \<Rightarrow> (prepared_case list, string) result"
where
  "locomo_question js sample_id document_ids cases entry =
    (let (index, question) = entry
     in and_then (required_string js question ''question'') (\<lambda>query.
        let evidence = locomo_evidence js sample_id document_ids question
        in if evidence = [] then Ok cases
           else
             let category = (case js_get js question ''category'' of Some v \<Rightarrow> value_text js v | None \<Rightarrow> ''unknown'')
             in Ok (cases @ [\<lparr> pc_id = locomo_case_id sample_id index, pc_group_id = sample_id,
                  pc_category = ''locomo_'' @ category, pc_query = query, pc_relevant_ids = evidence \<rparr>])))"

definition locomo_sample_id :: "'v json_reader \<Rightarrow> usize \<times> 'v \<Rightarrow> string" where
  "locomo_sample_id js entry =
    (let (index, sample) = entry
     in case string_field js sample ''sample_id'' of Some s \<Rightarrow> s | None \<Rightarrow> ''sample-'' @ show_nat index)"

definition locomo_sample :: "'v json_reader \<Rightarrow> benchmark_parts \<Rightarrow> usize \<times> 'v \<Rightarrow> (benchmark_parts, string) result" where
  "locomo_sample js parts entry =
    (let (groups, cases) = parts; sample = snd entry; sample_id = locomo_sample_id js entry
     in and_then (conversation_documents js sample sample_id) (\<lambda>documents.
        let document_ids = collect_set (map dc_id documents)
        in and_then (ok_or (array_field js sample ''qa'') (sample_id @ '' has no qa array'')) (\<lambda>qa.
           and_then (try_fold (locomo_question js sample_id document_ids) cases (List.enumerate 0 qa)) (\<lambda>cases.
             Ok (bt_insert groups sample_id documents, cases)))))"

definition locomo_prepare :: "'v json_reader \<Rightarrow> bytes \<Rightarrow> (prepared_benchmark, string) result" where
  "locomo_prepare js bs =
    and_then (js_parse_array js bs) (\<lambda>samples.
    and_then (try_fold (locomo_sample js) ([], []) (List.enumerate 0 samples)) (\<lambda>(groups, cases).
      Ok \<lparr> pb_name = ''locomo'', pb_groups = groups, pb_cases = cases \<rparr>))"

section \<open>LongMemEval (\<open>longmemeval.rs\<close>)\<close>

definition session_document_id :: "string \<Rightarrow> string \<Rightarrow> string" where
  "session_document_id question session = question @ ''::session::'' @ session"

definition session_turn :: "'v json_reader \<Rightarrow> string \<Rightarrow> 'v \<Rightarrow> (string, string) result" where
  "session_turn js t turn =
    (let role = (case string_field js turn ''role'' of Some s \<Rightarrow> s | None \<Rightarrow> ''turn'')
     in and_then (ok_or (string_field js turn ''content'') ''turn content is not a string'') (\<lambda>content.
          Ok ((if t = [] then t else t @ [CHR 0x0A]) @ role @ '': '' @ content)))"

definition session_text :: "'v json_reader \<Rightarrow> 'v \<Rightarrow> (string, string) result" where
  "session_text js session =
    and_then (ok_or (js_as_array js session) ''session is not an array'') (try_fold (session_turn js) [])"

definition session_document :: "'v json_reader \<Rightarrow> string \<Rightarrow> 'v \<times> 'v \<Rightarrow> (document, string) result" where
  "session_document js i entry =
    (let (session, session_id) = entry
     in and_then (session_text js session) (\<lambda>t.
          Ok \<lparr> dc_id = session_document_id i (value_text js session_id), dc_text = t \<rparr>))"

definition answer_sessions :: "'v json_reader \<Rightarrow> string \<Rightarrow> string btree_set \<Rightarrow> 'v list \<Rightarrow> string btree_set" where
  "answer_sessions js i document_ids answers =
    collect_set (filter (bs_contains document_ids) (map (session_document_id i) (map (value_text js) answers)))"

definition longmemeval_case ::
  "'v json_reader \<Rightarrow> string \<Rightarrow> 'v \<Rightarrow> string btree_set \<Rightarrow> prepared_case list \<Rightarrow> (prepared_case list, string) result"
where
  "longmemeval_case js i sample relevant_ids cases =
    (if relevant_ids = [] then Ok cases
     else
       let category = (case required_string js sample ''question_type'' of Ok s \<Rightarrow> s | Err _ \<Rightarrow> ''unknown'')
       in and_then (required_string js sample ''question'') (\<lambda>query.
            Ok (cases @ [\<lparr> pc_id = i, pc_group_id = i, pc_category = category, pc_query = query,
              pc_relevant_ids = relevant_ids \<rparr>])))"

definition longmemeval_sample :: "'v json_reader \<Rightarrow> benchmark_parts \<Rightarrow> 'v \<Rightarrow> (benchmark_parts, string) result" where
  "longmemeval_sample js parts sample =
    (let (groups, cases) = parts
     in and_then (required_string js sample ''question_id'') (\<lambda>i.
        if suffix ''_abs'' i then Ok parts
        else
          and_then (required_array js sample ''haystack_sessions'') (\<lambda>sessions.
          and_then (required_array js sample ''haystack_session_ids'') (\<lambda>session_ids.
          if length sessions \<noteq> length session_ids then Err (i @ '' session arrays have different lengths'')
          else
            and_then (try_map (session_document js i) (zip sessions session_ids)) (\<lambda>documents.
            let document_ids = collect_set (map dc_id documents)
            in and_then (required_array js sample ''answer_session_ids'') (\<lambda>answers.
               and_then (longmemeval_case js i sample (answer_sessions js i document_ids answers) cases)
                    (\<lambda>cases. Ok (bt_insert groups i documents, cases))))))))"

definition longmemeval_prepare :: "'v json_reader \<Rightarrow> bytes \<Rightarrow> (prepared_benchmark, string) result" where
  "longmemeval_prepare js bs =
    and_then (js_parse_array js bs) (\<lambda>samples.
    and_then (try_fold (longmemeval_sample js) ([], []) samples) (\<lambda>(groups, cases).
      Ok \<lparr> pb_name = ''longmemeval'', pb_groups = groups, pb_cases = cases \<rparr>))"

section \<open>The cases of a prepared benchmark\<close>

text \<open>
  While samples are read: every case is about documents of its group, and its identifier is
  formed from the identifier of the group.
\<close>

definition parts_ok :: "(string \<Rightarrow> nat \<Rightarrow> string) \<Rightarrow> string set \<Rightarrow> benchmark_parts \<Rightarrow> bool" where
  "parts_ok name ids parts \<longleftrightarrow>
    list_all (grounded (fst parts)) (snd parts) \<and> distinct (map pc_id (snd parts)) \<and>
    (\<forall>c \<in> set (snd parts). pc_group_id c \<in> ids \<and> (\<exists>i. pc_id c = name (pc_group_id c) i))"

definition case_of_group :: "(string \<Rightarrow> nat \<Rightarrow> string) \<Rightarrow> string \<Rightarrow> document list \<Rightarrow> prepared_case \<Rightarrow> bool" where
  "case_of_group name group_id documents c \<longleftrightarrow>
    pc_group_id c = group_id \<and> (\<exists>i. pc_id c = name group_id i) \<and> pc_relevant_ids c \<noteq> [] \<and>
    set (bs_items (pc_relevant_ids c)) \<subseteq> dc_id ` set documents"

lemma parts_ok_empty: "parts_ok name {} ([], [])"
  by (simp add: parts_ok_def)

lemma parts_ok_sample:
  assumes old: "parts_ok name ids (groups, cases)" and fresh: "group_id \<notin> ids"
    and new: "\<forall>c \<in> set new. case_of_group name group_id documents c" "distinct (map pc_id new)"
    and name: "\<And>g h i j. name g i = name h j \<Longrightarrow> g = h"
  shows "parts_ok name (insert group_id ids) (bt_insert groups group_id documents, cases @ new)"
proof -
  have "grounded (bt_insert groups group_id documents) c" if "c \<in> set cases" for c
    using that old fresh by (auto simp: parts_ok_def list_all_iff grounded_def)
  moreover have "grounded (bt_insert groups group_id documents) c" if "c \<in> set new" for c
    using that new(1) by (auto simp: case_of_group_def grounded_def)
  moreover have "pc_id c \<noteq> pc_id d" if "c \<in> set cases" "d \<in> set new" for c d
    using that old new(1) fresh name unfolding parts_ok_def case_of_group_def by (metis snd_conv)
  ultimately show ?thesis
    using old new by (auto simp: parts_ok_def list_all_iff case_of_group_def)
qed

lemma relevant_documents:
  "set (bs_items (collect_set (filter (bs_contains (collect_set (map dc_id documents))) xs))) \<subseteq> dc_id ` set documents"
  by (auto simp: collect_set_items)

subsection \<open>LoCoMo\<close>

lemma locomo_case_id_inject:
  assumes "locomo_case_id s i = locomo_case_id t j"
  shows "s = t \<and> i = j"
proof -
  have digits: "takeWhile (\<lambda>c. c \<noteq> CHR '':'') (rev (locomo_case_id s i)) = rev (show_nat i)" for s i
  proof -
    have "c \<noteq> CHR '':''" if "c \<in> set (rev (show_nat i))" for c
      using show_nat_chars [of c i] that by auto
    then have "takeWhile (\<lambda>c. c \<noteq> CHR '':'') (rev (show_nat i) @ CHR '':'' # rest) = rev (show_nat i)" for rest
      by (subst takeWhile_append2) auto
    then show ?thesis by (simp add: locomo_case_id_def)
  qed
  have "i = j" using digits [of s i] digits [of t j] assms by simp
  then show ?thesis using assms by (simp add: locomo_case_id_def)
qed

lemma locomo_questions:
  assumes "try_fold (locomo_question js sample_id (collect_set (map dc_id documents))) cases (List.enumerate n qa) = Ok cases'"
  shows "\<exists>new. cases' = cases @ new \<and> (\<forall>c \<in> set new. case_of_group locomo_case_id sample_id documents c \<and>
      (\<exists>i \<ge> n. pc_id c = locomo_case_id sample_id i)) \<and> distinct (map pc_id new)"
  using assms
proof (induction qa arbitrary: n cases)
  case (Cons question qa)
  let ?e = "locomo_evidence js sample_id (collect_set (map dc_id documents)) question"
  from Cons.prems obtain cases1 where step: "locomo_question js sample_id (collect_set (map dc_id documents)) cases (n, question) = Ok cases1"
    and rest: "try_fold (locomo_question js sample_id (collect_set (map dc_id documents))) cases1 (List.enumerate (Suc n) qa) = Ok cases'"
    by (auto simp: and_then_Ok)
  from Cons.IH [OF rest] obtain new where new: "cases' = cases1 @ new" "distinct (map pc_id new)"
    "\<forall>c \<in> set new. case_of_group locomo_case_id sample_id documents c \<and> (\<exists>i \<ge> Suc n. pc_id c = locomo_case_id sample_id i)"
    by blast
  show ?case
  proof (cases "?e = []")
    case True
    then have "cases1 = cases" using step by (auto simp: locomo_question_def and_then_Ok)
    with new show ?thesis by (intro exI [of _ new]) (auto dest: Suc_leD)
  next
    case False
    then obtain c where c: "cases1 = cases @ [c]" "pc_id c = locomo_case_id sample_id n" "pc_group_id c = sample_id" "pc_relevant_ids c = ?e"
      using step by (fastforce simp: locomo_question_def and_then_Ok Let_def)
    have "case_of_group locomo_case_id sample_id documents c"
      using c False relevant_documents unfolding case_of_group_def locomo_evidence_def by auto
    moreover have "pc_id c \<noteq> pc_id d" if "d \<in> set new" for d
      using new(3) that c(2) locomo_case_id_inject by fastforce
    ultimately show ?thesis using new c by (intro exI [of _ "c # new"]) (fastforce dest: Suc_leD)
  qed
qed simp

lemma locomo_samples:
  assumes "try_fold (locomo_sample js) parts es = Ok parts'" "parts_ok locomo_case_id ids parts"
    "distinct (map (locomo_sample_id js) es)" "locomo_sample_id js ` set es \<inter> ids = {}"
  shows "parts_ok locomo_case_id (ids \<union> locomo_sample_id js ` set es) parts'"
  using assms
proof (induction es arbitrary: parts ids)
  case (Cons e es)
  let ?i = "locomo_sample_id js e"
  obtain groups cases where parts: "parts = (groups, cases)" by force
  from Cons.prems(1) obtain parts1 where sample: "locomo_sample js (groups, cases) e = Ok parts1"
    and rest1: "try_fold (locomo_sample js) parts1 es = Ok parts'" by (auto simp: parts and_then_Ok)
  from sample obtain documents qa cases' where
    step: "try_fold (locomo_question js ?i (collect_set (map dc_id documents))) cases (List.enumerate 0 qa) = Ok cases'"
    and parts1: "parts1 = (bt_insert groups ?i documents, cases')"
    by (auto simp: locomo_sample_def and_then_Ok Let_def)
  note rest = rest1 [unfolded parts1]
  obtain new where new: "cases' = cases @ new" "\<forall>c \<in> set new. case_of_group locomo_case_id ?i documents c" "distinct (map pc_id new)"
    using locomo_questions [OF step] by blast
  have "parts_ok locomo_case_id (insert ?i ids) (bt_insert groups ?i documents, cases @ new)"
    using Cons.prems(2,4) new locomo_case_id_inject by (intro parts_ok_sample) (auto simp: parts)
  then have "parts_ok locomo_case_id (insert ?i ids \<union> locomo_sample_id js ` set es) parts'"
    using Cons.prems(3,4) rest by (intro Cons.IH) (auto simp: new(1))
  then show ?case by simp
qed simp

subsection \<open>LongMemEval\<close>

definition question_id :: "'v json_reader \<Rightarrow> 'v \<Rightarrow> string option" where
  "question_id js sample =
    (case string_field js sample ''question_id'' of Some i \<Rightarrow> if suffix ''_abs'' i then None else Some i | None \<Rightarrow> None)"

lemma longmemeval_sample_Ok:
  assumes "longmemeval_sample js (groups, cases) sample = Ok parts'"
  shows "(question_id js sample = None \<and> parts' = (groups, cases)) \<or>
    (\<exists>i documents new. question_id js sample = Some i \<and> parts' = (bt_insert groups i documents, cases @ new) \<and>
       (\<forall>c \<in> set new. case_of_group (\<lambda>g _. g) i documents c) \<and> length new \<le> 1)"
proof -
  from assms obtain i where i: "string_field js sample ''question_id'' = Some i"
    by (auto simp: longmemeval_sample_def and_then_Ok required_string_def ok_or_Ok)
  show ?thesis
  proof (cases "suffix ''_abs'' i")
    case True
    then show ?thesis using assms i by (simp add: longmemeval_sample_def required_string_def question_id_def)
  next
    case False
    with assms i obtain documents answers cases' where parts': "parts' = (bt_insert groups i documents, cases')" and
      cases': "longmemeval_case js i sample (answer_sessions js i (collect_set (map dc_id documents)) answers) cases = Ok cases'"
      by (auto simp: longmemeval_sample_def required_string_def and_then_Ok Let_def split: if_splits)
    have "\<exists>new. cases' = cases @ new \<and> (\<forall>c \<in> set new. case_of_group (\<lambda>g _. g) i documents c) \<and> length new \<le> 1"
    proof (cases "answer_sessions js i (collect_set (map dc_id documents)) answers = []")
      case True
      then show ?thesis using cases' by (intro exI [of _ "[]"]) (simp add: longmemeval_case_def)
    next
      case False
      then obtain c where "cases' = cases @ [c]" "pc_id c = i" "pc_group_id c = i"
        "pc_relevant_ids c = answer_sessions js i (collect_set (map dc_id documents)) answers"
        using cases' by (fastforce simp: longmemeval_case_def and_then_Ok Let_def)
      with False show ?thesis
        using relevant_documents by (intro exI [of _ "[c]"]) (auto simp: case_of_group_def answer_sessions_def)
    qed
    then show ?thesis using parts' i False by (auto simp: question_id_def)
  qed
qed

lemma longmemeval_samples:
  assumes "try_fold (longmemeval_sample js) parts samples = Ok parts'" "parts_ok (\<lambda>g _. g) ids parts"
    "distinct (List.map_filter (question_id js) samples)" "set (List.map_filter (question_id js) samples) \<inter> ids = {}"
  shows "parts_ok (\<lambda>g _. g) (ids \<union> set (List.map_filter (question_id js) samples)) parts'"
  using assms
proof (induction samples arbitrary: parts ids)
  case (Cons sample samples)
  obtain groups cases where parts: "parts = (groups, cases)" by force
  from Cons.prems(1) obtain parts1 where step: "longmemeval_sample js (groups, cases) sample = Ok parts1"
    and rest: "try_fold (longmemeval_sample js) parts1 samples = Ok parts'" by (auto simp: parts and_then_Ok)
  from longmemeval_sample_Ok [OF step] show ?case
  proof (elim disjE exE conjE)
    assume "question_id js sample = None" "parts1 = (groups, cases)"
    then show ?thesis using Cons rest by (simp add: parts List.map_filter_simps)
  next
    fix i documents new
    assume s: "question_id js sample = Some i" "parts1 = (bt_insert groups i documents, cases @ new)"
      "\<forall>c \<in> set new. case_of_group (\<lambda>g _. g) i documents c" "length new \<le> 1"
    have "distinct (map pc_id new)" using s(4) by (cases new) auto
    then have "parts_ok (\<lambda>g _. g) (insert i ids) parts1"
      unfolding s(2) using Cons.prems(2,4) s by (intro parts_ok_sample) (auto simp: parts List.map_filter_simps)
    then have "parts_ok (\<lambda>g _. g) (insert i ids \<union> set (List.map_filter (question_id js) samples)) parts'"
      using Cons.prems(3,4) rest s(1) by (intro Cons.IH) (auto simp: List.map_filter_simps)
    then show ?thesis by (simp add: s(1) List.map_filter_simps)
  qed
qed (simp add: List.map_filter_simps)

section \<open>Prepared benchmarks are valid\<close>

text \<open>
  When the samples of a LoCoMo file have different identifiers, every case of the prepared
  benchmark names at least one document, and only documents of its own group; the case identifiers
  are unique and not empty; so the benchmark passes validation unless a question is empty.
\<close>

theorem locomo_benchmark_valid:
  assumes "js_parse_array js bs = Ok samples" "distinct (map (locomo_sample_id js) (List.enumerate 0 samples))"
    and "locomo_prepare js bs = Ok b"
  shows "list_all (grounded (pb_groups b)) (pb_cases b) \<and>
    (benchmark_validate b = Ok () \<longleftrightarrow> list_all (\<lambda>c. pc_query c \<noteq> []) (pb_cases b))"
proof -
  obtain parts where parts: "try_fold (locomo_sample js) ([], []) (List.enumerate 0 samples) = Ok parts"
    "pb_groups b = fst parts" "pb_cases b = snd parts"
    using assms by (auto simp: locomo_prepare_def and_then_Ok)
  have ok: "parts_ok locomo_case_id ({} \<union> locomo_sample_id js ` set (List.enumerate 0 samples)) parts"
    using parts(1) assms(2) by (intro locomo_samples [OF _ parts_ok_empty]) auto
  then have "list_all (\<lambda>c. pc_id c \<noteq> []) (pb_cases b)"
    by (auto simp: parts(3) parts_ok_def list_all_iff locomo_case_id_def)
  with ok show ?thesis by (auto simp: benchmark_validate_Ok benchmark_ok_def parts(2,3) parts_ok_def list_all_iff)
qed

text \<open>
  When the questions of a LongMemEval file that are not abstentions have different identifiers,
  every case of the prepared benchmark names at least one document, and only documents of its own
  group, and the benchmark passes validation unless a question or its identifier is empty.
\<close>

theorem longmemeval_benchmark_valid:
  assumes "js_parse_array js bs = Ok samples" "distinct (List.map_filter (question_id js) samples)"
    and "longmemeval_prepare js bs = Ok b"
  shows "list_all (grounded (pb_groups b)) (pb_cases b) \<and>
    (benchmark_validate b = Ok () \<longleftrightarrow> list_all (\<lambda>c. pc_id c \<noteq> [] \<and> pc_query c \<noteq> []) (pb_cases b))"
proof -
  obtain parts where parts: "try_fold (longmemeval_sample js) ([], []) samples = Ok parts"
    "pb_groups b = fst parts" "pb_cases b = snd parts"
    using assms by (auto simp: longmemeval_prepare_def and_then_Ok)
  have "parts_ok (\<lambda>g _. g) ({} \<union> set (List.map_filter (question_id js) samples)) parts"
    using parts(1) assms(2) by (intro longmemeval_samples [OF _ parts_ok_empty]) auto
  then show ?thesis by (auto simp: benchmark_validate_Ok benchmark_ok_def parts(2,3) parts_ok_def)
qed

subsection \<open>Two small files\<close>

datatype json = JText string | JArray "json list" | JObject "(string \<times> json) list"

definition demo_reader :: "json list \<Rightarrow> json json_reader" where
  "demo_reader samples =
    \<lparr> js_get = (\<lambda>v field. case v of JObject fs \<Rightarrow> map_of fs field | _ \<Rightarrow> None),
      js_as_str = (\<lambda>v. case v of JText s \<Rightarrow> Some s | _ \<Rightarrow> None),
      js_as_array = (\<lambda>v. case v of JArray vs \<Rightarrow> Some vs | _ \<Rightarrow> None),
      js_as_object = (\<lambda>v. case v of JObject fs \<Rightarrow> Some fs | _ \<Rightarrow> None),
      js_to_string = (\<lambda>_. ''?''),
      js_parse_array = (\<lambda>_. Ok samples) \<rparr>"

definition demo_conversation :: json where
  "demo_conversation = JObject
    [(''sample_id'', JText ''conv''),
     (''qa'', JArray [JObject [(''question'', JText ''what?''), (''category'', JText ''2''), (''evidence'', JArray [JText ''D1;D2''])],
                      JObject [(''question'', JText ''who?''), (''evidence'', JArray [])]]),
     (''conversation'', JObject [(''speaker_a'', JText ''A''), (''session_1'', JArray
       [JObject [(''speaker'', JText ''B''), (''dia_id'', JText ''D2''), (''text'', JText ''second'')],
        JObject [(''dia_id'', JText ''D1''), (''text'', JText ''first'')]])])]"

definition demo_question :: json where
  "demo_question = JObject
    [(''question_id'', JText ''keep''), (''question_type'', JText ''update''), (''question'', JText ''what?''),
     (''haystack_session_ids'', JArray [JText ''s1'']),
     (''haystack_sessions'', JArray [JArray [JObject [(''role'', JText ''user''), (''content'', JText ''new'')]]]),
     (''answer_session_ids'', JArray [JText ''s1'', JText ''s2''])]"

definition demo_abstention :: json where
  "demo_abstention = JObject [(''question_id'', JText ''skip_abs'')]"

lemma demo_evidence_ids: "split_evidence ''D1;D2'' = [''D1'', ''D2'']"
proof -
  have "trim ''D1'' = ''D1''" "trim ''D2'' = ''D2''"
    using trimmed_visible [of "''D1''"] trimmed_visible [of "''D2''"] by (simp_all add: trimmed_def visible_def)
  then show ?thesis by (simp add: split_evidence_def split_str_def)
qed

lemmas reading_defs = demo_reader_def string_field_def array_field_def required_string_def required_array_def value_text_def
  Let_def List.map_filter_simps collect_set_def bs_contains_def bt_get_def suffix_to_prefix

lemma demo_locomo:
  "locomo_prepare (demo_reader [demo_conversation]) [] = Ok \<lparr> pb_name = ''locomo'',
     pb_groups = [(''conv'', [\<lparr> dc_id = ''conv::dialog::D1'', dc_text = ''speaker: first'' \<rparr>,
                              \<lparr> dc_id = ''conv::dialog::D2'', dc_text = ''B: second'' \<rparr>])],
     pb_cases = [\<lparr> pc_id = ''conv::qa::0'', pc_group_id = ''conv'', pc_category = ''locomo_2'', pc_query = ''what?'',
       pc_relevant_ids = [(''conv::dialog::D1'', ()), (''conv::dialog::D2'', ())] \<rparr>] \<rparr>"
  by (simp add: locomo_prepare_def reading_defs demo_conversation_def locomo_sample_def locomo_sample_id_def
      conversation_documents_def locomo_session_def locomo_turn_def locomo_question_def locomo_evidence_def demo_evidence_ids
      dialog_id_def locomo_case_id_def show_nat.simps [of 0] char_of_def bit_Suc_0_iff)

theorem locomo_benchmark_valid_witness:
  "\<exists>b. locomo_prepare (demo_reader [demo_conversation]) [] = Ok b \<and> length (pb_cases b) = 1 \<and>
     list_all (grounded (pb_groups b)) (pb_cases b) \<and> benchmark_validate b = Ok ()"
  using locomo_benchmark_valid [OF _ _ demo_locomo, of "[demo_conversation]"] demo_locomo
  by (simp add: demo_reader_def locomo_sample_id_def)

lemma demo_longmemeval:
  "longmemeval_prepare (demo_reader [demo_question, demo_abstention]) [] = Ok \<lparr> pb_name = ''longmemeval'',
     pb_groups = [(''keep'', [\<lparr> dc_id = ''keep::session::s1'', dc_text = ''user: new'' \<rparr>])],
     pb_cases = [\<lparr> pc_id = ''keep'', pc_group_id = ''keep'', pc_category = ''update'', pc_query = ''what?'',
       pc_relevant_ids = [(''keep::session::s1'', ())] \<rparr>] \<rparr>"
  by (simp add: longmemeval_prepare_def reading_defs demo_question_def demo_abstention_def longmemeval_sample_def longmemeval_case_def
      session_document_def session_document_id_def session_text_def session_turn_def answer_sessions_def)

theorem longmemeval_benchmark_valid_witness:
  "\<exists>b. longmemeval_prepare (demo_reader [demo_question, demo_abstention]) [] = Ok b \<and> length (pb_cases b) = 1 \<and>
     list_all (grounded (pb_groups b)) (pb_cases b) \<and> benchmark_validate b = Ok ()"
  using longmemeval_benchmark_valid [OF _ _ demo_longmemeval, of "[demo_question, demo_abstention]"] demo_longmemeval
  by (simp add: reading_defs question_id_def demo_question_def demo_abstention_def)

end
