(* ===== verification/Benchmark_Tool.thy ===== *)
theory Benchmark_Tool
  imports Benchmark_Import Snapshot_File
begin

text \<open>
  The evaluation tool, \<open>src/tools/eval/main.rs\<close>: preparing and validating benchmarks, the literal
  baseline, and scoring, over files that can fail to be read or written. Printing and parsing JSON
  is an argument. An error returned by \<open>main\<close> is its text; panics are values. The arguments are the
  Unicode strings \<open>env::args\<close> yields.
\<close>

section \<open>Files and output\<close>

datatype tool_failure = ToolError string | ToolPanic string

text \<open>
  \<open>ts_write_fault\<close> gives the error of writing a file and what the file then holds, if anything.
  The macros \<open>println!\<close> and \<open>eprintln!\<close> panic when the stream cannot be written.
\<close>

record tool_state =
  ts_files :: "string \<rightharpoonup> bytes"
  ts_read_fault :: "string \<Rightarrow> string option"
  ts_write_fault :: "string \<Rightarrow> (string \<times> bytes option) option"
  ts_out :: "string list"
  ts_err :: "string list"
  ts_out_fault :: "string option"
  ts_err_fault :: "string option"

type_synonym 'a tool = "tool_state \<Rightarrow> ('a, tool_failure) result \<times> tool_state"

definition tool_try :: "('a, string) result \<Rightarrow> 'a tool" where
  "tool_try r = lift_op (case r of Ok a \<Rightarrow> Ok a | Err m \<Rightarrow> Err (ToolError m))"

definition read_file :: "string \<Rightarrow> bytes tool" where
  "read_file path s =
    (case ts_read_fault s path of
       Some m \<Rightarrow> (Err (ToolError m), s)
     | None \<Rightarrow> (case ts_files s path of
         Some bs \<Rightarrow> (Ok bs, s)
       | None \<Rightarrow> (Err (ToolError ''No such file or directory (os error 2)''), s)))"

definition write_file :: "string \<Rightarrow> bytes \<Rightarrow> unit tool" where
  "write_file path bs s =
    (case ts_write_fault s path of
       Some (m, left) \<Rightarrow> (Err (ToolError m), s\<lparr>ts_files := (ts_files s)(path := left)\<rparr>)
     | None \<Rightarrow> (Ok (), s\<lparr>ts_files := (ts_files s)(path \<mapsto> bs)\<rparr>))"

definition print_line :: "string \<Rightarrow> unit tool" where
  "print_line line s =
    (case ts_out_fault s of
       Some m \<Rightarrow> (Err (ToolPanic (''failed printing to stdout: '' @ m)), s)
     | None \<Rightarrow> (Ok (), s\<lparr>ts_out := ts_out s @ [line]\<rparr>))"

section \<open>Parameters\<close>

record ('v, 'f) eval_tool =
  et_unicode :: unicode
  et_f64 :: "'f f64_ops"
  et_reader :: "'v json_reader"
  et_parse_benchmark :: "bytes \<Rightarrow> (prepared_benchmark, string) result"
  et_print_benchmark :: "prepared_benchmark \<Rightarrow> (bytes, string) result"
  et_parse_predictions :: "bytes \<Rightarrow> (ranked_prediction list, string) result"
  et_parse_prediction :: "string \<Rightarrow> (ranked_prediction, string) result"
  et_print_predictions :: "ranked_prediction list \<Rightarrow> (bytes, string) result"
  et_print_report :: "'f evaluation_report \<Rightarrow> (bytes, string) result"
  et_float_text :: "'f \<Rightarrow> string"
  et_error_text :: "memory_error \<Rightarrow> string"
  et_utf8_error :: "bytes \<Rightarrow> string"

section \<open>Reading and writing (\<open>main.rs\<close>)\<close>

definition read_prepared :: "('v, 'f) eval_tool \<Rightarrow> string \<Rightarrow> prepared_benchmark tool" where
  "read_prepared T path = seq_op (read_file path) (\<lambda>bs. tool_try (et_parse_benchmark T bs))"

definition write_prepared :: "('v, 'f) eval_tool \<Rightarrow> prepared_benchmark \<Rightarrow> string \<Rightarrow> unit tool" where
  "write_prepared T b path =
    seq_op (tool_try (benchmark_validate b)) (\<lambda>_.
    seq_op (tool_try (et_print_benchmark T b)) (\<lambda>bs.
    write_file path bs))"

text \<open>\<open>str::lines\<close>: a line ends with a line feed, before which one carriage return is dropped.\<close>

definition strip_cr :: "string \<Rightarrow> string" where
  "strip_cr line = (if line \<noteq> [] \<and> last line = CHR 0x0D then butlast line else line)"

fun str_lines :: "string \<Rightarrow> string \<Rightarrow> string list" where
  "str_lines line [] = (if line = [] then [] else [line])"
| "str_lines line (c # cs) = (if c = CHR 0x0A then strip_cr line # str_lines [] cs else str_lines (line @ [c]) cs)"

definition read_predictions :: "('v, 'f) eval_tool \<Rightarrow> string \<Rightarrow> ranked_prediction list tool" where
  "read_predictions T path =
    seq_op (read_file path) (\<lambda>bs.
      case et_parse_predictions T bs of
        Ok predictions \<Rightarrow> lift_op (Ok predictions)
      | Err _ \<Rightarrow>
          seq_op (tool_try (ok_or (from_utf8 bs) (et_utf8_error T bs))) (\<lambda>t.
          tool_try (try_map (et_parse_prediction T) (filter (\<lambda>line. trim line \<noteq> []) (str_lines [] t)))))"

text \<open>\<open>str::parse::<usize>\<close>\<close>

fun usize_digits :: "string \<Rightarrow> usize \<Rightarrow> (usize, string) result" where
  "usize_digits [] n = Ok n"
| "usize_digits (c # cs) n =
    (case digit_value c of
       None \<Rightarrow> Err ''invalid digit found in string''
     | Some v \<Rightarrow> if n * 10 + v \<le> usize_max then usize_digits cs (n * 10 + v)
                  else Err ''number too large to fit in target type'')"

definition parse_usize :: "string \<Rightarrow> (usize, string) result" where
  "parse_usize s =
    (case s of
       [] \<Rightarrow> Err ''cannot parse integer from empty string''
     | c # cs \<Rightarrow> if c = CHR ''+'' \<and> cs \<noteq> [] then usize_digits cs 0 else usize_digits s 0)"

section \<open>Commands\<close>

definition tool_call :: "'a fallible \<Rightarrow> ('v, 'f) eval_tool \<Rightarrow> 'a tool" where
  "tool_call r T =
    lift_op (case r of Ok a \<Rightarrow> Ok a | Err (Fault e) \<Rightarrow> Err (ToolError (et_error_text T e)) | Err (Panic m) \<Rightarrow> Err (ToolPanic m))"

definition validate_coding :: "('v, 'f) eval_tool \<Rightarrow> string \<Rightarrow> string \<Rightarrow> unit tool" where
  "validate_coding T path output_path =
    seq_op (read_prepared T path) (\<lambda>b.
    seq_op (tool_try (benchmark_validate b)) (\<lambda>_.
    write_prepared T b output_path))"

definition prepare_command ::
  "('v, 'f) eval_tool \<Rightarrow> (bytes \<Rightarrow> (prepared_benchmark, string) result) \<Rightarrow> string \<Rightarrow> string \<Rightarrow> unit tool"
where
  "prepare_command T prepare path output_path =
    seq_op (read_file path) (\<lambda>bs.
    seq_op (tool_try (prepare bs)) (\<lambda>b.
    write_prepared T b output_path))"

definition literal_command :: "('v, 'f) eval_tool \<Rightarrow> string \<Rightarrow> string \<Rightarrow> string \<Rightarrow> unit tool" where
  "literal_command T path output_path limit =
    seq_op (read_prepared T path) (\<lambda>b.
    seq_op (tool_try (benchmark_validate b)) (\<lambda>_.
    seq_op (tool_try (parse_usize limit)) (\<lambda>limit.
    seq_op (tool_call (literal_predictions (et_unicode T) b limit) T) (\<lambda>predictions.
    seq_op (tool_try (et_print_predictions T predictions)) (\<lambda>bs.
    write_file output_path bs)))))"

definition score_line :: "('v, 'f) eval_tool \<Rightarrow> 'f retrieval_metrics \<Rightarrow> string fallible" where
  "score_line T overall =
    and_then (bt_index (rm_hit_at overall) 5) (\<lambda>hit.
    and_then (bt_index (rm_recall_at overall) 5) (\<lambda>recall.
      Ok (''cases='' @ show_nat (rm_cases overall) @ '' hit@5='' @ et_float_text T hit @
          '' recall@5='' @ et_float_text T recall @ '' mrr='' @ et_float_text T (rm_mean_reciprocal_rank overall))))"

definition score_command :: "('v, 'f) eval_tool \<Rightarrow> string \<Rightarrow> string \<Rightarrow> string \<Rightarrow> unit tool" where
  "score_command T path predictions_path output_path =
    seq_op (read_prepared T path) (\<lambda>b.
    seq_op (tool_try (benchmark_validate b)) (\<lambda>_.
    seq_op (read_predictions T predictions_path) (\<lambda>predictions.
    seq_op (tool_call (returned (evaluate_retrieval (et_f64 T) (evaluation_cases b) predictions [1, 5, 10])) T) (\<lambda>report.
    seq_op (tool_try (et_print_report T report)) (\<lambda>bs.
    seq_op (write_file output_path bs) (\<lambda>_.
    seq_op (tool_call (score_line T (er_overall report)) T) print_line))))))"

definition print_usage :: "unit tool" where
  "print_usage s =
    (case ts_err_fault s of
       Some m \<Rightarrow> (Err (ToolPanic (''failed printing to stderr: '' @ m)), s)
     | None \<Rightarrow> (Ok (), s\<lparr>ts_err := ts_err s @
    [''usage:'',
     ''  weavatrix-memory-eval prepare-locomo INPUT OUTPUT'',
     ''  weavatrix-memory-eval prepare-longmemeval INPUT OUTPUT'',
     ''  weavatrix-memory-eval validate-coding INPUT OUTPUT'',
     ''  weavatrix-memory-eval literal PREPARED PREDICTIONS LIMIT'',
     ''  weavatrix-memory-eval score PREPARED PREDICTIONS REPORT'']\<rparr>))"

definition tool_main :: "('v, 'f) eval_tool \<Rightarrow> string list \<Rightarrow> unit tool" where
  "tool_main T arguments =
    (case arguments of
       [command, a, b] \<Rightarrow>
         if command = ''prepare-locomo'' then prepare_command T (locomo_prepare (et_reader T)) a b
         else if command = ''prepare-longmemeval'' then prepare_command T (longmemeval_prepare (et_reader T)) a b
         else if command = ''validate-coding'' then validate_coding T a b
         else print_usage
     | [command, a, b, c] \<Rightarrow>
         if command = ''literal'' then literal_command T a b c
         else if command = ''score'' then score_command T a b c
         else print_usage
     | _ \<Rightarrow> print_usage)"

section \<open>No command panics\<close>

definition output_faults :: "tool_state \<Rightarrow> string option \<times> string option" where
  "output_faults s = (ts_out_fault s, ts_err_fault s)"

text \<open>The panics of printing to a broken stream.\<close>

definition output_panic :: "tool_state \<Rightarrow> string \<Rightarrow> bool" where
  "output_panic s why \<longleftrightarrow>
    (case ts_out_fault s of Some m \<Rightarrow> why = ''failed printing to stdout: '' @ m | None \<Rightarrow> False) \<or>
    (case ts_err_fault s of Some m \<Rightarrow> why = ''failed printing to stderr: '' @ m | None \<Rightarrow> False)"

lemma output_panic_cong: "output_faults s = output_faults t \<Longrightarrow> output_panic s why \<longleftrightarrow> output_panic t why"
  by (simp add: output_faults_def output_panic_def)

definition calm :: "'a tool \<Rightarrow> bool" where
  "calm op \<longleftrightarrow> (\<forall>s. output_faults (snd (op s)) = output_faults s \<and>
    (\<forall>why. fst (op s) = Err (ToolPanic why) \<longrightarrow> output_panic s why))"

lemma calm_seq:
  assumes "calm m" "\<And>a s. fst (m s) = Ok a \<Longrightarrow> calm (f a)"
  shows "calm (seq_op m f)"
  unfolding calm_def
proof (rule allI)
  fix s
  obtain r s' where m: "m s = (r, s')" by force
  have "output_faults (snd (m s)) = output_faults s \<and> (\<forall>why. fst (m s) = Err (ToolPanic why) \<longrightarrow> output_panic s why)"
    using assms(1) unfolding calm_def by blast
  then have first: "output_faults s' = output_faults s" "\<And>why. r = Err (ToolPanic why) \<Longrightarrow> output_panic s why"
    by (simp_all add: m)
  show "output_faults (snd (seq_op m f s)) = output_faults s \<and>
      (\<forall>why. fst (seq_op m f s) = Err (ToolPanic why) \<longrightarrow> output_panic s why)"
  proof (cases r)
    case (Ok a)
    then have "calm (f a)" using assms(2) [of s a] m by simp
    then have "output_faults (snd (f a s')) = output_faults s' \<and>
        (\<forall>why. fst (f a s') = Err (ToolPanic why) \<longrightarrow> output_panic s' why)"
      unfolding calm_def by blast
    then show ?thesis using first(1) output_panic_cong [OF first(1)] by (simp add: seq_op_def m Ok)
  next
    case (Err e)
    then show ?thesis using first by (auto simp: seq_op_def m)
  qed
qed

lemma calm_basic: "calm (tool_try r)" "calm (read_file path)" "calm (write_file path bs)" "calm (print_line line)" "calm print_usage"
  by (auto simp: calm_def tool_try_def read_file_def write_file_def print_line_def print_usage_def lift_op_def
      output_faults_def output_panic_def split: result.splits option.splits)

lemma calm_call: "(\<And>why. r \<noteq> Err (Panic why)) \<Longrightarrow> calm (tool_call r T)"
  by (auto simp: calm_def tool_call_def lift_op_def split: result.splits failure.splits)

lemma tool_try_Ok: "fst (tool_try r s) = Ok a \<longleftrightarrow> r = Ok a"
  by (auto simp: tool_try_def lift_op_def split: result.splits)

lemma tool_call_Ok: "fst (tool_call r T s) = Ok a \<longleftrightarrow> r = Ok a"
  by (auto simp: tool_call_def lift_op_def split: result.splits failure.splits)

lemma returned_calm: "returned r \<noteq> Err (Panic why)"
  by (cases r) auto

lemma calm_read_predictions: "calm (read_predictions T path)"
  unfolding read_predictions_def
  by (intro calm_seq calm_basic) (auto simp: calm_def lift_op_def tool_try_def seq_op_def split: result.splits)

lemma score_line_total:
  assumes "evaluate_retrieval F cases predictions cutoffs = Ok report" "5 \<in> set cutoffs"
  shows "\<exists>line. score_line T (er_overall report) = Ok line"
proof -
  obtain m where "er_overall report = score F cases m cutoffs" using assms(1) by (rule evaluate_retrieval_parts)
  then show ?thesis
    by (simp add: score_line_def bt_index_Some [OF score_at(1) [OF assms(2)]] bt_index_Some [OF score_at(2) [OF assms(2)]])
qed

lemma calm_commands:
  "calm (prepare_command T prepare a b)" "calm (validate_coding T a b)" "calm (literal_command T a b c)" "calm (score_command T a b c)"
proof -
  have written: "calm (write_prepared T b path)" and prepared: "calm (read_prepared T path)" for b path
    unfolding write_prepared_def read_prepared_def by (intro calm_seq calm_basic)+
  show "calm (prepare_command T prepare a b)" "calm (validate_coding T a b)"
    unfolding prepare_command_def validate_coding_def by (intro calm_seq calm_basic written prepared)+
  have "calm (tool_call (literal_predictions (et_unicode T) bm limit) T)" if "benchmark_validate bm = Ok ()" for bm limit
    using literal_predictions_Ok [of "pb_groups bm" "pb_cases bm" "et_unicode T" limit] that
    by (intro calm_call) (auto simp: benchmark_validate_Ok benchmark_ok_def literal_predictions_def)
  then show "calm (literal_command T a b c)"
    unfolding literal_command_def by (intro calm_seq calm_basic prepared) (auto simp: tool_try_Ok)
  have "score_line T (er_overall report) \<noteq> Err (Panic why)"
    if "evaluate_retrieval (et_f64 T) cs ps [1, 5, 10] = Ok report" for cs ps report why
    using score_line_total [OF that, of T] by auto
  then show "calm (score_command T a b c)"
    unfolding score_command_def
    by (intro calm_seq calm_basic prepared calm_read_predictions calm_call returned_calm)
      (auto simp: tool_call_Ok returned_Ok simp del: One_nat_def)
qed

text \<open>
  Whatever its arguments, the files it finds and the failures of the file system, the evaluation
  tool panics only in printing to a broken output stream: a case of a benchmark is ranked only after
  validation has found its group, and the metrics at the cutoff that is printed are present in every
  report.
\<close>

theorem tool_never_panics:
  assumes "fst (tool_main T arguments s) = Err (ToolPanic why)"
  shows "output_panic s why"
proof -
  have "calm (tool_main T arguments)"
    unfolding tool_main_def by (auto simp: calm_commands calm_basic split: list.split)
  then show ?thesis using assms by (simp add: calm_def)
qed

section \<open>A whole evaluation\<close>

definition no_faults_on :: "tool_state \<Rightarrow> bool" where
  "no_faults_on s \<longleftrightarrow> ts_read_fault s = (\<lambda>_. None) \<and> ts_write_fault s = (\<lambda>_. None) \<and> ts_out_fault s = None"

text \<open>
  What the tool relies on when it reads back its own predictions, and that reports can be printed.
\<close>

definition prints_and_parses :: "('v, 'f) eval_tool \<Rightarrow> prepared_benchmark \<Rightarrow> usize \<Rightarrow> bool" where
  "prints_and_parses T b limit \<longleftrightarrow>
    (\<forall>predictions. literal_predictions (et_unicode T) b limit = Ok predictions \<longrightarrow>
      (\<exists>bs. et_print_predictions T predictions = Ok bs \<and> et_parse_predictions T bs = Ok predictions)) \<and>
    (\<forall>report. \<exists>bs. et_print_report T report = Ok bs)"

text \<open>
  C40: with a benchmark file that passes validation and no faults, running the literal baseline and then
  scoring its predictions succeeds exactly when every case has a category, which validation does
  not check; it then leaves the printed report of evaluating those predictions in the report file.
\<close>

theorem literal_then_score:
  assumes s: "no_faults_on s" "ts_files s input_path = Some bs" "input_path \<noteq> predictions_path"
    and b: "et_parse_benchmark T bs = Ok b" "benchmark_ok b" and limit: "parse_usize limit = Ok n"
    and json: "prints_and_parses T b n"
  shows "\<exists>predictions s1. literal_predictions (et_unicode T) b n = Ok predictions \<and>
    tool_main T [''literal'', input_path, predictions_path, limit] s = (Ok (), s1) \<and>
    (if list_all (\<lambda>c. pc_category c \<noteq> []) (pb_cases b)
     then \<exists>report text s2. evaluate_retrieval (et_f64 T) (evaluation_cases b) predictions [1, 5, 10] = Ok report \<and>
       et_print_report T report = Ok text \<and>
       tool_main T [''score'', input_path, predictions_path, report_path] s1 = (Ok (), s2) \<and> ts_files s2 report_path = Some text
     else \<exists>m. tool_main T [''score'', input_path, predictions_path, report_path] s1 = (Err (ToolError m), s1))"
proof -
  obtain predictions where ps: "literal_predictions (et_unicode T) b n = Ok predictions"
    using literal_predictions_Ok [of "pb_groups b" "pb_cases b" "et_unicode T" n] b(2)
    by (auto simp: benchmark_ok_def literal_predictions_def)
  obtain pbs where pbs: "et_print_predictions T predictions = Ok pbs" "et_parse_predictions T pbs = Ok predictions"
    using json ps by (auto simp: prints_and_parses_def)
  define s1 where "s1 = s\<lparr>ts_files := (ts_files s)(predictions_path \<mapsto> pbs)\<rparr>"
  have valid: "benchmark_validate b = Ok ()" using b(2) by (simp add: benchmark_validate_Ok)
  note run = seq_op_def lift_op_def tool_try_def tool_call_def read_file_def write_file_def read_prepared_def print_line_def
  have literal: "tool_main T [''literal'', input_path, predictions_path, limit] s = (Ok (), s1)"
    using s b(1) valid limit ps pbs
    by (simp add: tool_main_def literal_command_def run no_faults_on_def s1_def)
  have s1: "ts_files s1 input_path = Some bs" "ts_files s1 predictions_path = Some pbs" "no_faults_on s1"
    using s by (simp_all add: s1_def no_faults_on_def)
  have score: "tool_main T [''score'', input_path, predictions_path, report_path] s1 =
      seq_op (tool_call (returned (evaluate_retrieval (et_f64 T) (evaluation_cases b) predictions [1, 5, 10])) T) (\<lambda>report.
      seq_op (tool_try (et_print_report T report)) (\<lambda>bs.
      seq_op (write_file report_path bs) (\<lambda>_.
      seq_op (tool_call (score_line T (er_overall report)) T) print_line))) s1"
    using s1 b(1) valid pbs
    by (simp add: tool_main_def score_command_def run read_predictions_def no_faults_on_def)
  have ok: "accepted (evaluation_cases b) predictions [1, 5, 10] \<longleftrightarrow> list_all (\<lambda>c. pc_category c \<noteq> []) (pb_cases b)"
    by (rule literal_predictions_accepted [OF b(2) ps]) auto
  show ?thesis
  proof (cases "evaluate_retrieval (et_f64 T) (evaluation_cases b) predictions [1, 5, 10]")
    case (Ok report)
    then have cats: "list_all (\<lambda>c. pc_category c \<noteq> []) (pb_cases b)"
      using ok evaluate_retrieval_Ok [of "et_f64 T" "evaluation_cases b" predictions "[1, 5, 10]"] by blast
    obtain t where t: "et_print_report T report = Ok t" using json by (auto simp: prints_and_parses_def)
    obtain line where line: "score_line T (er_overall report) = Ok line" using score_line_total [OF Ok] by auto
    have "tool_main T [''score'', input_path, predictions_path, report_path] s1 =
        (Ok (), s1\<lparr>ts_files := (ts_files s1)(report_path \<mapsto> t), ts_out := ts_out s1 @ [line]\<rparr>)"
      unfolding score using s1(3) by (simp add: run Ok t line no_faults_on_def del: One_nat_def)
    then show ?thesis using ps literal cats Ok t by auto
  next
    case (Err e)
    then have cats: "\<not> list_all (\<lambda>c. pc_category c \<noteq> []) (pb_cases b)"
      using ok evaluate_retrieval_Ok [of "et_f64 T" "evaluation_cases b" predictions "[1, 5, 10]"] by simp
    have "tool_main T [''score'', input_path, predictions_path, report_path] s1 = (Err (ToolError (et_error_text T e)), s1)"
      unfolding score by (simp add: run Err del: One_nat_def)
    then show ?thesis using ps literal cats by auto
  qed
qed

definition demo_tool :: "(json, real) eval_tool" where
  "demo_tool = \<lparr> et_unicode = ascii_unicode, et_f64 = exact_f64, et_reader = demo_reader [],
     et_parse_benchmark = (\<lambda>_. Ok demo_benchmark), et_print_benchmark = (\<lambda>_. Ok []),
     et_parse_predictions = (\<lambda>_. Ok [\<lparr> rp_case_id = ''q'', rp_ranked_ids = [''a''] \<rparr>]), et_parse_prediction = (\<lambda>_. Err []),
     et_print_predictions = (\<lambda>_. Ok [1]), et_print_report = (\<lambda>r. Ok [of_nat (rm_cases (er_overall r))]),
     et_float_text = (\<lambda>_. []), et_error_text = (\<lambda>_. []), et_utf8_error = (\<lambda>_. []) \<rparr>"

definition demo_files :: tool_state where
  "demo_files = \<lparr> ts_files = [''b.json'' \<mapsto> [7]], ts_read_fault = (\<lambda>_. None), ts_write_fault = (\<lambda>_. None), ts_out = [], ts_err = [],
     ts_out_fault = None, ts_err_fault = Some ''Broken pipe (os error 32)'' \<rparr>"

theorem literal_then_score_witness:
  "\<exists>s1 s2 report. tool_main demo_tool [''literal'', ''b.json'', ''p.json'', ''1''] demo_files = (Ok (), s1) \<and>
    tool_main demo_tool [''score'', ''b.json'', ''p.json'', ''r.json''] s1 = (Ok (), s2) \<and>
    evaluate_retrieval exact_f64 (evaluation_cases demo_benchmark) [\<lparr> rp_case_id = ''q'', rp_ranked_ids = [''a''] \<rparr>] [1, 5, 10] = Ok report"
proof -
  have sel: "et_unicode demo_tool = ascii_unicode" "et_f64 demo_tool = exact_f64" by (simp_all add: demo_tool_def)
  have "parse_usize ''1'' = Ok 1" by (simp add: parse_usize_def digit_value_def usize_max_def)
  moreover have "no_faults_on demo_files" "ts_files demo_files ''b.json'' = Some [7]"
    by (simp_all add: demo_files_def no_faults_on_def)
  moreover have "prints_and_parses demo_tool demo_benchmark 1"
    unfolding prints_and_parses_def sel demo_literal by (simp add: demo_tool_def)
  moreover have "et_parse_benchmark demo_tool [7] = Ok demo_benchmark" by (simp add: demo_tool_def)
  moreover have "list_all (\<lambda>c. pc_category c \<noteq> []) (pb_cases demo_benchmark)" by (simp add: demo_benchmark_def)
  ultimately show ?thesis
    using literal_then_score [of demo_files "''b.json''" "[7]" "''p.json''" demo_tool demo_benchmark "''1''" 1 "''r.json''"]
      demo_benchmark_ok
    by (auto simp: sel demo_literal simp del: One_nat_def)
qed

theorem tool_never_panics_witness:
  "fst (tool_main demo_tool [''help''] demo_files) = Err (ToolPanic (''failed printing to stderr: '' @ ''Broken pipe (os error 32)'')) \<and>
    output_panic demo_files (''failed printing to stderr: '' @ ''Broken pipe (os error 32)'')"
proof -
  have "fst (tool_main demo_tool [''help''] demo_files) = Err (ToolPanic (''failed printing to stderr: '' @ ''Broken pipe (os error 32)''))"
    by (simp add: tool_main_def print_usage_def demo_files_def)
  with tool_never_panics [OF this] show ?thesis by blast
qed

end
