(* ===== verification/Spec2Isabelle.thy ===== *)
theory Spec2Isabelle
  imports Subscription Store_Interface Codec_Wrappers Restart Retrieval Drift Gaps Belief
    Consolidation Extraction_Plan Evaluation Benchmark_Tool
begin

text \<open>
  A verification of \<open>weavatrix-memory\<close>, an event-sourced temporal memory: events are appended to
  streams of a totally ordered log, a bitemporal projection is replayed from the log, and views of
  the projection at a valid time and a knowledge time feed context compilation, graph projection,
  analysis and the linking of newly extracted facts. Paths below are relative to \<open>src/src\<close>, those of
  the evaluation tool to \<open>src\<close>.

  \<^bold>\<open>The parts and their theories\<close>

  \<^item> \<open>Prelude\<close>, \<open>Ordered_Map\<close>, \<open>Containers\<close>: what the code uses of Rust and its standard library.
    \<open>Result\<close> is \<open>result\<close> and the question mark is \<open>and_then\<close>; loops that stop at the first error
    are \<open>try_fold\<close>, \<open>try_map\<close> and \<open>try_for_each\<close>; machine integers are words, strings are their UTF-8 bytes.
    \<open>BTreeMap\<close> is a list with increasing keys, so iteration order is list order. A function that can
    panic has type \<open>fallible\<close>: \<open>Err (Panic why)\<close> beside \<open>Err (Fault e)\<close>, and the absence of panics is proved.
  \<^item> \<open>Memory_Types\<close>, \<open>Domain\<close>: \<open>error.rs\<close>, \<open>id.rs\<close>, \<open>time.rs\<close>, \<open>event.rs\<close> and \<open>domain\<close>, with every
    constructor, builder and validation.
  \<^item> \<open>Event_Log\<close>, \<open>In_Memory_Store\<close>: the abstract event log (well-formed logs, the append
    specification, the locale \<open>event_store\<close>) and \<open>store/in_memory\<close>, which implements it.
  \<^item> \<open>Subscription\<close>: \<open>store/subscription.rs\<close> over any event store, with runs that interleave
    appends, polls and acknowledgements.
  \<^item> \<open>Crc32c\<close>, \<open>Disk_IO\<close>, \<open>Journal_Frame\<close>, \<open>File_Store\<close>: \<open>store/frame.rs\<close> and \<open>store/file.rs\<close> over a
    file handle whose calls may transfer less than asked or fail, as a script of outcomes says.
  \<^item> \<open>Store_Interface\<close>: the provided methods of the trait \<open>EventStore\<close> of \<open>store/mod.rs\<close>, which the
    overrides of both stores agree with.
  \<^item> \<open>Codec\<close>, \<open>Codec_Wrappers\<close>: the codec contract as a locale, and the compressing and encrypting
    wrappers of \<open>codec\<close>, which turn a codec into a codec.
  \<^item> \<open>Replay\<close>, \<open>Id_Index\<close>, \<open>Memory_Projection\<close>, \<open>Projection_Index\<close>: \<open>projection\<close>. The projection is a
    record of node histories, facts, supersessions, retractions and the indexes over them; events
    are applied by \<open>mp_apply\<close>, views are read by \<open>view_ref\<close>, and indexes are built in bulk by
    \<open>rebuild_indexes\<close> and \<open>try_from_parts\<close>.
  \<^item> \<open>Snapshot_Store\<close>, \<open>Snapshot_File\<close>, \<open>Compact_IO\<close>, \<open>Compact_Codec\<close>, \<open>Compact_Types\<close>,
    \<open>Snapshot_Resume\<close>: \<open>snapshot\<close>: the contract of a snapshot store, the in-memory and the file store
    (over a directory whose calls may fail), the compact codec, the typing of what it decodes, and
    the path from saving to resuming.
  \<^item> \<open>Json_Snapshot\<close>: the JSON codec of \<open>codec/mod.rs\<close> and the serialization of identifiers (\<open>id.rs\<close>)
    and projections (\<open>projection/memory/state.rs\<close>), down to resuming from a JSON snapshot.
  \<^item> \<open>Restart\<close>: the durable store, the snapshot store and the projection together, restarted after a crash.
  \<^item> \<open>Context\<close>, \<open>Context_Search\<close>, \<open>Context_Compile\<close>, \<open>Retrieval\<close>: \<open>context\<close>: requests, the
    neighbourhood search, the selection under a token budget, and the fusion of retrieval channels.
  \<^item> \<open>Graph_Projection\<close>: \<open>graph_projection.rs\<close>. \<open>Analytics_Base\<close>, \<open>Drift\<close>, \<open>Gaps\<close>, \<open>Belief\<close>,
    \<open>Consolidation\<close>: the four analyses of \<open>analytics\<close>.
  \<^item> \<open>Extraction_Model\<close>, \<open>Linker\<close>, \<open>Extraction_Engine\<close>, \<open>Extraction_Plan\<close>: \<open>extraction\<close>: the data and
    keys, entity linking, the engine that turns a provider's output into events, and what a plan does.
  \<^item> \<open>Evaluation\<close>: \<open>evaluation.rs\<close>, the scoring of ranked retrieval. \<open>Benchmark\<close>, \<open>Benchmark_Import\<close>,
    \<open>Benchmark_Tool\<close>: \<open>tools/eval\<close>: prepared benchmarks with their validation and the literal
    baseline (\<open>model.rs\<close>), the import of two public benchmarks (\<open>locomo.rs\<close>, \<open>longmemeval.rs\<close>), and
    the commands over files and output streams that may fail (\<open>main.rs\<close>).

  Names follow the code; record fields carry a prefix of the record (\<open>mf_\<close> for the fields of a
  memory fact), stores a prefix of the store (\<open>ims_\<close>, \<open>fes_\<close>, \<open>iss_\<close>, \<open>fss_\<close>). Methods that mutate
  \<open>self\<close> return the new state, also on error where the code leaves a partial change behind.

  \<^bold>\<open>What is shown\<close>

  \<^item> \<^emph>\<open>Stores.\<close> Both event stores refine the abstract log on every branch of an append, for each
    expected version. Reachable stores have dense positions and versions and unique identifiers. For
    the durable store the journal and the log stay in step, a failed append is rolled back, and
    reopening a journal cut at any byte restores a whole number of batches. A memory that crashes and
    restarts from its journal and latest snapshot is the replay of the recovered log. A consumer that
    acknowledges what it polls reads the log in order.
  \<^item> \<^emph>\<open>Formats.\<close> Frames, snapshots, compact values and wrapper envelopes round-trip; damaged frames
    are reported; the table-driven checksum is the bitwise one. Whatever bytes the compact decoder
    accepts, the snapshot is well typed and its indexes agree with its tables.
  \<^item> \<^emph>\<open>Projection.\<close> Replay keeps the invariant of data and indexes, views are the filtered facts and
    nodes, later events do not change earlier views (as long as no fact is retracted twice), resuming
    a snapshot, compact or JSON, is replaying the log, and rebuilding the indexes restores a
    consistent projection.
  \<^item> \<^emph>\<open>Queries.\<close> The neighbourhood search is breadth-first search and ends; a compiled context stays
    within its budget and scope; fusion returns the best hits once each, with exact scores; graphs are
    built from closed views; each analysis reports exactly what its definition says, without wrap-around.
  \<^item> \<^emph>\<open>Extraction.\<close> The candidates found through the indexes are those of a scan of the whole catalog;
    a mention is linked only when the policy allows it; a plan accounts for every mention and relation;
    planning never panics; and the planned events are accepted by the projection they were planned for.
  \<^item> \<^emph>\<open>Evaluation.\<close> Reports are produced for exactly the valid arguments, hit rates are exact counts,
    and with distinct cutoffs the metrics of the basic operations lie between zero and one. Imported
    benchmarks pass validation up to empty queries, the literal baseline names the best documents,
    and the tool panics only when it cannot print.

  Behaviour that differs from the documentation or the intent is stated as a theorem where it is
  modelled: a second retraction that hides the first, a metadata error taken for a missing snapshot
  file, a self-superseding fact accepted in bulk, a cutoff counted once per occurrence, a mention
  of low confidence that cannot be planned again, a decoded snapshot whose supersession table misses
  a superseding fact, and a benchmark case without a category that validation lets pass.

  \<^bold>\<open>Bounds, fuel and termination\<close>

  \<open>usize\<close> is a natural number for a 64-bit target; conversions, checked and saturating additions
  carry their bounds (\<open>usize_max\<close>, \<open>2 ^ 64\<close>, \<open>2 ^ 32\<close>), and unchecked counters that cannot
  exceed the length of a collection in memory are plain sums. Loops are structural or have a
  termination proof: the neighbourhood search decreases the unexplored facts and the queue, the
  frame scanner the bytes left, the search for a free alias the used keys above the index. The
  confidence cascade is a partial function, and is proved to return. The one fuelled definition,
  \<open>search_fuel\<close>, restates the neighbourhood search to show that as many steps as there are
  unexplored facts and queued entities suffice.

  \<^bold>\<open>Parameters\<close>

  Code outside the repository is an argument of the definitions that call it: the graph library
  (\<open>graph_api\<close>, \<open>graph_queries\<close>), the block compressor and the cipher, retrieval and extraction
  providers, token estimators, codecs, the JSON library (\<open>json_serde\<close>, \<open>json_reader\<close>, \<open>eval_tool\<close>). So are the Unicode tables (\<open>unicode\<close>), \<open>f64\<close> arithmetic
  (\<open>f64_ops\<close>), random hash seeds, and the outcomes of system calls. What a theorem needs of a
  parameter is a hypothesis of its own, met by a concrete instance in its witness. The locales state
  the contracts between the parts (\<open>event_store\<close>, \<open>codec\<close>, \<open>projection\<close>, \<open>snapshot_store\<close>,
  \<open>snapshot_codec\<close>, \<open>projection_codec\<close>, \<open>key_index\<close>), each interpreted on the definitions of the part that provides it.

  \<^bold>\<open>Not modelled\<close>

  Derived serialization and comparison, the debug format of strings (an argument of the texts of
  errors), debug assertions and capacity reservations, the threads of the bulk
  preparation (a chunked map here), operating system locks (an argument of opening
  a store), the module facades, and the timing programs of \<open>benches\<close>. NDCG is defined but not
  bounded, since the standard library promises nothing about the rounding of \<open>log2\<close>.
\<close>

end
